(* ===== verification/Prelude.thy ===== *)
theory Prelude
  imports Complex_Main "HOL-Library.Word" "HOL-Library.Char_ord" "HOL-Library.List_Lexorder"
    "HOL-Library.Sublist" "HOL-Library.Product_Lexorder"
begin

text \<open>
  Shared material of the development: the result type of operations that can abort or throw,
  the byte-level list operations of \<open>std::vector<char>\<close>, ordered association lists for
  \<open>std::map\<close>, and the fact collections that the component theories extend.

  A running program stops in the ways listed by \<open>fault\<close>: a failed \<open>assert\<close> (the build sets no
  \<open>NDEBUG\<close>), \<open>abort()\<close> in \<open>EventLoop::assertInLoopThread\<close>, an access to a deleted object, and the
  exceptions \<open>std::invalid_argument\<close>, \<open>std::out_of_range\<close> and \<open>std::system_error\<close>, which no code of the
  library catches.
\<close>

named_theorems buffer_simps \<open>content equations of the buffer operations\<close>
named_theorems inv_intros \<open>preservation of the component invariants\<close>

section \<open>Results\<close>

datatype fault = AssertFailed | Aborted | UseAfterFree | InvalidArgument | OutOfRange | SystemError

type_synonym 'a res = "fault + 'a"

text \<open>Addresses of objects on the heap.\<close>

type_synonym addr = nat

definition rbind :: "'a res \<Rightarrow> ('a \<Rightarrow> 'b res) \<Rightarrow> 'b res" where
  "rbind m f = (case m of Inl e \<Rightarrow> Inl e | Inr x \<Rightarrow> f x)"

definition check :: "bool \<Rightarrow> fault \<Rightarrow> 'a \<Rightarrow> 'a res" where
  "check b e x = (if b then Inr x else Inl e)"

lemma rbind_simps [simp]:
  "rbind (Inl e) f = Inl e"
  "rbind (Inr x) f = f x"
  by (simp_all add: rbind_def)

lemma check_True [simp]: "check True e x = Inr x"
  by (simp add: check_def)

lemma check_False [simp]: "check False e x = Inl e"
  by (simp add: check_def)

lemma rbind_eq_Inr: "rbind m f = Inr y \<longleftrightarrow> (\<exists>x. m = Inr x \<and> f x = Inr y)"
  by (cases m) auto

lemma rbind_InrE [elim]:
  assumes "rbind m f = Inr y"
  obtains x where "m = Inr x" and "f x = Inr y"
  using assms by (auto simp: rbind_eq_Inr)

lemma check_eq_Inr [simp]: "check b e x = Inr y \<longleftrightarrow> b \<and> x = y"
  by (simp add: check_def)

lemma check_eq_Inl [simp]: "check b e x = Inl e' \<longleftrightarrow> \<not> b \<and> e = e'"
  by (simp add: check_def)

lemma rbind_assoc: "rbind (rbind m f) g = rbind m (\<lambda>x. rbind (f x) g)"
  by (cases m) auto

lemma rbind_cong [fundef_cong]:
  "m = m' \<Longrightarrow> (\<And>x. m' = Inr x \<Longrightarrow> f x = g x) \<Longrightarrow> rbind m f = rbind m' g"
  by (cases m') auto

fun rfold :: "('a \<Rightarrow> 's \<Rightarrow> 's res) \<Rightarrow> 'a list \<Rightarrow> 's \<Rightarrow> 's res" where
  "rfold f [] s = Inr s"
| "rfold f (x # xs) s = rbind (f x s) (rfold f xs)"

lemma rfold_append: "rfold f (xs @ ys) s = rbind (rfold f xs s) (rfold f ys)"
proof (induction xs arbitrary: s)
  case (Cons x xs)
  then have "rfold f (xs @ ys) = (\<lambda>t. rbind (rfold f xs t) (rfold f ys))"
    by (simp add: fun_eq_iff)
  then show ?case by (simp add: rbind_assoc)
qed simp

lemma rfold_invariant:
  assumes "\<And>x s s'. x \<in> set xs \<Longrightarrow> P s \<Longrightarrow> f x s = Inr s' \<Longrightarrow> P s'"
    and "P s" and "rfold f xs s = Inr s'"
  shows "P s'"
  using assms
proof (induction xs arbitrary: s)
  case (Cons x xs)
  from Cons.prems(3) obtain t where t: "f x s = Inr t" "rfold f xs t = Inr s'" by auto
  with Cons.prems(1,2) have "P t" by (meson list.set_intros(1))
  with Cons t show ?case by (meson list.set_intros(2))
qed simp

section \<open>Byte vectors\<close>

text \<open>
  \<open>vresize n xs\<close> is \<open>std::vector<char>::resize\<close>, which fills with zero bytes; \<open>blit i ys xs\<close> is
  \<open>std::copy\<close> of \<open>ys\<close> to position \<open>i\<close>; \<open>segment i j xs\<close> is the range \<open>[i, j)\<close>.
\<close>

definition vresize :: "nat \<Rightarrow> char list \<Rightarrow> char list" where
  "vresize n xs = take n xs @ replicate (n - length xs) (CHR 0x00)"

definition blit :: "nat \<Rightarrow> 'a list \<Rightarrow> 'a list \<Rightarrow> 'a list" where
  "blit i ys xs = take i xs @ ys @ drop (i + length ys) xs"

definition segment :: "nat \<Rightarrow> nat \<Rightarrow> 'a list \<Rightarrow> 'a list" where
  "segment i j xs = take (j - i) (drop i xs)"

lemma length_vresize [simp]: "length (vresize n xs) = n"
  by (simp add: vresize_def min_def)

lemma length_blit [simp]: "i + length ys \<le> length xs \<Longrightarrow> length (blit i ys xs) = length xs"
  by (simp add: blit_def)

lemma length_segment [simp]: "j \<le> length xs \<Longrightarrow> length (segment i j xs) = j - i"
  by (simp add: segment_def)

lemma segment_empty [simp]: "segment i i xs = []"
  by (simp add: segment_def)

lemma segment_vresize: "j \<le> length xs \<Longrightarrow> length xs \<le> n \<Longrightarrow> segment i j (vresize n xs) = segment i j xs"
  by (simp add: segment_def vresize_def)

lemma segment_blit_before:
  "i \<le> j \<Longrightarrow> j \<le> length xs \<Longrightarrow> segment i (j + length ys) (blit j ys xs) = segment i j xs @ ys"
  by (simp add: segment_def blit_def drop_take)

lemma segment_blit_at:
  "i + length ys \<le> length xs \<Longrightarrow> segment i (i + length ys) (blit i ys xs) = ys"
  by (simp add: segment_def blit_def)

lemma segment_blit_prefix:
  assumes "i + length ys \<le> j" and "j \<le> length xs"
  shows "segment i j (blit i ys xs) = ys @ segment (i + length ys) j xs"
  using assms by (simp add: segment_def blit_def)

lemma drop_segment: "drop k (segment i j xs) = segment (i + k) j xs"
  by (simp add: segment_def drop_take add.commute diff_diff_left)

lemma take_segment: "i + k \<le> j \<Longrightarrow> take k (segment i j xs) = segment i (i + k) xs"
  by (simp add: segment_def min_def)

section \<open>Ordered maps\<close>

text \<open>
  \<open>std::map\<close> iterates in key order, which the serialisation of headers shows, so a map is an
  association list kept strictly ordered by key. \<open>mput\<close> is \<open>m[k] = v\<close>, \<open>mget\<close> is \<open>find\<close>,
  \<open>mdel\<close> is \<open>erase(k)\<close>.
\<close>

type_synonym ('k, 'v) omap = "('k \<times> 'v) list"

fun mget :: "('k, 'v) omap \<Rightarrow> 'k \<Rightarrow> 'v option" where
  "mget [] k = None"
| "mget ((a, b) # m) k = (if a = k then Some b else mget m k)"

fun mput :: "('k::linorder) \<Rightarrow> 'v \<Rightarrow> ('k, 'v) omap \<Rightarrow> ('k, 'v) omap" where
  "mput k v [] = [(k, v)]"
| "mput k v ((a, b) # m) =
    (if k < a then (k, v) # (a, b) # m
     else if k = a then (k, v) # m
     else (a, b) # mput k v m)"

fun mdel :: "'k \<Rightarrow> ('k, 'v) omap \<Rightarrow> ('k, 'v) omap" where
  "mdel k [] = []"
| "mdel k ((a, b) # m) = (if a = k then m else (a, b) # mdel k m)"

abbreviation ordered :: "('k::linorder, 'v) omap \<Rightarrow> bool" where
  "ordered m \<equiv> sorted_wrt (<) (map fst m)"

lemma mget_mput [simp]: "mget (mput k v m) k' = (if k' = k then Some v else mget m k')"
  by (induction m) auto

lemma mput_mput [simp]: "mput k v (mput k v' m) = mput k v m"
  by (induction m) auto

lemma keys_mput [simp]: "set (map fst (mput k v m)) = insert k (set (map fst m))"
proof (induction m)
  case (Cons p m)
  then show ?case by (cases p) (auto split: if_splits)
qed simp

lemma fst_mput [simp]: "fst ` set (mput k v m) = insert k (fst ` set m)"
  using keys_mput [of k v m] by simp

lemma ordered_mput: "ordered m \<Longrightarrow> ordered (mput k v m)"
proof (induction m)
  case (Cons p m)
  obtain a b where p: "p = (a, b)" by (cases p)
  from Cons.prems p have "\<forall>x \<in> fst ` set m. a < x" by simp
  with Cons p show ?case by (force simp: not_less_iff_gr_or_eq)
qed simp

lemma mget_None_iff: "mget m k = None \<longleftrightarrow> k \<notin> fst ` set m"
  by (induction m) force+

lemma mdel_absent: "mget m k = None \<Longrightarrow> mdel k m = m"
  by (induction m rule: mdel.induct) (auto split: if_splits)

lemma set_mdel_subset: "set (mdel k m) \<subseteq> set m"
  by (induction m) (auto split: if_splits)

lemma ordered_mdel: "ordered m \<Longrightarrow> ordered (mdel k m)"
proof (induction m)
  case (Cons p m)
  then show ?case using set_mdel_subset [of k m] by (cases p) force
qed simp

lemma mget_mdel: "ordered m \<Longrightarrow> mget (mdel k m) k' = (if k' = k then None else mget m k')"
proof (induction m)
  case (Cons p m)
  obtain a b where p: "p = (a, b)" by (cases p)
  from Cons.prems p have "mget m a = None"
    by (force simp: mget_None_iff)
  with Cons p show ?case by auto
qed simp

lemma mget_in_set: "mget m k = Some v \<Longrightarrow> (k, v) \<in> set m"
  by (induction m) (auto split: if_splits)

lemma mget_ordered_iff: "ordered m \<Longrightarrow> mget m k = Some v \<longleftrightarrow> (k, v) \<in> set m"
  by (induction m) force+

section \<open>Ordered sets\<close>

text \<open>\<open>std::set\<close> as a strictly ordered list: \<open>sins\<close> is \<open>insert\<close>, \<open>sdel\<close> is \<open>erase(x)\<close>.\<close>

fun sins :: "'a::linorder \<Rightarrow> 'a list \<Rightarrow> 'a list" where
  "sins x [] = [x]"
| "sins x (y # ys) = (if x < y then x # y # ys else if x = y then y # ys else y # sins x ys)"

definition sdel :: "'a \<Rightarrow> 'a list \<Rightarrow> 'a list" where
  "sdel x ys = filter (\<lambda>y. y \<noteq> x) ys"

lemma set_sins [simp]: "set (sins x ys) = insert x (set ys)"
  by (induction ys) auto

lemma sorted_sins: "sorted_wrt (<) ys \<Longrightarrow> sorted_wrt (<) (sins x ys)"
  by (induction ys) (auto simp: not_less_iff_gr_or_eq)

lemma sins_not_Nil [simp]: "sins x ys \<noteq> []"
  by (cases ys) auto

lemma hd_sins:
  "hd (sins x ys) = (case ys of [] \<Rightarrow> x | y # _ \<Rightarrow> if x < y then x else y)"
  by (cases ys) auto

lemma set_sdel [simp]: "set (sdel x ys) = set ys - {x}"
  by (auto simp: sdel_def)

lemma sorted_sdel: "sorted_wrt (<) ys \<Longrightarrow> sorted_wrt (<) (sdel x ys)"
  by (simp add: sdel_def sorted_wrt_filter)

lemma hd_least:
  fixes ys :: "'a::linorder list"
  assumes "sorted_wrt (<) ys" and "y \<in> set ys"
  shows "hd ys \<le> y"
  using assms by (cases ys) auto

lemma sorted_split:
  fixes ys :: "'a::linorder list"
  assumes "sorted_wrt (<) ys"
  shows "takeWhile (\<lambda>y. y < x) ys = filter (\<lambda>y. y < x) ys"
    and "dropWhile (\<lambda>y. y < x) ys = filter (\<lambda>y. \<not> y < x) ys"
  using assms
proof (induction ys)
  case (Cons y ys)
  {
    case 1
    with Cons show ?case
      by (cases "y < x") (auto intro!: filter_False [symmetric] dest: less_trans)
  next
    case 2
    then have "\<not> y < x \<Longrightarrow> filter (\<lambda>z. \<not> z < x) ys = ys"
      by (intro filter_True) auto
    with 2 Cons show ?case by auto
  }
qed simp_all

section \<open>Decimal numerals\<close>

text \<open>\<open>std::to_string\<close> and \<open>%d\<close> on non-negative numbers, and the digits back to a number.\<close>

definition digit_char :: "nat \<Rightarrow> char" where
  "digit_char d = char_of (48 + d)"

fun to_string :: "nat \<Rightarrow> string" where
  "to_string n = (if n < 10 then [digit_char n] else to_string (n div 10) @ [digit_char (n mod 10)])"

declare to_string.simps [simp del]

definition is_digit :: "char \<Rightarrow> bool" where
  "is_digit c \<longleftrightarrow> 48 \<le> (of_char c :: nat) \<and> (of_char c :: nat) \<le> 57"

definition digit_val :: "char \<Rightarrow> nat" where
  "digit_val c = of_char c - 48"

definition dec_val :: "string \<Rightarrow> nat" where
  "dec_val ds = foldl (\<lambda>a c. a * 10 + digit_val c) 0 ds"

lemma digit_char_props:
  assumes "d < 10"
  shows "is_digit (digit_char d)" and "digit_val (digit_char d) = d"
  using assms by (simp_all add: is_digit_def digit_val_def digit_char_def)

lemma dec_val_snoc [simp]: "dec_val (ds @ [c]) = dec_val ds * 10 + digit_val c"
  by (simp add: dec_val_def)

lemma dec_val_Nil [simp]: "dec_val [] = 0"
  by (simp add: dec_val_def)

lemma dec_val_to_string: "dec_val (to_string n) = n"
proof (induction n rule: to_string.induct)
  case (1 n)
  show ?case
  proof (cases "n < 10")
    case True
    then show ?thesis
      using dec_val_snoc [of "[]"] by (simp add: to_string.simps [of n] digit_char_props)
  next
    case False
    with 1 show ?thesis by (simp add: to_string.simps [of n] digit_char_props)
  qed
qed

lemma to_string_digits: "\<forall>c \<in> set (to_string n). is_digit c"
proof (induction n rule: to_string.induct)
  case (1 n)
  then show ?case by (auto simp: to_string.simps [of n] digit_char_props)
qed

lemma to_string_nonempty [simp]: "to_string n \<noteq> []"
  by (simp add: to_string.simps [of n])

lemma to_string_inject: "to_string m = to_string n \<longleftrightarrow> m = n"
  using dec_val_to_string by metis

end
