(* ===== verification/Endian.thy ===== *)
theory Endian
  imports Prelude
begin

text \<open>
  Byte order (\<open>net/Endian.h\<close>). An unsigned integer of \<open>k\<close> bytes is stored in memory in the order of
  the host: \<open>le\<close> says that the host is little-endian. \<open>store_host\<close> and \<open>load_host\<close> are the
  \<open>memcpy\<close> between an integer object and its bytes; \<open>be16toh\<close>, \<open>htobe16\<close> and their kin (glibc) swap
  the bytes on a little-endian host and do nothing on a big-endian one.
\<close>

section \<open>Integers as bytes\<close>

fun be_bytes :: "nat \<Rightarrow> nat \<Rightarrow> char list" where
  "be_bytes 0 n = []"
| "be_bytes (Suc k) n = be_bytes k (n div 256) @ [char_of (n mod 256)]"

definition be_value :: "char list \<Rightarrow> nat" where
  "be_value cs = foldl (\<lambda>a c. a * 256 + of_char c) 0 cs"

definition store_host :: "bool \<Rightarrow> nat \<Rightarrow> nat \<Rightarrow> char list" where
  "store_host le k n = (if le then rev (be_bytes k n) else be_bytes k n)"

definition load_host :: "bool \<Rightarrow> char list \<Rightarrow> nat" where
  "load_host le cs = (if le then be_value (rev cs) else be_value cs)"

lemma length_be_bytes [simp]: "length (be_bytes k n) = k"
  by (induction k arbitrary: n) auto

lemma length_store_host [simp]: "length (store_host le k n) = k"
  by (simp add: store_host_def)

lemma be_value_snoc [simp]: "be_value (cs @ [c]) = be_value cs * 256 + of_char c"
  by (simp add: be_value_def)

lemma be_value_Nil [simp]: "be_value [] = 0"
  by (simp add: be_value_def)

lemma be_value_be_bytes: "be_value (be_bytes k n) = n mod 256 ^ k"
proof (induction k arbitrary: n)
  case (Suc k)
  have "n mod 256 ^ Suc k = (n div 256) mod 256 ^ k * 256 + n mod 256"
    using mod_mult2_eq [of n 256 "256 ^ k"] by simp
  with Suc show ?case by simp
qed simp

lemma be_value_less: "be_value cs < 256 ^ length cs"
proof (induction cs rule: rev_induct)
  case (snoc c cs)
  have step: "x * 256 + y < 256 * N" if "x < N" and "y < 256" for x y N :: nat
    using that by auto
  have "(of_char c :: nat) < 256" by simp
  with snoc show ?case
    unfolding be_value_snoc length_append_singleton power_Suc by (rule step)
qed simp

lemma be_bytes_be_value: "be_bytes (length cs) (be_value cs) = cs"
  by (induction cs rule: rev_induct) simp_all

lemma load_store_host: "load_host le (store_host le k n) = n mod 256 ^ k"
  by (simp add: load_host_def store_host_def be_value_be_bytes)

section \<open>glibc byte swapping and the wrappers of \<open>Endian.h\<close>\<close>

definition bswap :: "nat \<Rightarrow> 'a::len word \<Rightarrow> 'a word" where
  "bswap k v = of_nat (be_value (rev (be_bytes k (unat v))))"

definition be_toh :: "bool \<Rightarrow> nat \<Rightarrow> 'a::len word \<Rightarrow> 'a word" where
  "be_toh le k v = (if le then bswap k v else v)"

definition netToHost16 :: "bool \<Rightarrow> 16 word \<Rightarrow> 16 word" where
  "netToHost16 le v = be_toh le 2 v"

definition host16ToNet :: "bool \<Rightarrow> 16 word \<Rightarrow> 16 word" where
  "host16ToNet le v = be_toh le 2 v"

definition netToHost32 :: "bool \<Rightarrow> 32 word \<Rightarrow> 32 word" where
  "netToHost32 le v = be_toh le 4 v"

definition host32ToNet :: "bool \<Rightarrow> 32 word \<Rightarrow> 32 word" where
  "host32ToNet le v = be_toh le 4 v"

definition netToHost64 :: "bool \<Rightarrow> 64 word \<Rightarrow> 64 word" where
  "netToHost64 le v = be_toh le 8 v"

definition host64ToNet :: "bool \<Rightarrow> 64 word \<Rightarrow> 64 word" where
  "host64ToNet le v = be_toh le 8 v"

text \<open>The \<open>_WIN32\<close> branch of the 64-bit conversions: each half is swapped, the halves stay in place.\<close>

unbundle bit_operations_syntax

definition netToHost64_win32 :: "bool \<Rightarrow> 64 word \<Rightarrow> 64 word" where
  "netToHost64_win32 le v =
    (let lo = (ucast v :: 32 word);
         hi = (ucast (drop_bit 32 v) :: 32 word)
     in push_bit 32 (ucast (be_toh le 4 hi)) OR ucast (be_toh le 4 lo))"

definition host64ToNet_win32 :: "bool \<Rightarrow> 64 word \<Rightarrow> 64 word" where
  "host64ToNet_win32 le v =
    (let lo = (ucast v :: 32 word);
         hi = (ucast (drop_bit 32 v) :: 32 word)
     in push_bit 32 (ucast (be_toh le 4 hi)) OR ucast (be_toh le 4 lo))"

lemma unat_bswap:
  assumes "LENGTH('a) = 8 * k"
  shows "unat (bswap k (v :: 'a::len word)) = be_value (rev (be_bytes k (unat v)))"
proof -
  have "be_value (rev (be_bytes k (unat v))) < 256 ^ k"
    using be_value_less [of "rev (be_bytes k (unat v))"] by simp
  moreover have "(256::nat) ^ k = 2 ^ LENGTH('a)"
    by (simp add: assms power_mult)
  ultimately show ?thesis
    by (simp add: bswap_def unat_of_nat)
qed

lemma store_host_be_toh:
  assumes "LENGTH('a) = 8 * k"
  shows "store_host le k (unat (be_toh le k (v :: 'a::len word))) = be_bytes k (unat v)"
proof -
  have "be_bytes k (be_value (rev (be_bytes k (unat v)))) = rev (be_bytes k (unat v))"
    using be_bytes_be_value [of "rev (be_bytes k (unat v))"] by simp
  then show ?thesis
    by (simp add: store_host_def be_toh_def unat_bswap [OF assms])
qed

lemma be_toh_load_host:
  assumes "LENGTH('a) = 8 * k" and "length cs = k"
  shows "be_toh le k (of_nat (load_host le cs) :: 'a::len word) = of_nat (be_value cs)"
proof (cases le)
  case True
  have "be_value (rev cs) < 2 ^ LENGTH('a)"
    using be_value_less [of "rev cs"] by (simp add: assms power_mult)
  then have "unat (of_nat (be_value (rev cs)) :: 'a word) = be_value (rev cs)"
    by (simp add: unat_of_nat)
  moreover have "be_bytes k (be_value (rev cs)) = rev cs"
    using be_bytes_be_value [of "rev cs"] assms by simp
  ultimately show ?thesis
    using True by (simp add: be_toh_def bswap_def load_host_def)
qed (simp add: be_toh_def load_host_def)

lemma be_toh_be_toh [simp]:
  assumes "LENGTH('a) = 8 * k"
  shows "be_toh le k (be_toh le k (v :: 'a::len word)) = v"
proof (cases le)
  case True
  have b: "be_bytes k (be_value (rev (be_bytes k (unat v)))) = rev (be_bytes k (unat v))"
    using be_bytes_be_value [of "rev (be_bytes k (unat v))"] by simp
  have "unat v < 256 ^ k"
    using unsigned_less [of v] by (simp add: assms power_mult)
  then have "of_nat (be_value (be_bytes k (unat v))) = v"
    by (simp add: be_value_be_bytes)
  moreover have "bswap k (bswap k v) = of_nat (be_value (be_bytes k (unat v)))"
    unfolding bswap_def [of k "bswap k v"] by (simp add: unat_bswap [OF assms] b)
  ultimately show ?thesis
    using True by (simp add: be_toh_def)
qed (simp add: be_toh_def)

end
