(* ===== verification/Byte_Queue.thy ===== *)
theory Byte_Queue
  imports Prelude
begin

text \<open>
  The interface that the clients of a buffer rely on: an abstract content, an \<open>append\<close> that extends it
  at the back and a \<open>retrieve\<close> that removes bytes at the front, neither of which can fail while the
  invariant holds. The serialisers append many pieces, the connection appends what it could not send
  and retrieves what the kernel took, the logger swaps whole buffers: each needs only these laws.
\<close>

datatype stream_op = Put "char list" | Take nat

text \<open>A schedule of appends and partial drains, with the bytes the drains produced.\<close>

fun stream_run ::
  "('b \<Rightarrow> char list) \<Rightarrow> (char list \<Rightarrow> 'b \<Rightarrow> 'b res) \<Rightarrow> (nat \<Rightarrow> 'b \<Rightarrow> 'b res)
    \<Rightarrow> stream_op list \<Rightarrow> 'b \<Rightarrow> (char list \<times> 'b) res" where
  "stream_run ct app ret [] b = Inr ([], b)"
| "stream_run ct app ret (Put cs # ops) b = rbind (app cs b) (stream_run ct app ret ops)"
| "stream_run ct app ret (Take n # ops) b =
    (let out = take n (ct b)
     in rbind (ret n b) (\<lambda>b'. rbind (stream_run ct app ret ops b') (\<lambda>(outs, b''). Inr (out @ outs, b''))))"

fun puts_of :: "stream_op list \<Rightarrow> char list" where
  "puts_of [] = []"
| "puts_of (Put cs # ops) = cs @ puts_of ops"
| "puts_of (Take n # ops) = puts_of ops"

text \<open>A drain never takes more than is there: \<open>n\<close> bytes are in the queue before the schedule.\<close>

fun takes_legal :: "nat \<Rightarrow> stream_op list \<Rightarrow> bool" where
  "takes_legal n [] = True"
| "takes_legal n (Put cs # ops) = takes_legal (n + length cs) ops"
| "takes_legal n (Take k # ops) = (k \<le> n \<and> takes_legal (n - k) ops)"

text \<open>
  Whatever takes bytes and keeps them in order: \<open>put x\<close> extends the content by the bytes of \<open>x\<close>. Buffers are such sinks,
  and so are connections, whose content is all that they have accepted for sending.
\<close>

locale byte_sink =
  fixes content :: "'b \<Rightarrow> char list"
    and inv :: "'b \<Rightarrow> bool"
    and put :: "'x \<Rightarrow> 'b \<Rightarrow> 'b res"
    and bytes :: "'x \<Rightarrow> char list"
    and fits :: "'x \<Rightarrow> bool"
  assumes put_ok: "inv b \<Longrightarrow> fits x \<Longrightarrow> \<exists>b'. put x b = Inr b' \<and> inv b' \<and> content b' = content b @ bytes x"
begin

lemma put_all:
  "inv b \<Longrightarrow> \<forall>x \<in> set xs. fits x \<Longrightarrow>
    \<exists>b'. rfold put xs b = Inr b' \<and> inv b' \<and> content b' = content b @ concat (map bytes xs)"
proof (induction xs arbitrary: b)
  case (Cons x xs)
  obtain b1 where b1: "put x b = Inr b1" "inv b1" "content b1 = content b @ bytes x"
    using put_ok [OF Cons.prems(1)] Cons.prems(2) by auto
  with Cons.IH [of b1] Cons.prems(2) show ?case by auto
qed simp

end

locale byte_queue = byte_sink content inv append "\<lambda>cs. cs" "\<lambda>_. True"
  for content :: "'b \<Rightarrow> char list"
    and inv :: "'b \<Rightarrow> bool"
    and append :: "char list \<Rightarrow> 'b \<Rightarrow> 'b res" +
  fixes retrieve :: "nat \<Rightarrow> 'b \<Rightarrow> 'b res"
  assumes retrieve_ok:
      "inv b \<Longrightarrow> n \<le> length (content b) \<Longrightarrow>
        \<exists>b'. retrieve n b = Inr b' \<and> inv b' \<and> content b' = drop n (content b)"
begin

lemma append_all:
  "inv b \<Longrightarrow> \<exists>b'. rfold append css b = Inr b' \<and> inv b' \<and> content b' = content b @ concat css"
  using put_all [of b css] by simp

lemma stream_fifo:
  assumes "inv b" and "takes_legal (length (content b)) ops"
  shows "\<exists>outs b'. stream_run content append retrieve ops b = Inr (outs, b') \<and> inv b' \<and>
           outs @ content b' = content b @ puts_of ops"
  using assms
proof (induction ops arbitrary: b)
  case (Cons op ops)
  show ?case
  proof (cases op)
    case (Put cs)
    obtain b1 where b1: "append cs b = Inr b1" "inv b1" "content b1 = content b @ cs"
      using put_ok [OF Cons.prems(1) TrueI] by blast
    with Cons.IH [of b1] Cons.prems(2) Put show ?thesis by auto
  next
    case (Take n)
    with Cons.prems have n: "n \<le> length (content b)" by simp
    obtain b1 where b1: "retrieve n b = Inr b1" "inv b1" "content b1 = drop n (content b)"
      using retrieve_ok [OF Cons.prems(1) n] by blast
    with Cons.IH [of b1] Cons.prems(2) Take obtain outs b'
      where r: "stream_run content append retrieve ops b1 = Inr (outs, b')" "inv b'"
        "outs @ content b' = drop n (content b) @ puts_of ops"
      by auto
    moreover have "take n (content b) @ outs @ content b' = content b @ puts_of ops"
      using r(3) by (metis append_assoc append_take_drop_id)
    ultimately show ?thesis using Take b1 by auto
  qed
qed simp

end

end
