(* ===== verification/Buffer.thy ===== *)
theory Buffer
  imports Endian Byte_Queue
begin

text \<open>
  The non-blocking I/O buffer (\<open>net/Buffer.h\<close>, \<open>net/Buffer.cc\<close>): its state, every operation, and the
  refinement to a byte queue. \<open>size_t\<close> values are naturals: the invariant \<open>Buffer_inv\<close> bounds every
  difference the code takes, and the sums are bounded by the size of memory.
  Results of \<open>readv\<close> and \<open>write\<close> are arguments: the bytes the kernel delivered, the number it took,
  or an \<open>errno\<close>.
\<close>

section \<open>State and capacity queries\<close>

record buffer =
  buff :: "char list"
  writeIndex :: nat
  readIndex :: nat

definition kCheapPrepend :: nat where
  "kCheapPrepend = 8"

definition Buffer_new :: buffer where
  "Buffer_new =
    \<lparr>buff = vresize kCheapPrepend [], writeIndex = kCheapPrepend, readIndex = kCheapPrepend\<rparr>"

definition Buffer_readableBytes :: "buffer \<Rightarrow> nat" where
  "Buffer_readableBytes b = writeIndex b - readIndex b"

definition Buffer_writeableBytes :: "buffer \<Rightarrow> nat" where
  "Buffer_writeableBytes b = length (buff b) - writeIndex b"

definition Buffer_prependBytes :: "buffer \<Rightarrow> nat" where
  "Buffer_prependBytes b = readIndex b"

text \<open>\<open>Buffer_bytes n b\<close> is the range \<open>[peek(), peek() + n)\<close>.\<close>

definition Buffer_bytes :: "nat \<Rightarrow> buffer \<Rightarrow> char list" where
  "Buffer_bytes n b = segment (readIndex b) (readIndex b + n) (buff b)"

section \<open>Reading\<close>

definition Buffer_retrieveAll :: "buffer \<Rightarrow> buffer" where
  "Buffer_retrieveAll b = b\<lparr>writeIndex := kCheapPrepend, readIndex := kCheapPrepend\<rparr>"

definition Buffer_retrieve :: "nat \<Rightarrow> buffer \<Rightarrow> buffer res" where
  "Buffer_retrieve len b =
    (if \<not> len \<le> Buffer_readableBytes b then Inl AssertFailed
     else if len < Buffer_readableBytes b then Inr (b\<lparr>readIndex := readIndex b + len\<rparr>)
     else Inr (Buffer_retrieveAll b))"

definition Buffer_retrieveUntil :: "nat \<Rightarrow> buffer \<Rightarrow> buffer res" where
  "Buffer_retrieveUntil len b =
    (if \<not> readIndex b \<le> len then Inl AssertFailed
     else if \<not> len < writeIndex b then Inl AssertFailed
     else Buffer_retrieve (len - readIndex b) b)"

definition Buffer_read :: "nat \<Rightarrow> buffer \<Rightarrow> (char list \<times> buffer) res" where
  "Buffer_read len b =
    (let len = (if len > Buffer_readableBytes b then Buffer_readableBytes b else len);
         dst = Buffer_bytes len b
     in rbind (Buffer_retrieve len b) (\<lambda>b'. Inr (dst, b')))"

definition Buffer_readAsString :: "nat \<Rightarrow> buffer \<Rightarrow> (string \<times> buffer) res" where
  "Buffer_readAsString len b =
    (let len = (if len > Buffer_readableBytes b then Buffer_readableBytes b else len);
         result = Buffer_bytes len b
     in rbind (Buffer_retrieve len b) (\<lambda>b'. Inr (result, b')))"

definition Buffer_readAllAsString :: "buffer \<Rightarrow> (string \<times> buffer) res" where
  "Buffer_readAllAsString b = Buffer_readAsString (Buffer_readableBytes b) b"

text \<open>
  The integer reads: \<open>memcpy\<close> of the bytes at \<open>peek()\<close> into an integer object of the host,
  \<open>retrieve\<close>, and the conversion from network order.
\<close>

definition Buffer_readUint64 :: "bool \<Rightarrow> buffer \<Rightarrow> (64 word \<times> buffer) res" where
  "Buffer_readUint64 le b =
    (if \<not> Buffer_readableBytes b \<ge> 8 then Inl AssertFailed
     else let netVal = of_nat (load_host le (Buffer_bytes 8 b))
          in rbind (Buffer_retrieve 8 b) (\<lambda>b'. Inr (netToHost64 le netVal, b')))"

definition Buffer_readUint32 :: "bool \<Rightarrow> buffer \<Rightarrow> (32 word \<times> buffer) res" where
  "Buffer_readUint32 le b =
    (if \<not> Buffer_readableBytes b \<ge> 4 then Inl AssertFailed
     else let netVal = of_nat (load_host le (Buffer_bytes 4 b))
          in rbind (Buffer_retrieve 4 b) (\<lambda>b'. Inr (netToHost32 le netVal, b')))"

definition Buffer_readUint16 :: "bool \<Rightarrow> buffer \<Rightarrow> (16 word \<times> buffer) res" where
  "Buffer_readUint16 le b =
    (if \<not> Buffer_readableBytes b \<ge> 2 then Inl AssertFailed
     else let netVal = of_nat (load_host le (Buffer_bytes 2 b))
          in rbind (Buffer_retrieve 2 b) (\<lambda>b'. Inr (netToHost16 le netVal, b')))"

definition Buffer_readUint8 :: "buffer \<Rightarrow> (8 word \<times> buffer) res" where
  "Buffer_readUint8 b =
    (if \<not> Buffer_readableBytes b \<ge> 1 then Inl AssertFailed
     else let val = of_char (buff b ! readIndex b)
          in rbind (Buffer_retrieve 1 b) (\<lambda>b'. Inr (val, b')))"

text \<open>
  \<open>std::search\<close> for \<open>"\r\n"\<close>: the offset of the first match, if there is one. \<open>findCRLF\<close>
  returns the matching position as an index into the storage, \<open>None\<close> for \<open>nullptr\<close>.
\<close>

fun search_crlf :: "char list \<Rightarrow> nat option" where
  "search_crlf (c # d # cs) =
    (if c = CHR 0x0D \<and> d = CHR 0x0A then Some 0 else map_option Suc (search_crlf (d # cs)))"
| "search_crlf cs = None"

definition Buffer_findCRLF :: "buffer \<Rightarrow> nat option" where
  "Buffer_findCRLF b =
    map_option (\<lambda>k. readIndex b + k)
      (search_crlf (segment (readIndex b) (writeIndex b) (buff b)))"

section \<open>Writing\<close>

definition Buffer_ensureWriteable :: "nat \<Rightarrow> buffer \<Rightarrow> buffer res" where
  "Buffer_ensureWriteable len b =
    (let b' =
       (if len > Buffer_writeableBytes b then
          (if Buffer_writeableBytes b + Buffer_prependBytes b < len + kCheapPrepend then
             b\<lparr>buff := vresize (writeIndex b + len) (buff b)\<rparr>
           else
             (let readableSize = Buffer_readableBytes b
              in b\<lparr>buff := blit kCheapPrepend (segment (readIndex b) (writeIndex b) (buff b)) (buff b),
                   readIndex := kCheapPrepend,
                   writeIndex := kCheapPrepend + readableSize\<rparr>))
        else b)
     in check (Buffer_writeableBytes b' \<ge> len) AssertFailed b')"

definition Buffer_hasWritten :: "nat \<Rightarrow> buffer \<Rightarrow> buffer" where
  "Buffer_hasWritten len b = b\<lparr>writeIndex := writeIndex b + len\<rparr>"

definition Buffer_append :: "char list \<Rightarrow> buffer \<Rightarrow> buffer res" where
  "Buffer_append src b =
    rbind (Buffer_ensureWriteable (length src) b) (\<lambda>b.
      Inr (Buffer_hasWritten (length src) (b\<lparr>buff := blit (writeIndex b) src (buff b)\<rparr>)))"

definition Buffer_write :: "char list \<Rightarrow> buffer \<Rightarrow> (int \<times> buffer) res" where
  "Buffer_write src b =
    rbind (Buffer_ensureWriteable (length src) b) (\<lambda>b.
      Inr (int (length src),
           Buffer_hasWritten (length src) (b\<lparr>buff := blit (writeIndex b) src (buff b)\<rparr>)))"

definition Buffer_prepend :: "char list \<Rightarrow> buffer \<Rightarrow> buffer res" where
  "Buffer_prepend data b =
    (if \<not> length data \<le> Buffer_prependBytes b then Inl AssertFailed
     else let i = readIndex b - length data
          in Inr (b\<lparr>readIndex := i, buff := blit i data (buff b)\<rparr>))"

definition Buffer_prependInt64 :: "bool \<Rightarrow> 64 word \<Rightarrow> buffer \<Rightarrow> buffer res" where
  "Buffer_prependInt64 le x b =
    (let bigInt = host64ToNet le x in Buffer_prepend (store_host le 8 (unat bigInt)) b)"

definition Buffer_prependInt32 :: "bool \<Rightarrow> 32 word \<Rightarrow> buffer \<Rightarrow> buffer res" where
  "Buffer_prependInt32 le x b =
    (let bigInt = host32ToNet le x in Buffer_prepend (store_host le 4 (unat bigInt)) b)"

definition Buffer_prependInt16 :: "bool \<Rightarrow> 16 word \<Rightarrow> buffer \<Rightarrow> buffer res" where
  "Buffer_prependInt16 le x b =
    (let bigInt = host16ToNet le x in Buffer_prepend (store_host le 2 (unat bigInt)) b)"

definition Buffer_prependInt8 :: "8 word \<Rightarrow> buffer \<Rightarrow> buffer res" where
  "Buffer_prependInt8 x b = Buffer_prepend [char_of (unat x)] b"

section \<open>File descriptors\<close>

type_synonym errno = nat

definition EAGAIN :: errno where
  "EAGAIN = 11"

text \<open>
  \<open>readFd\<close>: the kernel scatters the bytes it read over the writeable space and then over
  \<open>extraData\<close> (64 KiB). The result is \<open>n\<close>, or the saved \<open>errno\<close> when \<open>n < 0\<close>.
\<close>

definition kExtraData :: nat where
  "kExtraData = 65536"

definition Buffer_readFd :: "errno + char list \<Rightarrow> buffer \<Rightarrow> ((errno + nat) \<times> buffer) res" where
  "Buffer_readFd sys b =
    (case sys of
       Inl e \<Rightarrow> Inr (Inl e, b)
     | Inr data \<Rightarrow>
         (let writeble = Buffer_writeableBytes b;
              n = length data;
              b = b\<lparr>buff := blit (writeIndex b) (take writeble data) (buff b)\<rparr>;
              extraData = drop writeble data
          in if n < writeble then Inr (Inr n, b\<lparr>writeIndex := writeIndex b + n\<rparr>)
             else rbind (Buffer_append (take (n - writeble) extraData)
                          (b\<lparr>writeIndex := length (buff b)\<rparr>))
                    (\<lambda>b. Inr (Inr n, b))))"

definition Buffer_WriteFd :: "errno + nat \<Rightarrow> buffer \<Rightarrow> ((errno + nat) \<times> buffer) res" where
  "Buffer_WriteFd sys b =
    (case sys of
       Inl e \<Rightarrow> Inr (Inl e, b)
     | Inr n \<Rightarrow> rbind (Buffer_retrieve n b) (\<lambda>b'. Inr (Inr n, b')))"

section \<open>Invariant and abstract content\<close>

definition Buffer_inv :: "buffer \<Rightarrow> bool" where
  "Buffer_inv b \<longleftrightarrow>
    readIndex b \<le> writeIndex b \<and> writeIndex b \<le> length (buff b) \<and> kCheapPrepend \<le> length (buff b)"

definition Buffer_content :: "buffer \<Rightarrow> char list" where
  "Buffer_content b = segment (readIndex b) (writeIndex b) (buff b)"

lemmas Buffer_state_defs =
  Buffer_inv_def Buffer_content_def Buffer_readableBytes_def Buffer_writeableBytes_def
  Buffer_prependBytes_def

lemma Buffer_new_inv [inv_intros, simp]: "Buffer_inv Buffer_new"
  by (simp add: Buffer_inv_def Buffer_new_def kCheapPrepend_def)

lemma Buffer_new_content [buffer_simps, simp]: "Buffer_content Buffer_new = []"
  by (simp add: Buffer_content_def Buffer_new_def)

lemma Buffer_new_writeable [simp]: "Buffer_writeableBytes Buffer_new = 0"
  by (simp add: Buffer_writeableBytes_def Buffer_new_def)

lemma length_content [simp]: "Buffer_inv b \<Longrightarrow> length (Buffer_content b) = Buffer_readableBytes b"
  by (simp add: Buffer_state_defs)

lemma readable_zero_iff: "Buffer_inv b \<Longrightarrow> Buffer_readableBytes b = 0 \<longleftrightarrow> Buffer_content b = []"
  using length_content [of b] by (metis length_0_conv)

lemma Buffer_bytes_take:
  "Buffer_inv b \<Longrightarrow> n \<le> Buffer_readableBytes b \<Longrightarrow> Buffer_bytes n b = take n (Buffer_content b)"
  using take_segment [of "readIndex b" n "writeIndex b" "buff b"]
  by (auto simp: Buffer_bytes_def Buffer_state_defs)

lemma retrieveAll_inv [inv_intros]: "Buffer_inv b \<Longrightarrow> Buffer_inv (Buffer_retrieveAll b)"
  by (simp add: Buffer_inv_def Buffer_retrieveAll_def)

lemma retrieveAll_content [buffer_simps]: "Buffer_content (Buffer_retrieveAll b) = []"
  by (simp add: Buffer_content_def Buffer_retrieveAll_def)

text \<open>\<open>retrieve\<close> drops bytes at the front; asking for more than is readable is the assertion.\<close>

lemma retrieve_ok:
  assumes "Buffer_inv b" and "n \<le> Buffer_readableBytes b"
  shows "\<exists>b'. Buffer_retrieve n b = Inr b' \<and> Buffer_inv b' \<and>
           Buffer_content b' = drop n (Buffer_content b)"
proof (cases "n < Buffer_readableBytes b")
  case True
  with assms show ?thesis
    by (auto simp: Buffer_retrieve_def Buffer_state_defs drop_segment)
next
  case False
  with assms have "drop n (Buffer_content b) = []" by simp
  with False assms show ?thesis
    by (simp add: Buffer_retrieve_def retrieveAll_inv retrieveAll_content)
qed

lemma retrieve_fails: "Buffer_readableBytes b < n \<Longrightarrow> Buffer_retrieve n b = Inl AssertFailed"
  by (simp add: Buffer_retrieve_def)

text \<open>
  Room for \<open>len\<close> bytes: the assertion at the end of \<open>ensureWriteable\<close> never fails, and neither the
  growth nor the compaction changes the content. The compaction copies downwards only, so the ranges of
  \<open>std::copy\<close> overlap in the direction it permits.
\<close>

lemma ensureWriteable_ok:
  assumes "Buffer_inv b"
  shows "\<exists>b'. Buffer_ensureWriteable len b = Inr b' \<and> Buffer_inv b' \<and>
           Buffer_content b' = Buffer_content b \<and> len \<le> Buffer_writeableBytes b'"
proof -
  consider (enough) "len \<le> Buffer_writeableBytes b"
    | (grow) "len > Buffer_writeableBytes b"
        "Buffer_writeableBytes b + Buffer_prependBytes b < len + kCheapPrepend"
    | (compact) "len > Buffer_writeableBytes b"
        "\<not> Buffer_writeableBytes b + Buffer_prependBytes b < len + kCheapPrepend"
    by linarith
  then show ?thesis
  proof cases
    case enough
    with assms show ?thesis by (simp add: Buffer_ensureWriteable_def)
  next
    case grow
    then have "length (buff b) \<le> writeIndex b + len"
      by (simp add: Buffer_writeableBytes_def)
    with grow assms show ?thesis
      by (simp add: Buffer_ensureWriteable_def Buffer_state_defs segment_vresize)
  next
    case compact
    let ?c = "segment (readIndex b) (writeIndex b) (buff b)"
    have len: "length ?c = writeIndex b - readIndex b"
      using assms by (simp add: Buffer_inv_def)
    have k: "kCheapPrepend + length ?c \<le> length (buff b)"
      using compact assms len by (simp add: Buffer_state_defs)
    then have "segment kCheapPrepend (kCheapPrepend + length ?c) (blit kCheapPrepend ?c (buff b)) = ?c"
      by (rule segment_blit_at)
    with compact assms len k show ?thesis
      by (auto simp: Buffer_ensureWriteable_def Buffer_state_defs Let_def)
  qed
qed

lemma compaction_downwards:
  "Buffer_writeableBytes b < len \<Longrightarrow>
    \<not> Buffer_writeableBytes b + Buffer_prependBytes b < len + kCheapPrepend \<Longrightarrow>
    kCheapPrepend < readIndex b"
  by (simp add: Buffer_prependBytes_def)

lemma fill_ok:
  assumes "Buffer_inv b" and "length cs \<le> Buffer_writeableBytes b"
  shows "Buffer_inv (Buffer_hasWritten (length cs) (b\<lparr>buff := blit (writeIndex b) cs (buff b)\<rparr>))"
    and "Buffer_content (Buffer_hasWritten (length cs) (b\<lparr>buff := blit (writeIndex b) cs (buff b)\<rparr>))
      = Buffer_content b @ cs"
proof -
  have "writeIndex b + length cs \<le> length (buff b)"
    using assms by (auto simp: Buffer_state_defs)
  with assms show "Buffer_inv (Buffer_hasWritten (length cs) (b\<lparr>buff := blit (writeIndex b) cs (buff b)\<rparr>))"
    and "Buffer_content (Buffer_hasWritten (length cs) (b\<lparr>buff := blit (writeIndex b) cs (buff b)\<rparr>))
      = Buffer_content b @ cs"
    by (simp_all add: Buffer_hasWritten_def Buffer_state_defs segment_blit_before)
qed

lemma append_ok:
  assumes "Buffer_inv b"
  shows "\<exists>b'. Buffer_append cs b = Inr b' \<and> Buffer_inv b' \<and> Buffer_content b' = Buffer_content b @ cs"
proof -
  obtain b1 where "Buffer_ensureWriteable (length cs) b = Inr b1" "Buffer_inv b1"
    "Buffer_content b1 = Buffer_content b" "length cs \<le> Buffer_writeableBytes b1"
    using ensureWriteable_ok [OF assms] by blast
  with fill_ok [of b1 cs] show ?thesis by (simp add: Buffer_append_def)
qed

lemma write_append: "Buffer_write cs b = rbind (Buffer_append cs b) (\<lambda>b'. Inr (int (length cs), b'))"
  by (simp add: Buffer_write_def Buffer_append_def rbind_assoc)

text \<open>The buffer provides the byte-queue interface.\<close>

interpretation bq: byte_queue Buffer_content Buffer_inv Buffer_append Buffer_retrieve
  by unfold_locales (use append_ok retrieve_ok in \<open>simp_all\<close>)

lemma readAsString_ok:
  assumes "Buffer_inv b"
  shows "\<exists>b'. Buffer_readAsString len b = Inr (take len (Buffer_content b), b') \<and> Buffer_inv b' \<and>
           Buffer_content b' = drop len (Buffer_content b)"
proof -
  let ?n = "if len > Buffer_readableBytes b then Buffer_readableBytes b else len"
  have "?n \<le> Buffer_readableBytes b" by simp
  then obtain b' where "Buffer_retrieve ?n b = Inr b'" "Buffer_inv b'"
    "Buffer_content b' = drop ?n (Buffer_content b)"
    using retrieve_ok [OF assms] by blast
  with assms show ?thesis
    by (auto simp: Buffer_readAsString_def Let_def Buffer_bytes_take)
qed

lemma read_readAsString: "Buffer_read len b = Buffer_readAsString len b"
  by (simp add: Buffer_read_def Buffer_readAsString_def)

lemma readAll_ok:
  assumes "Buffer_inv b"
  shows "\<exists>b'. Buffer_readAllAsString b = Inr (Buffer_content b, b') \<and> Buffer_inv b' \<and> Buffer_content b' = []"
  using readAsString_ok [OF assms, of "Buffer_readableBytes b"] assms
  by (auto simp: Buffer_readAllAsString_def)

lemma prepend_ok:
  assumes "Buffer_inv b" and "length cs \<le> readIndex b"
  shows "\<exists>b'. Buffer_prepend cs b = Inr b' \<and> Buffer_inv b' \<and> Buffer_content b' = cs @ Buffer_content b \<and>
           readIndex b' = readIndex b - length cs"
  using assms
  by (auto simp: Buffer_prepend_def Buffer_state_defs Let_def segment_blit_prefix)

section \<open>Integers in network order\<close>

text \<open>The bytes of an integer field: \<open>be_bytes\<close> in front of the content, whatever the host's order.\<close>

lemma prependInt_bytes:
  "Buffer_prependInt64 le x b = Buffer_prepend (be_bytes 8 (unat x)) b"
  "Buffer_prependInt32 le y b = Buffer_prepend (be_bytes 4 (unat y)) b"
  "Buffer_prependInt16 le z b = Buffer_prepend (be_bytes 2 (unat z)) b"
  by (simp_all add: Buffer_prependInt64_def host64ToNet_def Buffer_prependInt32_def host32ToNet_def
      Buffer_prependInt16_def host16ToNet_def store_host_be_toh)

lemma readUint_value:
  assumes "Buffer_inv b"
  shows "8 \<le> Buffer_readableBytes b \<Longrightarrow> Buffer_readUint64 le b =
      rbind (Buffer_retrieve 8 b) (\<lambda>b'. Inr (of_nat (be_value (take 8 (Buffer_content b))), b'))"
    and "4 \<le> Buffer_readableBytes b \<Longrightarrow> Buffer_readUint32 le b =
      rbind (Buffer_retrieve 4 b) (\<lambda>b'. Inr (of_nat (be_value (take 4 (Buffer_content b))), b'))"
    and "2 \<le> Buffer_readableBytes b \<Longrightarrow> Buffer_readUint16 le b =
      rbind (Buffer_retrieve 2 b) (\<lambda>b'. Inr (of_nat (be_value (take 2 (Buffer_content b))), b'))"
  using assms
  by (simp_all add: Buffer_readUint64_def netToHost64_def Buffer_readUint32_def netToHost32_def
      Buffer_readUint16_def netToHost16_def Buffer_bytes_take be_toh_load_host)

text \<open>Reading the first \<open>k\<close> bytes of a content that starts with the \<open>k\<close> bytes of an integer.\<close>

lemma be_value_word:
  assumes "LENGTH('a) = 8 * k"
  shows "of_nat (be_value (be_bytes k (unat (x :: 'a::len word)))) = x"
proof -
  have "unat x < 256 ^ k"
    using unsigned_less [of x] by (simp add: assms power_mult)
  then show ?thesis by (simp add: be_value_be_bytes)
qed

section \<open>Searching for the end of a line\<close>

lemma search_crlf_Some_iff:
  "search_crlf cs = Some k \<longleftrightarrow>
    k + 1 < length cs \<and> cs ! k = CHR 0x0D \<and> cs ! Suc k = CHR 0x0A \<and>
    (\<forall>j < k. \<not> (cs ! j = CHR 0x0D \<and> cs ! Suc j = CHR 0x0A))"
proof (induction cs arbitrary: k rule: search_crlf.induct)
  case (1 c d cs)
  show ?case
  proof (cases k)
    case 0
    then show ?thesis by auto
  next
    case (Suc i)
    have "(\<forall>j < Suc i. \<not> ((c # d # cs) ! j = CHR 0x0D \<and> (c # d # cs) ! Suc j = CHR 0x0A)) \<longleftrightarrow>
        \<not> (c = CHR 0x0D \<and> d = CHR 0x0A) \<and>
        (\<forall>j < i. \<not> ((d # cs) ! j = CHR 0x0D \<and> (d # cs) ! Suc j = CHR 0x0A))"
      by (auto simp: less_Suc_eq_0_disj)
    with Suc 1 show ?thesis by auto
  qed
qed auto

lemma search_crlf_None_iff:
  "search_crlf cs = None \<longleftrightarrow> \<not> (\<exists>xs ys. cs = xs @ [CHR 0x0D, CHR 0x0A] @ ys)"
proof (induction cs rule: search_crlf.induct)
  case (1 c d cs)
  have "(\<exists>xs ys. c # d # cs = xs @ [CHR 0x0D, CHR 0x0A] @ ys) \<longleftrightarrow>
      c = CHR 0x0D \<and> d = CHR 0x0A \<or> (\<exists>xs ys. d # cs = xs @ [CHR 0x0D, CHR 0x0A] @ ys)"
    by (auto simp: Cons_eq_append_conv)
  with 1 show ?case by auto
qed (auto simp: Cons_eq_append_conv)

lemma search_crlf_line:
  assumes "search_crlf cs = Some k"
  shows "cs = take k cs @ [CHR 0x0D, CHR 0x0A] @ drop (k + 2) cs" and "search_crlf (take k cs) = None"
proof -
  from assms have k: "k + 1 < length cs" "cs ! k = CHR 0x0D" "cs ! Suc k = CHR 0x0A"
    and first: "\<forall>j < k. \<not> (cs ! j = CHR 0x0D \<and> cs ! Suc j = CHR 0x0A)"
    by (simp_all add: search_crlf_Some_iff)
  then have "drop k cs = CHR 0x0D # CHR 0x0A # drop (k + 2) cs"
    by (metis Cons_nth_drop_Suc Suc_eq_plus1 Suc_lessD add_2_eq_Suc')
  then show "cs = take k cs @ [CHR 0x0D, CHR 0x0A] @ drop (k + 2) cs"
    by (metis append_Cons append_Nil append_take_drop_id)
  show "search_crlf (take k cs) = None"
  proof (cases "search_crlf (take k cs)")
    case (Some j)
    with first show ?thesis by (auto simp: search_crlf_Some_iff)
  qed
qed

lemma search_crlf_append:
  assumes "search_crlf cs = None" and "cs = [] \<or> last cs \<noteq> CHR 0x0D"
  shows "search_crlf (cs @ CHR 0x0D # CHR 0x0A # ds) = Some (length cs)"
  using assms
proof (induction cs rule: search_crlf.induct)
  case (1 c d cs)
  then show ?case by (auto split: if_splits)
qed auto

lemma search_crlf_extend:
  "search_crlf cs = Some k \<Longrightarrow> search_crlf (cs @ ds) = Some k"
  by (induction cs arbitrary: k rule: search_crlf.induct) auto

lemma findCRLF_content:
  "Buffer_findCRLF b = map_option (\<lambda>k. readIndex b + k) (search_crlf (Buffer_content b))"
  by (simp add: Buffer_findCRLF_def Buffer_content_def)

section \<open>Kernel input and output\<close>

lemma readFd_ok:
  assumes "Buffer_inv b"
  shows "\<exists>b'. Buffer_readFd (Inr data) b = Inr (Inr (length data), b') \<and> Buffer_inv b' \<and>
           Buffer_content b' = Buffer_content b @ data"
proof (cases "length data < Buffer_writeableBytes b")
  case True
  then have "writeIndex b + length data \<le> length (buff b)"
    by (simp add: Buffer_writeableBytes_def)
  with True assms show ?thesis
    by (simp add: Buffer_readFd_def Buffer_state_defs segment_blit_before Let_def)
next
  case False
  let ?w = "Buffer_writeableBytes b"
  let ?b = "b\<lparr>buff := blit (writeIndex b) (take ?w data) (buff b),
              writeIndex := length (blit (writeIndex b) (take ?w data) (buff b))\<rparr>"
  have l: "writeIndex b + length (take ?w data) = length (buff b)"
    using False assms by (simp add: Buffer_state_defs)
  have inv: "Buffer_inv ?b"
    using l assms by (simp add: Buffer_inv_def)
  have "Buffer_content ?b = Buffer_content b @ take ?w data"
    using segment_blit_before [of "readIndex b" "writeIndex b" "buff b" "take ?w data"] l assms
    by (simp add: Buffer_inv_def Buffer_content_def)
  with append_ok [OF inv, of "drop ?w data"] False show ?thesis
    by (auto simp: Buffer_readFd_def Let_def)
qed

lemma WriteFd_ok:
  assumes "Buffer_inv b" and "n \<le> Buffer_readableBytes b"
  shows "\<exists>b'. Buffer_WriteFd (Inr n) b = Inr (Inr n, b') \<and> Buffer_inv b' \<and>
           Buffer_content b' = drop n (Buffer_content b)"
  using retrieve_ok [OF assms] by (auto simp: Buffer_WriteFd_def)

section \<open>Properties\<close>

text \<open>What one \<open>append\<close> to a fresh buffer gives: used to write down buffers with a known content.\<close>

definition buffer_of :: "char list \<Rightarrow> buffer" where
  "buffer_of cs =
    \<lparr>buff = replicate kCheapPrepend (CHR 0x00) @ cs, writeIndex = kCheapPrepend + length cs,
     readIndex = kCheapPrepend\<rparr>"

lemma append_new: "Buffer_append cs Buffer_new = Inr (buffer_of cs)"
  by (cases cs)
    (simp_all add: Buffer_append_def Buffer_ensureWriteable_def Buffer_new_def buffer_of_def vresize_def
      blit_def Buffer_hasWritten_def Buffer_writeableBytes_def Buffer_prependBytes_def kCheapPrepend_def)

lemma buffer_of_ok [simp]: "Buffer_inv (buffer_of cs)" "Buffer_content (buffer_of cs) = cs"
  by (simp_all add: buffer_of_def Buffer_inv_def Buffer_content_def segment_def)

lemma buffer_of_readable [simp]: "Buffer_readableBytes (buffer_of cs) = length cs"
  by (simp add: buffer_of_def Buffer_readableBytes_def)

text \<open>
  C14. A buffer is a byte queue: under any schedule of \<open>append\<close>s and \<open>retrieve\<close>s that takes out no more
  than was put in, no operation fails, and the bytes taken out followed by the bytes left are the bytes
  put in, in order, through every growth and compaction of the storage.
\<close>

theorem buffer_stream_fifo:
  assumes "Buffer_inv b" and "takes_legal (Buffer_readableBytes b) ops"
  shows "\<exists>outs b'. stream_run Buffer_content Buffer_append Buffer_retrieve ops b = Inr (outs, b') \<and>
    Buffer_inv b' \<and> outs @ Buffer_content b' = Buffer_content b @ puts_of ops"
  using bq.stream_fifo [OF assms(1)] assms by simp

theorem buffer_stream_fifo_witness:
  "\<exists>outs b'. stream_run Buffer_content Buffer_append Buffer_retrieve
      [Put ''GET '', Take 3, Put ''/index'', Take 6] Buffer_new = Inr (outs, b') \<and>
    outs @ Buffer_content b' = ''GET /index''"
  using buffer_stream_fifo [of Buffer_new "[Put ''GET '', Take 3, Put ''/index'', Take 6]"]
  by (auto simp: Buffer_readableBytes_def)

text \<open>
  An integer prepended to a buffer is on the wire in network order (most significant byte first)
  whatever the host's byte order, and the matching read on a host of either byte order gives it back and
  leaves the content as it was.
\<close>

theorem buffer_integer_roundtrip:
  assumes "Buffer_inv b" and "8 \<le> readIndex b"
  shows "(\<exists>b'. Buffer_prependInt64 le x b = Inr b' \<and>
      Buffer_content b' = be_bytes 8 (unat x) @ Buffer_content b \<and>
      (\<exists>b''. Buffer_readUint64 le' b' = Inr (x, b'') \<and> Buffer_content b'' = Buffer_content b)) \<and>
    (\<exists>b'. Buffer_prependInt32 le y b = Inr b' \<and>
      Buffer_content b' = be_bytes 4 (unat y) @ Buffer_content b \<and>
      (\<exists>b''. Buffer_readUint32 le' b' = Inr (y, b'') \<and> Buffer_content b'' = Buffer_content b)) \<and>
    (\<exists>b'. Buffer_prependInt16 le z b = Inr b' \<and>
      Buffer_content b' = be_bytes 2 (unat z) @ Buffer_content b \<and>
      (\<exists>b''. Buffer_readUint16 le' b' = Inr (z, b'') \<and> Buffer_content b'' = Buffer_content b))"
proof (intro conjI)
  have read: "\<exists>b'. Buffer_prepend (be_bytes k v) b = Inr b' \<and> Buffer_inv b' \<and>
      Buffer_content b' = be_bytes k v @ Buffer_content b \<and> k \<le> Buffer_readableBytes b' \<and>
      (\<exists>b''. Buffer_retrieve k b' = Inr b'' \<and> Buffer_content b'' = Buffer_content b)"
    if "k \<le> 8" for k v
  proof -
    have "k \<le> readIndex b" using that assms(2) by simp
    then obtain b' where b': "Buffer_prepend (be_bytes k v) b = Inr b'" "Buffer_inv b'"
      "Buffer_content b' = be_bytes k v @ Buffer_content b"
      using prepend_ok [OF assms(1), of "be_bytes k v"] by auto
    then have "k \<le> Buffer_readableBytes b'" using length_content [of b'] by simp
    with b' retrieve_ok [OF b'(2), of k] show ?thesis by auto
  qed
  show "\<exists>b'. Buffer_prependInt64 le x b = Inr b' \<and>
      Buffer_content b' = be_bytes 8 (unat x) @ Buffer_content b \<and>
      (\<exists>b''. Buffer_readUint64 le' b' = Inr (x, b'') \<and> Buffer_content b'' = Buffer_content b)"
    using read [of 8 "unat x"] by (auto simp: prependInt_bytes readUint_value be_value_word)
  show "\<exists>b'. Buffer_prependInt32 le y b = Inr b' \<and>
      Buffer_content b' = be_bytes 4 (unat y) @ Buffer_content b \<and>
      (\<exists>b''. Buffer_readUint32 le' b' = Inr (y, b'') \<and> Buffer_content b'' = Buffer_content b)"
    using read [of 4 "unat y"] by (auto simp: prependInt_bytes readUint_value be_value_word)
  show "\<exists>b'. Buffer_prependInt16 le z b = Inr b' \<and>
      Buffer_content b' = be_bytes 2 (unat z) @ Buffer_content b \<and>
      (\<exists>b''. Buffer_readUint16 le' b' = Inr (z, b'') \<and> Buffer_content b'' = Buffer_content b)"
    using read [of 2 "unat z"] by (auto simp: prependInt_bytes readUint_value be_value_word)
qed

theorem buffer_integer_roundtrip_witness:
  "\<exists>b' b''. Buffer_prependInt32 True 0x01020304 (buffer_of ''payload'') = Inr b' \<and>
    Buffer_readUint32 False b' = Inr (0x01020304, b'') \<and> Buffer_content b'' = ''payload''"
  using buffer_integer_roundtrip [of "buffer_of ''payload''" True 0 False "0x01020304" 0]
  by (auto simp: buffer_of_def kCheapPrepend_def Buffer_inv_def Buffer_content_def segment_def)

text \<open>
  \<open>findCRLF\<close> finds the first line end: the bytes before it, which contain none, the line end and the
  bytes after it make up the content; and it returns \<open>nullptr\<close> only when the content has no line end.
\<close>

theorem findCRLF_first_line:
  assumes "Buffer_inv b"
  shows "case Buffer_findCRLF b of
      None \<Rightarrow> \<not> sublist [CHR 0x0D, CHR 0x0A] (Buffer_content b)
    | Some p \<Rightarrow> readIndex b \<le> p \<and>
        Buffer_content b = Buffer_bytes (p - readIndex b) b @ [CHR 0x0D, CHR 0x0A]
          @ drop (p - readIndex b + 2) (Buffer_content b) \<and>
        \<not> sublist [CHR 0x0D, CHR 0x0A] (Buffer_bytes (p - readIndex b) b)"
proof (cases "search_crlf (Buffer_content b)")
  case None
  moreover from this have "\<not> sublist [CHR 0x0D, CHR 0x0A] (Buffer_content b)"
    by (simp add: search_crlf_None_iff sublist_def)
  ultimately show ?thesis by (simp add: findCRLF_content)
next
  case (Some k)
  from Some have "k \<le> Buffer_readableBytes b"
    using length_content [OF assms] by (simp add: search_crlf_Some_iff)
  then have "Buffer_bytes k b = take k (Buffer_content b)"
    by (rule Buffer_bytes_take [OF assms])
  moreover have "\<not> sublist [CHR 0x0D, CHR 0x0A] (take k (Buffer_content b))"
    using search_crlf_line(2) [OF Some] by (simp add: search_crlf_None_iff sublist_def)
  ultimately show ?thesis using search_crlf_line(1) [OF Some] Some by (simp add: findCRLF_content)
qed

theorem findCRLF_first_line_witness:
  "\<not> sublist [CHR 0x0D, CHR 0x0A] (Buffer_bytes 3 (buffer_of (''abc'' @ [CHR 0x0D, CHR 0x0A])))"
proof -
  have "Buffer_findCRLF (buffer_of (''abc'' @ [CHR 0x0D, CHR 0x0A])) = Some 11"
    by (simp add: findCRLF_content) (simp add: buffer_of_def kCheapPrepend_def)
  with findCRLF_first_line [of "buffer_of (''abc'' @ [CHR 0x0D, CHR 0x0A])"] show ?thesis
    by (simp add: buffer_of_def kCheapPrepend_def Buffer_inv_def)
qed

text \<open>
  A read from a descriptor appends exactly the bytes the kernel delivered, however they were
  scattered over the free space and the 64 KiB overflow array; a write to a descriptor removes exactly
  the bytes the kernel took from the front, and an error changes nothing.
\<close>

theorem buffer_descriptor_io:
  assumes "Buffer_inv b" and "n \<le> Buffer_readableBytes b"
  shows "(\<exists>b'. Buffer_readFd (Inr data) b = Inr (Inr (length data), b') \<and> Buffer_inv b' \<and>
      Buffer_content b' = Buffer_content b @ data) \<and>
    (\<exists>b'. Buffer_WriteFd (Inr n) b = Inr (Inr n, b') \<and> Buffer_inv b' \<and>
      Buffer_content b' = drop n (Buffer_content b)) \<and>
    Buffer_readFd (Inl e) b = Inr (Inl e, b) \<and> Buffer_WriteFd (Inl e) b = Inr (Inl e, b)"
  using readFd_ok [OF assms(1)] WriteFd_ok [OF assms]
  by (simp add: Buffer_readFd_def [of "Inl e"] Buffer_WriteFd_def [of "Inl e"])

theorem buffer_descriptor_io_witness:
  "\<exists>b'. Buffer_readFd (Inr ''world'') (buffer_of ''hello '') = Inr (Inr 5, b') \<and>
    Buffer_content b' = ''hello world''"
  using buffer_descriptor_io [of "buffer_of ''hello ''" 0 "''world''" EAGAIN] by (auto simp: eval_nat_numeral)

text \<open>
  \<open>ensureWriteable\<close> never fails and never changes the content; it reallocates only when the free
  space at both ends, less the reserved prefix, is too small, and otherwise moves the content downwards,
  the direction in which \<open>std::copy\<close> permits overlapping ranges.
\<close>

theorem ensureWriteable_makes_room:
  assumes "Buffer_inv b"
  shows "\<exists>b'. Buffer_ensureWriteable len b = Inr b' \<and> Buffer_inv b' \<and>
    Buffer_content b' = Buffer_content b \<and> len \<le> Buffer_writeableBytes b' \<and>
    (length (buff b') \<noteq> length (buff b) \<longrightarrow>
       length (buff b) < Buffer_readableBytes b + len + kCheapPrepend) \<and>
    (readIndex b' \<noteq> readIndex b \<longrightarrow> readIndex b' = kCheapPrepend \<and> readIndex b' < readIndex b)"
proof -
  obtain b' where b': "Buffer_ensureWriteable len b = Inr b'" "Buffer_inv b'"
    "Buffer_content b' = Buffer_content b" "len \<le> Buffer_writeableBytes b'"
    using ensureWriteable_ok [OF assms] by blast
  moreover from b'(1) assms have "length (buff b') \<noteq> length (buff b) \<longrightarrow>
      length (buff b) < Buffer_readableBytes b + len + kCheapPrepend"
    by (auto simp: Buffer_ensureWriteable_def Buffer_state_defs Let_def split: if_splits)
  moreover from b'(1) compaction_downwards [of b len] have
    "readIndex b' \<noteq> readIndex b \<longrightarrow> readIndex b' = kCheapPrepend \<and> readIndex b' < readIndex b"
    by (auto simp: Buffer_ensureWriteable_def Let_def split: if_splits)
  ultimately show ?thesis by blast
qed

theorem ensureWriteable_makes_room_witness:
  "\<exists>b'. Buffer_ensureWriteable 100 (buffer_of ''abc'') = Inr b' \<and> Buffer_content b' = ''abc''"
  using ensureWriteable_makes_room [of "buffer_of ''abc''" 100] by auto

end
