(* ===== verification/TimerQueue.thy ===== *)
theory TimerQueue
  imports Prelude
begin

text \<open>
  Timers and the timer queue of an event loop (\<open>net/Timestamp.h\<close>, \<open>net/Timer.h\<close>, \<open>net/Timer.cc\<close>,
  \<open>net/TimerId.h\<close>, \<open>net/TimerQueue.h\<close>, \<open>net/TimerQueue.cc\<close>).
  A \<open>Timer*\<close> is an address; \<open>theap\<close> holds the live \<open>Timer\<close> objects, so that \<open>delete\<close> and a read
  through a dangling pointer are visible: the latter is the fault \<open>UseAfterFree\<close>. A timestamp is its
  \<open>int64_t\<close> count of microseconds, taken as an integer (it stays far below \<open>2 ^ 63\<close>); a \<open>double\<close>
  number of seconds is a rational number. The clock readings are arguments.
\<close>

section \<open>Timestamps\<close>

type_synonym timestamp = int

definition Timestamp_invalid :: timestamp where
  "Timestamp_invalid = -1"

definition Timestamp_isValid :: "timestamp \<Rightarrow> bool" where
  "Timestamp_isValid t \<longleftrightarrow> t > 0"

definition Timestamp_differMicroSecond :: "timestamp \<Rightarrow> timestamp \<Rightarrow> int" where
  "Timestamp_differMicroSecond t rhs = \<bar>rhs - t\<bar>"

section \<open>Timers\<close>

text \<open>
  A \<open>std::function\<close> stored in a timer is named by the object it captures and the member function (with
  its bound argument) it calls.
\<close>

datatype closure = Closure nat nat

record timer =
  tcallback :: closure
  texpiration :: timestamp
  tinterval :: rat
  trepeat :: bool
  tsequence :: nat
  tcancelled :: bool

definition Timer_new :: "closure \<Rightarrow> timestamp \<Rightarrow> rat \<Rightarrow> nat \<Rightarrow> timer" where
  "Timer_new cb when interval numCreated =
    \<lparr>tcallback = cb, texpiration = when, tinterval = interval, trepeat = (interval > 0),
     tsequence = numCreated, tcancelled = False\<rparr>"

text \<open>\<open>static_cast<int64_t>(seconds * 1000000)\<close> truncates towards zero.\<close>

definition to_micro :: "rat \<Rightarrow> int" where
  "to_micro seconds =
    (if seconds \<ge> 0 then \<lfloor>seconds * 1000000\<rfloor> else \<lceil>seconds * 1000000\<rceil>)"

definition Timer_restart :: "timestamp \<Rightarrow> timer \<Rightarrow> timer" where
  "Timer_restart now t =
    (if trepeat t then t\<lparr>texpiration := now + to_micro (tinterval t)\<rparr>
     else t\<lparr>texpiration := Timestamp_invalid\<rparr>)"

record timer_id =
  tid_timer :: addr
  tid_sequence :: nat

definition TimerId_null :: timer_id where
  "TimerId_null = \<lparr>tid_timer = 0, tid_sequence = 0\<rparr>"

definition TimerId_valid :: "timer_id \<Rightarrow> bool" where
  "TimerId_valid i \<longleftrightarrow> tid_timer i \<noteq> 0"

section \<open>The queue\<close>

text \<open>
  \<open>timerfd\<close> records the last \<open>timerfd_settime\<close> that has not fired: the time of the call and the
  \<open>it_value\<close>. \<open>fired\<close> is not in the code: it logs the sequence numbers of the callbacks run.
\<close>

record timer_queue =
  theap :: "addr \<Rightarrow> timer option"
  timers :: "(timestamp \<times> addr) list"
  activeTimers :: "(nat \<times> addr) set"
  cancelligTimer :: "(nat \<times> addr) set"
  handleTimer :: bool
  timerfd :: "(timestamp \<times> int \<times> int) option"
  numCreated :: nat
  fired :: "nat list"

definition TimerQueue_new :: timer_queue where
  "TimerQueue_new =
    \<lparr>theap = (\<lambda>_. None), timers = [], activeTimers = {}, cancelligTimer = {},
     handleTimer = False, timerfd = None, numCreated = 0, fired = []\<rparr>"

text \<open>\<open>Entry::operator<\<close>, by which \<open>timers\<close> is sorted: it is the order on pairs.\<close>

definition Entry_less :: "timestamp \<times> addr \<Rightarrow> timestamp \<times> addr \<Rightarrow> bool" where
  "Entry_less x y =
    (if fst x \<noteq> fst y then fst x < fst y else snd x < snd y)"

lemma Entry_less_iff: "Entry_less x y \<longleftrightarrow> x < y"
  by (cases x; cases y) (auto simp: Entry_less_def)

definition UINTPTR_MAX :: nat where
  "UINTPTR_MAX = 2 ^ 64 - 1"

definition howMuchTimeFromNow :: "timestamp \<Rightarrow> timestamp \<Rightarrow> int \<times> int" where
  "howMuchTimeFromNow now when =
    (let micro = when - now;
         micro = (if micro < 100 then 100 else micro)
     in (micro div 1000000, (micro mod 1000000) * 1000))"

definition TimerQueue_resetTimerFd :: "timestamp \<Rightarrow> timestamp \<Rightarrow> timer_queue \<Rightarrow> timer_queue" where
  "TimerQueue_resetTimerFd now expiration q =
    q\<lparr>timerfd := Some (now, howMuchTimeFromNow now expiration)\<rparr>"

definition TimerQueue_addTimerInLoop :: "timestamp \<Rightarrow> addr \<Rightarrow> timer_queue \<Rightarrow> timer_queue res" where
  "TimerQueue_addTimerInLoop now a q =
    (case theap q a of
       None \<Rightarrow> Inl UseAfterFree
     | Some t \<Rightarrow>
         (let expiration = texpiration t;
              earliestChanged = (timers q = [] \<or> expiration < fst (hd (timers q)));
              q = q\<lparr>timers := sins (expiration, a) (timers q),
                    activeTimers := insert (tsequence t, a) (activeTimers q)\<rparr>
          in Inr (if earliestChanged then TimerQueue_resetTimerFd now expiration q else q)))"

definition TimerQueue_cancelInLoop :: "timer_id \<Rightarrow> timer_queue \<Rightarrow> timer_queue res" where
  "TimerQueue_cancelInLoop i q =
    (let key = (tid_sequence i, tid_timer i) in
     if key \<in> activeTimers q then
       (case theap q (tid_timer i) of
          None \<Rightarrow> Inl UseAfterFree
        | Some t \<Rightarrow>
            Inr (q\<lparr>timers := sdel (texpiration t, tid_timer i) (timers q),
                   activeTimers := activeTimers q - {(tsequence t, tid_timer i)},
                   theap := (theap q)(tid_timer i := None)\<rparr>))
     else if handleTimer q then Inr (q\<lparr>cancelligTimer := insert key (cancelligTimer q)\<rparr>)
     else Inr q)"

text \<open>
  \<open>addTimer\<close> and \<open>cancel\<close> run the in-loop part at once in the loop's thread and post it to the loop
  otherwise. \<open>a\<close> is the address that \<open>new Timer\<close> returned.
\<close>

datatype tq_task = AddTimerTask addr | CancelTask timer_id

definition TimerQueue_addTimer ::
  "bool \<Rightarrow> timestamp \<Rightarrow> addr \<Rightarrow> closure \<Rightarrow> timestamp \<Rightarrow> rat \<Rightarrow> timer_queue
    \<Rightarrow> (timer_id \<times> tq_task list \<times> timer_queue) res" where
  "TimerQueue_addTimer inThread now a cb when interval q =
    (let t = Timer_new cb when interval (numCreated q);
         q = q\<lparr>theap := (theap q)(a := Some t), numCreated := numCreated q + 1\<rparr>;
         timerId = \<lparr>tid_timer = a, tid_sequence = tsequence t\<rparr>
     in if inThread then
          rbind (TimerQueue_addTimerInLoop now a q) (\<lambda>q. Inr (timerId, [], q))
        else Inr (timerId, [AddTimerTask a], q))"

definition TimerQueue_cancel ::
  "bool \<Rightarrow> timer_id \<Rightarrow> timer_queue \<Rightarrow> (tq_task list \<times> timer_queue) res" where
  "TimerQueue_cancel inThread i q =
    (if inThread then rbind (TimerQueue_cancelInLoop i q) (\<lambda>q. Inr ([], q))
     else Inr ([CancelTask i], q))"

fun TimerQueue_runTask :: "timestamp \<Rightarrow> tq_task \<Rightarrow> timer_queue \<Rightarrow> timer_queue res" where
  "TimerQueue_runTask now (AddTimerTask a) q = TimerQueue_addTimerInLoop now a q"
| "TimerQueue_runTask now (CancelTask i) q = TimerQueue_cancelInLoop i q"

section \<open>Expiry\<close>

definition TimerQueue_getExpired ::
  "timestamp \<Rightarrow> timer_queue \<Rightarrow> ((timestamp \<times> addr) list \<times> timer_queue) res" where
  "TimerQueue_getExpired now q =
    (let sentry = (now, UINTPTR_MAX);
         it = dropWhile (\<lambda>e. e < sentry) (timers q);
         expired = takeWhile (\<lambda>e. e < sentry) (timers q)
     in if \<not> (it = [] \<or> now < fst (hd it)) then Inl AssertFailed
        else rbind
          (rfold (\<lambda>(e, a) q.
             (case theap q a of
                None \<Rightarrow> Inl UseAfterFree
              | Some t \<Rightarrow> Inr (q\<lparr>activeTimers := activeTimers q - {(tsequence t, a)}\<rparr>)))
             expired q)
          (\<lambda>q. Inr (expired, q\<lparr>timers := it\<rparr>)))"

definition TimerQueue_resetEntry ::
  "timestamp \<Rightarrow> timestamp \<times> addr \<Rightarrow> timer_queue \<Rightarrow> timer_queue res" where
  "TimerQueue_resetEntry now entry q =
    (let a = snd entry in
     case theap q a of
       None \<Rightarrow> Inl UseAfterFree
     | Some t \<Rightarrow>
         (let key = (tsequence t, a) in
          if key \<in> cancelligTimer q then Inr (q\<lparr>theap := (theap q)(a := None)\<rparr>)
          else if tcancelled t then Inr (q\<lparr>theap := (theap q)(a := None)\<rparr>)
          else if trepeat t then
            (let t = Timer_restart now t
             in Inr (q\<lparr>theap := (theap q)(a := Some t),
                       timers := sins (texpiration t, a) (timers q),
                       activeTimers := insert (tsequence t, a) (activeTimers q)\<rparr>))
          else Inr (q\<lparr>theap := (theap q)(a := None)\<rparr>)))"

definition TimerQueue_reset ::
  "timestamp \<Rightarrow> (timestamp \<times> addr) list \<Rightarrow> timestamp \<Rightarrow> timer_queue \<Rightarrow> timer_queue res" where
  "TimerQueue_reset now' expired now q =
    rbind (rfold (TimerQueue_resetEntry now) expired q) (\<lambda>q.
      Inr (if timers q \<noteq> [] then TimerQueue_resetTimerFd now' (fst (hd (timers q))) q else q))"

text \<open>
  A callback is code of the client. Its effect on the queue is the sequence of \<open>addTimer\<close> and
  \<open>cancel\<close> calls it makes in the loop's thread, which \<open>acts\<close> gives for a callback and the state it
  starts in.
\<close>

datatype tq_op = AddTimer timestamp addr closure timestamp rat | CancelTimer timer_id

fun TimerQueue_apply :: "tq_op \<Rightarrow> timer_queue \<Rightarrow> timer_queue res" where
  "TimerQueue_apply (AddTimer now a cb when interval) q =
    rbind (TimerQueue_addTimer True now a cb when interval q) (\<lambda>(i, ts, q). Inr q)"
| "TimerQueue_apply (CancelTimer i) q =
    rbind (TimerQueue_cancel True i q) (\<lambda>(ts, q). Inr q)"

definition TimerQueue_runEntry ::
  "(closure \<Rightarrow> timer_queue \<Rightarrow> tq_op list) \<Rightarrow> timestamp \<times> addr \<Rightarrow> timer_queue \<Rightarrow> timer_queue res" where
  "TimerQueue_runEntry acts entry q =
    (case theap q (snd entry) of
       None \<Rightarrow> Inl UseAfterFree
     | Some t \<Rightarrow>
         if tcancelled t then Inr q
         else (let q = q\<lparr>fired := fired q @ [tsequence t]\<rparr>
               in rfold TimerQueue_apply (acts (tcallback t) q) q))"

text \<open>
  \<open>handleRead\<close>: \<open>readOk\<close> tells whether \<open>read(timerfd)\<close> delivered an expiration (which means the
  timer has fired and is disarmed) or failed with \<open>EAGAIN\<close>; \<open>now\<close> and \<open>now'\<close> are the clock
  readings at the start and in \<open>reset\<close>.
\<close>

definition TimerQueue_handleRead ::
  "(closure \<Rightarrow> timer_queue \<Rightarrow> tq_op list) \<Rightarrow> bool \<Rightarrow> timestamp \<Rightarrow> timestamp \<Rightarrow> timer_queue
    \<Rightarrow> timer_queue res" where
  "TimerQueue_handleRead acts readOk now now' q =
    (let q = (if readOk then q\<lparr>timerfd := None\<rparr> else q);
         q = q\<lparr>handleTimer := True\<rparr>
     in rbind (TimerQueue_getExpired now q) (\<lambda>(expired, q).
        rbind (rfold (TimerQueue_runEntry acts) expired q) (\<lambda>q.
        rbind (TimerQueue_reset now' expired now (q\<lparr>handleTimer := False\<rparr>)) (\<lambda>q.
        Inr (q\<lparr>cancelligTimer := {}\<rparr>)))))"

text \<open>The destructor frees every timer that is still registered.\<close>

definition TimerQueue_destroy :: "timer_queue \<Rightarrow> timer_queue" where
  "TimerQueue_destroy q =
    q\<lparr>theap := (\<lambda>a. if a \<in> snd ` set (timers q) then None else theap q a),
      timers := [], activeTimers := {}\<rparr>"

section \<open>Invariant\<close>

text \<open>
  \<open>E\<close> is the set of timers taken out of the queue by \<open>getExpired\<close> and not yet handled by \<open>reset\<close>;
  outside \<open>handleRead\<close> it is empty. Every other live timer is registered, once in \<open>timers\<close> under its
  expiration and once in \<open>activeTimers\<close> under its sequence number, and nothing else is registered.
\<close>

definition TimerQueue_inv :: "addr set \<Rightarrow> timer_queue \<Rightarrow> bool" where
  "TimerQueue_inv E q \<longleftrightarrow>
    sorted_wrt (<) (timers q) \<and>
    (\<forall>e a. (e, a) \<in> set (timers q) \<longleftrightarrow> a \<notin> E \<and> map_option texpiration (theap q a) = Some e) \<and>
    (\<forall>n a. (n, a) \<in> activeTimers q \<longleftrightarrow> a \<notin> E \<and> map_option tsequence (theap q a) = Some n) \<and>
    E \<subseteq> dom (theap q) \<and>
    (\<forall>a t. theap q a = Some t \<longrightarrow>
      0 < a \<and> a < UINTPTR_MAX \<and> tsequence t < numCreated q \<and> \<not> tcancelled t) \<and>
    (\<forall>a b t u. theap q a = Some t \<longrightarrow> theap q b = Some u \<longrightarrow> tsequence t = tsequence u \<longrightarrow> a = b)"

text \<open>When timers are registered, the timerfd fires no later than the earliest of them is due (or 100
  microseconds after it was set, the least delay the code asks for).\<close>

definition micros :: "int \<times> int \<Rightarrow> int" where
  "micros ts = fst ts * 1000000 + snd ts div 1000"

definition TimerQueue_armed :: "timer_queue \<Rightarrow> bool" where
  "TimerQueue_armed q \<longleftrightarrow>
    (timers q \<noteq> [] \<longrightarrow>
      (\<exists>n0 w. timerfd q = Some (n0, w) \<and> n0 + micros w \<le> max (fst (hd (timers q))) (n0 + 100)))"

text \<open>\<open>new\<close> returns the address of no live object, neither null nor the last address.\<close>

fun op_legal :: "tq_op \<Rightarrow> timer_queue \<Rightarrow> bool" where
  "op_legal (AddTimer now a cb when interval) q \<longleftrightarrow> theap q a = None \<and> 0 < a \<and> a < UINTPTR_MAX"
| "op_legal (CancelTimer i) q \<longleftrightarrow> True"

fun ops_legal :: "tq_op list \<Rightarrow> timer_queue \<Rightarrow> bool" where
  "ops_legal [] q = True"
| "ops_legal (x # xs) q \<longleftrightarrow>
    op_legal x q \<and> (case TimerQueue_apply x q of Inl e \<Rightarrow> True | Inr q' \<Rightarrow> ops_legal xs q')"

definition callbacks_legal :: "(closure \<Rightarrow> timer_queue \<Rightarrow> tq_op list) \<Rightarrow> bool" where
  "callbacks_legal acts \<longleftrightarrow> (\<forall>c E q. TimerQueue_inv E q \<longrightarrow> ops_legal (acts c q) q)"

lemma TimerQueue_new_inv: "TimerQueue_inv {} TimerQueue_new"
  by (simp add: TimerQueue_inv_def TimerQueue_new_def)

lemma TimerQueue_new_armed: "TimerQueue_armed TimerQueue_new"
  by (simp add: TimerQueue_armed_def TimerQueue_new_def)

lemma howMuchTimeFromNow_micros: "micros (howMuchTimeFromNow now when) = max 100 (when - now)"
proof -
  have "m div 1000000 * 1000000 + (m mod 1000000 * 1000) div 1000 = m" for m :: int
    by simp
  then show ?thesis
    by (auto simp: micros_def howMuchTimeFromNow_def Let_def)
qed

lemma howMuchTimeFromNow_nsec:
  "0 \<le> snd (howMuchTimeFromNow now when) \<and> snd (howMuchTimeFromNow now when) < 1000000000"
  "0 \<le> fst (howMuchTimeFromNow now when)"
  by (auto simp: howMuchTimeFromNow_def Let_def)

lemma resetTimerFd_fields [simp]:
  "theap (TimerQueue_resetTimerFd now e q) = theap q"
  "timers (TimerQueue_resetTimerFd now e q) = timers q"
  "activeTimers (TimerQueue_resetTimerFd now e q) = activeTimers q"
  "cancelligTimer (TimerQueue_resetTimerFd now e q) = cancelligTimer q"
  "handleTimer (TimerQueue_resetTimerFd now e q) = handleTimer q"
  "numCreated (TimerQueue_resetTimerFd now e q) = numCreated q"
  "fired (TimerQueue_resetTimerFd now e q) = fired q"
  by (simp_all add: TimerQueue_resetTimerFd_def)

lemma resetTimerFd_inv [simp]: "TimerQueue_inv E (TimerQueue_resetTimerFd now e q) = TimerQueue_inv E q"
  by (simp add: TimerQueue_inv_def)

lemma TimerQueue_inv_frame [simp]:
  "TimerQueue_inv E (q\<lparr>cancelligTimer := C\<rparr>) = TimerQueue_inv E q"
  "TimerQueue_inv E (q\<lparr>handleTimer := b\<rparr>) = TimerQueue_inv E q"
  "TimerQueue_inv E (q\<lparr>timerfd := w\<rparr>) = TimerQueue_inv E q"
  "TimerQueue_inv E (q\<lparr>fired := f\<rparr>) = TimerQueue_inv E q"
  by (simp_all add: TimerQueue_inv_def)

lemma TimerQueue_armed_frame [simp]:
  "TimerQueue_armed (q\<lparr>cancelligTimer := C\<rparr>) = TimerQueue_armed q"
  "TimerQueue_armed (q\<lparr>handleTimer := b\<rparr>) = TimerQueue_armed q"
  "TimerQueue_armed (q\<lparr>fired := f\<rparr>) = TimerQueue_armed q"
  by (simp_all add: TimerQueue_armed_def)

lemma resetTimerFd_armed [simp]: "TimerQueue_armed (TimerQueue_resetTimerFd now (fst (hd (timers q))) q)"
  by (auto simp: TimerQueue_armed_def TimerQueue_resetTimerFd_def howMuchTimeFromNow_micros)

section \<open>Adding and cancelling\<close>

lemma TimerQueue_invD:
  assumes "TimerQueue_inv E q"
  shows "sorted_wrt (<) (timers q)"
    and "(e, a) \<in> set (timers q) \<longleftrightarrow> a \<notin> E \<and> map_option texpiration (theap q a) = Some e"
    and "(n, a) \<in> activeTimers q \<longleftrightarrow> a \<notin> E \<and> map_option tsequence (theap q a) = Some n"
    and "E \<subseteq> dom (theap q)"
    and "theap q a = Some t \<Longrightarrow> 0 < a \<and> a < UINTPTR_MAX \<and> tsequence t < numCreated q \<and> \<not> tcancelled t"
    and "theap q a = Some t \<Longrightarrow> theap q b = Some u \<Longrightarrow> tsequence t = tsequence u \<Longrightarrow> a = b"
  using assms by (auto simp: TimerQueue_inv_def)

text \<open>Putting a live timer of \<open>E\<close> (back) into the queue.\<close>

lemma register_inv:
  assumes inv: "TimerQueue_inv E q" and a: "a \<in> E" "theap q a = Some u"
    and t: "tsequence t = tsequence u" "tcancelled t = tcancelled u"
  shows "TimerQueue_inv (E - {a})
    (q\<lparr>theap := (theap q)(a := Some t), timers := sins (texpiration t, a) (timers q),
       activeTimers := insert (tsequence t, a) (activeTimers q)\<rparr>)"
  unfolding TimerQueue_inv_def
proof (intro conjI, goal_cases)
  case 1
  show ?case using TimerQueue_invD(1) [OF inv] by (simp add: sorted_sins)
next
  case 2
  show ?case using TimerQueue_invD(2) [OF inv] a by auto
next
  case 3
  show ?case using TimerQueue_invD(3) [OF inv] a t by auto
next
  case 4
  show ?case using TimerQueue_invD(4) [OF inv] by auto
next
  case 5
  show ?case using TimerQueue_invD(5) [OF inv] a t by auto
next
  case 6
  show ?case using TimerQueue_invD(6) [OF inv] a t by (auto split: if_splits)
qed

text \<open>Deleting a live timer that the queue does not hold.\<close>

lemma delete_inv:
  assumes inv: "TimerQueue_inv E q" and "a \<in> E"
  shows "TimerQueue_inv (E - {a}) (q\<lparr>theap := (theap q)(a := None)\<rparr>)"
  using assms unfolding TimerQueue_inv_def by auto

lemma allocate_inv:
  assumes inv: "TimerQueue_inv E q" and fresh: "theap q a = None" "0 < a" "a < UINTPTR_MAX"
  shows "TimerQueue_inv (insert a E)
    (q\<lparr>theap := (theap q)(a := Some (Timer_new cb when interval (numCreated q))),
       numCreated := numCreated q + 1\<rparr>)"
  unfolding TimerQueue_inv_def
proof (intro conjI, goal_cases)
  case 1
  show ?case using TimerQueue_invD(1) [OF inv] by simp
next
  case 2
  show ?case using TimerQueue_invD(2) [OF inv] fresh by auto
next
  case 3
  show ?case using TimerQueue_invD(3) [OF inv] fresh by auto
next
  case 4
  show ?case using TimerQueue_invD(4) [OF inv] by auto
next
  case 5
  show ?case using TimerQueue_invD(5) [OF inv] fresh
    by (auto simp: Timer_new_def less_Suc_eq split: if_splits)
next
  case 6
  have "tsequence t < numCreated q" if "theap q b = Some t" for b t
    using TimerQueue_invD(5) [OF inv that] by simp
  then have "numCreated q \<noteq> tsequence t" if "theap q b = Some t" for b t
    using that by (metis less_irrefl)
  with TimerQueue_invD(6) [OF inv] show ?case
    by (auto simp: Timer_new_def split: if_splits) metis+
qed

lemma addTimerInLoop_ok:
  assumes inv: "TimerQueue_inv E q" and a: "a \<in> E" "theap q a = Some t"
  shows "\<exists>q'. TimerQueue_addTimerInLoop now a q = Inr q' \<and> TimerQueue_inv (E - {a}) q' \<and>
    theap q' = theap q \<and> (TimerQueue_armed q \<longrightarrow> TimerQueue_armed q') \<and>
    handleTimer q' = handleTimer q \<and> cancelligTimer q' = cancelligTimer q \<and> fired q' = fired q"
proof -
  let ?q = "q\<lparr>timers := sins (texpiration t, a) (timers q),
              activeTimers := insert (tsequence t, a) (activeTimers q)\<rparr>"
  have "TimerQueue_inv (E - {a}) ?q"
    using register_inv [OF inv a refl refl] a by (simp add: fun_upd_idem)
  moreover have "TimerQueue_armed (TimerQueue_resetTimerFd now (texpiration t) ?q)"
    if "timers q = [] \<or> texpiration t < fst (hd (timers q))"
  proof -
    have "fst (hd (timers ?q)) = texpiration t"
      using that by (cases "timers q") (auto simp: hd_sins)
    then show ?thesis using resetTimerFd_armed [of now ?q] by simp
  qed
  moreover have "TimerQueue_armed ?q"
    if "\<not> (timers q = [] \<or> texpiration t < fst (hd (timers q)))" "TimerQueue_armed q"
  proof -
    have "fst (hd (timers ?q)) = fst (hd (timers q))"
      using that by (cases "timers q") (auto simp: hd_sins)
    with that show ?thesis by (auto simp: TimerQueue_armed_def)
  qed
  ultimately show ?thesis
    using a by (auto simp: TimerQueue_addTimerInLoop_def Let_def)
qed

lemma cancelInLoop_ok:
  assumes inv: "TimerQueue_inv E q"
  shows "\<exists>q'. TimerQueue_cancelInLoop i q = Inr q' \<and> TimerQueue_inv E q' \<and>
    (\<forall>a \<in> E. theap q' a = theap q a) \<and> (TimerQueue_armed q \<longrightarrow> TimerQueue_armed q') \<and>
    handleTimer q' = handleTimer q \<and> cancelligTimer q \<subseteq> cancelligTimer q' \<and>
    (\<not> handleTimer q \<longrightarrow> cancelligTimer q' = cancelligTimer q) \<and> fired q' = fired q"
proof (cases "(tid_sequence i, tid_timer i) \<in> activeTimers q")
  case True
  let ?a = "tid_timer i"
  from True TimerQueue_invD(3) [OF inv] obtain t
    where t: "theap q ?a = Some t" "tsequence t = tid_sequence i" "?a \<notin> E" by auto
  let ?q = "q\<lparr>timers := sdel (texpiration t, ?a) (timers q),
              activeTimers := activeTimers q - {(tsequence t, ?a)},
              theap := (theap q)(?a := None)\<rparr>"
  have "TimerQueue_inv E ?q"
    unfolding TimerQueue_inv_def
  proof (intro conjI, goal_cases)
    case 1
    show ?case using TimerQueue_invD(1) [OF inv] by (simp add: sorted_sdel)
  next
    case 2
    show ?case using TimerQueue_invD(2) [OF inv] t by auto
  next
    case 3
    show ?case using TimerQueue_invD(3) [OF inv] t by auto
  next
    case 4
    show ?case using TimerQueue_invD(4) [OF inv] t by auto
  next
    case 5
    show ?case using TimerQueue_invD(5) [OF inv] by auto
  next
    case 6
    show ?case using TimerQueue_invD(6) [OF inv] by (auto split: if_splits)
  qed
  moreover have "TimerQueue_armed ?q" if "TimerQueue_armed q"
  proof (cases "timers ?q = []")
    case False
    then have "hd (timers ?q) \<in> set (timers q)"
      using hd_in_set [OF False] by simp
    then have "hd (timers q) \<le> hd (timers ?q)" and "timers q \<noteq> []"
      using hd_least [OF TimerQueue_invD(1) [OF inv]] by auto
    then have "fst (hd (timers q)) \<le> fst (hd (timers ?q))"
      by (auto simp: less_eq_prod_def)
    with that \<open>timers q \<noteq> []\<close> show ?thesis by (fastforce simp: TimerQueue_armed_def)
  qed (simp add: TimerQueue_armed_def)
  ultimately show ?thesis
    using True t by (auto simp: TimerQueue_cancelInLoop_def Let_def)
next
  case False
  then show ?thesis
    using inv by (auto simp: TimerQueue_cancelInLoop_def Let_def TimerQueue_inv_def TimerQueue_armed_def)
qed

text \<open>
  What one call by a callback keeps: the invariant, the timers being handled, the flag, and the
  registrations of cancelled keys.
\<close>

definition keeps :: "addr set \<Rightarrow> timer_queue \<Rightarrow> timer_queue \<Rightarrow> bool" where
  "keeps E q q' \<longleftrightarrow>
    TimerQueue_inv E q' \<and> (\<forall>a \<in> E. theap q' a = theap q a) \<and>
    (TimerQueue_armed q \<longrightarrow> TimerQueue_armed q') \<and> handleTimer q' = handleTimer q \<and>
    cancelligTimer q \<subseteq> cancelligTimer q' \<and>
    (\<not> handleTimer q \<longrightarrow> cancelligTimer q' = cancelligTimer q) \<and> fired q' = fired q"

lemma keeps_refl: "TimerQueue_inv E q \<Longrightarrow> keeps E q q"
  by (simp add: keeps_def)

lemma keeps_trans: "keeps E q q' \<Longrightarrow> keeps E q' q'' \<Longrightarrow> keeps E q q''"
  by (auto simp: keeps_def)

lemma apply_ok:
  assumes inv: "TimerQueue_inv E q" and legal: "op_legal x q"
  shows "\<exists>q'. TimerQueue_apply x q = Inr q' \<and> keeps E q q'"
proof (cases x)
  case (AddTimer now a cb w i)
  let ?t = "Timer_new cb w i (numCreated q)"
  let ?q = "q\<lparr>theap := (theap q)(a := Some ?t), numCreated := numCreated q + 1\<rparr>"
  from legal AddTimer have fresh: "theap q a = None" "0 < a" "a < UINTPTR_MAX" by simp_all
  have a: "a \<notin> E" using TimerQueue_invD(4) [OF inv] fresh by auto
  have q: "TimerQueue_inv (insert a E) ?q" by (rule allocate_inv [OF inv fresh])
  obtain q' where "TimerQueue_addTimerInLoop now a ?q = Inr q'" "TimerQueue_inv (insert a E - {a}) q'"
    "theap q' = theap ?q" "TimerQueue_armed ?q \<longrightarrow> TimerQueue_armed q'"
    "handleTimer q' = handleTimer ?q" "cancelligTimer q' = cancelligTimer ?q" "fired q' = fired ?q"
    using addTimerInLoop_ok [OF q, of a ?t now] by auto
  with a AddTimer show ?thesis
    by (auto simp: TimerQueue_addTimer_def Let_def keeps_def TimerQueue_armed_def)
next
  case (CancelTimer i)
  with cancelInLoop_ok [OF inv, of i] show ?thesis
    by (auto simp: TimerQueue_cancel_def keeps_def)
qed

lemma apply_all_ok:
  "TimerQueue_inv E q \<Longrightarrow> ops_legal xs q \<Longrightarrow>
    \<exists>q'. rfold TimerQueue_apply xs q = Inr q' \<and> keeps E q q'"
proof (induction xs arbitrary: q)
  case (Cons x xs)
  then obtain q1 where q1: "TimerQueue_apply x q = Inr q1" "keeps E q q1"
    using apply_ok by (metis ops_legal.simps(2))
  with Cons.prems(2) have "ops_legal xs q1" by simp
  with Cons.IH [of q1] q1 obtain q2 where "rfold TimerQueue_apply xs q1 = Inr q2" "keeps E q1 q2"
    by (auto simp: keeps_def)
  with q1 show ?case by (auto intro: keeps_trans)
qed (simp add: keeps_refl)

section \<open>\<open>handleRead\<close>\<close>

text \<open>The callbacks of the expired timers: none of them has been freed in the meantime.\<close>

lemma runEntry_ok:
  assumes inv: "TimerQueue_inv E q" and legal: "callbacks_legal acts"
    and a: "a \<in> E" "theap q a = Some t"
  shows "\<exists>q'. TimerQueue_runEntry acts (e, a) q = Inr q' \<and>
    keeps E (q\<lparr>fired := fired q @ [tsequence t]\<rparr>) q'"
proof -
  have "\<not> tcancelled t" using TimerQueue_invD(5) [OF inv a(2)] by simp
  moreover have "TimerQueue_inv E (q\<lparr>fired := fired q @ [tsequence t]\<rparr>)"
    using inv by (simp add: TimerQueue_inv_def)
  ultimately show ?thesis
    using apply_all_ok [of E "q\<lparr>fired := fired q @ [tsequence t]\<rparr>"
        "acts (tcallback t) (q\<lparr>fired := fired q @ [tsequence t]\<rparr>)"] legal a
    by (auto simp: TimerQueue_runEntry_def callbacks_legal_def Let_def)
qed

lemma runEntries_ok:
  assumes "TimerQueue_inv E q" and "callbacks_legal acts" and "snd ` set es \<subseteq> E"
    and "\<forall>a \<in> E. theap q a = h a"
  shows "\<exists>q'. rfold (TimerQueue_runEntry acts) es q = Inr q' \<and> TimerQueue_inv E q' \<and>
    (\<forall>a \<in> E. theap q' a = h a) \<and> handleTimer q' = handleTimer q \<and>
    cancelligTimer q \<subseteq> cancelligTimer q' \<and>
    fired q' = fired q @ map (\<lambda>(e, a). tsequence (the (h a))) es"
  using assms
proof (induction es arbitrary: q)
  case (Cons p es)
  obtain e a where p: "p = (e, a)" by (cases p)
  with Cons.prems have a: "a \<in> E" by auto
  with TimerQueue_invD(4) [OF Cons.prems(1)] obtain t where t: "theap q a = Some t" by auto
  obtain q1 where q1: "TimerQueue_runEntry acts (e, a) q = Inr q1"
    "keeps E (q\<lparr>fired := fired q @ [tsequence t]\<rparr>) q1"
    using runEntry_ok [OF Cons.prems(1,2) a t] by blast
  have h: "h a = Some t" using Cons.prems(4) a t by metis
  from q1 Cons.prems have inv1: "TimerQueue_inv E q1" "\<forall>a \<in> E. theap q1 a = h a"
    "handleTimer q1 = handleTimer q" "cancelligTimer q \<subseteq> cancelligTimer q1"
    "fired q1 = fired q @ [tsequence t]"
    by (auto simp: keeps_def)
  from Cons.IH [OF inv1(1) Cons.prems(2) _ inv1(2)] Cons.prems(3)
  obtain q2 where "rfold (TimerQueue_runEntry acts) es q1 = Inr q2" "TimerQueue_inv E q2"
    "\<forall>a \<in> E. theap q2 a = h a" "handleTimer q2 = handleTimer q1"
    "cancelligTimer q1 \<subseteq> cancelligTimer q2"
    "fired q2 = fired q1 @ map (\<lambda>(e, a). tsequence (the (h a))) es"
    by auto
  with q1(1) p inv1 h show ?case by auto
qed simp

text \<open>Taking the due timers out of the queue.\<close>

definition due :: "timestamp \<Rightarrow> (timestamp \<times> addr) list \<Rightarrow> (timestamp \<times> addr) list" where
  "due now ts = filter (\<lambda>e. fst e \<le> now) ts"

lemma due_sentry:
  assumes inv: "TimerQueue_inv E q"
  shows "takeWhile (\<lambda>e. e < (now, UINTPTR_MAX)) (timers q) = due now (timers q)"
    and "dropWhile (\<lambda>e. e < (now, UINTPTR_MAX)) (timers q) = filter (\<lambda>e. now < fst e) (timers q)"
proof -
  have "e < (now, UINTPTR_MAX) \<longleftrightarrow> fst e \<le> now" if e: "e \<in> set (timers q)" for e
  proof (cases e)
    case (Pair x a)
    with e TimerQueue_invD(2) [OF inv] TimerQueue_invD(5) [OF inv] have "a < UINTPTR_MAX" by auto
    with Pair show ?thesis by (auto simp: less_prod_def)
  qed
  then have "filter (\<lambda>e. e < (now, UINTPTR_MAX)) (timers q) = due now (timers q)"
    and "filter (\<lambda>e. \<not> e < (now, UINTPTR_MAX)) (timers q) = filter (\<lambda>e. now < fst e) (timers q)"
    unfolding due_def by (auto intro!: filter_cong simp: not_le)
  then show "takeWhile (\<lambda>e. e < (now, UINTPTR_MAX)) (timers q) = due now (timers q)"
    and "dropWhile (\<lambda>e. e < (now, UINTPTR_MAX)) (timers q) = filter (\<lambda>e. now < fst e) (timers q)"
    using sorted_split [OF TimerQueue_invD(1) [OF inv], of "(now, UINTPTR_MAX)"] by metis+
qed

lemma deactivate_ok:
  assumes "\<forall>p \<in> set es. theap q (snd p) \<noteq> None"
  shows "rfold (\<lambda>(e, a) q. (case theap q a of None \<Rightarrow> Inl UseAfterFree
      | Some t \<Rightarrow> Inr (q\<lparr>activeTimers := activeTimers q - {(tsequence t, a)}\<rparr>))) es q
    = Inr (q\<lparr>activeTimers := activeTimers q - (\<lambda>(e, a). (tsequence (the (theap q a)), a)) ` set es\<rparr>)"
  using assms
proof (induction es arbitrary: q)
  case (Cons p es)
  obtain e a where p: "p = (e, a)" by (cases p)
  with Cons.prems obtain t where t: "theap q a = Some t" by auto
  let ?q = "q\<lparr>activeTimers := activeTimers q - {(tsequence t, a)}\<rparr>"
  from Cons.prems have "\<forall>p \<in> set es. theap ?q (snd p) \<noteq> None" by auto
  note IH = Cons.IH [OF this]
  have "A - {x} - B = A - insert x B" for A B :: "(nat \<times> addr) set" and x by auto
  with IH p t show ?case by simp
qed simp

lemma getExpired_ok:
  assumes inv: "TimerQueue_inv {} q"
  shows "\<exists>q'. TimerQueue_getExpired now q = Inr (due now (timers q), q') \<and>
    TimerQueue_inv (snd ` set (due now (timers q))) q' \<and> theap q' = theap q \<and>
    timers q' = filter (\<lambda>e. now < fst e) (timers q) \<and> timerfd q' = timerfd q \<and>
    handleTimer q' = handleTimer q \<and> cancelligTimer q' = cancelligTimer q \<and> fired q' = fired q"
proof -
  let ?D = "due now (timers q)" and ?R = "filter (\<lambda>e. now < fst e) (timers q)"
  let ?E = "snd ` set ?D"
  let ?q = "q\<lparr>activeTimers := activeTimers q - (\<lambda>(e, a). (tsequence (the (theap q a)), a)) ` set ?D,
              timers := ?R\<rparr>"
  have live: "\<forall>p \<in> set ?D. theap q (snd p) \<noteq> None"
    using TimerQueue_invD(2) [OF inv] by (auto simp: due_def)
  have E: "a \<in> ?E \<longleftrightarrow> (\<exists>t. theap q a = Some t \<and> texpiration t \<le> now)" for a
    using TimerQueue_invD(2) [OF inv] by (force simp: due_def)
  have "?R = [] \<or> now < fst (hd ?R)"
    using hd_in_set [of ?R] by auto
  then have "TimerQueue_getExpired now q = Inr (?D, ?q)"
    using deactivate_ok [OF live]
    unfolding TimerQueue_getExpired_def due_sentry [OF inv] Let_def by simp
  moreover have "TimerQueue_inv ?E ?q"
    unfolding TimerQueue_inv_def
  proof (intro conjI, goal_cases)
    case 1
    show ?case using TimerQueue_invD(1) [OF inv] by (simp add: sorted_wrt_filter)
  next
    case 2
    show ?case using TimerQueue_invD(2) [OF inv] unfolding E by auto
  next
    case 3
    have "(n, a) \<in> (\<lambda>(e, a). (tsequence (the (theap q a)), a)) ` set ?D \<longleftrightarrow>
        a \<in> ?E \<and> n = tsequence (the (theap q a))" for n a
      by force
    then show ?case using TimerQueue_invD(3) [OF inv] by auto
  next
    case 4
    show ?case using live by auto
  next
    case 5
    show ?case using TimerQueue_invD(5) [OF inv] by auto
  next
    case 6
    show ?case using TimerQueue_invD(6) [OF inv] by auto
  qed
  ultimately show ?thesis by auto
qed

text \<open>
  What \<open>reset\<close> leaves of an expired timer: nothing if it was cancelled meanwhile or does not repeat,
  otherwise the timer with its next expiration.
\<close>

definition after_reset :: "timestamp \<Rightarrow> (nat \<times> addr) set \<Rightarrow> addr \<Rightarrow> timer \<Rightarrow> timer option" where
  "after_reset now C a t =
    (if (tsequence t, a) \<in> C \<or> tcancelled t \<or> \<not> trepeat t then None else Some (Timer_restart now t))"

lemma resetEntry_ok:
  assumes inv: "TimerQueue_inv E q" and a: "a \<in> E" "theap q a = Some t"
  shows "\<exists>q'. TimerQueue_resetEntry now (e, a) q = Inr q' \<and> TimerQueue_inv (E - {a}) q' \<and>
    theap q' = (theap q)(a := after_reset now (cancelligTimer q) a t) \<and>
    handleTimer q' = handleTimer q \<and> cancelligTimer q' = cancelligTimer q \<and> fired q' = fired q"
proof (cases "after_reset now (cancelligTimer q) a t")
  case None
  with a delete_inv [OF inv a(1)] show ?thesis
    by (auto simp: after_reset_def TimerQueue_resetEntry_def Let_def split: if_splits)
next
  case (Some t')
  then have t': "t' = Timer_restart now t" "trepeat t" "(tsequence t, a) \<notin> cancelligTimer q"
    "\<not> tcancelled t"
    by (auto simp: after_reset_def split: if_splits)
  then have "tsequence t' = tsequence t" "tcancelled t' = tcancelled t"
    by (simp_all add: Timer_restart_def)
  from register_inv [OF inv a this] t' Some a show ?thesis
    by (simp add: TimerQueue_resetEntry_def Let_def)
qed

lemma resetEntries_ok:
  assumes "TimerQueue_inv (snd ` set es) q" and "distinct (map snd es)"
  shows "\<exists>q'. rfold (TimerQueue_resetEntry now) es q = Inr q' \<and> TimerQueue_inv {} q' \<and>
    theap q' = (\<lambda>a. if a \<in> snd ` set es then after_reset now (cancelligTimer q) a (the (theap q a))
                    else theap q a) \<and>
    handleTimer q' = handleTimer q \<and> cancelligTimer q' = cancelligTimer q \<and> fired q' = fired q"
  using assms
proof (induction es arbitrary: q)
  case (Cons p es)
  obtain e a where p: "p = (e, a)" by (cases p)
  with Cons.prems have a: "a \<in> snd ` set (p # es)" "a \<notin> snd ` set es" by auto
  with TimerQueue_invD(4) [OF Cons.prems(1)] obtain t where t: "theap q a = Some t" by auto
  obtain q1 where q1: "TimerQueue_resetEntry now (e, a) q = Inr q1"
    "TimerQueue_inv (snd ` set (p # es) - {a}) q1"
    "theap q1 = (theap q)(a := after_reset now (cancelligTimer q) a t)"
    "handleTimer q1 = handleTimer q" "cancelligTimer q1 = cancelligTimer q" "fired q1 = fired q"
    using resetEntry_ok [OF Cons.prems(1) a(1) t] by blast
  have "snd ` set (p # es) - {a} = snd ` set es" using p a by auto
  with q1 Cons.IH [of q1] Cons.prems obtain q2 where
    "rfold (TimerQueue_resetEntry now) es q1 = Inr q2" "TimerQueue_inv {} q2"
    "theap q2 = (\<lambda>a. if a \<in> snd ` set es then after_reset now (cancelligTimer q1) a (the (theap q1 a))
                    else theap q1 a)"
    "handleTimer q2 = handleTimer q1" "cancelligTimer q2 = cancelligTimer q1" "fired q2 = fired q1"
    by auto
  with q1 p a t show ?case by (auto simp: fun_eq_iff)
qed simp

text \<open>\<open>handleRead\<close> as a whole, with the state in which \<open>reset\<close> starts.\<close>

lemma handleRead_phases:
  assumes inv: "TimerQueue_inv {} q" and legal: "callbacks_legal acts"
    and idle: "\<not> handleTimer q" "cancelligTimer q = {}"
  obtains q1 q2 q' where
    "TimerQueue_inv (snd ` set (due now (timers q))) q1"
    "theap q1 = theap q" "handleTimer q1" "fired q1 = fired q" "cancelligTimer q1 = {}"
    "rfold (TimerQueue_runEntry acts) (due now (timers q)) q1 = Inr q2"
    "TimerQueue_inv (snd ` set (due now (timers q))) q2"
    "\<forall>a \<in> snd ` set (due now (timers q)). theap q2 a = theap q a"
    "TimerQueue_handleRead acts readOk now now' q = Inr q'"
    "TimerQueue_inv {} q'" "TimerQueue_armed q'" "\<not> handleTimer q'" "cancelligTimer q' = {}"
    "fired q' = fired q @ map (\<lambda>(e, a). tsequence (the (theap q a))) (due now (timers q))"
    "theap q' = (\<lambda>a. if a \<in> snd ` set (due now (timers q))
        then after_reset now (cancelligTimer q2) a (the (theap q a)) else theap q2 a)"
proof -
  let ?D = "due now (timers q)"
  define q0 where "q0 = (if readOk then q\<lparr>timerfd := None\<rparr> else q)\<lparr>handleTimer := True\<rparr>"
  have q0: "TimerQueue_inv {} q0" "timers q0 = timers q" "theap q0 = theap q" "handleTimer q0"
    "fired q0 = fired q" "cancelligTimer q0 = {}"
    using inv idle by (auto simp: q0_def TimerQueue_inv_def)
  obtain q1 where q1: "TimerQueue_getExpired now q0 = Inr (?D, q1)" "TimerQueue_inv (snd ` set ?D) q1"
    "theap q1 = theap q" "handleTimer q1" "fired q1 = fired q" "cancelligTimer q1 = {}"
    using getExpired_ok [OF q0(1), of now] q0 by auto
  obtain q2 where q2: "rfold (TimerQueue_runEntry acts) ?D q1 = Inr q2" "TimerQueue_inv (snd ` set ?D) q2"
    "\<forall>a \<in> snd ` set ?D. theap q2 a = theap q a"
    "fired q2 = fired q @ map (\<lambda>(e, a). tsequence (the (theap q a))) ?D"
    using runEntries_ok [OF q1(2) legal subset_refl, of "theap q"] q1 by auto
  have dist: "distinct (map snd ?D)"
  proof -
    have "inj_on snd (set (timers q))"
      using TimerQueue_invD(2) [OF inv] by (auto simp: inj_on_def)
    moreover have "distinct (timers q)"
      using TimerQueue_invD(1) [OF inv] by (simp add: strict_sorted_iff)
    ultimately show ?thesis
      by (auto simp: due_def distinct_map intro: inj_on_subset)
  qed
  have "TimerQueue_inv (snd ` set ?D) (q2\<lparr>handleTimer := False\<rparr>)"
    using q2(2) by (simp add: TimerQueue_inv_def)
  then obtain q3 where q3: "rfold (TimerQueue_resetEntry now) ?D (q2\<lparr>handleTimer := False\<rparr>) = Inr q3"
    "TimerQueue_inv {} q3" "\<not> handleTimer q3" "fired q3 = fired q2"
    "theap q3 = (\<lambda>a. if a \<in> snd ` set ?D
        then after_reset now (cancelligTimer q2) a (the (theap q2 a)) else theap q2 a)"
    using resetEntries_ok [OF _ dist, of "q2\<lparr>handleTimer := False\<rparr>" now]
    by (auto cong: if_cong)
  let ?q' = "(if timers q3 \<noteq> [] then TimerQueue_resetTimerFd now' (fst (hd (timers q3))) q3 else q3)
    \<lparr>cancelligTimer := {}\<rparr>"
  have "TimerQueue_handleRead acts readOk now now' q = Inr ?q'"
    using q1(1) q2(1) q3(1)
    unfolding TimerQueue_handleRead_def q0_def by (simp add: TimerQueue_reset_def)
  moreover have "TimerQueue_inv {} ?q'"
    using q3(2) by simp
  moreover have "TimerQueue_armed ?q'"
    using resetTimerFd_armed [of now' q3] by (cases "timers q3 = []") (simp_all add: TimerQueue_armed_def)
  moreover have "theap ?q' = (\<lambda>a. if a \<in> snd ` set ?D
      then after_reset now (cancelligTimer q2) a (the (theap q a)) else theap q2 a)"
    using q3(5) q2(3) by (auto simp: fun_eq_iff)
  ultimately show thesis
    using that [of q1 q2 ?q'] q1 q2 q3(3,4) by auto
qed

lemma runEntries_idle:
  assumes "\<forall>a \<in> snd ` set es. \<exists>t. theap q a = Some t \<and> \<not> tcancelled t"
  shows "\<exists>f. rfold (TimerQueue_runEntry (\<lambda>_ _. [])) es q = Inr (q\<lparr>fired := f\<rparr>)"
  using assms
proof (induction es arbitrary: q)
  case Nil
  show ?case by (rule exI [of _ "fired q"]) simp
next
  case (Cons p es)
  then obtain t where t: "theap q (snd p) = Some t" "\<not> tcancelled t" by auto
  have "\<exists>f. rfold (TimerQueue_runEntry (\<lambda>_ _. [])) es (q\<lparr>fired := fired q @ [tsequence t]\<rparr>) =
      Inr (q\<lparr>fired := fired q @ [tsequence t]\<rparr>\<lparr>fired := f\<rparr>)"
    using Cons.prems by (intro Cons.IH) auto
  with t show ?case by (auto simp: TimerQueue_runEntry_def [of _ p] Let_def)
qed

text \<open>A cancellation during the callbacks reaches \<open>cancelligTimer\<close> when the timer is being handled.\<close>

lemma cancel_recorded:
  assumes "TimerQueue_inv E q" and "handleTimer q" and "a \<in> E" and "theap q a = Some t"
    and "ops_legal xs q" and "CancelTimer \<lparr>tid_timer = a, tid_sequence = tsequence t\<rparr> \<in> set xs"
    and "rfold TimerQueue_apply xs q = Inr q'"
  shows "(tsequence t, a) \<in> cancelligTimer q'"
  using assms
proof (induction xs arbitrary: q)
  case (Cons x xs)
  obtain q1 where q1: "TimerQueue_apply x q = Inr q1" "keeps E q q1"
    using apply_ok [OF Cons.prems(1), of x] Cons.prems(5) by auto
  from Cons.prems(5) q1 have legal: "ops_legal xs q1" by simp
  from q1(2) Cons.prems(1-4) have q1': "TimerQueue_inv E q1" "handleTimer q1" "theap q1 a = Some t"
    by (auto simp: keeps_def)
  from Cons.prems(7) q1(1) have r: "rfold TimerQueue_apply xs q1 = Inr q'" by simp
  show ?case
  proof (cases "x = CancelTimer \<lparr>tid_timer = a, tid_sequence = tsequence t\<rparr>")
    case True
    have "(tsequence t, a) \<notin> activeTimers q"
      using TimerQueue_invD(3) [OF Cons.prems(1)] Cons.prems(3) by simp
    with True q1(1) Cons.prems(2) have "(tsequence t, a) \<in> cancelligTimer q1"
      by (auto simp: TimerQueue_cancel_def TimerQueue_cancelInLoop_def)
    moreover have "cancelligTimer q1 \<subseteq> cancelligTimer q'"
      using apply_all_ok [OF q1'(1) legal] r by (auto simp: keeps_def)
    ultimately show ?thesis by blast
  next
    case False
    with Cons.prems(6) show ?thesis
      using Cons.IH [OF q1'(1,2) Cons.prems(3) q1'(3) legal _ r] by auto
  qed
qed simp

lemma cancel_recorded_entries:
  assumes "TimerQueue_inv E q" and "handleTimer q" and "callbacks_legal acts" and "snd ` set es \<subseteq> E"
    and "(e, a) \<in> set es" and "theap q a = Some t"
    and "\<forall>q. CancelTimer \<lparr>tid_timer = a, tid_sequence = tsequence t\<rparr> \<in> set (acts (tcallback t) q)"
    and "rfold (TimerQueue_runEntry acts) es q = Inr q'"
  shows "(tsequence t, a) \<in> cancelligTimer q'"
  using assms
proof (induction es arbitrary: q)
  case (Cons p es)
  obtain e' b where p: "p = (e', b)" by (cases p)
  with Cons.prems(4) TimerQueue_invD(4) [OF Cons.prems(1)] obtain u
    where u: "b \<in> E" "theap q b = Some u" by auto
  let ?q = "q\<lparr>fired := fired q @ [tsequence u]\<rparr>"
  obtain q1 where q1: "TimerQueue_runEntry acts p q = Inr q1" "keeps E ?q q1"
    using runEntry_ok [OF Cons.prems(1,3) u] p by blast
  then have q1': "TimerQueue_inv E q1" "handleTimer q1" "\<forall>a \<in> E. theap q1 a = theap q a"
    using Cons.prems(2) by (auto simp: keeps_def)
  from Cons.prems(8) q1(1) have r: "rfold (TimerQueue_runEntry acts) es q1 = Inr q'" by simp
  show ?case
  proof (cases "b = a")
    case True
    then have "u = t" using u Cons.prems(6) by simp
    moreover have "\<not> tcancelled t" using TimerQueue_invD(5) [OF Cons.prems(1,6)] by simp
    moreover have inv': "TimerQueue_inv E ?q" using Cons.prems(1) by (simp add: TimerQueue_inv_def)
    moreover from inv' have "ops_legal (acts (tcallback t) ?q) ?q"
      using Cons.prems(3) by (simp add: callbacks_legal_def)
    ultimately have "(tsequence t, a) \<in> cancelligTimer q1"
      using cancel_recorded [of E ?q a t "acts (tcallback t) ?q" q1] q1(1) u True Cons.prems(2,7) p
      by (simp add: TimerQueue_runEntry_def Let_def)
    moreover have "cancelligTimer q1 \<subseteq> cancelligTimer q'"
      using runEntries_ok [OF q1'(1) Cons.prems(3), of es "theap q1"] Cons.prems(4) r by auto
    ultimately show ?thesis by blast
  next
    case False
    then have a: "(e, a) \<in> set es" using Cons.prems(5) p by auto
    with Cons.prems(4) have "a \<in> E" by force
    with q1'(3) Cons.prems(6) have "theap q1 a = Some t" by simp
    then show ?thesis
      using Cons.IH [OF q1'(1,2) Cons.prems(3) _ a _ Cons.prems(7) r] Cons.prems(4) by simp
  qed
qed simp

section \<open>Properties\<close>

text \<open>A queue with a one-shot timer (callback 0) and a repeating one (callback 1), for the witnesses.\<close>

definition example_queue :: timer_queue where
  "example_queue =
    \<lparr>theap = [16 \<mapsto> Timer_new (Closure 0 0) 50 0 0, 32 \<mapsto> Timer_new (Closure 0 1) 60 (1 / 2) 1],
     timers = [(50, 16), (60, 32)], activeTimers = {(0, 16), (1, 32)}, cancelligTimer = {},
     handleTimer = False, timerfd = Some (0, 0, 100000), numCreated = 2, fired = []\<rparr>"

lemma example_queue_inv: "TimerQueue_inv {} example_queue"
  by (auto simp: TimerQueue_inv_def example_queue_def Timer_new_def UINTPTR_MAX_def
      split: if_splits)

lemma example_queue_fields [simp]:
  "timers example_queue = [(50, 16), (60, 32)]"
  "theap example_queue = [16 \<mapsto> Timer_new (Closure 0 0) 50 0 0, 32 \<mapsto> Timer_new (Closure 0 1) 60 (1 / 2) 1]"
  "handleTimer example_queue = False" "cancelligTimer example_queue = {}" "fired example_queue = []"
  by (simp_all add: example_queue_def)

text \<open>
  C9. \<open>TimerQueue::handleRead\<close> never touches a freed timer and never trips its assertion, whatever the
  callbacks add or cancel; it runs the callbacks of exactly the timers that are due, once each and in
  the order of their expiration (a callback that cancels another due timer does not stop that one from
  running), and leaves the queue consistent with its timerfd armed for the earliest timer.
\<close>

theorem timer_handleRead_total:
  assumes "TimerQueue_inv {} q" and "callbacks_legal acts"
    and "\<not> handleTimer q" and "cancelligTimer q = {}"
  shows "\<exists>q'. TimerQueue_handleRead acts readOk now now' q = Inr q' \<and>
    TimerQueue_inv {} q' \<and> TimerQueue_armed q' \<and> \<not> handleTimer q' \<and> cancelligTimer q' = {} \<and>
    fired q' = fired q @ map (\<lambda>(e, a). tsequence (the (theap q a))) (due now (timers q))"
  by (rule handleRead_phases [OF assms, of now readOk now']) (intro exI conjI)

theorem timer_handleRead_total_witness:
  "\<exists>q'. TimerQueue_handleRead
      (\<lambda>c q. if c = Closure 0 0 then [CancelTimer \<lparr>tid_timer = 32, tid_sequence = 1\<rparr>] else []) True 70 71
      example_queue = Inr q' \<and> fired q' = [0, 1] \<and> TimerQueue_armed q'"
proof -
  have "callbacks_legal (\<lambda>c q. if c = Closure 0 0 then [CancelTimer \<lparr>tid_timer = 32, tid_sequence = 1\<rparr>] else [])"
    by (auto simp: callbacks_legal_def split: sum.split)
  from timer_handleRead_total [OF example_queue_inv this, of True 70 71] show ?thesis
    by (auto simp: due_def Timer_new_def)
qed



text \<open>
  A timer whose callback cancels it (or that any callback of the same round cancels, here its own)
  is freed at the end of the round and not registered again, even when it repeats.
\<close>

theorem timer_cancel_in_own_callback:
  assumes "TimerQueue_inv {} q" and "callbacks_legal acts"
    and "\<not> handleTimer q" and "cancelligTimer q = {}"
    and "theap q a = Some t" and "texpiration t \<le> now"
    and "\<forall>q. CancelTimer \<lparr>tid_timer = a, tid_sequence = tsequence t\<rparr> \<in> set (acts (tcallback t) q)"
  shows "\<exists>q'. TimerQueue_handleRead acts readOk now now' q = Inr q' \<and> theap q' a = None \<and>
    a \<notin> snd ` set (timers q')"
proof -
  let ?D = "due now (timers q)"
  obtain q1 q2 q' where q1: "TimerQueue_inv (snd ` set ?D) q1" "theap q1 = theap q" "handleTimer q1"
    and q2: "rfold (TimerQueue_runEntry acts) ?D q1 = Inr q2"
    and q': "TimerQueue_handleRead acts readOk now now' q = Inr q'" "TimerQueue_inv {} q'"
    and heap: "theap q' = (\<lambda>a. if a \<in> snd ` set ?D
        then after_reset now (cancelligTimer q2) a (the (theap q a)) else theap q2 a)"
    by (rule handleRead_phases [OF assms(1-4), of now readOk now']) (rule that)
  have a: "(texpiration t, a) \<in> set ?D"
    using TimerQueue_invD(2) [OF assms(1)] assms(5,6) by (simp add: due_def)
  then have "(tsequence t, a) \<in> cancelligTimer q2"
    using cancel_recorded_entries [OF q1(1,3) assms(2) subset_refl a _ assms(7) q2] q1(2) assms(5) by simp
  with heap a assms(5) have "theap q' a = None" by (force simp: after_reset_def)
  moreover from this have "a \<notin> snd ` set (timers q')"
    using TimerQueue_invD(2) [OF q'(2)] by force
  ultimately show ?thesis using q'(1) by blast
qed

theorem timer_cancel_in_own_callback_witness:
  "\<exists>q'. TimerQueue_handleRead
      (\<lambda>c q. if c = Closure 0 1 then [CancelTimer \<lparr>tid_timer = 32, tid_sequence = 1\<rparr>] else []) True 70 71
      example_queue = Inr q' \<and> theap q' 32 = None"
proof -
  have "callbacks_legal (\<lambda>c q. if c = Closure 0 1 then [CancelTimer \<lparr>tid_timer = 32, tid_sequence = 1\<rparr>] else [])"
    by (auto simp: callbacks_legal_def split: sum.split)
  from timer_cancel_in_own_callback [OF example_queue_inv this, of 32 "Timer_new (Closure 0 1) 60 (1 / 2) 1" 70 True 71]
  show ?thesis by (auto simp: Timer_new_def)
qed

text \<open>
  Outside a round, \<open>cancel\<close> removes and frees exactly the timer that its \<open>TimerId\<close> names; a stale id,
  whose timer is gone even if another timer now lives at its address, changes nothing.
\<close>

theorem timer_cancel_exact:
  assumes "TimerQueue_inv {} q" and "\<not> handleTimer q"
  shows "\<exists>q'. TimerQueue_cancelInLoop i q = Inr q' \<and> TimerQueue_inv {} q' \<and>
    (if map_option tsequence (theap q (tid_timer i)) = Some (tid_sequence i)
     then theap q' = (theap q)(tid_timer i := None) else q' = q)"
proof -
  obtain q' where q': "TimerQueue_cancelInLoop i q = Inr q'" "TimerQueue_inv {} q'"
    using cancelInLoop_ok [OF assms(1), of i] by blast
  moreover have "(tid_sequence i, tid_timer i) \<in> activeTimers q \<longleftrightarrow>
      map_option tsequence (theap q (tid_timer i)) = Some (tid_sequence i)"
    using TimerQueue_invD(3) [OF assms(1)] by simp
  ultimately show ?thesis
    using assms(2) by (auto simp: TimerQueue_cancelInLoop_def Let_def split: option.splits if_splits)
qed

theorem timer_cancel_exact_witness:
  "\<exists>q'. TimerQueue_cancelInLoop \<lparr>tid_timer = 32, tid_sequence = 7\<rparr> example_queue = Inr q' \<and>
    q' = example_queue"
  using timer_cancel_exact [OF example_queue_inv, of "\<lparr>tid_timer = 32, tid_sequence = 7\<rparr>"]
  by (auto simp: Timer_new_def)

text \<open>
  C32. Any sequence of \<open>addTimer\<close> and \<open>cancel\<close> calls in the loop's thread succeeds, keeps the queue
  consistent, and keeps its timerfd armed no later than its earliest timer.
\<close>

theorem timer_api_invariant:
  assumes "TimerQueue_inv {} q" and "TimerQueue_armed q" and "ops_legal ops q"
  shows "\<exists>q'. rfold TimerQueue_apply ops q = Inr q' \<and> TimerQueue_inv {} q' \<and> TimerQueue_armed q'"
  using apply_all_ok [OF assms(1,3)] assms(2) by (auto simp: keeps_def)

theorem timer_api_invariant_witness:
  "\<exists>q'. rfold TimerQueue_apply [AddTimer 0 16 (Closure 0 0) 50 0, AddTimer 0 32 (Closure 0 1) 20 0] TimerQueue_new = Inr q' \<and>
    TimerQueue_armed q'"
proof -
  have "ops_legal [AddTimer 0 16 (Closure 0 0) 50 0, AddTimer 0 32 (Closure 0 1) 20 0] TimerQueue_new"
    by (simp add: TimerQueue_new_def UINTPTR_MAX_def TimerQueue_addTimer_def
        TimerQueue_addTimerInLoop_def Timer_new_def TimerQueue_resetTimerFd_def)
  from timer_api_invariant [OF TimerQueue_new_inv TimerQueue_new_armed this] show ?thesis by blast
qed

end
