(* ===== verification/HttpMessage.thy ===== *)
theory HttpMessage
  imports Buffer
begin

text \<open>
  HTTP requests and responses (\<open>net/Http/HttpRequest.h\<close>, \<open>net/Http/HttpResponse.h\<close>): the two classes
  with their setters, and the serialisation of a response into a buffer. Strings are byte lists.
  \<open>snprintf\<close> with \<open>%d\<close> and \<open>%zu\<close> is \<open>to_string\<close>; the local arrays it fills (64 and 32 bytes) are longer
  than what it prints. \<open>stat\<close> is an argument: the size of the file, or \<open>None\<close> when the call fails.
\<close>

section \<open>Requests\<close>

datatype HttpMethod = kInvalid | kGet | kPost | kHead | kPut | kDelete | kOptions | kPatch

datatype HttpVersion = kUnknownVersion | kHttp10 | kHttp11

record http_request =
  req_method :: HttpMethod
  req_path :: string
  req_query :: string
  req_version :: HttpVersion
  req_body :: string
  req_headers :: "(string, string) omap"

definition HttpRequest_new :: http_request where
  "HttpRequest_new =
    \<lparr>req_method = kInvalid, req_path = [], req_query = [], req_version = kUnknownVersion,
     req_body = [], req_headers = []\<rparr>"

definition HttpRequest_setHeader :: "string \<Rightarrow> string \<Rightarrow> http_request \<Rightarrow> http_request" where
  "HttpRequest_setHeader key v r = r\<lparr>req_headers := mput key v (req_headers r)\<rparr>"

definition HttpRequest_getHeader :: "string \<Rightarrow> http_request \<Rightarrow> string" where
  "HttpRequest_getHeader key r = (case mget (req_headers r) key of Some v \<Rightarrow> v | None \<Rightarrow> [])"

definition HttpRequest_appendBody :: "string \<Rightarrow> http_request \<Rightarrow> http_request" where
  "HttpRequest_appendBody chunk r = r\<lparr>req_body := req_body r @ chunk\<rparr>"

definition HttpRequest_reset :: "http_request \<Rightarrow> http_request" where
  "HttpRequest_reset r =
    r\<lparr>req_method := kInvalid, req_path := [], req_query := [], req_version := kUnknownVersion,
      req_body := [], req_headers := []\<rparr>"

fun methodToString :: "HttpMethod \<Rightarrow> string" where
  "methodToString kGet = ''GET''"
| "methodToString kPost = ''POST''"
| "methodToString kHead = ''HEAD''"
| "methodToString kPut = ''PUT''"
| "methodToString kDelete = ''DELETE''"
| "methodToString kOptions = ''OPTIONS''"
| "methodToString kPatch = ''PATCH''"
| "methodToString kInvalid = ''INVALID''"

section \<open>Responses\<close>

datatype HttpStatusCode =
  kUnknownStatus | k200Ok | k301MovedPermanently | k302Found | k400BadRequest | k403Forbidden
| k404NotFound | k405MethodNotAllowed | k408RequestTimeout | k413PayloadTooLarge | k414UriTooLong
| k500InternalServerError | k501NotImplemented | k502BadGateway | k503ServiceUnavailable

fun status_int :: "HttpStatusCode \<Rightarrow> nat" where
  "status_int kUnknownStatus = 0"
| "status_int k200Ok = 200"
| "status_int k301MovedPermanently = 301"
| "status_int k302Found = 302"
| "status_int k400BadRequest = 400"
| "status_int k403Forbidden = 403"
| "status_int k404NotFound = 404"
| "status_int k405MethodNotAllowed = 405"
| "status_int k408RequestTimeout = 408"
| "status_int k413PayloadTooLarge = 413"
| "status_int k414UriTooLong = 414"
| "status_int k500InternalServerError = 500"
| "status_int k501NotImplemented = 501"
| "status_int k502BadGateway = 502"
| "status_int k503ServiceUnavailable = 503"

fun statusCodeToString :: "HttpStatusCode \<Rightarrow> string" where
  "statusCodeToString k200Ok = ''OK''"
| "statusCodeToString k301MovedPermanently = ''Moved Permanently''"
| "statusCodeToString k302Found = ''Found''"
| "statusCodeToString k400BadRequest = ''Bad Request''"
| "statusCodeToString k403Forbidden = ''Forbidden''"
| "statusCodeToString k404NotFound = ''Not Found''"
| "statusCodeToString k405MethodNotAllowed = ''Method Not Allowed''"
| "statusCodeToString k408RequestTimeout = ''Request Timeout''"
| "statusCodeToString k413PayloadTooLarge = ''Payload Too Large''"
| "statusCodeToString k414UriTooLong = ''URI Too Long''"
| "statusCodeToString k500InternalServerError = ''Internal Server Error''"
| "statusCodeToString k501NotImplemented = ''Not Implemented''"
| "statusCodeToString k502BadGateway = ''Bad Gateway''"
| "statusCodeToString k503ServiceUnavailable = ''Service Unavailable''"
| "statusCodeToString kUnknownStatus = ''Unknown''"

record http_response =
  statusCode :: HttpStatusCode
  resp_body :: string
  resp_headers :: "(string, string) omap"
  closeConnection :: bool
  fileMode :: bool
  filePath :: string
  fileSize :: nat

definition HttpResponse_new :: http_response where
  "HttpResponse_new =
    \<lparr>statusCode = kUnknownStatus, resp_body = [], resp_headers = [], closeConnection = False,
     fileMode = False, filePath = [], fileSize = 0\<rparr>"

definition HttpResponse_setHeader :: "string \<Rightarrow> string \<Rightarrow> http_response \<Rightarrow> http_response" where
  "HttpResponse_setHeader key v r = r\<lparr>resp_headers := mput key v (resp_headers r)\<rparr>"

definition HttpResponse_getHeader :: "string \<Rightarrow> http_response \<Rightarrow> string" where
  "HttpResponse_getHeader key r = (case mget (resp_headers r) key of Some v \<Rightarrow> v | None \<Rightarrow> [])"

definition HttpResponse_setContentType :: "string \<Rightarrow> http_response \<Rightarrow> http_response" where
  "HttpResponse_setContentType contentType r = HttpResponse_setHeader ''Content-Type'' contentType r"

definition HttpResponse_setFilePath ::
  "nat option \<Rightarrow> string \<Rightarrow> string \<Rightarrow> http_response \<Rightarrow> bool \<times> http_response" where
  "HttpResponse_setFilePath st path contentType r =
    (case st of
       None \<Rightarrow> (False, r)
     | Some st_size \<Rightarrow>
         (let r = r\<lparr>fileMode := True, filePath := path, fileSize := st_size\<rparr>;
              r = HttpResponse_setHeader ''Content-Type'' contentType r;
              r = HttpResponse_setHeader ''Content-Length'' (to_string (fileSize r)) r;
              r = HttpResponse_setHeader ''Accept-Ranges'' ''bytes'' r
          in (True, r)))"

definition HttpResponse_reset :: "http_response \<Rightarrow> http_response" where
  "HttpResponse_reset r =
    r\<lparr>statusCode := kUnknownStatus, resp_body := [], resp_headers := [], closeConnection := False,
      fileMode := False, filePath := [], fileSize := 0\<rparr>"

definition crlf :: string where
  "crlf = [CHR 0x0D, CHR 0x0A]"

text \<open>The range-\<open>for\<close> over the headers and the status line, shared by the two serialisers.\<close>

definition append_header :: "string \<times> string \<Rightarrow> buffer \<Rightarrow> buffer res" where
  "append_header kv output =
    rbind (Buffer_append (fst kv) output) (\<lambda>output.
    rbind (Buffer_append '': '' output) (\<lambda>output.
    rbind (Buffer_append (snd kv) output) (\<lambda>output.
    Buffer_append crlf output)))"

definition append_status_line :: "HttpStatusCode \<Rightarrow> buffer \<Rightarrow> buffer res" where
  "append_status_line code output =
    rbind (Buffer_append (''HTTP/1.1 '' @ to_string (status_int code) @ '' '') output) (\<lambda>output.
    rbind (Buffer_append (statusCodeToString code) output) (\<lambda>output.
    Buffer_append crlf output))"

definition HttpResponse_serializeHeaders :: "http_response \<Rightarrow> buffer \<Rightarrow> buffer res" where
  "HttpResponse_serializeHeaders r output =
    rbind (append_status_line (statusCode r) output) (\<lambda>output.
    rbind (rfold append_header (resp_headers r) output) (\<lambda>output.
    Buffer_append crlf output))"

definition HttpResponse_appendToBuffer ::
  "http_response \<Rightarrow> buffer \<Rightarrow> (http_response \<times> buffer) res" where
  "HttpResponse_appendToBuffer r output =
    rbind (append_status_line (statusCode r) output) (\<lambda>output.
      let r =
        (if mget (resp_headers r) ''Content-Length'' = None \<and>
            mget (resp_headers r) ''Transfer-Encoding'' = None
         then HttpResponse_setHeader ''Content-Length'' (to_string (length (resp_body r))) r
         else r)
      in rbind (rfold append_header (resp_headers r) output) (\<lambda>output.
         rbind (Buffer_append crlf output) (\<lambda>output.
         rbind (Buffer_append (resp_body r) output) (\<lambda>output.
         Inr (r, output)))))"

section \<open>What the serialisers write\<close>

definition status_line :: "HttpStatusCode \<Rightarrow> string" where
  "status_line code =
    ''HTTP/1.1 '' @ to_string (status_int code) @ '' '' @ statusCodeToString code @ crlf"

definition header_line :: "string \<times> string \<Rightarrow> string" where
  "header_line kv = fst kv @ '': '' @ snd kv @ crlf"

definition response_head :: "http_response \<Rightarrow> string" where
  "response_head r = status_line (statusCode r) @ concat (map header_line (resp_headers r)) @ crlf"

definition with_length :: "http_response \<Rightarrow> http_response" where
  "with_length r =
    (if mget (resp_headers r) ''Content-Length'' = None \<and>
        mget (resp_headers r) ''Transfer-Encoding'' = None
     then HttpResponse_setHeader ''Content-Length'' (to_string (length (resp_body r))) r
     else r)"

lemma with_length_fields [simp]:
  "statusCode (with_length r) = statusCode r" "resp_body (with_length r) = resp_body r"
  by (simp_all add: with_length_def HttpResponse_setHeader_def)

text \<open>The serialisers are sequences of appends, so the laws of the byte queue give their effect.\<close>

lemma append_header_appends:
  "append_header kv = rfold Buffer_append [fst kv, '': '', snd kv, crlf]"
  by (simp add: append_header_def fun_eq_iff rbind_def split: sum.split)

lemma append_headers_appends:
  "rfold append_header hs = rfold Buffer_append (concat (map (\<lambda>kv. [fst kv, '': '', snd kv, crlf]) hs))"
proof (induction hs)
  case (Cons kv hs)
  show ?case
  proof
    fix b
    have "rfold append_header (kv # hs) b = rbind (append_header kv b) (rfold append_header hs)"
      by simp
    also have "\<dots> = rfold Buffer_append ([fst kv, '': '', snd kv, crlf]
        @ concat (map (\<lambda>kv. [fst kv, '': '', snd kv, crlf]) hs)) b"
      by (simp only: append_header_appends [of kv] Cons.IH rfold_append)
    finally show "rfold append_header (kv # hs) b =
        rfold Buffer_append (concat (map (\<lambda>kv. [fst kv, '': '', snd kv, crlf]) (kv # hs))) b"
      by simp
  qed
qed (simp add: fun_eq_iff)

lemma concat_header_pieces:
  "concat (concat (map (\<lambda>kv. [fst kv, '': '', snd kv, crlf]) hs)) = concat (map header_line hs)"
  by (induction hs) (auto simp: header_line_def)

lemma append_status_line_ok:
  assumes "Buffer_inv output"
  shows "\<exists>out'. append_status_line code output = Inr out' \<and> Buffer_inv out' \<and>
    Buffer_content out' = Buffer_content output @ status_line code"
proof -
  have "append_status_line code = rfold Buffer_append
      [''HTTP/1.1 '' @ to_string (status_int code) @ '' '', statusCodeToString code, crlf]"
    by (simp add: append_status_line_def fun_eq_iff rbind_def split: sum.split)
  with bq.append_all [OF assms, of "[''HTTP/1.1 '' @ to_string (status_int code) @ '' '',
      statusCodeToString code, crlf]"] show ?thesis
    by (simp add: status_line_def)
qed

lemma append_headers_ok:
  assumes "Buffer_inv output"
  shows "\<exists>out'. rfold append_header hs output = Inr out' \<and> Buffer_inv out' \<and>
    Buffer_content out' = Buffer_content output @ concat (map header_line hs)"
  using bq.append_all [OF assms, of "concat (map (\<lambda>kv. [fst kv, '': '', snd kv, crlf]) hs)"]
  by (simp add: append_headers_appends concat_header_pieces)

lemma serializeHeaders_ok:
  assumes "Buffer_inv output"
  shows "\<exists>out'. HttpResponse_serializeHeaders r output = Inr out' \<and> Buffer_inv out' \<and>
    Buffer_content out' = Buffer_content output @ response_head r"
proof -
  obtain o1 where o1: "append_status_line (statusCode r) output = Inr o1" "Buffer_inv o1"
    "Buffer_content o1 = Buffer_content output @ status_line (statusCode r)"
    using append_status_line_ok [OF assms] by blast
  obtain o2 where o2: "rfold append_header (resp_headers r) o1 = Inr o2" "Buffer_inv o2"
    "Buffer_content o2 = Buffer_content o1 @ concat (map header_line (resp_headers r))"
    using append_headers_ok [OF o1(2)] by blast
  from append_ok [OF o2(2), of crlf] o1 o2 show ?thesis
    by (auto simp: HttpResponse_serializeHeaders_def response_head_def)
qed

lemma appendToBuffer_ok:
  assumes "Buffer_inv output"
  shows "\<exists>out'. HttpResponse_appendToBuffer r output = Inr (with_length r, out') \<and> Buffer_inv out' \<and>
    Buffer_content out' = Buffer_content output @ response_head (with_length r) @ resp_body r"
proof -
  obtain o1 where o1: "append_status_line (statusCode r) output = Inr o1" "Buffer_inv o1"
    "Buffer_content o1 = Buffer_content output @ status_line (statusCode r)"
    using append_status_line_ok [OF assms] by blast
  obtain o2 where o2: "rfold append_header (resp_headers (with_length r)) o1 = Inr o2" "Buffer_inv o2"
    "Buffer_content o2 = Buffer_content o1 @ concat (map header_line (resp_headers (with_length r)))"
    using append_headers_ok [OF o1(2)] by blast
  obtain o3 where o3: "Buffer_append crlf o2 = Inr o3" "Buffer_inv o3"
    "Buffer_content o3 = Buffer_content o2 @ crlf"
    using append_ok [OF o2(2)] by blast
  from append_ok [OF o3(2), of "resp_body r"] o1 o2 o3 show ?thesis
    by (auto simp: HttpResponse_appendToBuffer_def response_head_def with_length_def [symmetric] Let_def)
qed

end
