(* ===== verification/HttpContext.thy ===== *)
theory HttpContext
  imports HttpMessage
begin

text \<open>
  The HTTP request parser (\<open>net/Http/HttpContext.h\<close>, \<open>net/Http/HttpContext.cc\<close>): the state machine that
  consumes a buffer, as one function per pass of the \<open>while\<close> loop and the loop itself; an equivalent
  parser over byte strings; and what follows for complete, split and malformed requests.
\<close>

section \<open>String functions\<close>

text \<open>\<open>find\<close>, \<open>rfind\<close> of a character; \<open>None\<close> is \<open>npos\<close>.\<close>

definition str_find :: "char \<Rightarrow> string \<Rightarrow> nat option" where
  "str_find c s = (if c \<in> set s then Some (length (takeWhile (\<lambda>d. d \<noteq> c) s)) else None)"

definition str_rfind :: "char \<Rightarrow> string \<Rightarrow> nat option" where
  "str_rfind c s =
    (if c \<in> set s then Some (length s - 1 - length (takeWhile (\<lambda>d. d \<noteq> c) (rev s))) else None)"

definition is_blank :: "char \<Rightarrow> bool" where
  "is_blank c \<longleftrightarrow> c = CHR '' '' \<or> c = CHR 0x09"

text \<open>\<open>find_first_not_of(" \t")\<close> and the \<open>substr\<close> after it.\<close>

definition trim_leading :: "string \<Rightarrow> string" where
  "trim_leading value = (if list_all is_blank value then value else dropWhile is_blank value)"

text \<open>
  \<open>std::stoul\<close> in base 10: white space, an optional sign, digits; \<open>invalid_argument\<close> without digits,
  \<open>out_of_range\<close> beyond 64 bits; a minus sign negates modulo \<open>2 ^ 64\<close>; what follows is ignored.
\<close>

definition is_space :: "char \<Rightarrow> bool" where
  "is_space c \<longleftrightarrow> c = CHR '' '' \<or> (9 \<le> (of_char c :: nat) \<and> (of_char c :: nat) \<le> 13)"

definition stoul :: "string \<Rightarrow> nat res" where
  "stoul str =
    (let s = dropWhile is_space str;
         neg = (case s of [] \<Rightarrow> False | c # _ \<Rightarrow> c = CHR ''-'');
         s = (case s of [] \<Rightarrow> [] | c # cs \<Rightarrow> if c = CHR ''-'' \<or> c = CHR ''+'' then cs else c # cs);
         ds = takeWhile is_digit s
     in if ds = [] then Inl InvalidArgument
        else if dec_val ds \<ge> 2 ^ 64 then Inl OutOfRange
        else Inr (if neg then (2 ^ 64 - dec_val ds) mod 2 ^ 64 else dec_val ds))"

section \<open>The request line\<close>

definition stringToMethod :: "string \<Rightarrow> HttpMethod" where
  "stringToMethod method =
    (if method = ''GET'' then kGet
     else if method = ''POST'' then kPost
     else if method = ''HEAD'' then kHead
     else if method = ''PUT'' then kPut
     else if method = ''DELETE'' then kDelete
     else if method = ''OPTIONS'' then kOptions
     else if method = ''PATCH'' then kPatch
     else kInvalid)"

definition HttpContext_parseRequestLine :: "string \<Rightarrow> http_request \<Rightarrow> bool \<times> http_request" where
  "HttpContext_parseRequestLine line request =
    (case str_find (CHR '' '') line of
       None \<Rightarrow> (False, request)
     | Some space1 \<Rightarrow>
        (let method = stringToMethod (take space1 line) in
         if method = kInvalid then (False, request)
         else let request = request\<lparr>req_method := method\<rparr> in
         (case str_rfind (CHR '' '') line of
            None \<Rightarrow> (False, request)
          | Some space2 \<Rightarrow>
             if space2 \<le> space1 + 1 then (False, request)
             else
              (let url = take (space2 - space1 - 1) (drop (space1 + 1) line);
                   request =
                     (case str_find (CHR ''?'') url of
                        Some qmark \<Rightarrow>
                          request\<lparr>req_path := take qmark url, req_query := drop (qmark + 1) url\<rparr>
                      | None \<Rightarrow> request\<lparr>req_path := url\<rparr>);
                   versionStr = drop (space2 + 1) line
               in if versionStr = ''HTTP/1.1'' then (True, request\<lparr>req_version := kHttp11\<rparr>)
                  else if versionStr = ''HTTP/1.0'' then (True, request\<lparr>req_version := kHttp10\<rparr>)
                  else (False, request)))))"

section \<open>The parser\<close>

datatype parse_state = kExpectRequestLine | kExpectHeaders | kExpectBody | kGotAll

record parse_cfg =
  ps_state :: parse_state
  ps_buf :: buffer
  ps_request :: http_request
  ps_response :: http_response

text \<open>One pass of \<open>while (more)\<close>: go on, leave the loop (\<open>more = false\<close>), or \<open>return true\<close>.\<close>

datatype 'c flow = Again 'c | Leave 'c | Return 'c

definition bad_request :: "http_response \<Rightarrow> http_response" where
  "bad_request response =
    (let response = response\<lparr>statusCode := k400BadRequest\<rparr>;
         response = response\<lparr>resp_body := ''Bad Request'' @ crlf\<rparr>;
         response = HttpResponse_setContentType ''text/plain'' response
     in response\<lparr>closeConnection := True\<rparr>)"

definition parse_header :: "string \<Rightarrow> http_request \<Rightarrow> http_request" where
  "parse_header line request =
    (case str_find (CHR '':'') line of
       None \<Rightarrow> request
     | Some colon \<Rightarrow>
         HttpRequest_setHeader (take colon line) (trim_leading (drop (colon + 1) line)) request)"

definition expects_body :: "http_request \<Rightarrow> bool" where
  "expects_body request \<longleftrightarrow>
    req_method request = kPost \<or> req_method request = kPut \<or> req_method request = kPatch"

definition HttpContext_pass :: "parse_cfg \<Rightarrow> parse_cfg flow res" where
  "HttpContext_pass c =
    (let buf = ps_buf c; request = ps_request c; response = ps_response c in
     case ps_state c of
       kExpectRequestLine \<Rightarrow>
         (case Buffer_findCRLF buf of
            None \<Rightarrow> Inr (Leave c)
          | Some p \<Rightarrow>
             (let lineLen = p - readIndex buf; line = Buffer_bytes lineLen buf in
              rbind (Buffer_retrieve (lineLen + 2) buf) (\<lambda>buf.
                let parsed = HttpContext_parseRequestLine line request;
                    c = c\<lparr>ps_buf := buf, ps_request := snd parsed\<rparr>
                in if \<not> fst parsed then Inr (Return (c\<lparr>ps_response := bad_request response\<rparr>))
                   else Inr (Again (c\<lparr>ps_state := kExpectHeaders\<rparr>)))))
     | kExpectHeaders \<Rightarrow>
         (case Buffer_findCRLF buf of
            None \<Rightarrow> Inr (Leave c)
          | Some p \<Rightarrow>
             (let lineLen = p - readIndex buf; line = Buffer_bytes lineLen buf in
              rbind (Buffer_retrieve (lineLen + 2) buf) (\<lambda>buf.
                let c = c\<lparr>ps_buf := buf\<rparr> in
                if line = []
                then Inr (Again (c\<lparr>ps_state := (if expects_body request then kExpectBody else kGotAll)\<rparr>))
                else Inr (Again (c\<lparr>ps_request := parse_header line request\<rparr>)))))
     | kExpectBody \<Rightarrow>
         (let contentLenStr = HttpRequest_getHeader ''Content-Length'' request in
          if contentLenStr \<noteq> [] then
            rbind (stoul contentLenStr) (\<lambda>contentLen.
              if Buffer_readableBytes buf \<ge> contentLen then
                rbind (Buffer_readAsString contentLen buf) (\<lambda>(body, buf).
                  Inr (Again (c\<lparr>ps_buf := buf, ps_request := request\<lparr>req_body := body\<rparr>,
                                ps_state := kGotAll\<rparr>)))
              else Inr (Leave c))
          else Inr (Again (c\<lparr>ps_state := kGotAll\<rparr>)))
     | kGotAll \<Rightarrow> Inr (Leave c))"

text \<open>Every pass that goes on advances the state or consumes at least one line end.\<close>

fun state_rank :: "parse_state \<Rightarrow> nat" where
  "state_rank kExpectRequestLine = 3"
| "state_rank kExpectHeaders = 2"
| "state_rank kExpectBody = 1"
| "state_rank kGotAll = 0"

lemma retrieve_decreases:
  assumes "Buffer_retrieve n b = Inr b'" and "0 < n"
  shows "Buffer_readableBytes b' < Buffer_readableBytes b"
  using assms
  by (auto simp: Buffer_retrieve_def Buffer_retrieveAll_def Buffer_readableBytes_def split: if_splits)

lemma pass_decreases:
  assumes "HttpContext_pass c = Inr (Again c')"
  shows "state_rank (ps_state c') < state_rank (ps_state c) \<or>
    state_rank (ps_state c') = state_rank (ps_state c) \<and>
    Buffer_readableBytes (ps_buf c') < Buffer_readableBytes (ps_buf c)"
proof (cases "ps_state c")
  case kExpectRequestLine
  with assms show ?thesis
    by (auto simp: HttpContext_pass_def Let_def rbind_eq_Inr split: option.splits if_splits)
next
  case kExpectHeaders
  with assms show ?thesis
    by (auto simp: HttpContext_pass_def Let_def rbind_eq_Inr split: option.splits if_splits
        dest: retrieve_decreases)
next
  case kExpectBody
  with assms show ?thesis
    by (auto simp: HttpContext_pass_def Let_def rbind_eq_Inr split: if_splits)
next
  case kGotAll
  with assms show ?thesis by (simp add: HttpContext_pass_def Let_def)
qed

function HttpContext_parse :: "parse_cfg \<Rightarrow> (bool \<times> parse_cfg) res" where
  "HttpContext_parse c =
    (case HttpContext_pass c of
       Inl e \<Rightarrow> Inl e
     | Inr (Again c') \<Rightarrow> HttpContext_parse c'
     | Inr (Leave c') \<Rightarrow> Inr (ps_state c' = kGotAll, c')
     | Inr (Return c') \<Rightarrow> Inr (True, c'))"
  by pat_completeness auto
termination
proof (relation "measures [\<lambda>c. state_rank (ps_state c), \<lambda>c. Buffer_readableBytes (ps_buf c)]", goal_cases)
  case (2 c f c')
  with pass_decreases [of c c'] show ?case by auto
qed simp

declare HttpContext_parse.simps [simp del]

section \<open>The parser over byte strings\<close>

text \<open>
  The same machine on the abstract content of the buffer. It is the specification of the parser: the
  buffer's layout, its growth and its compaction play no role in it.
\<close>

record string_cfg =
  sp_state :: parse_state
  sp_in :: string
  sp_request :: http_request
  sp_response :: http_response

definition sp_abs :: "parse_cfg \<Rightarrow> string_cfg" where
  "sp_abs c =
    \<lparr>sp_state = ps_state c, sp_in = Buffer_content (ps_buf c), sp_request = ps_request c,
     sp_response = ps_response c\<rparr>"

definition sp_pass :: "string_cfg \<Rightarrow> string_cfg flow res" where
  "sp_pass s =
    (case sp_state s of
       kExpectRequestLine \<Rightarrow>
         (case search_crlf (sp_in s) of
            None \<Rightarrow> Inr (Leave s)
          | Some k \<Rightarrow>
             (let parsed = HttpContext_parseRequestLine (take k (sp_in s)) (sp_request s);
                  t = s\<lparr>sp_in := drop (k + 2) (sp_in s), sp_request := snd parsed\<rparr>
              in if \<not> fst parsed then Inr (Return (t\<lparr>sp_response := bad_request (sp_response s)\<rparr>))
                 else Inr (Again (t\<lparr>sp_state := kExpectHeaders\<rparr>))))
     | kExpectHeaders \<Rightarrow>
         (case search_crlf (sp_in s) of
            None \<Rightarrow> Inr (Leave s)
          | Some k \<Rightarrow>
             (let line = take k (sp_in s); t = s\<lparr>sp_in := drop (k + 2) (sp_in s)\<rparr> in
              if line = []
              then Inr (Again (t\<lparr>sp_state := (if expects_body (sp_request s) then kExpectBody else kGotAll)\<rparr>))
              else Inr (Again (t\<lparr>sp_request := parse_header line (sp_request s)\<rparr>))))
     | kExpectBody \<Rightarrow>
         (let contentLenStr = HttpRequest_getHeader ''Content-Length'' (sp_request s) in
          if contentLenStr \<noteq> [] then
            rbind (stoul contentLenStr) (\<lambda>contentLen.
              if contentLen \<le> length (sp_in s) then
                Inr (Again (s\<lparr>sp_in := drop contentLen (sp_in s),
                              sp_request := (sp_request s)\<lparr>req_body := take contentLen (sp_in s)\<rparr>,
                              sp_state := kGotAll\<rparr>))
              else Inr (Leave s))
          else Inr (Again (s\<lparr>sp_state := kGotAll\<rparr>)))
     | kGotAll \<Rightarrow> Inr (Leave s))"

lemma search_crlf_bound: "search_crlf cs = Some k \<Longrightarrow> k + 2 \<le> length cs"
  by (auto simp: search_crlf_Some_iff)

lemma sp_pass_decreases:
  assumes "sp_pass s = Inr (Again s')"
  shows "state_rank (sp_state s') < state_rank (sp_state s) \<or>
    state_rank (sp_state s') = state_rank (sp_state s) \<and> length (sp_in s') < length (sp_in s)"
  using assms
  by (cases "sp_state s")
    (auto simp: sp_pass_def Let_def rbind_eq_Inr split: option.splits if_splits dest: search_crlf_bound)

function sp_parse :: "string_cfg \<Rightarrow> (bool \<times> string_cfg) res" where
  "sp_parse s =
    (case sp_pass s of
       Inl e \<Rightarrow> Inl e
     | Inr (Again s') \<Rightarrow> sp_parse s'
     | Inr (Leave s') \<Rightarrow> Inr (sp_state s' = kGotAll, s')
     | Inr (Return s') \<Rightarrow> Inr (True, s'))"
  by pat_completeness auto
termination
proof (relation "measures [\<lambda>s. state_rank (sp_state s), \<lambda>s. length (sp_in s)]", goal_cases)
  case (2 s f s')
  with sp_pass_decreases [of s s'] show ?case by auto
qed simp

declare sp_parse.simps [simp del]

text \<open>Removing a line from a buffer is removing it from the content.\<close>

lemma take_line:
  assumes "Buffer_inv b" and "search_crlf (Buffer_content b) = Some k"
  shows "\<exists>b'. Buffer_retrieve (k + 2) b = Inr b' \<and> Buffer_inv b' \<and>
      Buffer_content b' = drop (k + 2) (Buffer_content b)"
    and "Buffer_bytes k b = take k (Buffer_content b)"
proof -
  from search_crlf_bound [OF assms(2)] have "k + 2 \<le> Buffer_readableBytes b"
    using assms(1) by simp
  then show "\<exists>b'. Buffer_retrieve (k + 2) b = Inr b' \<and> Buffer_inv b' \<and>
      Buffer_content b' = drop (k + 2) (Buffer_content b)"
    and "Buffer_bytes k b = take k (Buffer_content b)"
    using retrieve_ok [OF assms(1)] Buffer_bytes_take [OF assms(1)] by simp_all
qed

abbreviation flow_inv :: "parse_cfg flow \<Rightarrow> bool" where
  "flow_inv \<equiv> pred_flow (\<lambda>c. Buffer_inv (ps_buf c))"

lemma pass_line_refines:
  assumes inv: "Buffer_inv (ps_buf c)" and st: "ps_state c = kExpectRequestLine \<or> ps_state c = kExpectHeaders"
  shows "map_sum id (map_flow sp_abs) (HttpContext_pass c) = sp_pass (sp_abs c) \<and>
    (\<forall>f. HttpContext_pass c = Inr f \<longrightarrow> flow_inv f)"
proof (cases "search_crlf (Buffer_content (ps_buf c))")
  case None
  with st inv show ?thesis
    by (auto simp: HttpContext_pass_def sp_pass_def findCRLF_content Let_def sp_abs_def)
next
  case (Some k)
  obtain b' where b': "Buffer_retrieve (k + 2) (ps_buf c) = Inr b'" "Buffer_inv b'"
    "Buffer_content b' = drop (k + 2) (Buffer_content (ps_buf c))"
    using take_line(1) [OF inv Some] by blast
  note line = findCRLF_content Some b' take_line(2) [OF inv Some]
  from st show ?thesis
  proof
    assume "ps_state c = kExpectRequestLine"
    with line show ?thesis
      by (cases "fst (HttpContext_parseRequestLine (take k (Buffer_content (ps_buf c))) (ps_request c))")
        (simp_all add: HttpContext_pass_def sp_pass_def Let_def sp_abs_def)
  next
    assume "ps_state c = kExpectHeaders"
    with line show ?thesis
      by (cases "take k (Buffer_content (ps_buf c)) = []")
        (simp_all add: HttpContext_pass_def sp_pass_def Let_def sp_abs_def)
  qed
qed

lemma pass_refines:
  assumes inv: "Buffer_inv (ps_buf c)"
  shows "map_sum id (map_flow sp_abs) (HttpContext_pass c) = sp_pass (sp_abs c) \<and>
    (\<forall>f. HttpContext_pass c = Inr f \<longrightarrow> flow_inv f)"
proof (cases "ps_state c")
  case kExpectBody
  let ?len = "HttpRequest_getHeader ''Content-Length'' (ps_request c)"
  show ?thesis
  proof (cases "stoul ?len")
    case (Inl e)
    with kExpectBody inv show ?thesis
      by (auto simp: HttpContext_pass_def sp_pass_def Let_def sp_abs_def)
  next
    case (Inr n)
    obtain b' where "Buffer_readAsString n (ps_buf c) = Inr (take n (Buffer_content (ps_buf c)), b')"
      "Buffer_inv b'" "Buffer_content b' = drop n (Buffer_content (ps_buf c))"
      using readAsString_ok [OF inv, of n] by blast
    with Inr kExpectBody inv show ?thesis
      by (auto simp: HttpContext_pass_def sp_pass_def Let_def sp_abs_def)
  qed
next
  case kGotAll
  with inv show ?thesis by (simp add: HttpContext_pass_def sp_pass_def sp_abs_def)
qed (use pass_line_refines inv in auto)

lemma parse_refines:
  "Buffer_inv (ps_buf c) \<Longrightarrow>
    map_sum id (map_prod id sp_abs) (HttpContext_parse c) = sp_parse (sp_abs c) \<and>
    (\<forall>r c'. HttpContext_parse c = Inr (r, c') \<longrightarrow> Buffer_inv (ps_buf c'))"
proof (induction c rule: HttpContext_parse.induct)
  case (1 c)
  from pass_refines [OF "1.prems"]
  have abs: "sp_pass (sp_abs c) = map_sum id (map_flow sp_abs) (HttpContext_pass c)"
    and inv: "\<And>f. HttpContext_pass c = Inr f \<Longrightarrow> flow_inv f" by auto
  show ?case
  proof (cases "HttpContext_pass c")
    case (Inl e)
    with abs show ?thesis by (simp add: HttpContext_parse.simps [of c] sp_parse.simps [of "sp_abs c"])
  next
    case (Inr f)
    show ?thesis
    proof (cases f)
      case (Again c')
      with Inr inv have "Buffer_inv (ps_buf c')" by force
      with "1.IH" [OF Inr Again] Inr Again abs show ?thesis
        by (simp add: HttpContext_parse.simps [of c] sp_parse.simps [of "sp_abs c"])
    next
      case (Leave c')
      with Inr inv have "Buffer_inv (ps_buf c')" by force
      with Inr Leave abs show ?thesis
        by (simp add: HttpContext_parse.simps [of c] sp_parse.simps [of "sp_abs c"])
          (simp add: sp_abs_def)
    next
      case (Return c')
      with Inr inv have "Buffer_inv (ps_buf c')" by force
      with Inr Return abs show ?thesis
        by (simp add: HttpContext_parse.simps [of c] sp_parse.simps [of "sp_abs c"])
    qed
  qed
qed

section \<open>Input that arrives in pieces\<close>

definition sp_extend :: "string \<Rightarrow> string_cfg \<Rightarrow> string_cfg" where
  "sp_extend d s = s\<lparr>sp_in := sp_in s @ d\<rparr>"

text \<open>More input changes nothing in a pass that did something, and in a pass that failed.\<close>

fun flow_extend :: "string \<Rightarrow> string_cfg flow \<Rightarrow> string_cfg flow" where
  "flow_extend d (Again s) = Again (sp_extend d s)"
| "flow_extend d (Leave s) = Leave s"
| "flow_extend d (Return s) = Return (sp_extend d s)"

fun is_Leave :: "'c flow \<Rightarrow> bool" where
  "is_Leave (Leave c) = True"
| "is_Leave f = False"

lemma sp_pass_body_extend:
  assumes "sp_state s = kExpectBody" and "\<And>f. sp_pass s = Inr f \<Longrightarrow> \<not> is_Leave f"
  shows "sp_pass (sp_extend d s) = map_sum id (flow_extend d) (sp_pass s)"
proof (cases "HttpRequest_getHeader ''Content-Length'' (sp_request s) = []")
  case True
  with assms(1) show ?thesis by (simp add: sp_pass_def sp_extend_def)
next
  case False
  with assms show ?thesis
    by (cases "stoul (HttpRequest_getHeader ''Content-Length'' (sp_request s))")
      (auto simp: sp_pass_def sp_extend_def split: if_splits)
qed

lemma sp_pass_line_extend:
  assumes "sp_state s = kExpectRequestLine \<or> sp_state s = kExpectHeaders"
    and "search_crlf (sp_in s) = Some k"
  shows "sp_pass (sp_extend d s) = map_sum id (flow_extend d) (sp_pass s)"
  using assms(1)
proof
  note line = assms(2) search_crlf_extend [OF assms(2), of d] search_crlf_bound [OF assms(2)]
  {
    assume "sp_state s = kExpectRequestLine"
    with line show ?thesis by (simp add: sp_pass_def sp_extend_def Let_def)
  next
    assume "sp_state s = kExpectHeaders"
    with line show ?thesis
      by (cases "take k (sp_in s) = []") (simp_all add: sp_pass_def sp_extend_def Let_def)
  }
qed

lemma sp_pass_extend:
  assumes "\<And>f. sp_pass s = Inr f \<Longrightarrow> \<not> is_Leave f"
  shows "sp_pass (sp_extend d s) = map_sum id (flow_extend d) (sp_pass s)"
proof (cases "sp_state s")
  case kExpectBody
  then show ?thesis using assms by (rule sp_pass_body_extend)
next
  case kGotAll
  with assms show ?thesis by (simp add: sp_pass_def)
next
  case kExpectRequestLine
  with assms obtain k where "search_crlf (sp_in s) = Some k"
    by (cases "search_crlf (sp_in s)") (simp_all add: sp_pass_def)
  with kExpectRequestLine show ?thesis by (simp add: sp_pass_line_extend)
next
  case kExpectHeaders
  with assms obtain k where "search_crlf (sp_in s) = Some k"
    by (cases "search_crlf (sp_in s)") (simp_all add: sp_pass_def)
  with kExpectHeaders show ?thesis by (simp add: sp_pass_line_extend)
qed

lemma sp_pass_leave: "sp_pass s = Inr (Leave s') \<Longrightarrow> s' = s"
  by (cases "sp_state s")
    (auto simp: sp_pass_def Let_def rbind_def split: option.splits if_splits sum.splits)

lemma sp_parse_gotAll: "sp_state t = kGotAll \<Longrightarrow> sp_parse t = Inr (True, t)"
  by (simp add: sp_parse.simps [of t] sp_pass_def)

text \<open>What the parser makes of more input depends on what it made of the first part.\<close>

fun after_extend :: "string \<Rightarrow> (bool \<times> string_cfg) res \<Rightarrow> (bool \<times> string_cfg) res" where
  "after_extend d (Inl e) = Inl e"
| "after_extend d (Inr (True, s)) = Inr (True, sp_extend d s)"
| "after_extend d (Inr (False, s)) = sp_parse (sp_extend d s)"

lemma sp_parse_extend: "sp_parse (sp_extend d s) = after_extend d (sp_parse s)"
proof (induction s rule: sp_parse.induct)
  case (1 s)
  show ?case
  proof (cases "\<exists>t. sp_pass s = Inr (Leave t)")
    case True
    then have leave: "sp_pass s = Inr (Leave s)" using sp_pass_leave by auto
    show ?thesis
    proof (cases "sp_state s = kGotAll")
      case True
      moreover have "sp_state (sp_extend d s) = sp_state s" by (simp add: sp_extend_def)
      ultimately show ?thesis by (simp add: sp_parse_gotAll)
    next
      case False
      with leave show ?thesis by (simp add: sp_parse.simps [of s])
    qed
  next
    case False
    then have "\<And>f. sp_pass s = Inr f \<Longrightarrow> \<not> is_Leave f" by (metis is_Leave.elims(2))
    from sp_pass_extend [OF this]
    have ext: "sp_pass (sp_extend d s) = map_sum id (flow_extend d) (sp_pass s)" by simp
    show ?thesis
    proof (cases "sp_pass s")
      case (Inl e)
      with ext show ?thesis by (simp add: sp_parse.simps [of s] sp_parse.simps [of "sp_extend d s"])
    next
      case (Inr f)
      with False ext "1.IH" [OF Inr] show ?thesis
        by (cases f) (simp_all add: sp_parse.simps [of s] sp_parse.simps [of "sp_extend d s"])
    qed
  qed
qed

lemma sp_abs_extend:
  "Buffer_content b = Buffer_content (ps_buf c) @ d \<Longrightarrow> sp_abs (c\<lparr>ps_buf := b\<rparr>) = sp_extend d (sp_abs c)"
  by (simp add: sp_abs_def sp_extend_def)

section \<open>Requests as bytes\<close>

fun version_string :: "HttpVersion \<Rightarrow> string" where
  "version_string kHttp10 = ''HTTP/1.0''"
| "version_string kHttp11 = ''HTTP/1.1''"
| "version_string kUnknownVersion = []"

definition request_url :: "http_request \<Rightarrow> string" where
  "request_url r = req_path r @ (if req_query r = [] then [] else ''?'' @ req_query r)"

definition request_line :: "http_request \<Rightarrow> string" where
  "request_line r =
    methodToString (req_method r) @ '' '' @ request_url r @ '' '' @ version_string (req_version r)"

definition request_head :: "http_request \<Rightarrow> string" where
  "request_head r = request_line r @ crlf @ concat (map header_line (req_headers r)) @ crlf"

text \<open>
  What a client may send: a method and a version the server knows, a target that is not empty and whose
  path has no question mark, no carriage return inside a line, header names without a colon, header
  values that begin with a visible byte, and a body that the \<open>Content-Length\<close> announces.
\<close>

definition wf_header :: "string \<times> string \<Rightarrow> bool" where
  "wf_header kv \<longleftrightarrow>
    CHR 0x0D \<notin> set (fst kv) \<and> CHR '':'' \<notin> set (fst kv) \<and> CHR 0x0D \<notin> set (snd kv) \<and>
    snd kv \<noteq> [] \<and> \<not> is_blank (hd (snd kv))"

definition wf_head :: "http_request \<Rightarrow> bool" where
  "wf_head r \<longleftrightarrow>
    req_method r \<noteq> kInvalid \<and> req_version r \<noteq> kUnknownVersion \<and>
    CHR 0x0D \<notin> set (req_path r) \<and> CHR ''?'' \<notin> set (req_path r) \<and> CHR 0x0D \<notin> set (req_query r) \<and>
    request_url r \<noteq> [] \<and> ordered (req_headers r) \<and> (\<forall>kv \<in> set (req_headers r). wf_header kv)"

definition wf_body :: "http_request \<Rightarrow> bool" where
  "wf_body r \<longleftrightarrow>
    (if expects_body r
     then HttpRequest_getHeader ''Content-Length'' r = to_string (length (req_body r)) \<and>
       length (req_body r) < 2 ^ 64
     else req_body r = [])"

lemma takeWhile_clean [simp]: "c \<notin> set xs \<Longrightarrow> takeWhile (\<lambda>d. d \<noteq> c) (xs @ c # ys) = xs"
  by (induction xs) auto

lemma str_find_first: "c \<notin> set xs \<Longrightarrow> str_find c (xs @ c # ys) = Some (length xs)"
  by (simp add: str_find_def)

lemma str_rfind_last: "c \<notin> set ys \<Longrightarrow> str_rfind c (xs @ c # ys) = Some (length xs)"
  by (simp add: str_rfind_def)

lemma stringToMethod_inverse: "m \<noteq> kInvalid \<Longrightarrow> stringToMethod (methodToString m) = m"
  by (cases m) (simp_all add: stringToMethod_def)

lemma method_chars: "CHR '' '' \<notin> set (methodToString m)" "CHR 0x0D \<notin> set (methodToString m)"
  by (cases m; simp)+

lemma version_chars: "CHR '' '' \<notin> set (version_string v)" "CHR 0x0D \<notin> set (version_string v)"
  by (cases v; simp)+

lemma parse_request_line:
  assumes "wf_head r"
  shows "HttpContext_parseRequestLine (request_line r) HttpRequest_new =
    (True, HttpRequest_new\<lparr>req_method := req_method r, req_path := req_path r,
       req_query := req_query r, req_version := req_version r\<rparr>)"
proof -
  let ?m = "methodToString (req_method r)" and ?u = "request_url r" and ?v = "version_string (req_version r)"
  have line: "request_line r = ?m @ CHR '' '' # ?u @ CHR '' '' # ?v"
    "request_line r = (?m @ CHR '' '' # ?u) @ CHR '' '' # ?v"
    by (simp_all add: request_line_def)
  have s1: "str_find (CHR '' '') (request_line r) = Some (length ?m)"
    unfolding line(1) by (rule str_find_first [OF method_chars(1)])
  have s2: "str_rfind (CHR '' '') (request_line r) = Some (length ?m + 1 + length ?u)"
    unfolding line(2) str_rfind_last [OF version_chars(1)] by simp
  have parts: "take (length ?m) (request_line r) = ?m"
    "take (length ?u) (drop (length ?m + 1) (request_line r)) = ?u"
    "drop (length ?m + 1 + length ?u + 1) (request_line r) = ?v"
    by (simp_all add: request_line_def)
  let ?q = "HttpRequest_new\<lparr>req_method := req_method r\<rparr>"
  have url: "(case str_find (CHR ''?'') ?u of
      Some qmark \<Rightarrow> ?q\<lparr>req_path := take qmark ?u, req_query := drop (qmark + 1) ?u\<rparr>
    | None \<Rightarrow> ?q\<lparr>req_path := ?u\<rparr>) = ?q\<lparr>req_path := req_path r, req_query := req_query r\<rparr>"
    using assms str_find_first [of "CHR ''?''" "req_path r"]
    by (auto simp: request_url_def wf_head_def str_find_def HttpRequest_new_def)
  from assms have "length ?u > 0" "req_version r \<noteq> kUnknownVersion" "req_method r \<noteq> kInvalid"
    by (auto simp: wf_head_def)
  moreover have len: "length ?m + 1 + length ?u - length ?m - 1 = length ?u" by simp
  ultimately show ?thesis
    unfolding HttpContext_parseRequestLine_def s1 option.case Let_def parts(1) s2 len parts(2) url
      stringToMethod_inverse [OF \<open>req_method r \<noteq> kInvalid\<close>]
    using parts(3) url by (cases "req_version r") simp_all
qed

text \<open>Reading the head line by line.\<close>

lemma sp_parse_Again: "sp_pass s = Inr (Again t) \<Longrightarrow> sp_parse s = sp_parse t"
  by (simp add: sp_parse.simps [of s])

lemma search_clean:
  assumes "CHR 0x0D \<notin> set l"
  shows "search_crlf (l @ crlf @ ds) = Some (length l)"
proof -
  from assms have "search_crlf l = None" by (auto simp: search_crlf_None_iff)
  moreover from assms have "l = [] \<or> last l \<noteq> CHR 0x0D" using last_in_set by metis
  ultimately show ?thesis using search_crlf_append [of l ds] by (simp add: crlf_def)
qed

lemma drop_line: "drop (length l + 2) (l @ crlf @ ds) = ds"
  by (simp add: crlf_def)

lemma mput_snoc: "ordered (m @ [(k, v)]) \<Longrightarrow> mput k v m = m @ [(k, v)]"
  by (induction m) (auto simp: sorted_wrt_append)

lemma parse_header_line:
  assumes "wf_header (k, v)"
  shows "parse_header (k @ '': '' @ v) q = HttpRequest_setHeader k v q"
proof -
  from assms have "str_find (CHR '':'') (k @ CHR '':'' # CHR '' '' # v) = Some (length k)"
    by (intro str_find_first) (simp add: wf_header_def)
  moreover have "trim_leading (CHR '' '' # v) = v"
    using assms by (cases v) (simp_all add: trim_leading_def wf_header_def is_blank_def)
  ultimately show ?thesis by (simp add: parse_header_def)
qed

lemma sp_parse_header:
  assumes "sp_state s = kExpectHeaders" and "sp_in s = header_line (k, v) @ rest" and "wf_header (k, v)"
  shows "sp_parse s =
    sp_parse (s\<lparr>sp_in := rest, sp_request := HttpRequest_setHeader k v (sp_request s)\<rparr>)"
proof -
  let ?l = "k @ '': '' @ v"
  have inp: "sp_in s = ?l @ crlf @ rest" using assms(2) by (simp add: header_line_def)
  have "search_crlf (sp_in s) = Some (length ?l)"
    unfolding inp using assms(3) by (intro search_clean) (simp add: wf_header_def)
  moreover have "take (length ?l) (sp_in s) = ?l" "drop (length ?l + 2) (sp_in s) = rest"
    unfolding inp drop_line by simp_all
  ultimately show ?thesis
    using assms(1) parse_header_line [OF assms(3)]
    by (intro sp_parse_Again) (simp add: sp_pass_def Let_def)
qed

lemma sp_parse_headers:
  assumes "sp_state s = kExpectHeaders" and "sp_in s = concat (map header_line hs) @ rest"
    and "\<forall>kv \<in> set hs. wf_header kv" and "ordered (req_headers (sp_request s) @ hs)"
  shows "sp_parse s =
    sp_parse (s\<lparr>sp_in := rest, sp_request := (sp_request s)\<lparr>req_headers := req_headers (sp_request s) @ hs\<rparr>\<rparr>)"
  using assms
proof (induction hs arbitrary: s)
  case (Cons kv hs)
  obtain k v where kv: "kv = (k, v)" by (cases kv)
  let ?t = "s\<lparr>sp_in := concat (map header_line hs) @ rest, sp_request := HttpRequest_setHeader k v (sp_request s)\<rparr>"
  have ord: "ordered ((req_headers (sp_request s) @ [(k, v)]) @ hs)"
    using Cons.prems(4) kv by simp
  then have "ordered (req_headers (sp_request s) @ [(k, v)])"
    unfolding map_append sorted_wrt_append by blast
  then have put: "HttpRequest_setHeader k v (sp_request s) =
      (sp_request s)\<lparr>req_headers := req_headers (sp_request s) @ [(k, v)]\<rparr>"
    by (simp add: HttpRequest_setHeader_def mput_snoc)
  have "sp_parse s = sp_parse ?t"
    using Cons.prems kv by (intro sp_parse_header) simp_all
  also have "\<dots> = sp_parse (?t\<lparr>sp_in := rest,
      sp_request := (sp_request ?t)\<lparr>req_headers := req_headers (sp_request ?t) @ hs\<rparr>\<rparr>)"
    using Cons.prems ord by (intro Cons.IH) (simp_all add: put)
  finally show ?case by (simp add: put kv)
next
  case Nil
  then have "s = s\<lparr>sp_in := rest, sp_request := (sp_request s)\<lparr>req_headers := req_headers (sp_request s) @ []\<rparr>\<rparr>"
    by simp
  then show ?case by (rule arg_cong)
qed

lemma sp_parse_blank_line:
  assumes "sp_state s = kExpectHeaders" and "sp_in s = crlf @ rest"
  shows "sp_parse s = sp_parse (s\<lparr>sp_in := rest,
    sp_state := (if expects_body (sp_request s) then kExpectBody else kGotAll)\<rparr>)"
  using assms search_clean [of "[]" rest]
  by (intro sp_parse_Again) (simp add: sp_pass_def Let_def crlf_def)

lemma sp_parse_head:
  assumes "wf_head r" and "sp_state s = kExpectRequestLine" and "sp_request s = HttpRequest_new"
    and "sp_in s = request_head r @ rest"
  shows "sp_parse s = sp_parse (s\<lparr>sp_in := rest, sp_request := r\<lparr>req_body := []\<rparr>,
    sp_state := (if expects_body r then kExpectBody else kGotAll)\<rparr>)"
proof -
  let ?q = "HttpRequest_new\<lparr>req_method := req_method r, req_path := req_path r,
       req_query := req_query r, req_version := req_version r\<rparr>"
  let ?hs = "concat (map header_line (req_headers r))"
  let ?s1 = "s\<lparr>sp_in := ?hs @ crlf @ rest, sp_request := ?q, sp_state := kExpectHeaders\<rparr>"
  have inp: "sp_in s = request_line r @ crlf @ ?hs @ crlf @ rest"
    using assms(4) by (simp add: request_head_def)
  have "search_crlf (sp_in s) = Some (length (request_line r))"
    unfolding inp using assms(1) method_chars(2) version_chars(2)
    by (intro search_clean) (simp add: request_line_def request_url_def wf_head_def)
  moreover have "take (length (request_line r)) (sp_in s) = request_line r"
    "drop (length (request_line r) + 2) (sp_in s) = ?hs @ crlf @ rest"
    unfolding inp drop_line by simp_all
  ultimately have "sp_parse s = sp_parse ?s1"
    using assms(2,3) parse_request_line [OF assms(1)]
    by (intro sp_parse_Again) (simp add: sp_pass_def Let_def)
  also have "\<dots> = sp_parse (?s1\<lparr>sp_in := crlf @ rest, sp_request := ?q\<lparr>req_headers := req_headers r\<rparr>\<rparr>)"
    using assms(1) sp_parse_headers [of ?s1 "req_headers r" "crlf @ rest"]
    by (simp add: wf_head_def HttpRequest_new_def)
  also have "?q\<lparr>req_headers := req_headers r\<rparr> = r\<lparr>req_body := []\<rparr>"
    by (simp add: HttpRequest_new_def)
  also have "sp_parse (?s1\<lparr>sp_in := crlf @ rest, sp_request := r\<lparr>req_body := []\<rparr>\<rparr>) =
      sp_parse (?s1\<lparr>sp_in := rest, sp_request := r\<lparr>req_body := []\<rparr>,
        sp_state := (if expects_body r then kExpectBody else kGotAll)\<rparr>)"
    by (subst sp_parse_blank_line [of _ rest], simp, simp, cases s) (simp add: expects_body_def)
  also have "?s1\<lparr>sp_in := rest, sp_request := r\<lparr>req_body := []\<rparr>,
        sp_state := (if expects_body r then kExpectBody else kGotAll)\<rparr> =
      s\<lparr>sp_in := rest, sp_request := r\<lparr>req_body := []\<rparr>,
        sp_state := (if expects_body r then kExpectBody else kGotAll)\<rparr>"
    by simp
  finally show ?thesis .
qed

text \<open>What one pass can do, and with it the whole loop.\<close>

lemma stoul_fault: "stoul v = Inl e \<Longrightarrow> e = InvalidArgument \<or> e = OutOfRange"
  by (auto simp: stoul_def Let_def split: if_splits)

lemma stoul_to_string:
  assumes "n < 2 ^ 64"
  shows "stoul (to_string n) = Inr n"
proof -
  have digits: "takeWhile is_digit (to_string n) = to_string n"
    using to_string_digits by (simp add: takeWhile_eq_all_conv)
  obtain c cs where c: "to_string n = c # cs" by (cases "to_string n") simp_all
  with to_string_digits [of n] have "is_digit c" by simp
  then have no: "\<not> is_space c" "c \<noteq> CHR ''-''" "c \<noteq> CHR ''+''"
    by (auto simp: is_digit_def is_space_def)
  then have "dropWhile is_space (to_string n) = to_string n" by (simp add: c)
  with no c digits dec_val_to_string [of n] assms show ?thesis
    by (simp add: stoul_def)
qed

definition waits_for_input :: "string_cfg \<Rightarrow> bool" where
  "waits_for_input s \<longleftrightarrow>
    (case sp_state s of
       kExpectBody \<Rightarrow>
         (\<exists>n. stoul (HttpRequest_getHeader ''Content-Length'' (sp_request s)) = Inr n \<and> length (sp_in s) < n)
     | kGotAll \<Rightarrow> False
     | _ \<Rightarrow> search_crlf (sp_in s) = None)"

lemma sp_pass_Inl: "sp_pass s = Inl e \<Longrightarrow> e = InvalidArgument \<or> e = OutOfRange"
  by (cases "sp_state s")
    (auto simp: sp_pass_def Let_def rbind_def dest: stoul_fault split: option.splits if_splits sum.splits)

lemma sp_pass_Again:
  assumes "sp_pass s = Inr (Again t)"
  shows "sp_response t = sp_response s" and "sp_state t \<noteq> kExpectRequestLine"
    and "suffix (sp_in t) (sp_in s)"
  using assms
  by (cases "sp_state s"; auto simp: sp_pass_def Let_def rbind_eq_Inr suffix_drop
      split: option.splits if_splits)+

lemma sp_pass_Return:
  assumes "sp_pass s = Inr (Return t)"
  shows "sp_state s = kExpectRequestLine" and "sp_state t = kExpectRequestLine"
    and "sp_response t = bad_request (sp_response s)" and "suffix (sp_in t) (sp_in s)"
  using assms
  by (cases "sp_state s"; auto simp: sp_pass_def Let_def rbind_eq_Inr suffix_drop
      split: option.splits if_splits)+

lemma sp_pass_Leave_waits:
  assumes "sp_pass s = Inr (Leave t)"
  shows "t = s" and "sp_state s = kGotAll \<or> waits_for_input s"
  using assms
  by (cases "sp_state s"; auto simp: sp_pass_def waits_for_input_def Let_def rbind_eq_Inr
      split: option.splits if_splits)+

definition parse_outcome :: "string_cfg \<Rightarrow> (bool \<times> string_cfg) res \<Rightarrow> bool" where
  "parse_outcome s r \<longleftrightarrow>
    (case r of
       Inl e \<Rightarrow> e = InvalidArgument \<or> e = OutOfRange
     | Inr (finished, t) \<Rightarrow>
         suffix (sp_in t) (sp_in s) \<and>
         (if \<not> finished then waits_for_input t \<and> sp_response t = sp_response s
          else sp_state t = kGotAll \<and> sp_response t = sp_response s \<or>
            sp_state s = kExpectRequestLine \<and> sp_state t = kExpectRequestLine \<and>
            sp_response t = bad_request (sp_response s)))"

lemma sp_parse_outcome: "parse_outcome s (sp_parse s)"
proof (induction s rule: sp_parse.induct)
  case (1 s)
  show ?case
  proof (cases "sp_pass s")
    case (Inl e)
    then show ?thesis
      by (simp add: sp_parse.simps [of s] parse_outcome_def sp_pass_Inl)
  next
    case (Inr f)
    show ?thesis
    proof (cases f)
      case (Again t)
      with Inr have pass: "sp_pass s = Inr (Again t)" by simp
      have "parse_outcome t (sp_parse t)" using "1.IH" [OF Inr Again] .
      with sp_pass_Again [OF pass] pass show ?thesis
        by (auto simp: sp_parse.simps [of s] parse_outcome_def intro: suffix_order.order_trans
            split: sum.splits prod.splits if_splits)
    next
      case (Leave t)
      with Inr have pass: "sp_pass s = Inr (Leave t)" by simp
      with sp_pass_Leave_waits [OF pass] show ?thesis
        by (auto simp: sp_parse.simps [of s] parse_outcome_def)
    next
      case (Return t)
      with Inr have pass: "sp_pass s = Inr (Return t)" by simp
      with sp_pass_Return [OF pass] show ?thesis
        by (simp add: sp_parse.simps [of s] parse_outcome_def)
    qed
  qed
qed

lemma parse_abstracts:
  assumes "Buffer_inv (ps_buf c)"
  shows "HttpContext_parse c = Inr (r, c') \<Longrightarrow> Buffer_inv (ps_buf c')"
    and "HttpContext_parse c = Inr (r, c') \<Longrightarrow> sp_parse (sp_abs c) = Inr (r, sp_abs c')"
    and "HttpContext_parse c = Inl e \<Longrightarrow> sp_parse (sp_abs c) = Inl e"
proof -
  note refines = parse_refines [OF assms]
  then show "HttpContext_parse c = Inr (r, c') \<Longrightarrow> Buffer_inv (ps_buf c')" by blast
  show "HttpContext_parse c = Inr (r, c') \<Longrightarrow> sp_parse (sp_abs c) = Inr (r, sp_abs c')"
    and "HttpContext_parse c = Inl e \<Longrightarrow> sp_parse (sp_abs c) = Inl e"
    using conjunct1 [OF refines] by simp_all
qed

lemma parse_via_strings:
  assumes "Buffer_inv (ps_buf c)" and "sp_parse (sp_abs c) = Inr (r, s)"
  obtains c' where "HttpContext_parse c = Inr (r, c')" and "sp_abs c' = s" and "Buffer_inv (ps_buf c')"
  using parse_refines [OF assms(1)] assms(2)
  by (cases "HttpContext_parse c") auto

lemma parse_faults_via_strings:
  "Buffer_inv (ps_buf c) \<Longrightarrow> HttpContext_parse c = Inl e \<longleftrightarrow> sp_parse (sp_abs c) = Inl e"
  using parse_refines [of c] by (cases "HttpContext_parse c") auto

lemma sp_parse_request:
  assumes "wf_head r" and "wf_body r" and "sp_state s = kExpectRequestLine"
    and "sp_request s = HttpRequest_new" and "sp_in s = request_head r @ req_body r @ rest"
  shows "sp_parse s = Inr (True, s\<lparr>sp_in := rest, sp_request := r, sp_state := kGotAll\<rparr>)"
proof (cases "expects_body r")
  case False
  with assms(2) have "r\<lparr>req_body := []\<rparr> = r" "req_body r = []" by (simp_all add: wf_body_def)
  with False sp_parse_head [OF assms(1,3,4,5)] show ?thesis by (simp add: sp_parse_gotAll)
next
  case True
  let ?s = "s\<lparr>sp_in := req_body r @ rest, sp_request := r\<lparr>req_body := []\<rparr>, sp_state := kExpectBody\<rparr>"
  have "HttpRequest_getHeader ''Content-Length'' (r\<lparr>req_body := []\<rparr>) = to_string (length (req_body r))"
    and "length (req_body r) < 2 ^ 64"
    using True assms(2) by (simp_all add: wf_body_def HttpRequest_getHeader_def)
  then have "sp_pass ?s = Inr (Again (?s\<lparr>sp_in := rest, sp_request := r, sp_state := kGotAll\<rparr>))"
    by (simp add: sp_pass_def stoul_to_string)
  with True sp_parse_head [OF assms(1,3,4,5)] show ?thesis
    by (simp add: sp_parse_Again sp_parse_gotAll)
qed

lemma sp_parse_bad_length:
  assumes "wf_head r" and "expects_body r" and "HttpRequest_getHeader ''Content-Length'' r \<noteq> []"
    and "stoul (HttpRequest_getHeader ''Content-Length'' r) = Inl e"
    and "sp_state s = kExpectRequestLine"
    and "sp_request s = HttpRequest_new" and "sp_in s = request_head r @ rest"
  shows "sp_parse s = Inl e"
proof -
  let ?s = "s\<lparr>sp_in := rest, sp_request := r\<lparr>req_body := []\<rparr>, sp_state := kExpectBody\<rparr>"
  have "HttpRequest_getHeader ''Content-Length'' (r\<lparr>req_body := []\<rparr>) = HttpRequest_getHeader ''Content-Length'' r"
    by (simp add: HttpRequest_getHeader_def)
  with assms(3,4) have "sp_pass ?s = Inl e" by (simp add: sp_pass_def)
  then have "sp_parse ?s = Inl e" by (simp add: sp_parse.simps [of ?s])
  with assms(2) sp_parse_head [OF assms(1,5,6,7)] show ?thesis by simp
qed

section \<open>Properties\<close>

definition parse_start :: "string \<Rightarrow> parse_cfg" where
  "parse_start bytes =
    \<lparr>ps_state = kExpectRequestLine, ps_buf = buffer_of bytes, ps_request = HttpRequest_new,
     ps_response = HttpResponse_new\<rparr>"

definition sample_get :: http_request where
  "sample_get =
    \<lparr>req_method = kGet, req_path = ''/hello'', req_query = ''a=1'', req_version = kHttp11,
     req_body = [], req_headers = [(''Host'', ''moon'')]\<rparr>"

definition sample_post :: http_request where
  "sample_post =
    \<lparr>req_method = kPost, req_path = ''/'', req_query = [], req_version = kHttp10,
     req_body = [], req_headers = [(''Content-Length'', ''many'')]\<rparr>"

text \<open>
  C15. Parsing inverts writing: a buffer that holds the bytes of a request a client may send, followed by
  anything, is parsed completely; the request object then equals the one that was sent, the bytes that
  follow it are left in the buffer, and the response is not touched.
\<close>

theorem http_request_roundtrip:
  assumes "wf_head r" and "wf_body r"
    and "Buffer_inv (ps_buf c)" and "ps_state c = kExpectRequestLine" and "ps_request c = HttpRequest_new"
    and "Buffer_content (ps_buf c) = request_head r @ req_body r @ rest"
  shows "\<exists>c'. HttpContext_parse c = Inr (True, c') \<and> ps_request c' = r \<and> ps_state c' = kGotAll \<and>
    ps_response c' = ps_response c \<and> Buffer_inv (ps_buf c') \<and> Buffer_content (ps_buf c') = rest"
proof -
  have "sp_parse (sp_abs c) = Inr (True, (sp_abs c)\<lparr>sp_in := rest, sp_request := r, sp_state := kGotAll\<rparr>)"
    using assms by (intro sp_parse_request) (simp_all add: sp_abs_def)
  from assms(3) this obtain c' where "HttpContext_parse c = Inr (True, c')" "Buffer_inv (ps_buf c')"
    "sp_abs c' = (sp_abs c)\<lparr>sp_in := rest, sp_request := r, sp_state := kGotAll\<rparr>"
    by (rule parse_via_strings) (rule that)
  then show ?thesis by (auto simp: sp_abs_def)
qed

theorem http_request_roundtrip_witness:
  "\<exists>c'. HttpContext_parse (parse_start (request_head sample_get @ ''next'')) = Inr (True, c') \<and>
    ps_request c' = sample_get \<and> Buffer_content (ps_buf c') = ''next''"
proof -
  have "wf_head sample_get" "wf_body sample_get" "req_body sample_get = []"
    by (simp_all add: wf_head_def wf_body_def wf_header_def sample_get_def request_url_def is_blank_def
        expects_body_def)
  with http_request_roundtrip [of sample_get "parse_start (request_head sample_get @ ''next'')" "''next''"]
  show ?thesis by (auto simp: parse_start_def)
qed

text \<open>
  C16. The parser does not depend on how the bytes arrive: when it asks for more input, going on after
  some more bytes arrived has the outcome (result, parser state, request, response and bytes left) that
  parsing all of them at once has. The request object has to be kept between the two calls.
\<close>

theorem http_parse_incremental:
  assumes "Buffer_inv (ps_buf c)" and "HttpContext_parse c = Inr (False, c1)"
    and "Buffer_append chunk (ps_buf c1) = Inr b1" and "Buffer_append chunk (ps_buf c) = Inr b"
  shows "map_sum id (map_prod id sp_abs) (HttpContext_parse (c1\<lparr>ps_buf := b1\<rparr>)) =
    map_sum id (map_prod id sp_abs) (HttpContext_parse (c\<lparr>ps_buf := b\<rparr>))"
proof -
  note inv1 = parse_abstracts(1) [OF assms(1,2)] and first = parse_abstracts(2) [OF assms(1,2)]
  from append_ok [OF inv1, of chunk] assms(3)
  have b1: "Buffer_inv b1" "Buffer_content b1 = Buffer_content (ps_buf c1) @ chunk" by auto
  from append_ok [OF assms(1), of chunk] assms(4)
  have b: "Buffer_inv b" "Buffer_content b = Buffer_content (ps_buf c) @ chunk" by auto
  have "sp_parse (sp_abs (c\<lparr>ps_buf := b\<rparr>)) = sp_parse (sp_abs (c1\<lparr>ps_buf := b1\<rparr>))"
    unfolding sp_abs_extend [OF b(2)] sp_abs_extend [OF b1(2)]
    by (simp add: sp_parse_extend first)
  with parse_refines [of "c\<lparr>ps_buf := b\<rparr>"] parse_refines [of "c1\<lparr>ps_buf := b1\<rparr>"] b(1) b1(1)
  show ?thesis by simp
qed

lemma http_parse_first_piece:
  "case HttpContext_parse (parse_start (''GET / HTTP/1.1'' @ crlf @ ''Ho'')) of
     Inr (False, c1) \<Rightarrow> ps_state c1 = kExpectHeaders \<and> req_method (ps_request c1) = kGet \<and>
       Buffer_inv (ps_buf c1) \<and> Buffer_content (ps_buf c1) = ''Ho''
   | _ \<Rightarrow> False"
  by code_simp

theorem http_parse_incremental_witness:
  "\<exists>c1 b1 b. HttpContext_parse (parse_start (''GET / HTTP/1.1'' @ crlf @ ''Ho'')) = Inr (False, c1) \<and>
    ps_state c1 = kExpectHeaders \<and> Buffer_content b1 = ''Host: moon'' @ crlf \<and>
    Buffer_content b = ''GET / HTTP/1.1'' @ crlf @ ''Host: moon'' @ crlf \<and>
    map_sum id (map_prod id sp_abs) (HttpContext_parse (c1\<lparr>ps_buf := b1\<rparr>)) =
    map_sum id (map_prod id sp_abs)
      (HttpContext_parse ((parse_start (''GET / HTTP/1.1'' @ crlf @ ''Ho''))\<lparr>ps_buf := b\<rparr>))"
proof -
  let ?c = "parse_start (''GET / HTTP/1.1'' @ crlf @ ''Ho'')" and ?more = "''st: moon'' @ crlf"
  have inv: "Buffer_inv (ps_buf ?c)" by (simp add: parse_start_def)
  from http_parse_first_piece obtain c1 where c1: "HttpContext_parse ?c = Inr (False, c1)"
    "ps_state c1 = kExpectHeaders" "Buffer_inv (ps_buf c1)" "Buffer_content (ps_buf c1) = ''Ho''"
    by (auto split: sum.splits prod.splits bool.splits)
  obtain b where b: "Buffer_append ?more (ps_buf ?c) = Inr b"
    "Buffer_content b = Buffer_content (ps_buf ?c) @ ?more"
    using append_ok [OF inv] by blast
  obtain b1 where b1: "Buffer_append ?more (ps_buf c1) = Inr b1"
    "Buffer_content b1 = Buffer_content (ps_buf c1) @ ?more"
    using append_ok [OF c1(3)] by blast
  from http_parse_incremental [OF inv c1(1) b1(1) b(1)] b(2) b1(2) c1 show ?thesis
    by (intro exI conjI) (simp_all add: parse_start_def)
qed

lemma http_parse_short: "HttpContext_parse (parse_start ''GET /'') = Inr (False, parse_start ''GET /'')"
  by code_simp

text \<open>
  What the parser can answer. It fails only with an exception of \<open>std::stoul\<close>; it asks for more only
  while the next line, or the announced body, is not complete; it reports a complete request either in
  state \<open>kGotAll\<close> with the response untouched, or still in its first state with the response turned into
  \<open>400 Bad Request\<close> and \<open>closeConnection\<close> set; and it only ever takes bytes off the front of the buffer.
\<close>

theorem http_parse_outcomes:
  assumes "Buffer_inv (ps_buf c)"
  shows "(\<forall>e. HttpContext_parse c = Inl e \<longrightarrow> e = InvalidArgument \<or> e = OutOfRange) \<and>
    (\<forall>r c'. HttpContext_parse c = Inr (r, c') \<longrightarrow>
       Buffer_inv (ps_buf c') \<and> suffix (Buffer_content (ps_buf c')) (Buffer_content (ps_buf c)) \<and>
       (if \<not> r then waits_for_input (sp_abs c') \<and> ps_response c' = ps_response c
        else ps_state c' = kGotAll \<and> ps_response c' = ps_response c \<or>
          ps_state c = kExpectRequestLine \<and> ps_state c' = kExpectRequestLine \<and>
          ps_response c' = bad_request (ps_response c)))"
proof (cases "HttpContext_parse c")
  case (Inl e)
  with parse_abstracts(3) [OF assms Inl] sp_parse_outcome [of "sp_abs c"] show ?thesis
    by (simp add: parse_outcome_def)
next
  case (Inr p)
  obtain r c' where p: "p = (r, c')" by (cases p)
  note res = Inr [unfolded p]
  from parse_abstracts(1,2) [OF assms res] sp_parse_outcome [of "sp_abs c"] res show ?thesis
    by (cases r) (simp_all add: parse_outcome_def, simp_all add: sp_abs_def)
qed

theorem http_parse_outcomes_witness:
  "waits_for_input (sp_abs (parse_start ''GET /''))"
proof -
  have "Buffer_inv (ps_buf (parse_start ''GET /''))" by (simp add: parse_start_def)
  from http_parse_outcomes [OF this] http_parse_short show ?thesis by auto
qed

text \<open>
  A request whose method has a body and whose \<open>Content-Length\<close> is not a number that \<open>std::stoul\<close>
  accepts makes \<open>parse\<close> throw: no handler in the library catches the exception.
\<close>

theorem http_bad_length_throws:
  assumes "wf_head r" and "expects_body r" and "HttpRequest_getHeader ''Content-Length'' r \<noteq> []"
    and "stoul (HttpRequest_getHeader ''Content-Length'' r) = Inl e"
    and "Buffer_inv (ps_buf c)" and "ps_state c = kExpectRequestLine" and "ps_request c = HttpRequest_new"
    and "Buffer_content (ps_buf c) = request_head r @ rest"
  shows "HttpContext_parse c = Inl e"
  unfolding parse_faults_via_strings [OF assms(5)]
  by (rule sp_parse_bad_length [OF assms(1-4)]) (simp_all add: sp_abs_def assms)

theorem http_bad_length_throws_witness:
  "HttpContext_parse (parse_start (request_head sample_post)) = Inl InvalidArgument"
proof -
  have "wf_head sample_post" "expects_body sample_post"
    by (simp_all add: wf_head_def wf_header_def sample_post_def request_url_def is_blank_def expects_body_def)
  moreover have "HttpRequest_getHeader ''Content-Length'' sample_post = ''many''"
    by (simp add: HttpRequest_getHeader_def sample_post_def)
  moreover have "stoul ''many'' = Inl InvalidArgument"
    by (simp add: stoul_def is_space_def is_digit_def)
  ultimately show ?thesis
    using http_bad_length_throws [of sample_post InvalidArgument "parse_start (request_head sample_post)" "[]"]
    by (simp add: parse_start_def)
qed

end
