(* ===== verification/HttpServer.thy ===== *)
theory HttpServer
  imports HttpContext
begin

text \<open>
  The HTTP server on top of a TCP server (\<open>net/Http/HttpServer.h\<close>, \<open>net/Http/HttpServer.cc\<close>) and the
  demonstration callback (\<open>test/HttpCallback.cc\<close>). The map \<open>context_\<close> holds one parser per connection
  name; a parser's only member is its state. What a handler asks of the connection is returned as a list
  of calls, in order. The user's callback is an argument: it reads and changes the request and the
  response. The file system is an argument of the demonstration callback: the content of a readable
  file, and the size that \<open>stat\<close> reports.
\<close>

datatype conn_call = ConnSend string | ConnSendFile string | ConnForceClose

type_synonym http_callback = "http_request \<Rightarrow> http_response \<Rightarrow> http_request \<times> http_response"

record http_server =
  context_map :: "(string, parse_state) omap"
  cb :: "http_callback option"

definition HttpServer_onConnection :: "bool \<Rightarrow> string \<Rightarrow> http_server \<Rightarrow> http_server" where
  "HttpServer_onConnection is_connected name srv =
    (if is_connected then srv\<lparr>context_map := mput name kExpectRequestLine (context_map srv)\<rparr>
     else srv\<lparr>context_map := mdel name (context_map srv)\<rparr>)"

text \<open>The part of \<open>onMessage\<close> that runs when a message is complete.\<close>

definition HttpServer_respond :: "http_response \<Rightarrow> conn_call list res" where
  "HttpServer_respond response =
    rbind
      (if fileMode response then
         rbind (HttpResponse_serializeHeaders response Buffer_new) (\<lambda>headerBuf.
           Inr (response,
             [ConnSend (Buffer_bytes (Buffer_readableBytes headerBuf) headerBuf),
              ConnSendFile (filePath response)]))
       else
         rbind (HttpResponse_appendToBuffer response Buffer_new) (\<lambda>(response, outputBuf).
           Inr (response, [ConnSend (Buffer_bytes (Buffer_readableBytes outputBuf) outputBuf)])))
      (\<lambda>(response, calls). Inr (calls @ (if closeConnection response then [ConnForceClose] else [])))"

definition HttpServer_onMessage ::
  "string \<Rightarrow> buffer \<Rightarrow> http_server \<Rightarrow> (http_server \<times> buffer \<times> conn_call list) res" where
  "HttpServer_onMessage name buf srv =
    (case mget (context_map srv) name of
       None \<Rightarrow> Inr (srv, buf, [ConnForceClose])
     | Some context \<Rightarrow>
        (let request = HttpRequest_new;
             response = HttpResponse_setHeader ''Connection'' ''keep-alive'' HttpResponse_new
         in rbind (HttpContext_parse
                     \<lparr>ps_state = context, ps_buf = buf, ps_request = request, ps_response = response\<rparr>)
              (\<lambda>(finished, c).
                 let srv = srv\<lparr>context_map := mput name (ps_state c) (context_map srv)\<rparr> in
                 if finished then
                   (let request_response =
                          (case cb srv of
                             Some f \<Rightarrow> f (ps_request c) (ps_response c)
                           | None \<Rightarrow> (ps_request c, ps_response c))
                    in rbind (HttpServer_respond (snd request_response)) (\<lambda>calls.
                         let srv = srv\<lparr>context_map := mput name kExpectRequestLine (context_map srv)\<rparr>
                         in Inr (srv, ps_buf c, calls)))
                 else Inr (srv, ps_buf c, []))))"

section \<open>The demonstration callback\<close>

definition not_found :: "string \<Rightarrow> http_response \<Rightarrow> http_response" where
  "not_found body resp =
    HttpResponse_setContentType ''text/plain'' (resp\<lparr>statusCode := k404NotFound, resp_body := body\<rparr>)"

definition html_page :: "(string \<Rightarrow> string option) \<Rightarrow> string \<Rightarrow> http_response \<Rightarrow> http_response" where
  "html_page files htmlPath resp =
    (case files htmlPath of
       Some content \<Rightarrow>
         HttpResponse_setContentType ''text/html; charset=utf-8''
           (resp\<lparr>statusCode := k200Ok, resp_body := content\<rparr>)
     | None \<Rightarrow> not_found (''HTML file not found'' @ [CHR 0x0A]) resp)"

definition media_file ::
  "(string \<Rightarrow> nat option) \<Rightarrow> string \<Rightarrow> string \<Rightarrow> string \<Rightarrow> http_response \<Rightarrow> http_response" where
  "media_file stat path contentType missing resp =
    (let found = HttpResponse_setFilePath (stat path) path contentType resp
     in if fst found then (snd found)\<lparr>statusCode := k200Ok\<rparr> else not_found missing (snd found))"

definition httpCallback ::
  "string \<Rightarrow> (string \<Rightarrow> string option) \<Rightarrow> (string \<Rightarrow> nat option) \<Rightarrow> http_callback" where
  "httpCallback projectRoot files stat req resp =
    (req,
     if req_path req = ''/video'' then html_page files (projectRoot @ ''/resource/video.html'') resp
     else if req_path req = ''/video.mp4'' then
       media_file stat (projectRoot @ ''/resource/video.mp4'') ''video/mp4'' (''Video file not found'' @ [CHR 0x0A]) resp
     else if req_path req = ''/JTH'' then
       media_file stat (projectRoot @ ''/resource/JTH.jpg'') ''image/jpg'' (''Picture file not found'' @ [CHR 0x0A]) resp
     else if req_path req = ''/video.html'' then html_page files (projectRoot @ ''/resource/video.html'') resp
     else if req_path req = ''/hello'' then
       HttpResponse_setContentType ''text/plain'' (resp\<lparr>statusCode := k200Ok, resp_body := ''Hello!''\<rparr>)
     else resp\<lparr>statusCode := k404NotFound, resp_body := ''Not Found'' @ [CHR 0x0A]\<rparr>)"

section \<open>What a response is on the wire\<close>

definition response_calls :: "http_response \<Rightarrow> conn_call list" where
  "response_calls r =
    (if fileMode r then [ConnSend (response_head r), ConnSendFile (filePath r)]
     else [ConnSend (response_head (with_length r) @ resp_body r)])
    @ (if closeConnection r then [ConnForceClose] else [])"

lemma whole_bytes: "Buffer_inv b \<Longrightarrow> Buffer_bytes (Buffer_readableBytes b) b = Buffer_content b"
  using Buffer_bytes_take [of b "Buffer_readableBytes b"] by simp

lemma with_length_closeConnection [simp]: "closeConnection (with_length r) = closeConnection r"
  by (simp add: with_length_def HttpResponse_setHeader_def)

lemma respond_ok: "HttpServer_respond response = Inr (response_calls response)"
proof (cases "fileMode response")
  case True
  obtain b where "HttpResponse_serializeHeaders response Buffer_new = Inr b" "Buffer_inv b"
    "Buffer_content b = response_head response"
    using serializeHeaders_ok [OF Buffer_new_inv, of response] by auto
  with True show ?thesis by (simp add: HttpServer_respond_def response_calls_def whole_bytes)
next
  case False
  obtain b where "HttpResponse_appendToBuffer response Buffer_new = Inr (with_length response, b)"
    "Buffer_inv b" "Buffer_content b = response_head (with_length response) @ resp_body response"
    using appendToBuffer_ok [OF Buffer_new_inv, of response] by auto
  with False show ?thesis by (simp add: HttpServer_respond_def response_calls_def whole_bytes)
qed

definition http_cfg :: "parse_state \<Rightarrow> buffer \<Rightarrow> parse_cfg" where
  "http_cfg context buf =
    \<lparr>ps_state = context, ps_buf = buf, ps_request = HttpRequest_new,
     ps_response = HttpResponse_setHeader ''Connection'' ''keep-alive'' HttpResponse_new\<rparr>"

definition run_callback :: "http_callback option \<Rightarrow> http_request \<Rightarrow> http_response \<Rightarrow> http_response" where
  "run_callback f request response =
    (case f of Some g \<Rightarrow> snd (g request response) | None \<Rightarrow> response)"

lemma onMessage_parse:
  assumes "mget (context_map srv) name = Some context" and "ordered (context_map srv)"
  shows "HttpServer_onMessage name buf srv =
    (case HttpContext_parse (http_cfg context buf) of
       Inl e \<Rightarrow> Inl e
     | Inr (finished, c) \<Rightarrow>
         Inr (srv\<lparr>context_map :=
                   mput name (if finished then kExpectRequestLine else ps_state c) (context_map srv)\<rparr>,
              ps_buf c,
              if finished then response_calls (run_callback (cb srv) (ps_request c) (ps_response c))
              else []))"
  using assms
  by (auto simp: HttpServer_onMessage_def http_cfg_def respond_ok run_callback_def Let_def
      rbind_def split: sum.split option.split)

lemma onMessage_via_strings:
  assumes "mget (context_map srv) name = Some context" and "ordered (context_map srv)"
    and "Buffer_inv buf" and "sp_parse (sp_abs (http_cfg context buf)) = Inr (finished, s)"
  shows "\<exists>buf'. HttpServer_onMessage name buf srv =
      Inr (srv\<lparr>context_map :=
             mput name (if finished then kExpectRequestLine else sp_state s) (context_map srv)\<rparr>, buf',
           if finished then response_calls (run_callback (cb srv) (sp_request s) (sp_response s)) else []) \<and>
    Buffer_inv buf' \<and> Buffer_content buf' = sp_in s"
proof -
  have "Buffer_inv (ps_buf (http_cfg context buf))" using assms(3) by (simp add: http_cfg_def)
  from this assms(4) obtain c' where "HttpContext_parse (http_cfg context buf) = Inr (finished, c')"
    "sp_abs c' = s" "Buffer_inv (ps_buf c')"
    by (rule parse_via_strings) (rule that)
  then show ?thesis by (auto simp: onMessage_parse [OF assms(1,2)] sp_abs_def)
qed

section \<open>The connections a server knows\<close>

datatype http_event = Connected string | Disconnected string | Message string buffer

fun HttpServer_event :: "http_event \<Rightarrow> http_server \<Rightarrow> http_server res" where
  "HttpServer_event (Connected name) srv = Inr (HttpServer_onConnection True name srv)"
| "HttpServer_event (Disconnected name) srv = Inr (HttpServer_onConnection False name srv)"
| "HttpServer_event (Message name buf) srv =
    rbind (HttpServer_onMessage name buf srv) (\<lambda>r. Inr (fst r))"

fun live_connections :: "http_event list \<Rightarrow> string set \<Rightarrow> string set" where
  "live_connections [] live = live"
| "live_connections (Connected name # es) live = live_connections es (insert name live)"
| "live_connections (Disconnected name # es) live = live_connections es (live - {name})"
| "live_connections (Message name buf # es) live = live_connections es live"

definition tracks :: "string set \<Rightarrow> http_server \<Rightarrow> bool" where
  "tracks live srv \<longleftrightarrow> ordered (context_map srv) \<and> (\<forall>n. mget (context_map srv) n \<noteq> None \<longleftrightarrow> n \<in> live)"

lemma tracks_put: "tracks live srv \<Longrightarrow> tracks (insert n live) (srv\<lparr>context_map := mput n v (context_map srv)\<rparr>)"
  by (auto simp: tracks_def ordered_mput)

lemma tracks_onMessage:
  assumes "tracks live srv" and "HttpServer_onMessage name buf srv = Inr (srv', buf', calls)"
  shows "tracks live srv'"
proof (cases "mget (context_map srv) name")
  case None
  with assms show ?thesis by (simp add: HttpServer_onMessage_def)
next
  case (Some ctx)
  with assms(1) have "insert name live = live" "ordered (context_map srv)" by (auto simp: tracks_def)
  with assms tracks_put [OF assms(1), of name] show ?thesis
    by (auto simp: onMessage_parse [OF Some] split: sum.splits prod.splits)
qed

lemma tracks_run:
  "tracks live srv \<Longrightarrow> rfold HttpServer_event es srv = Inr srv' \<Longrightarrow> tracks (live_connections es live) srv'"
proof (induction es arbitrary: live srv)
  case (Cons e es)
  from Cons.prems(2) obtain t where t: "HttpServer_event e srv = Inr t" "rfold HttpServer_event es t = Inr srv'"
    by auto
  show ?case
  proof (cases e)
    case (Connected n)
    with t(1) tracks_put [OF Cons.prems(1), of n kExpectRequestLine] Cons.IH [OF _ t(2)] show ?thesis
      by (simp add: HttpServer_onConnection_def)
  next
    case (Disconnected n)
    with t(1) Cons.prems(1) have "tracks (live - {n}) t"
      by (auto simp: HttpServer_onConnection_def tracks_def ordered_mdel mget_mdel split: if_splits)
    with Disconnected Cons.IH [OF _ t(2)] show ?thesis by simp
  next
    case (Message n buf)
    with t(1) obtain r where "HttpServer_onMessage n buf srv = Inr r" "t = fst r"
      by (auto simp: rbind_eq_Inr)
    then have "tracks live t"
      using tracks_onMessage [OF Cons.prems(1), of n buf "fst r" "fst (snd r)" "snd (snd r)"] by simp
    with Message Cons.IH [OF _ t(2)] show ?thesis by simp
  qed
qed simp

section \<open>Properties\<close>

definition HttpServer_new :: "http_callback option \<Rightarrow> http_server" where
  "HttpServer_new f = \<lparr>context_map = [], cb = f\<rparr>"

definition keep_alive_response :: http_response where
  "keep_alive_response = HttpResponse_setHeader ''Connection'' ''keep-alive'' HttpResponse_new"

definition demo_server :: http_server where
  "demo_server =
    HttpServer_onConnection True ''c1''
      (HttpServer_new (Some (httpCallback ''/srv'' (\<lambda>_. None) (\<lambda>_. None))))"

lemma demo_server_context [simp]:
  "mget (context_map demo_server) ''c1'' = Some kExpectRequestLine" "ordered (context_map demo_server)"
  "cb demo_server = Some (httpCallback ''/srv'' (\<lambda>_. None) (\<lambda>_. None))"
  by (simp_all add: demo_server_def HttpServer_onConnection_def HttpServer_new_def)

lemma sp_abs_http_cfg:
  "sp_abs (http_cfg context buf) =
    \<lparr>sp_state = context, sp_in = Buffer_content buf, sp_request = HttpRequest_new,
     sp_response = keep_alive_response\<rparr>"
  by (simp add: sp_abs_def http_cfg_def keep_alive_response_def)

lemma whole_request:
  assumes "wf_head r" and "wf_body r" and "Buffer_inv buf" and "ordered (context_map srv)"
    and "mget (context_map srv) name = Some kExpectRequestLine"
    and "Buffer_content buf = request_head r @ req_body r @ rest"
  shows "\<exists>buf'. HttpServer_onMessage name buf srv =
      Inr (srv\<lparr>context_map := mput name kExpectRequestLine (context_map srv)\<rparr>, buf',
           response_calls (run_callback (cb srv) r keep_alive_response)) \<and>
    Buffer_inv buf' \<and> Buffer_content buf' = rest"
proof -
  let ?s = "\<lparr>sp_state = kExpectRequestLine, sp_in = Buffer_content buf, sp_request = HttpRequest_new,
    sp_response = keep_alive_response\<rparr>"
  have "sp_parse ?s = Inr (True, ?s\<lparr>sp_in := rest, sp_request := r, sp_state := kGotAll\<rparr>)"
    using assms by (intro sp_parse_request) simp_all
  from onMessage_via_strings [OF assms(5,4,3), unfolded sp_abs_http_cfg, OF this] show ?thesis by simp
qed

text \<open>
  A request that arrives whole on a known connection is answered: the callback sees exactly the
  request that was sent, the connection is asked to send exactly the serialised response (or its head
  and then the file), to close if the response says so, the parser is ready for the next request, and the
  bytes behind the request stay in the input buffer.
\<close>

theorem http_server_answers:
  assumes "wf_head r" and "wf_body r" and "Buffer_inv buf" and "ordered (context_map srv)"
    and "mget (context_map srv) name = Some kExpectRequestLine"
    and "Buffer_content buf = request_head r @ req_body r @ rest"
  shows "\<exists>buf'. HttpServer_onMessage name buf srv =
      Inr (srv\<lparr>context_map := mput name kExpectRequestLine (context_map srv)\<rparr>, buf',
           response_calls (run_callback (cb srv) r keep_alive_response)) \<and>
    Buffer_inv buf' \<and> Buffer_content buf' = rest"
  by (rule whole_request [OF assms])

definition get_hello :: http_request where
  "get_hello =
    \<lparr>req_method = kGet, req_path = ''/hello'', req_query = [], req_version = kHttp11,
     req_body = [], req_headers = [(''Host'', ''moon'')]\<rparr>"

theorem http_server_answers_witness:
  "\<exists>srv' buf'. HttpServer_onMessage ''c1'' (buffer_of (request_head get_hello)) demo_server =
    Inr (srv', buf', [ConnSend (''HTTP/1.1 200 OK'' @ crlf @ ''Connection: keep-alive'' @ crlf @
      ''Content-Length: 6'' @ crlf @ ''Content-Type: text/plain'' @ crlf @ crlf @ ''Hello!'')])"
proof -
  have wf: "wf_head get_hello" "wf_body get_hello" "req_body get_hello = []"
    by (simp_all add: wf_head_def wf_body_def wf_header_def get_hello_def request_url_def is_blank_def
        expects_body_def)
  have calls: "response_calls (run_callback (cb demo_server) get_hello keep_alive_response) =
    [ConnSend (''HTTP/1.1 200 OK'' @ crlf @ ''Connection: keep-alive'' @ crlf @
      ''Content-Length: 6'' @ crlf @ ''Content-Type: text/plain'' @ crlf @ crlf @ ''Hello!'')]"
    unfolding demo_server_context by code_simp
  show ?thesis
    using http_server_answers [OF wf(1,2), of "buffer_of (request_head get_hello)" demo_server "''c1''" "[]"]
      calls wf(3) by auto
qed

text \<open>
  The server keeps one parser per live connection: after any sequence of connections, disconnections
  and messages that does not throw, the map of parsers has exactly the names of the connections that are
  up, so a message on a live connection is never answered by the \<open>forceClose\<close> of the unknown name.
\<close>

theorem http_server_tracks_connections:
  assumes "rfold HttpServer_event es (HttpServer_new f) = Inr srv"
  shows "(mget (context_map srv) name \<noteq> None) = (name \<in> live_connections es {}) \<and>
    ordered (context_map srv)"
  using tracks_run [OF _ assms, of "{}"] by (simp add: tracks_def HttpServer_new_def)

theorem http_server_tracks_connections_witness:
  "mget (context_map (HttpServer_onConnection False ''a''
      (HttpServer_onConnection True ''b'' (HttpServer_onConnection True ''a'' (HttpServer_new None))))) ''b'' \<noteq> None"
  using http_server_tracks_connections [of "[Connected ''a'', Connected ''b'', Disconnected ''a'']" None _ "''b''"]
  by simp

text \<open>
  A request that arrives in two pieces is answered wrongly, because \<open>onMessage\<close> keeps the parser's
  state but not the request between two calls: when the request line comes alone, the callback later sees
  a request with the right headers and no method, no path, no query and no version.
\<close>

theorem http_split_request_loses_line:
  assumes "wf_head r" and "Buffer_inv buf" and "ordered (context_map srv)"
    and "mget (context_map srv) name = Some kExpectRequestLine"
    and "Buffer_content buf = request_line r @ crlf"
  shows "\<exists>srv1 buf1 buf2 srv2 buf3. HttpServer_onMessage name buf srv = Inr (srv1, buf1, []) \<and>
    Buffer_append (concat (map header_line (req_headers r)) @ crlf @ rest) buf1 = Inr buf2 \<and>
    HttpServer_onMessage name buf2 srv1 = Inr (srv2, buf3,
      response_calls (run_callback (cb srv) (HttpRequest_new\<lparr>req_headers := req_headers r\<rparr>)
        keep_alive_response)) \<and>
    Buffer_content buf3 = rest"
proof -
  let ?s = "sp_abs (http_cfg kExpectRequestLine buf)"
  let ?q = "HttpRequest_new\<lparr>req_method := req_method r, req_path := req_path r,
       req_query := req_query r, req_version := req_version r\<rparr>"
  let ?t = "?s\<lparr>sp_in := [], sp_request := ?q, sp_state := kExpectHeaders\<rparr>"
  have "search_crlf (request_line r @ crlf) = Some (length (request_line r))"
    using search_clean [of "request_line r" "[]"] assms(1) method_chars(2) version_chars(2)
    by (simp add: request_line_def request_url_def wf_head_def)
  then have "sp_pass ?s = Inr (Again ?t)"
    using parse_request_line [OF assms(1)] assms(5)
    by (simp add: sp_abs_http_cfg sp_pass_def Let_def crlf_def)
  moreover have "sp_parse ?t = Inr (False, ?t)"
    by (simp add: sp_parse.simps [of ?t] sp_pass_def)
  ultimately have first: "sp_parse ?s = Inr (False, ?t)" by (simp add: sp_parse_Again)
  let ?srv1 = "srv\<lparr>context_map := mput name kExpectHeaders (context_map srv)\<rparr>"
  obtain buf1 where buf1: "HttpServer_onMessage name buf srv = Inr (?srv1, buf1, [])"
    "Buffer_inv buf1" "Buffer_content buf1 = []"
    using onMessage_via_strings [OF assms(4,3,2) first] by auto
  let ?hs = "concat (map header_line (req_headers r))"
  obtain buf2 where buf2: "Buffer_append (?hs @ crlf @ rest) buf1 = Inr buf2" "Buffer_inv buf2"
    "Buffer_content buf2 = ?hs @ crlf @ rest"
    using append_ok [OF buf1(2), of "?hs @ crlf @ rest"] buf1(3) by auto
  let ?u = "sp_abs (http_cfg kExpectHeaders buf2)"
  let ?v = "?u\<lparr>sp_in := crlf @ rest, sp_request := HttpRequest_new\<lparr>req_headers := req_headers r\<rparr>\<rparr>"
  have "sp_parse ?u = sp_parse ?v"
    using sp_parse_headers [of ?u "req_headers r" "crlf @ rest"] assms(1) buf2(3)
    by (simp add: sp_abs_http_cfg wf_head_def HttpRequest_new_def)
  also have "\<dots> = Inr (True, ?v\<lparr>sp_in := rest, sp_state := kGotAll\<rparr>)"
    by (simp add: sp_parse_blank_line [of _ rest] sp_abs_http_cfg expects_body_def HttpRequest_new_def
        sp_parse_gotAll)
  finally have second: "sp_parse ?u = Inr (True, ?v\<lparr>sp_in := rest, sp_state := kGotAll\<rparr>)" .
  have "mget (context_map ?srv1) name = Some kExpectHeaders" "ordered (context_map ?srv1)"
    using assms(3) by (simp_all add: ordered_mput)
  from onMessage_via_strings [OF this buf2(2) second] obtain srv2 buf3
    where "HttpServer_onMessage name buf2 ?srv1 = Inr (srv2, buf3,
      response_calls (run_callback (cb srv) (HttpRequest_new\<lparr>req_headers := req_headers r\<rparr>)
        keep_alive_response))" "Buffer_content buf3 = rest"
    by (auto simp: sp_abs_http_cfg)
  with buf1(1) buf2(1) show ?thesis by blast
qed

theorem http_split_request_loses_line_witness:
  "\<exists>srv1 buf1 buf2 srv2 buf3 response.
    HttpServer_onMessage ''c1'' (buffer_of (request_line get_hello @ crlf)) demo_server = Inr (srv1, buf1, []) \<and>
    Buffer_append (''Host: moon'' @ crlf @ crlf) buf1 = Inr buf2 \<and>
    HttpServer_onMessage ''c1'' buf2 srv1 = Inr (srv2, buf3, response_calls response) \<and>
    statusCode response = k404NotFound"
proof -
  have "wf_head get_hello"
    by (simp add: wf_head_def wf_header_def get_hello_def request_url_def is_blank_def)
  moreover have "concat (map header_line (req_headers get_hello)) = ''Host: moon'' @ crlf"
    by (simp add: get_hello_def header_line_def)
  moreover have "statusCode (run_callback (cb demo_server)
      (HttpRequest_new\<lparr>req_headers := req_headers get_hello\<rparr>) keep_alive_response) = k404NotFound"
    by (simp add: run_callback_def httpCallback_def HttpRequest_new_def)
  ultimately show ?thesis
    using http_split_request_loses_line [of get_hello "buffer_of (request_line get_hello @ crlf)"
        demo_server "''c1''" "[]"] by auto
qed

end
