(* ===== verification/Poller.thy ===== *)
theory Poller
  imports Prelude
begin

unbundle bit_operations_syntax

text \<open>
  Channels and the epoll poller (\<open>net/Channel.h\<close>, \<open>net/Channel.cc\<close>, \<open>net/Poller/Epoller.cc\<close>,
  \<open>net/Poller/Poller.cc\<close>). Channel objects live in a heap, so that the raw pointers that the poller and
  the kernel hold can dangle. \<open>interest\<close> is the kernel's interest set: the mask and the \<open>data.ptr\<close> of
  every registered descriptor; \<open>epoll_ctl\<close> fails, and the code ignores it, when a registered descriptor
  is added or an unregistered one is changed or removed. The first argument of the operations tells
  whether the calling thread is the loop's thread.
\<close>

section \<open>State\<close>

definition EPOLLIN :: "32 word" where "EPOLLIN = 0x001"
definition EPOLLPRI :: "32 word" where "EPOLLPRI = 0x002"
definition EPOLLOUT :: "32 word" where "EPOLLOUT = 0x004"
definition EPOLLERR :: "32 word" where "EPOLLERR = 0x008"
definition EPOLLHUP :: "32 word" where "EPOLLHUP = 0x010"
definition EPOLLRDHUP :: "32 word" where "EPOLLRDHUP = 0x2000"

lemmas epoll_masks =
  EPOLLIN_def EPOLLPRI_def EPOLLOUT_def EPOLLERR_def EPOLLHUP_def EPOLLRDHUP_def

definition kDeleted :: int where "kDeleted = -1"
definition kNew :: int where "kNew = 0"
definition kAdded :: int where "kAdded = 1"

lemma channel_states [simp]:
  "kDeleted \<noteq> kNew" "kNew \<noteq> kDeleted" "kDeleted \<noteq> kAdded" "kAdded \<noteq> kDeleted" "kNew \<noteq> kAdded" "kAdded \<noteq> kNew"
  by (simp_all add: kDeleted_def kNew_def kAdded_def)

record channel =
  ch_fd :: int
  ch_revents :: "32 word"
  ch_events :: "32 word"
  ch_added :: bool
  ch_index :: int

record poller =
  channels :: "addr \<Rightarrow> channel option"
  ChannelMap :: "int \<Rightarrow> addr option"
  interest :: "int \<Rightarrow> (32 word \<times> addr) option"
  events_size :: nat

definition Channel_new :: "int \<Rightarrow> channel" where
  "Channel_new fd = \<lparr>ch_fd = fd, ch_revents = 0, ch_events = 0, ch_added = False, ch_index = kNew\<rparr>"

definition kMaxEvents :: nat where
  "kMaxEvents = 10000"

definition Epoller_new :: poller where
  "Epoller_new =
    \<lparr>channels = (\<lambda>_. None), ChannelMap = (\<lambda>_. None), interest = (\<lambda>_. None), events_size = kMaxEvents\<rparr>"

definition create_channel :: "addr \<Rightarrow> int \<Rightarrow> poller \<Rightarrow> poller" where
  "create_channel a fd p = p\<lparr>channels := (channels p)(a \<mapsto> Channel_new fd)\<rparr>"

definition set_channel :: "addr \<Rightarrow> channel \<Rightarrow> poller \<Rightarrow> poller" where
  "set_channel a c p = p\<lparr>channels := (channels p)(a \<mapsto> c)\<rparr>"

definition the_channel :: "addr \<Rightarrow> poller \<Rightarrow> (channel \<Rightarrow> 'r res) \<Rightarrow> 'r res" where
  "the_channel a p f = (case channels p a of None \<Rightarrow> Inl UseAfterFree | Some c \<Rightarrow> f c)"

text \<open>\<open>epoll_ctl\<close>.\<close>

definition epoll_add :: "int \<Rightarrow> 32 word \<Rightarrow> addr \<Rightarrow> poller \<Rightarrow> poller" where
  "epoll_add fd ev a p =
    (case interest p fd of Some _ \<Rightarrow> p | None \<Rightarrow> p\<lparr>interest := (interest p)(fd \<mapsto> (ev, a))\<rparr>)"

definition epoll_mod :: "int \<Rightarrow> 32 word \<Rightarrow> addr \<Rightarrow> poller \<Rightarrow> poller" where
  "epoll_mod fd ev a p =
    (case interest p fd of None \<Rightarrow> p | Some _ \<Rightarrow> p\<lparr>interest := (interest p)(fd \<mapsto> (ev, a))\<rparr>)"

definition epoll_del :: "int \<Rightarrow> poller \<Rightarrow> poller" where
  "epoll_del fd p = p\<lparr>interest := (interest p)(fd := None)\<rparr>"

section \<open>The poller\<close>

definition Poller_hasChannel :: "bool \<Rightarrow> addr \<Rightarrow> poller \<Rightarrow> bool res" where
  "Poller_hasChannel inT a p =
    (if \<not> inT then Inl Aborted
     else the_channel a p (\<lambda>c. Inr (ChannelMap p (ch_fd c) = Some a)))"

definition Epoller_removeChannel :: "bool \<Rightarrow> addr \<Rightarrow> poller \<Rightarrow> poller res" where
  "Epoller_removeChannel inT a p =
    (if \<not> inT then Inl Aborted
     else the_channel a p (\<lambda>c.
       let fd = ch_fd c; idx = ch_index c in
       if \<not> idx = kAdded then Inl AssertFailed
       else
         (let p = epoll_del fd p;
              p = set_channel a (c\<lparr>ch_index := kDeleted\<rparr>) p;
              n = (if ChannelMap p fd = None then 0 else (1 :: nat));
              p = p\<lparr>ChannelMap := (ChannelMap p)(fd := None)\<rparr>
          in check (n = 1) AssertFailed p)))"

definition Epoller_updateChannel :: "bool \<Rightarrow> addr \<Rightarrow> poller \<Rightarrow> poller res" where
  "Epoller_updateChannel inT a p =
    (if \<not> inT then Inl Aborted
     else the_channel a p (\<lambda>c.
       let idx = ch_index c; fd = ch_fd c in
       if idx = kNew \<or> idx = kDeleted then
         rbind
           (if idx = kNew then
              rbind (Poller_hasChannel inT a p) (\<lambda>h.
                check (\<not> h) AssertFailed (p\<lparr>ChannelMap := (ChannelMap p)(fd \<mapsto> a)\<rparr>))
            else
              check (ChannelMap p fd = None \<or> ChannelMap p fd = Some a) AssertFailed
                (p\<lparr>ChannelMap := (ChannelMap p)(fd \<mapsto> a)\<rparr>))
           (\<lambda>p. Inr (set_channel a (c\<lparr>ch_index := kAdded\<rparr>) (epoll_add fd (ch_events c) a p)))
       else if \<not> idx = kAdded then Inl AssertFailed
       else if \<not> ChannelMap p fd \<noteq> None then Inl AssertFailed
       else if \<not> ChannelMap p fd = Some a then Inl AssertFailed
       else if ch_events c = 0 then Epoller_removeChannel inT a p
       else Inr (epoll_mod fd (ch_events c) a p)))"

text \<open>
  \<open>poll\<close>: \<open>ready\<close> is what \<open>epoll_wait\<close> stored, the ready descriptors with their events; the
  \<open>data.ptr\<close> of each is the pointer the kernel was given. \<open>None\<close> stands for a failed call.
\<close>

definition fillActiveChannel :: "int \<times> 32 word \<Rightarrow> poller \<times> addr list \<Rightarrow> (poller \<times> addr list) res" where
  "fillActiveChannel e s =
    (case interest (fst s) (fst e) of
       None \<Rightarrow> Inr s
     | Some (ev, a) \<Rightarrow>
         the_channel a (fst s) (\<lambda>ch.
           Inr (set_channel a (ch\<lparr>ch_revents := snd e\<rparr>) (fst s), snd s @ [a])))"

definition Epoller_poll ::
  "bool \<Rightarrow> (int \<times> 32 word) list option \<Rightarrow> poller \<Rightarrow> (poller \<times> addr list) res" where
  "Epoller_poll inT ready p =
    (if \<not> inT then Inl Aborted
     else
       (let numEvent = (case ready of None \<Rightarrow> -1 | Some es \<Rightarrow> int (length es));
            p = (if numEvent = int (events_size p) then p\<lparr>events_size := events_size p * 2\<rparr> else p)
        in if numEvent > 0 then rfold fillActiveChannel (the ready) (p, []) else Inr (p, [])))"

section \<open>Channels\<close>

definition Channel_update :: "bool \<Rightarrow> addr \<Rightarrow> poller \<Rightarrow> poller res" where
  "Channel_update inT a p =
    (if \<not> inT then Inl Aborted
     else rbind (Epoller_updateChannel inT a p) (\<lambda>p.
       the_channel a p (\<lambda>c. Inr (set_channel a (c\<lparr>ch_added := True\<rparr>) p))))"

definition Channel_set_events :: "(32 word \<Rightarrow> 32 word) \<Rightarrow> bool \<Rightarrow> addr \<Rightarrow> poller \<Rightarrow> poller res" where
  "Channel_set_events f inT a p =
    the_channel a p (\<lambda>c. Channel_update inT a (set_channel a (c\<lparr>ch_events := f (ch_events c)\<rparr>) p))"

definition Channel_enableReading :: "bool \<Rightarrow> addr \<Rightarrow> poller \<Rightarrow> poller res" where
  "Channel_enableReading = Channel_set_events (\<lambda>ev. ev OR EPOLLIN)"

definition Channel_disableReading :: "bool \<Rightarrow> addr \<Rightarrow> poller \<Rightarrow> poller res" where
  "Channel_disableReading = Channel_set_events (\<lambda>ev. ev AND NOT EPOLLIN)"

definition Channel_enableWriting :: "bool \<Rightarrow> addr \<Rightarrow> poller \<Rightarrow> poller res" where
  "Channel_enableWriting = Channel_set_events (\<lambda>ev. ev OR EPOLLOUT)"

definition Channel_disableWriting :: "bool \<Rightarrow> addr \<Rightarrow> poller \<Rightarrow> poller res" where
  "Channel_disableWriting = Channel_set_events (\<lambda>ev. ev AND NOT EPOLLOUT)"

definition Channel_disableAll :: "bool \<Rightarrow> addr \<Rightarrow> poller \<Rightarrow> poller res" where
  "Channel_disableAll = Channel_set_events (\<lambda>_. 0)"

definition Channel_isReading :: "channel \<Rightarrow> bool" where
  "Channel_isReading c \<longleftrightarrow> ch_events c AND EPOLLIN \<noteq> 0"

definition Channel_isWriting :: "channel \<Rightarrow> bool" where
  "Channel_isWriting c \<longleftrightarrow> ch_events c AND EPOLLOUT \<noteq> 0"

definition Channel_isNonEvent :: "channel \<Rightarrow> bool" where
  "Channel_isNonEvent c \<longleftrightarrow> ch_events c = 0"

definition Channel_remove :: "bool \<Rightarrow> addr \<Rightarrow> poller \<Rightarrow> poller res" where
  "Channel_remove inT a p =
    the_channel a p (\<lambda>c.
      if \<not> ch_added c then Inr p
      else
        (let p = set_channel a (c\<lparr>ch_added := False\<rparr>) p in
         if ch_index c = -1 then Inr p
         else if \<not> inT then Inl Aborted
         else Epoller_removeChannel inT a p))"

definition Channel_destroy :: "bool \<Rightarrow> addr \<Rightarrow> poller \<Rightarrow> poller res" where
  "Channel_destroy inT a p =
    rbind (Channel_remove inT a p) (\<lambda>p. Inr (p\<lparr>channels := (channels p)(a := None)\<rparr>))"

text \<open>
  \<open>handleEvent\<close> over an arbitrary state of the program: \<open>rev\<close> reads \<open>revents_\<close> (\<open>None\<close> when the channel
  has been destroyed), \<open>cbs\<close> are the callbacks that are set.
\<close>

datatype ev_call = ErrorCall | ReadCall | WriteCall

definition event_call ::
  "('w \<Rightarrow> 32 word option) \<Rightarrow> (ev_call \<Rightarrow> ('w \<Rightarrow> 'w res) option) \<Rightarrow> (32 word \<Rightarrow> bool) \<Rightarrow> ev_call
    \<Rightarrow> 'w \<Rightarrow> 'w res" where
  "event_call rev_of cbs cond k w =
    (case rev_of w of
       None \<Rightarrow> Inl UseAfterFree
     | Some r \<Rightarrow> if cond r then (case cbs k of Some f \<Rightarrow> f w | None \<Rightarrow> Inr w) else Inr w)"

definition on_error :: "32 word \<Rightarrow> bool" where
  "on_error r \<longleftrightarrow> r AND EPOLLERR \<noteq> 0"

definition on_read :: "32 word \<Rightarrow> bool" where
  "on_read r \<longleftrightarrow> r AND (EPOLLIN OR EPOLLRDHUP OR EPOLLPRI) \<noteq> 0"

definition on_hup :: "32 word \<Rightarrow> bool" where
  "on_hup r \<longleftrightarrow> r AND EPOLLHUP \<noteq> 0 \<and> \<not> r AND EPOLLIN \<noteq> 0"

definition on_write :: "32 word \<Rightarrow> bool" where
  "on_write r \<longleftrightarrow> r AND EPOLLOUT \<noteq> 0"

definition Channel_handleEvent ::
  "('w \<Rightarrow> 32 word option) \<Rightarrow> (ev_call \<Rightarrow> ('w \<Rightarrow> 'w res) option) \<Rightarrow> 'w \<Rightarrow> 'w res" where
  "Channel_handleEvent rev_of cbs w =
    rbind (event_call rev_of cbs on_error ErrorCall w) (\<lambda>w.
    rbind (event_call rev_of cbs on_read ReadCall w) (\<lambda>w.
    rbind (event_call rev_of cbs on_hup ErrorCall w) (\<lambda>w.
    event_call rev_of cbs on_write WriteCall w)))"

text \<open>The masks of the read and the write interest are independent bits.\<close>

lemma or_out_in: "(ev OR EPOLLOUT) AND EPOLLIN = ev AND EPOLLIN"
  unfolding EPOLLOUT_def EPOLLIN_def by (simp add: bit.conj_disj_distrib2)

lemma andnot_out_in: "(ev AND NOT EPOLLOUT) AND EPOLLIN = ev AND EPOLLIN"
  unfolding EPOLLOUT_def EPOLLIN_def by (simp add: and.assoc)

lemma set_writing [simp]:
  "Channel_isWriting (c\<lparr>ch_events := ev OR EPOLLOUT\<rparr>)"
  "\<not> Channel_isWriting (c\<lparr>ch_events := ev AND NOT EPOLLOUT\<rparr>)"
  unfolding Channel_isWriting_def
  by (simp add: word_ao_absorbs EPOLLOUT_def, simp add: and.assoc EPOLLOUT_def)

lemma set_writing_reading [simp]:
  "Channel_isReading (c\<lparr>ch_events := ev OR EPOLLOUT\<rparr>) = (ev AND EPOLLIN \<noteq> 0)"
  "Channel_isReading (c\<lparr>ch_events := ev AND NOT EPOLLOUT\<rparr>) = (ev AND EPOLLIN \<noteq> 0)"
  by (simp_all add: Channel_isReading_def or_out_in andnot_out_in)

section \<open>The registration invariant\<close>

text \<open>
  A channel in state \<open>kAdded\<close>, and no other, is in the poller's map and in the kernel's interest set,
  under its descriptor, with its mask and its own address.
\<close>

definition Poller_inv :: "poller \<Rightarrow> bool" where
  "Poller_inv p \<longleftrightarrow>
    (\<forall>a c. channels p a = Some c \<longrightarrow>
      (ch_index c = kNew \<or> ch_index c = kDeleted \<or> ch_index c = kAdded) \<and>
      (ch_added c \<longrightarrow> ch_index c \<noteq> kNew) \<and>
      (ch_index c = kAdded \<longrightarrow> ch_added c \<and> ChannelMap p (ch_fd c) = Some a \<and>
         interest p (ch_fd c) = Some (ch_events c, a))) \<and>
    (\<forall>fd a. ChannelMap p fd = Some a \<longrightarrow>
      (\<exists>c. channels p a = Some c \<and> ch_fd c = fd \<and> ch_index c = kAdded)) \<and>
    (\<forall>fd ev a. interest p fd = Some (ev, a) \<longrightarrow> ChannelMap p fd = Some a)"

text \<open>No other channel is registered for the descriptor of \<open>a\<close>.\<close>

definition fd_free :: "addr \<Rightarrow> poller \<Rightarrow> bool" where
  "fd_free a p \<longleftrightarrow>
    (case channels p a of None \<Rightarrow> False
     | Some c \<Rightarrow> ChannelMap p (ch_fd c) = None \<or> ChannelMap p (ch_fd c) = Some a)"

definition registered :: "addr \<Rightarrow> poller \<Rightarrow> bool" where
  "registered a p \<longleftrightarrow> (\<exists>fd ev. interest p fd = Some (ev, a))"

lemma Poller_invD:
  assumes "Poller_inv p"
  shows "channels p a = Some c \<Longrightarrow> ch_index c = kNew \<or> ch_index c = kDeleted \<or> ch_index c = kAdded"
    and "channels p a = Some c \<Longrightarrow> ch_index c = kAdded \<Longrightarrow> ch_added c \<and> ChannelMap p (ch_fd c) = Some a \<and>
         interest p (ch_fd c) = Some (ch_events c, a)"
    and "ChannelMap p fd = Some a \<Longrightarrow> \<exists>c. channels p a = Some c \<and> ch_fd c = fd \<and> ch_index c = kAdded"
    and "interest p fd = Some (ev, a) \<Longrightarrow> ChannelMap p fd = Some a"
    and "channels p a = Some c \<Longrightarrow> ch_added c \<Longrightarrow> ch_index c \<noteq> kNew"
  using assms unfolding Poller_inv_def by blast+

lemma Epoller_new_inv [inv_intros]: "Poller_inv Epoller_new"
  by (simp add: Poller_inv_def Epoller_new_def)

lemma registered_iff:
  assumes "Poller_inv p"
  shows "registered a p \<longleftrightarrow> (\<exists>c. channels p a = Some c \<and> ch_index c = kAdded)"
  using Poller_invD [OF assms] unfolding registered_def by metis

lemma create_channel_inv [inv_intros]:
  assumes "Poller_inv p" and "channels p a = None"
  shows "Poller_inv (create_channel a fd p)"
  using assms unfolding Poller_inv_def create_channel_def Channel_new_def
  by (auto split: if_splits) (metis option.distinct(1))+

text \<open>The state of a channel after its mask has been set to \<open>ev\<close>, and of the poller.\<close>

definition updated :: "channel \<Rightarrow> 32 word \<Rightarrow> channel" where
  "updated c ev =
    c\<lparr>ch_events := ev, ch_added := True,
      ch_index := (if ch_index c = kAdded \<and> ev = 0 then kDeleted else kAdded)\<rparr>"

lemma interest_add_inv:
  assumes inv: "Poller_inv p" and c: "channels p a = Some c" and free: "fd_free a p"
    and c': "ch_fd c' = ch_fd c" "ch_index c' = kAdded" "ch_added c'" "ch_events c' = ev"
  shows "Poller_inv (p\<lparr>channels := (channels p)(a \<mapsto> c'), ChannelMap := (ChannelMap p)(ch_fd c \<mapsto> a),
    interest := (interest p)(ch_fd c \<mapsto> (ev, a))\<rparr>)"
proof -
  have other: "ch_fd d \<noteq> ch_fd c" if "channels p b = Some d" "ch_index d = kAdded" "b \<noteq> a" for b d
    using Poller_invD(2) [OF inv that(1,2)] free c that(3) by (auto simp: fd_free_def)
  have map: "fd = ch_fd c" if "ChannelMap p fd = Some a" for fd
    using Poller_invD(3) [OF inv that] c by auto
  show ?thesis
    using inv c' other map unfolding Poller_inv_def by (auto split: if_splits)
qed

lemma interest_delete_inv:
  assumes inv: "Poller_inv p" and c: "channels p a = Some c" "ch_index c = kAdded"
    and c': "ch_index c' = kDeleted"
  shows "Poller_inv (p\<lparr>channels := (channels p)(a \<mapsto> c'), ChannelMap := (ChannelMap p)(ch_fd c := None),
    interest := (interest p)(ch_fd c := None)\<rparr>)"
proof -
  note own = Poller_invD(2) [OF inv c]
  have other: "ch_fd d \<noteq> ch_fd c" if "channels p b = Some d" "ch_index d = kAdded" "b \<noteq> a" for b d
    using Poller_invD(2) [OF inv that(1,2)] own that(3) by auto
  have map: "fd = ch_fd c" if "ChannelMap p fd = Some a" for fd
    using Poller_invD(3) [OF inv that] c by auto
  show ?thesis
    using inv c' other map unfolding Poller_inv_def by (auto split: if_splits)
qed

lemma interest_free:
  assumes "Poller_inv p" and "channels p a = Some c" and "fd_free a p" and "ch_index c \<noteq> kAdded"
  shows "interest p (ch_fd c) = None" and "ChannelMap p (ch_fd c) = None"
proof -
  show map: "ChannelMap p (ch_fd c) = None"
    using Poller_invD(3) [OF assms(1), of "ch_fd c" a] assms(2-4) by (auto simp: fd_free_def)
  then show "interest p (ch_fd c) = None"
    using Poller_invD(4) [OF assms(1), of "ch_fd c"] by (cases "interest p (ch_fd c)") auto
qed

text \<open>The state of the poller after a mask has been set.\<close>

definition registers :: "addr \<Rightarrow> channel \<Rightarrow> 32 word \<Rightarrow> poller \<Rightarrow> poller" where
  "registers a c ev p =
    p\<lparr>channels := (channels p)(a \<mapsto> updated c ev), ChannelMap := (ChannelMap p)(ch_fd c \<mapsto> a),
      interest := (interest p)(ch_fd c \<mapsto> (ev, a))\<rparr>"

definition unregisters :: "addr \<Rightarrow> channel \<Rightarrow> channel \<Rightarrow> poller \<Rightarrow> poller" where
  "unregisters a c c' p =
    p\<lparr>channels := (channels p)(a \<mapsto> c'), ChannelMap := (ChannelMap p)(ch_fd c := None),
      interest := (interest p)(ch_fd c := None)\<rparr>"

lemma set_events_result:
  assumes inv: "Poller_inv p" and c: "channels p a = Some c" and free: "fd_free a p"
  shows "Channel_set_events f True a p = Inr
    (if ch_index c = kAdded \<and> f (ch_events c) = 0 then unregisters a c (updated c 0) p
     else registers a c (f (ch_events c)) p)"
proof -
  note D = Poller_invD [OF inv]
  consider (idle) "ch_index c = kNew \<or> ch_index c = kDeleted" | (added) "ch_index c = kAdded"
    using D(1) [OF c] by blast
  then show ?thesis
  proof cases
    case idle
    then have "ch_index c \<noteq> kAdded" by auto
    from interest_free [OF inv c free this] idle c show ?thesis
      by (auto simp: Channel_set_events_def the_channel_def Channel_update_def Epoller_updateChannel_def
          Poller_hasChannel_def set_channel_def epoll_add_def registers_def updated_def Let_def
          intro!: poller.equality)
  next
    case added
    with D(2) [OF c] have "ChannelMap p (ch_fd c) = Some a" "interest p (ch_fd c) = Some (ch_events c, a)"
      by simp_all
    moreover from this(1) have "(ChannelMap p)(ch_fd c \<mapsto> a) = ChannelMap p" by (rule map_upd_triv)
    ultimately show ?thesis
      using c added
      by (auto simp: Channel_set_events_def the_channel_def Channel_update_def Epoller_updateChannel_def
          Epoller_removeChannel_def set_channel_def epoll_mod_def epoll_del_def registers_def unregisters_def
          updated_def Let_def intro!: poller.equality channel.equality)
  qed
qed

lemma set_events_ok:
  assumes inv: "Poller_inv p" and c: "channels p a = Some c" and free: "fd_free a p"
  obtains p' where "Channel_set_events f True a p = Inr p'" and "Poller_inv p'"
    and "channels p' = (channels p)(a \<mapsto> updated c (f (ch_events c)))"
    and "interest p' = (interest p)(ch_fd c :=
      (if ch_index c = kAdded \<and> f (ch_events c) = 0 then None else Some (f (ch_events c), a)))"
    and "events_size p' = events_size p"
proof (cases "ch_index c = kAdded \<and> f (ch_events c) = 0")
  case True
  then have "Poller_inv (unregisters a c (updated c 0) p)"
    unfolding unregisters_def by (intro interest_delete_inv [OF inv c]) (simp_all add: updated_def)
  with True set_events_result [OF assms, of f] show ?thesis
    by (intro that [of "unregisters a c (updated c 0) p"]) (simp_all add: unregisters_def)
next
  case False
  then have "Poller_inv (registers a c (f (ch_events c)) p)"
    unfolding registers_def by (intro interest_add_inv [OF assms]) (auto simp: updated_def)
  moreover from False set_events_result [OF assms, of f]
  have "Channel_set_events f True a p = Inr (registers a c (f (ch_events c)) p)" by auto
  ultimately show ?thesis
    using False by (intro that [of "registers a c (f (ch_events c)) p"]) (auto simp: registers_def)
qed

text \<open>Removing a channel, registered or not, and destroying it.\<close>

lemma remove_ok:
  assumes inv: "Poller_inv p" and c: "channels p a = Some c" and thread: "registered a p \<longrightarrow> inT"
  obtains p' where "Channel_remove inT a p = Inr p'" and "Poller_inv p'" and "\<not> registered a p'"
    and "\<exists>c'. channels p' = (channels p)(a \<mapsto> c') \<and> ch_events c' = ch_events c \<and> ch_fd c' = ch_fd c \<and>
      \<not> ch_added c' \<and> ch_revents c' = ch_revents c"
    and "\<forall>b. b \<noteq> a \<longrightarrow> registered b p' = registered b p"
proof (cases "ch_index c = kAdded")
  case True
  let ?c = "c\<lparr>ch_added := False, ch_index := kDeleted\<rparr>"
  have added: "ch_added c" and own: "ChannelMap p (ch_fd c) = Some a"
    "interest p (ch_fd c) = Some (ch_events c, a)"
    using Poller_invD(2) [OF inv c True] by simp_all
  then have inT using thread by (auto simp: registered_def)
  moreover have inv': "Poller_inv (unregisters a c ?c p)"
    unfolding unregisters_def by (intro interest_delete_inv [OF inv c True]) simp
  moreover have "Channel_remove inT a p = Inr (unregisters a c ?c p)"
    using c True added own \<open>inT\<close>
    by (simp add: Channel_remove_def the_channel_def Epoller_removeChannel_def set_channel_def
        epoll_del_def unregisters_def kAdded_def kDeleted_def Let_def)
  moreover have "\<not> registered a (unregisters a c ?c p)"
    unfolding registered_iff [OF inv'] by (simp add: unregisters_def)
  moreover have "registered b (unregisters a c ?c p) = registered b p" if "b \<noteq> a" for b
    unfolding registered_iff [OF inv'] registered_iff [OF inv] using that by (simp add: unregisters_def)
  ultimately show ?thesis
    by (intro that [of "unregisters a c ?c p"]) (auto simp: unregisters_def)
next
  case False
  then have not_reg: "\<not> registered a p" using c by (simp add: registered_iff [OF inv])
  show ?thesis
  proof (cases "ch_added c")
    case True
    let ?p = "set_channel a (c\<lparr>ch_added := False\<rparr>) p"
    have "ChannelMap p fd \<noteq> Some a" for fd
      using Poller_invD(3) [OF inv, of fd a] \<open>ch_index c \<noteq> kAdded\<close> c by auto
    then have "Poller_inv ?p"
      using inv \<open>ch_index c \<noteq> kAdded\<close> c unfolding Poller_inv_def set_channel_def by auto
    moreover have "registered b ?p = registered b p" for b
      by (simp add: registered_def set_channel_def)
    moreover have "ch_index c = -1"
      using Poller_invD(1,5) [OF inv c] True False unfolding kDeleted_def by blast
    then have "Channel_remove inT a p = Inr ?p"
      using True c by (simp add: Channel_remove_def the_channel_def)
    ultimately show ?thesis
      using not_reg by (intro that [of ?p]) (auto simp: set_channel_def)
  next
    case False
    then have "Channel_remove inT a p = Inr p"
      using c by (simp add: Channel_remove_def the_channel_def)
    moreover have "channels p = (channels p)(a \<mapsto> c)" using c by auto
    ultimately show ?thesis
      using c not_reg inv False by (intro that [of p]) auto
  qed
qed

lemma fd_free_iff:
  assumes "Poller_inv p" and "channels p a = Some c"
  shows "fd_free a p \<longleftrightarrow> (\<forall>b d. channels p b = Some d \<longrightarrow> ch_index d = kAdded \<longrightarrow> ch_fd d = ch_fd c \<longrightarrow> b = a)"
proof
  assume free: "fd_free a p"
  show "\<forall>b d. channels p b = Some d \<longrightarrow> ch_index d = kAdded \<longrightarrow> ch_fd d = ch_fd c \<longrightarrow> b = a"
  proof (intro allI impI)
    fix b d
    assume "channels p b = Some d" "ch_index d = kAdded" "ch_fd d = ch_fd c"
    with Poller_invD(2) [OF assms(1) this(1,2)] free assms(2) show "b = a"
      by (auto simp: fd_free_def)
  qed
next
  assume only: "\<forall>b d. channels p b = Some d \<longrightarrow> ch_index d = kAdded \<longrightarrow> ch_fd d = ch_fd c \<longrightarrow> b = a"
  show "fd_free a p"
  proof (cases "ChannelMap p (ch_fd c)")
    case None
    with assms(2) show ?thesis by (simp add: fd_free_def)
  next
    case (Some b)
    from Poller_invD(3) [OF assms(1) this] only have "b = a" by blast
    with Some assms(2) show ?thesis by (simp add: fd_free_def)
  qed
qed

lemma fd_free_channels:
  assumes "Poller_inv p" and "Poller_inv p'" and "channels p a = Some c" and "fd_free a p"
    and "channels p' = (channels p)(a \<mapsto> c')" and "ch_fd c' = ch_fd c"
  shows "fd_free a p'"
proof -
  have "channels p' a = Some c'" using assms(5) by simp
  with assms fd_free_iff [OF assms(1,3)] show ?thesis
    by (auto simp: fd_free_iff [OF assms(2)] split: if_splits)
qed

text \<open>The calls on channels that components make in the loop's thread.\<close>

datatype chan_op =
  CreateChannel addr int | EnableReading addr | DisableReading addr | EnableWriting addr
| DisableWriting addr | DisableAll addr | RemoveChannel addr | DestroyChannel addr

fun Poller_apply :: "chan_op \<Rightarrow> poller \<Rightarrow> poller res" where
  "Poller_apply (CreateChannel a fd) p = Inr (create_channel a fd p)"
| "Poller_apply (EnableReading a) p = Channel_enableReading True a p"
| "Poller_apply (DisableReading a) p = Channel_disableReading True a p"
| "Poller_apply (EnableWriting a) p = Channel_enableWriting True a p"
| "Poller_apply (DisableWriting a) p = Channel_disableWriting True a p"
| "Poller_apply (DisableAll a) p = Channel_disableAll True a p"
| "Poller_apply (RemoveChannel a) p = Channel_remove True a p"
| "Poller_apply (DestroyChannel a) p = Channel_destroy True a p"

fun chan_op_legal :: "chan_op \<Rightarrow> poller \<Rightarrow> bool" where
  "chan_op_legal (CreateChannel a fd) p \<longleftrightarrow> channels p a = None"
| "chan_op_legal (EnableReading a) p \<longleftrightarrow> fd_free a p"
| "chan_op_legal (DisableReading a) p \<longleftrightarrow> fd_free a p"
| "chan_op_legal (EnableWriting a) p \<longleftrightarrow> fd_free a p"
| "chan_op_legal (DisableWriting a) p \<longleftrightarrow> fd_free a p"
| "chan_op_legal (DisableAll a) p \<longleftrightarrow> fd_free a p"
| "chan_op_legal (RemoveChannel a) p \<longleftrightarrow> channels p a \<noteq> None"
| "chan_op_legal (DestroyChannel a) p \<longleftrightarrow> channels p a \<noteq> None"

fun chan_ops_legal :: "chan_op list \<Rightarrow> poller \<Rightarrow> bool" where
  "chan_ops_legal [] p = True"
| "chan_ops_legal (x # xs) p =
    (chan_op_legal x p \<and> (case Poller_apply x p of Inl _ \<Rightarrow> True | Inr p' \<Rightarrow> chan_ops_legal xs p'))"

lemma fd_freeE:
  assumes "fd_free a p"
  obtains c where "channels p a = Some c"
  using assms by (auto simp: fd_free_def split: option.splits)

lemma set_events_total:
  assumes "Poller_inv p" and "fd_free a p"
  shows "\<exists>p'. Channel_set_events f True a p = Inr p' \<and> Poller_inv p'"
  using fd_freeE [OF assms(2)] set_events_ok [OF assms(1) _ assms(2), of _ f] by metis

lemma destroy_ok:
  assumes "Poller_inv p" and "channels p a = Some c" and "registered a p \<longrightarrow> inT"
  obtains p' where "Channel_destroy inT a p = Inr p'" and "Poller_inv p'" and "\<not> registered a p'"
    and "channels p' = (channels p)(a := None)"
    and "\<forall>b. b \<noteq> a \<longrightarrow> registered b p' = registered b p"
proof -
  obtain p1 where p1: "Channel_remove inT a p = Inr p1" "Poller_inv p1" "\<not> registered a p1"
    "\<exists>c'. channels p1 = (channels p)(a \<mapsto> c') \<and> ch_events c' = ch_events c \<and> ch_fd c' = ch_fd c \<and>
      \<not> ch_added c' \<and> ch_revents c' = ch_revents c"
    "\<forall>b. b \<noteq> a \<longrightarrow> registered b p1 = registered b p"
    by (rule remove_ok [OF assms]) (rule that)
  let ?p = "p1\<lparr>channels := (channels p1)(a := None)\<rparr>"
  have none: "ChannelMap p1 fd \<noteq> Some a" for fd
    using Poller_invD(3) [OF p1(2), of fd a] p1(3) by (auto simp: registered_iff [OF p1(2)])
  have "Poller_inv ?p"
    using p1(2) none unfolding Poller_inv_def by auto
  moreover have "registered b ?p = registered b p1" for b by (simp add: registered_def)
  ultimately show ?thesis
    using p1 by (intro that [of ?p]) (auto simp: Channel_destroy_def)
qed

lemma Poller_apply_ok:
  assumes "Poller_inv p" and "chan_op_legal x p"
  shows "\<exists>p'. Poller_apply x p = Inr p' \<and> Poller_inv p'"
proof (cases x)
  case (CreateChannel a fd)
  with assms create_channel_inv show ?thesis by simp
next
  case (RemoveChannel a)
  with assms obtain c where "channels p a = Some c" by auto
  with remove_ok [OF assms(1) this, of True] RemoveChannel show ?thesis by (metis Poller_apply.simps(7))
next
  case (DestroyChannel a)
  with assms obtain c where "channels p a = Some c" by auto
  with destroy_ok [OF assms(1) this, of True] DestroyChannel show ?thesis by (metis Poller_apply.simps(8))
qed (use assms set_events_total in \<open>simp_all add: Channel_enableReading_def Channel_disableReading_def
  Channel_enableWriting_def Channel_disableWriting_def Channel_disableAll_def\<close>)

text \<open>Polling: the active list has exactly the channels of the ready descriptors, all of them alive.\<close>

lemma set_channel_inv:
  assumes "Poller_inv p" and "channels p a = Some c" and "ch_fd c' = ch_fd c" and "ch_index c' = ch_index c"
    and "ch_events c' = ch_events c" and "ch_added c' = ch_added c"
  shows "Poller_inv (set_channel a c' p)"
proof -
  have "ch_fd c = fd \<and> ch_index c = kAdded" if "ChannelMap p fd = Some a" for fd
    using Poller_invD(3) [OF assms(1) that] assms(2) by auto
  with assms show ?thesis unfolding Poller_inv_def set_channel_def by auto
qed

definition ready_ok :: "poller \<Rightarrow> (int \<times> 32 word) list \<Rightarrow> bool" where
  "ready_ok p es \<longleftrightarrow> (\<forall>e \<in> set es. interest p (fst e) \<noteq> None)"

lemma fill_one:
  assumes "Poller_inv p" and "interest p (fst e) \<noteq> None"
  obtains a c where "interest p (fst e) = Some (ch_events c, a)" and "channels p a = Some c"
    and "fillActiveChannel e (p, act) = Inr (set_channel a (c\<lparr>ch_revents := snd e\<rparr>) p, act @ [a])"
    and "Poller_inv (set_channel a (c\<lparr>ch_revents := snd e\<rparr>) p)"
proof -
  obtain ev a where i: "interest p (fst e) = Some (ev, a)" using assms(2) by auto
  from Poller_invD(3) [OF assms(1) Poller_invD(4) [OF assms(1) i]] obtain c
    where c: "channels p a = Some c" "ch_fd c = fst e" "ch_index c = kAdded" by blast
  then have "ev = ch_events c" using Poller_invD(2) [OF assms(1) c(1,3)] i by simp
  moreover have "Poller_inv (set_channel a (c\<lparr>ch_revents := snd e\<rparr>) p)"
    by (rule set_channel_inv [OF assms(1) c(1)]) simp_all
  ultimately show ?thesis
    using i c by (intro that [of c a]) (simp_all add: fillActiveChannel_def the_channel_def)
qed

definition active_of :: "poller \<Rightarrow> (int \<times> 32 word) list \<Rightarrow> addr list" where
  "active_of p es = map (\<lambda>e. snd (the (interest p (fst e)))) es"

lemma fill_all:
  assumes "Poller_inv p" and "ready_ok p es"
  shows "\<exists>p'. rfold fillActiveChannel es (p, act) = Inr (p', act @ active_of p es) \<and> Poller_inv p' \<and>
    interest p' = interest p \<and> ChannelMap p' = ChannelMap p"
  using assms
proof (induction es arbitrary: p act)
  case Nil
  then show ?case by (simp add: active_of_def)
next
  case (Cons e es)
  from Cons.prems(2) have "interest p (fst e) \<noteq> None" by (simp add: ready_ok_def)
  from Cons.prems(1) this obtain a c where step:
    "interest p (fst e) = Some (ch_events c, a)"
    "fillActiveChannel e (p, act) = Inr (set_channel a (c\<lparr>ch_revents := snd e\<rparr>) p, act @ [a])"
    "Poller_inv (set_channel a (c\<lparr>ch_revents := snd e\<rparr>) p)"
    by (rule fill_one) (rule that)
  let ?p = "set_channel a (c\<lparr>ch_revents := snd e\<rparr>) p"
  have same: "interest ?p = interest p" "ChannelMap ?p = ChannelMap p" by (simp_all add: set_channel_def)
  then have "ready_ok ?p es" using Cons.prems(2) by (simp add: ready_ok_def)
  from Cons.IH [OF step(3) this, of "act @ [a]"] step(1,2) same show ?case
    by (simp add: active_of_def)
qed

lemma interest_inj:
  assumes "Poller_inv p" and "interest p fd = Some (ev, a)" and "interest p fd' = Some (ev', a)"
  shows "fd = fd'"
  using Poller_invD(3) [OF assms(1) Poller_invD(4) [OF assms(1,2)]]
    Poller_invD(3) [OF assms(1) Poller_invD(4) [OF assms(1,3)]] by auto

lemma fill_revents:
  assumes "Poller_inv p" and "ready_ok p es" and "distinct (map fst es)"
    and "rfold fillActiveChannel es (p, act) = Inr (p', act')"
  shows "(\<forall>a. a \<notin> set (active_of p es) \<longrightarrow> channels p' a = channels p a) \<and>
    (\<forall>e \<in> set es. \<exists>c. channels p' (snd (the (interest p (fst e)))) = Some c \<and> ch_revents c = snd e)"
  using assms
proof (induction es arbitrary: p act)
  case Nil
  then show ?case by simp
next
  case (Cons e es)
  from Cons.prems(2) have "interest p (fst e) \<noteq> None" by (simp add: ready_ok_def)
  from Cons.prems(1) this obtain a c where step:
    "interest p (fst e) = Some (ch_events c, a)" "channels p a = Some c"
    "fillActiveChannel e (p, act) = Inr (set_channel a (c\<lparr>ch_revents := snd e\<rparr>) p, act @ [a])"
    "Poller_inv (set_channel a (c\<lparr>ch_revents := snd e\<rparr>) p)"
    by (rule fill_one) (rule that)
  let ?p = "set_channel a (c\<lparr>ch_revents := snd e\<rparr>) p"
  have same: "interest ?p = interest p" and upd: "channels ?p = (channels p)(a \<mapsto> c\<lparr>ch_revents := snd e\<rparr>)"
    by (simp_all add: set_channel_def)
  from same have act: "active_of ?p es = active_of p es" by (simp add: active_of_def)
  have "ready_ok ?p es" using Cons.prems(2) same by (simp add: ready_ok_def)
  moreover have "distinct (map fst es)" using Cons.prems(3) by simp
  moreover have "rfold fillActiveChannel es (?p, act @ [a]) = Inr (p', act')"
    using Cons.prems(4) step(3) by simp
  ultimately have IH: "\<And>b. b \<notin> set (active_of p es) \<Longrightarrow> channels p' b = channels ?p b"
    "\<And>x. x \<in> set es \<Longrightarrow> \<exists>c. channels p' (snd (the (interest p (fst x)))) = Some c \<and> ch_revents c = snd x"
    using Cons.IH [OF step(4)] unfolding act same by blast+
  have "a \<notin> set (active_of p es)"
  proof
    assume "a \<in> set (active_of p es)"
    then obtain x where x: "x \<in> set es" "snd (the (interest p (fst x))) = a"
      by (auto simp: active_of_def)
    with Cons.prems(2) obtain ev where "interest p (fst x) = Some (ev, a)"
      by (fastforce simp: ready_ok_def)
    from interest_inj [OF Cons.prems(1) this step(1)] x(1) have "fst e \<in> fst ` set es"
      by (metis image_eqI)
    with Cons.prems(3) show False by simp
  qed
  then have "channels p' a = Some (c\<lparr>ch_revents := snd e\<rparr>)" using IH(1) upd by simp
  with IH step(1) upd show ?case by (auto simp: active_of_def)
qed

text \<open>A poll changes nothing of a channel but its \<open>revents_\<close>.\<close>

definition same_registration :: "channel option \<Rightarrow> channel option \<Rightarrow> bool" where
  "same_registration c d \<longleftrightarrow> map_option (ch_revents_update (\<lambda>_. 0)) c = map_option (ch_revents_update (\<lambda>_. 0)) d"

lemma same_registration_refl [simp]: "same_registration c c"
  by (simp add: same_registration_def)

lemma same_registration_Some:
  assumes "same_registration c (Some d)"
  obtains x where "c = Some x" and "ch_fd x = ch_fd d" and "ch_events x = ch_events d" and "ch_added x = ch_added d"
    and "ch_index x = ch_index d"
  using assms by (cases c; cases "the c"; cases d) (auto simp: same_registration_def)

lemma same_registration_trans: "same_registration c d \<Longrightarrow> same_registration d e \<Longrightarrow> same_registration c e"
  by (simp add: same_registration_def)

lemma fill_registration:
  "rfold fillActiveChannel es (p, act) = Inr (p', act') \<Longrightarrow>
    same_registration (channels p' b) (channels p b) \<and> ChannelMap p' = ChannelMap p \<and> interest p' = interest p"
proof (induction es arbitrary: p act)
  case (Cons e es)
  then obtain p1 act1 where one: "fillActiveChannel e (p, act) = Inr (p1, act1)"
    and rest: "rfold fillActiveChannel es (p1, act1) = Inr (p', act')" by (auto simp: rbind_eq_Inr)
  have "same_registration (channels p1 b) (channels p b) \<and> ChannelMap p1 = ChannelMap p \<and> interest p1 = interest p"
    using one by (auto simp: fillActiveChannel_def the_channel_def set_channel_def same_registration_def split: option.splits)
  with Cons.IH [OF rest] show ?case using same_registration_trans by metis
qed simp

lemma poll_result:
  assumes "Poller_inv p" and "ready_ok p es"
  obtains p' where "Epoller_poll True (Some es) p = Inr (p', active_of p es)" and "Poller_inv p'"
    and "interest p' = interest p" and "ChannelMap p' = ChannelMap p"
    and "\<And>b. same_registration (channels p' b) (channels p b)"
    and "distinct (map fst es) \<longrightarrow>
      (\<forall>e \<in> set es. \<exists>c. channels p' (snd (the (interest p (fst e)))) = Some c \<and> ch_revents c = snd e)"
proof -
  define q where "q = (if int (length es) = int (events_size p) then p\<lparr>events_size := events_size p * 2\<rparr> else p)"
  have q: "Poller_inv q" "ready_ok q es" "active_of q es = active_of p es" "channels q = channels p"
    "ChannelMap q = ChannelMap p" "interest q = interest p"
    using assms by (simp_all add: q_def Poller_inv_def ready_ok_def active_of_def)
  from fill_all [OF q(1,2), of "[]"] obtain p' where
    p': "rfold fillActiveChannel es (q, []) = Inr (p', active_of p es)" "Poller_inv p'" using q(3) by auto
  moreover have "Epoller_poll True (Some es) p = rfold fillActiveChannel es (q, [])"
    by (cases es) (simp_all add: Epoller_poll_def q_def Let_def)
  ultimately show ?thesis
    using fill_registration [OF p'(1)] fill_revents [OF q(1,2) _ p'(1)] q(4-6) by (intro that [of p']) simp_all
qed

lemma active_registered: "ready_ok p es \<Longrightarrow> ch \<in> set (active_of p es) \<Longrightarrow> registered ch p"
  by (force simp: active_of_def ready_ok_def registered_def)

section \<open>Properties\<close>

text \<open>
  C13. Channels and the poller keep in step: whatever channels the loop's thread creates, enables,
  disables, removes and destroys, no assertion fails and no freed channel is touched, and a channel is in
  the poller's map and in the kernel's interest set exactly while its state is \<open>kAdded\<close>, under its own
  descriptor, address and mask.
\<close>

theorem poller_api_invariant:
  assumes "Poller_inv p" and "chan_ops_legal xs p"
  shows "\<exists>p'. rfold Poller_apply xs p = Inr p' \<and> Poller_inv p'"
  using assms
proof (induction xs arbitrary: p)
  case (Cons x xs)
  obtain p1 where "Poller_apply x p = Inr p1" "Poller_inv p1"
    using Poller_apply_ok [OF Cons.prems(1), of x] Cons.prems(2) by auto
  with Cons.IH [of p1] Cons.prems(2) show ?case by simp
qed simp

lemma demo_channel_ops:
  "chan_ops_legal [CreateChannel 16 7, EnableReading 16, DisableAll 16, EnableReading 16, DestroyChannel 16]
    Epoller_new"
  by (simp add: create_channel_def Channel_new_def Epoller_new_def fd_free_def Channel_enableReading_def
      Channel_disableAll_def Channel_set_events_def the_channel_def Channel_update_def set_channel_def
      Epoller_updateChannel_def Poller_hasChannel_def epoll_add_def Epoller_removeChannel_def epoll_del_def
      EPOLLIN_def Let_def split: sum.split)

theorem poller_api_invariant_witness:
  "\<exists>p'. rfold Poller_apply
      [CreateChannel 16 7, EnableReading 16, DisableAll 16, EnableReading 16, DestroyChannel 16]
      Epoller_new = Inr p' \<and> Poller_inv p'"
  by (rule poller_api_invariant [OF Epoller_new_inv demo_channel_ops])

text \<open>
  \<open>poll\<close> hands out live channels only: for every descriptor the kernel reports, the channel registered
  for it, with \<open>revents_\<close> set to what the kernel reported, in the kernel's order.
\<close>

theorem poll_reports_live_channels:
  assumes "Poller_inv p" and "ready_ok p es" and "distinct (map fst es)"
  shows "\<exists>p'. Epoller_poll True (Some es) p = Inr (p', active_of p es) \<and> Poller_inv p' \<and>
    interest p' = interest p \<and>
    (\<forall>e \<in> set es. \<exists>c. channels p' (snd (the (interest p (fst e)))) = Some c \<and> ch_revents c = snd e)"
  by (rule poll_result [OF assms(1,2)]) (use assms(3) in blast)

definition demo_poller :: poller where
  "demo_poller =
    \<lparr>channels = [16 \<mapsto> \<lparr>ch_fd = 7, ch_revents = 0, ch_events = EPOLLIN, ch_added = True, ch_index = kAdded\<rparr>],
     ChannelMap = [7 \<mapsto> 16], interest = [7 \<mapsto> (EPOLLIN, 16)], events_size = kMaxEvents\<rparr>"

lemma demo_poller_inv: "Poller_inv demo_poller"
  by (auto simp: Poller_inv_def demo_poller_def split: if_splits)

theorem poll_reports_live_channels_witness:
  "\<exists>p' c. Epoller_poll True (Some [(7, EPOLLIN)]) demo_poller = Inr (p', [16]) \<and>
    channels p' 16 = Some c \<and> ch_revents c = EPOLLIN"
  using poll_reports_live_channels [OF demo_poller_inv, of "[(7, EPOLLIN)]"]
  by (auto simp: ready_ok_def active_of_def demo_poller_def)

text \<open>The callbacks that the events of a channel call for, in order.\<close>

definition event_calls :: "32 word \<Rightarrow> ev_call list" where
  "event_calls r =
    (if on_error r then [ErrorCall] else []) @ (if on_read r then [ReadCall] else []) @
    (if on_hup r then [ErrorCall] else []) @ (if on_write r then [WriteCall] else [])"

definition run_call :: "(ev_call \<Rightarrow> ('w \<Rightarrow> 'w res) option) \<Rightarrow> ev_call \<Rightarrow> 'w \<Rightarrow> 'w res" where
  "run_call cbs k w = (case cbs k of Some f \<Rightarrow> f w | None \<Rightarrow> Inr w)"

lemma event_call_run:
  "rev_of w = Some r \<Longrightarrow> event_call rev_of cbs cond k w = rfold (run_call cbs) (if cond r then [k] else []) w"
  by (simp add: event_call_def run_call_def rbind_def split: option.split sum.split)

lemma event_call_keeps:
  assumes "\<And>k f w w'. cbs k = Some f \<Longrightarrow> rev_of w = Some r \<Longrightarrow> f w = Inr w' \<Longrightarrow> rev_of w' = Some r"
    and "rev_of w = Some r" and "event_call rev_of cbs cond k w = Inr w'"
  shows "rev_of w' = Some r"
  using assms(2,3) assms(1) by (auto simp: event_call_def split: if_splits option.splits)

text \<open>
  While the callbacks leave the channel alive, \<open>handleEvent\<close> calls exactly the callbacks that the
  reported events call for, in the order error, read, error again for a hang-up without input, write,
  and stops only when one of them faults. In particular the write callback still runs after a read
  callback that has closed the connection.
\<close>

theorem handleEvent_calls:
  assumes "rev_of w = Some r"
    and "\<And>k f w w'. cbs k = Some f \<Longrightarrow> rev_of w = Some r \<Longrightarrow> f w = Inr w' \<Longrightarrow> rev_of w' = Some r"
  shows "Channel_handleEvent rev_of cbs w = rfold (run_call cbs) (event_calls r) w"
proof -
  have step: "rbind (event_call rev_of cbs c k v) g = rbind (rfold (run_call cbs) (if c r then [k] else []) v) h"
    if v: "rev_of v = Some r" and gh: "\<And>w'. rev_of w' = Some r \<Longrightarrow> g w' = h w'" for c k v g h
  proof (cases "event_call rev_of cbs c k v")
    case (Inl e)
    then show ?thesis
      unfolding event_call_run [where rev_of = rev_of, OF v, of cbs c k, symmetric] by simp
  next
    case (Inr v')
    from gh [OF event_call_keeps [OF assms(2) v Inr]] Inr show ?thesis
      unfolding event_call_run [where rev_of = rev_of, OF v, of cbs c k, symmetric] by simp
  qed
  show ?thesis
    unfolding Channel_handleEvent_def event_calls_def rfold_append
    by (intro step assms(1) event_call_run)
qed

theorem handleEvent_calls_witness:
  "Channel_handleEvent (\<lambda>_. Some (EPOLLIN OR EPOLLOUT)) (\<lambda>k. Some (\<lambda>log. Inr (log @ [k]))) [] =
    Inr [ReadCall, WriteCall]"
proof -
  have "Channel_handleEvent (\<lambda>_. Some (EPOLLIN OR EPOLLOUT)) (\<lambda>k. Some (\<lambda>log. Inr (log @ [k]))) [] =
      rfold (run_call (\<lambda>k. Some (\<lambda>log. Inr (log @ [k])))) (event_calls (EPOLLIN OR EPOLLOUT)) []"
    by (rule handleEvent_calls) simp_all
  also have "\<dots> = Inr [ReadCall, WriteCall]"
    by (simp add: event_calls_def on_error_def on_read_def on_hup_def on_write_def epoll_masks run_call_def)
  finally show ?thesis .
qed

text \<open>
  A callback that destroys its own channel makes \<open>handleEvent\<close> touch the freed channel: here the
  callback of a pure write or a pure read event, or an error callback.
\<close>

lemma handleEvent_own_channel_destroyed:
  assumes "rev_of w = Some r" and "on_error r \<or> on_read r" and "cbs (if on_error r then ErrorCall else ReadCall) = Some f"
    and "f w = Inr w'" and "rev_of w' = None"
  shows "Channel_handleEvent rev_of cbs w = Inl UseAfterFree"
  using assms by (cases "on_error r") (simp_all add: Channel_handleEvent_def event_call_def)

end
