(* ===== verification/Timer_Service.thy ===== *)
theory Timer_Service
  imports Prelude
begin

text \<open>
  The interface that the owners of timers (connections, connectors) rely on. \<open>live q i\<close> is the callback
  of the timer that \<open>i\<close> names, if it is still registered. \<open>add\<close> registers a timer under a name that was
  not in use, \<open>cancel\<close> unregisters the timer it is given and nothing else, and a null name is never in
  use. A request \<open>r\<close> carries the clock readings, the delay and the address of the new object.
\<close>

locale timer_service =
  fixes inv :: "'q \<Rightarrow> bool"
    and live :: "'q \<Rightarrow> 'i \<Rightarrow> 'c option"
    and valid :: "'i \<Rightarrow> bool"
    and admissible :: "'r \<Rightarrow> 'q \<Rightarrow> bool"
    and add :: "'r \<Rightarrow> 'c \<Rightarrow> 'q \<Rightarrow> ('i \<times> 'q) res"
    and cancel :: "'i \<Rightarrow> 'q \<Rightarrow> 'q res"
  assumes add_ok: "inv q \<Longrightarrow> admissible r q \<Longrightarrow>
      \<exists>i q'. add r c q = Inr (i, q') \<and> inv q' \<and> valid i \<and> live q i = None \<and> live q' = (live q)(i \<mapsto> c)"
    and cancel_ok: "inv q \<Longrightarrow> \<exists>q'. cancel i q = Inr q' \<and> inv q' \<and> live q' = (live q)(i := None)"
    and null_dead: "inv q \<Longrightarrow> \<not> valid i \<Longrightarrow> live q i = None"
    and cancel_admissible: "inv q \<Longrightarrow> cancel i q = Inr q' \<Longrightarrow> admissible r q \<Longrightarrow> admissible r q'"
begin

text \<open>The idiom \<open>if (id.valid()) { cancel(id); id = TimerId(); }\<close>.\<close>

definition drop :: "'i \<Rightarrow> 'q \<Rightarrow> 'q res" where
  "drop i q = (if valid i then cancel i q else Inr q)"

lemma drop_ok:
  assumes "inv q"
  shows "\<exists>q'. drop i q = Inr q' \<and> inv q' \<and> live q' = (live q)(i := None)"
  using cancel_ok [OF assms, of i] null_dead [OF assms, of i] assms by (auto simp: drop_def fun_eq_iff)

lemma drop_all_ok:
  "inv q \<Longrightarrow> \<exists>q'. rfold drop is q = Inr q' \<and> inv q' \<and>
    live q' = (\<lambda>i. if i \<in> set is then None else live q i)"
proof (induction "is" arbitrary: q)
  case (Cons i "is")
  obtain q1 where q1: "drop i q = Inr q1" "inv q1" "live q1 = (live q)(i := None)"
    using drop_ok [OF Cons.prems] by blast
  with Cons.IH [of q1] show ?case by (auto simp: fun_eq_iff)
qed simp

lemma drop_all_admissible:
  "inv q \<Longrightarrow> rfold drop is q = Inr q' \<Longrightarrow> admissible r q \<Longrightarrow> admissible r q'"
proof (induction "is" arbitrary: q)
  case (Cons i "is")
  obtain q1 where q1: "drop i q = Inr q1" "inv q1" using drop_ok [OF Cons.prems(1)] by blast
  have "admissible r q1"
    using q1(1) Cons.prems(1,3) cancel_admissible by (auto simp: drop_def split: if_splits)
  with Cons.IH [of q1] Cons.prems(2) q1 show ?case by simp
qed simp

text \<open>Restarting the timer in a slot: the old one is gone, exactly one new one is registered.\<close>

lemma rearm_ok:
  assumes "inv q" and "admissible r q"
  shows "\<exists>j q'. rbind (drop i q) (add r c) = Inr (j, q') \<and> inv q' \<and> valid j \<and>
    live q' = (live q)(i := None, j \<mapsto> c) \<and> (live q j = None \<or> j = i)"
proof -
  obtain q1 where q1: "drop i q = Inr q1" "inv q1" "live q1 = (live q)(i := None)"
    using drop_ok [OF assms(1)] by blast
  have "admissible r q1"
    using q1(1) assms cancel_admissible by (auto simp: drop_def split: if_splits)
  with add_ok [OF q1(2), of r c] q1 show ?thesis by (auto split: if_splits)
qed

text \<open>
  Ownership: \<open>owner\<close> has registered only what its slots name. Cancelling the slots leaves it nothing.
\<close>

definition owned :: "('c \<Rightarrow> bool) \<Rightarrow> ('c \<Rightarrow> 'i option) \<Rightarrow> 'q \<Rightarrow> bool" where
  "owned mine slot q \<longleftrightarrow> (\<forall>i c. live q i = Some c \<longrightarrow> mine c \<longrightarrow> slot c = Some i)"

lemma owned_drop_all:
  assumes "inv q" and "owned mine slot q" and "\<And>c i. mine c \<Longrightarrow> slot c = Some i \<Longrightarrow> i \<in> set is"
  shows "\<exists>q'. rfold drop is q = Inr q' \<and> inv q' \<and> (\<forall>i c. live q' i = Some c \<longrightarrow> \<not> mine c)"
proof -
  obtain q' where "rfold drop is q = Inr q'" "inv q'" "live q' = (\<lambda>i. if i \<in> set is then None else live q i)"
    using drop_all_ok [OF assms(1)] by blast
  moreover from this assms(2,3) have "\<forall>i c. live q' i = Some c \<longrightarrow> \<not> mine c"
    unfolding owned_def by (metis option.distinct(1))
  ultimately show ?thesis by blast
qed

end

end
