(* ===== verification/EventLoop.thy ===== *)
theory EventLoop
  imports TimerQueue Poller Timer_Service
begin

text \<open>
  The event loop (\<open>net/EventLoop.h\<close>, \<open>net/EventLoop.cc\<close>): the loop of one thread, and the calls that
  other threads make on it. Functions handed to the loop are named by numbers; \<open>quits f\<close> tells whether
  \<open>f\<close> calls \<open>quit()\<close>. What other threads do is interleaved with the loop's own steps: the locked push
  of \<open>queueInLoop\<close> and the write to the eventfd that follows it are two steps, and \<open>waking\<close> counts the
  threads that are between them. \<open>queued\<close> and \<open>executed\<close> record, for the statements only, the
  functions pushed so far and the pushed functions that have been run.
\<close>

section \<open>State and operations\<close>

type_synonym task = nat

text \<open>Where the loop's thread is in \<open>loop()\<close>.\<close>

datatype loop_pc =
  NotStarted
| AtTest                       \<comment> \<open>about to test \<open>quit_\<close>\<close>
| Polling                      \<comment> \<open>in \<open>poll(-1)\<close>\<close>
| Handling bool                \<comment> \<open>active channels; is the eventfd one of them\<close>
| BeforeSwap                   \<comment> \<open>about to call \<open>doPendingFuncs\<close>\<close>
| Running "task list"          \<comment> \<open>in \<open>doPendingFuncs\<close>, these are left\<close>
| FinalSwap                    \<comment> \<open>the call after the loop\<close>
| FinalRunning "task list"
| Exited

record event_loop =
  pc :: loop_pc
  looping :: bool
  quit :: bool
  eventHanding :: bool
  callingPendingFunc :: bool
  eventfd :: nat
  pendingFunc :: "task list"
  waking :: nat
  queued :: "task list"
  executed :: "task list"

definition EventLoop_new :: event_loop where
  "EventLoop_new =
    \<lparr>pc = NotStarted, looping = False, quit = False, eventHanding = False, callingPendingFunc = False,
     eventfd = 0, pendingFunc = [], waking = 0, queued = [], executed = []\<rparr>"

text \<open>A non-blocking write of 1 to an eventfd fails when the counter is at its maximum.\<close>

definition eventfd_max :: nat where
  "eventfd_max = 2 ^ 64 - 2"

definition EventLoop_weakup :: "event_loop \<Rightarrow> event_loop" where
  "EventLoop_weakup s = (if eventfd s < eventfd_max then s\<lparr>eventfd := eventfd s + 1\<rparr> else s)"

definition EventLoop_handleWeakup :: "event_loop \<Rightarrow> event_loop" where
  "EventLoop_handleWeakup s = s\<lparr>eventfd := 0\<rparr>"

definition push_pending :: "task \<Rightarrow> event_loop \<Rightarrow> event_loop" where
  "push_pending f s = s\<lparr>pendingFunc := pendingFunc s @ [f], queued := queued s @ [f]\<rparr>"

definition EventLoop_queueInLoop :: "bool \<Rightarrow> task \<Rightarrow> event_loop \<Rightarrow> event_loop" where
  "EventLoop_queueInLoop inT f s =
    (let s = push_pending f s
     in if \<not> inT \<or> callingPendingFunc s then EventLoop_weakup s else s)"

definition EventLoop_quit :: "bool \<Rightarrow> event_loop \<Rightarrow> event_loop" where
  "EventLoop_quit inT s =
    (if quit s then s
     else let s = s\<lparr>quit := True\<rparr> in if \<not> inT then EventLoop_weakup s else s)"

definition run_task :: "(task \<Rightarrow> bool) \<Rightarrow> task \<Rightarrow> event_loop \<Rightarrow> event_loop" where
  "run_task quits f s = (let s = s\<lparr>executed := executed s @ [f]\<rparr> in if quits f then EventLoop_quit True s else s)"

definition EventLoop_runInLoop :: "(task \<Rightarrow> bool) \<Rightarrow> bool \<Rightarrow> task \<Rightarrow> event_loop \<Rightarrow> event_loop" where
  "EventLoop_runInLoop quits inT f s =
    (if inT then (if quits f then EventLoop_quit True s else s) else EventLoop_queueInLoop inT f s)"

definition EventLoop_assertInLoopThread :: "bool \<Rightarrow> 's \<Rightarrow> 's res" where
  "EventLoop_assertInLoopThread inT s = check inT Aborted s"

text \<open>The timer interface: relative times are turned into absolute ones.\<close>

definition EventLoop_runAt ::
  "bool \<Rightarrow> timestamp \<Rightarrow> addr \<Rightarrow> timestamp \<Rightarrow> closure \<Rightarrow> timer_queue
    \<Rightarrow> (timer_id \<times> tq_task list \<times> timer_queue) res" where
  "EventLoop_runAt inT now a deadline f q = TimerQueue_addTimer inT now a f deadline 0 q"

definition EventLoop_runAfter ::
  "bool \<Rightarrow> timestamp \<Rightarrow> timestamp \<Rightarrow> addr \<Rightarrow> rat \<Rightarrow> closure \<Rightarrow> timer_queue
    \<Rightarrow> (timer_id \<times> tq_task list \<times> timer_queue) res" where
  "EventLoop_runAfter inT now now' a delay f q =
    TimerQueue_addTimer inT now' a f (now + to_micro delay) 0 q"

definition EventLoop_runEvery ::
  "bool \<Rightarrow> timestamp \<Rightarrow> timestamp \<Rightarrow> addr \<Rightarrow> rat \<Rightarrow> closure \<Rightarrow> timer_queue
    \<Rightarrow> (timer_id \<times> tq_task list \<times> timer_queue) res" where
  "EventLoop_runEvery inT now now' a interval f q =
    TimerQueue_addTimer inT now' a f (now + to_micro interval) interval q"

definition EventLoop_cancel ::
  "bool \<Rightarrow> timer_id \<Rightarrow> timer_queue \<Rightarrow> (tq_task list \<times> timer_queue) res" where
  "EventLoop_cancel inT i q = TimerQueue_cancel inT i q"

text \<open>The same in the loop's thread, as a provider of the timer interface.\<close>

record timer_request =
  rq_now :: timestamp
  rq_now' :: timestamp
  rq_addr :: addr
  rq_delay :: rat

definition loop_add :: "timer_request \<Rightarrow> closure \<Rightarrow> timer_queue \<Rightarrow> (timer_id \<times> timer_queue) res" where
  "loop_add r f q =
    rbind (EventLoop_runAfter True (rq_now r) (rq_now' r) (rq_addr r) (rq_delay r) f q)
      (\<lambda>(i, ts, q). Inr (i, q))"

definition loop_cancel :: "timer_id \<Rightarrow> timer_queue \<Rightarrow> timer_queue res" where
  "loop_cancel i q = rbind (EventLoop_cancel True i q) (\<lambda>(ts, q). Inr q)"

text \<open>
  A name is live while its timer is registered; the timers in \<open>E\<close> are being handled by the current round
  and are not registered.
\<close>

definition timers_live :: "addr set \<Rightarrow> timer_queue \<Rightarrow> timer_id \<Rightarrow> closure option" where
  "timers_live E q i =
    (if tid_timer i \<notin> E \<and> map_option tsequence (theap q (tid_timer i)) = Some (tid_sequence i)
     then map_option tcallback (theap q (tid_timer i)) else None)"

definition fresh_timer :: "timer_request \<Rightarrow> timer_queue \<Rightarrow> bool" where
  "fresh_timer r q \<longleftrightarrow> theap q (rq_addr r) = None \<and> 0 < rq_addr r \<and> rq_addr r < UINTPTR_MAX"

lemma loop_add_ok:
  assumes inv: "TimerQueue_inv E q" and fresh: "fresh_timer r q"
  shows "\<exists>i q'. loop_add r c q = Inr (i, q') \<and> TimerQueue_inv E q' \<and> TimerId_valid i \<and>
    timers_live E q i = None \<and> timers_live E q' = (timers_live E q)(i \<mapsto> c)"
proof -
  let ?a = "rq_addr r" and ?when = "rq_now r + to_micro (rq_delay r)"
  let ?t = "Timer_new c ?when 0 (numCreated q)"
  let ?q = "q\<lparr>theap := (theap q)(?a := Some ?t), numCreated := numCreated q + 1\<rparr>"
  have a: "theap q ?a = None" "0 < ?a" "?a < UINTPTR_MAX" using fresh by (simp_all add: fresh_timer_def)
  have E: "?a \<notin> E" using TimerQueue_invD(4) [OF inv] a by auto
  have q: "TimerQueue_inv (insert ?a E) ?q" by (rule allocate_inv [OF inv a])
  obtain q' where q': "TimerQueue_addTimerInLoop (rq_now' r) ?a ?q = Inr q'"
    "TimerQueue_inv (insert ?a E - {?a}) q'" "theap q' = theap ?q"
    using addTimerInLoop_ok [OF q, of ?a ?t "rq_now' r"] by auto
  let ?i = "\<lparr>tid_timer = ?a, tid_sequence = numCreated q\<rparr>"
  have "loop_add r c q = Inr (?i, q')"
    using q'(1) by (simp add: loop_add_def EventLoop_runAfter_def TimerQueue_addTimer_def Let_def Timer_new_def)
  moreover have "timers_live E q' j = ((timers_live E q)(?i \<mapsto> c)) j" for j
    using q'(3) a(1) E by (cases j) (auto simp: timers_live_def Timer_new_def)
  ultimately show ?thesis
    using q'(2) E a by (intro exI [of _ ?i] exI [of _ q']) (auto simp: timers_live_def TimerId_valid_def)
qed

lemma loop_cancel_ok:
  assumes inv: "TimerQueue_inv E q"
  shows "\<exists>q'. loop_cancel i q = Inr q' \<and> TimerQueue_inv E q' \<and>
    timers_live E q' = (timers_live E q)(i := None) \<and> (\<forall>a. theap q a = None \<longrightarrow> theap q' a = None)"
proof -
  obtain q' where q': "TimerQueue_cancelInLoop i q = Inr q'" "TimerQueue_inv E q'"
    using cancelInLoop_ok [OF inv, of i] by blast
  let ?key = "(tid_sequence i, tid_timer i) \<in> activeTimers q"
  have key: "?key \<longleftrightarrow> tid_timer i \<notin> E \<and> map_option tsequence (theap q (tid_timer i)) = Some (tid_sequence i)"
    using TimerQueue_invD(3) [OF inv] by simp
  have heap: "theap q' = (if ?key then (theap q)(tid_timer i := None) else theap q)"
  proof (cases ?key)
    case True
    with key obtain t where "theap q (tid_timer i) = Some t" by auto
    with True q'(1) show ?thesis by (simp add: TimerQueue_cancelInLoop_def) (auto)
  next
    case False
    with q'(1) show ?thesis by (auto simp: TimerQueue_cancelInLoop_def split: if_splits)
  qed
  have "timers_live E q' j = ((timers_live E q)(i := None)) j" for j
  proof (cases "j = i")
    case True
    with heap key show ?thesis by (auto simp: timers_live_def)
  next
    case False
    then have "tid_timer j \<noteq> tid_timer i \<or> tid_sequence j \<noteq> tid_sequence i"
      by (metis timer_id.equality old.unit.exhaust)
    with False heap key show ?thesis by (auto simp: timers_live_def)
  qed
  moreover have "loop_cancel i q = Inr q'"
    using q'(1) by (simp add: loop_cancel_def EventLoop_cancel_def TimerQueue_cancel_def)
  ultimately show ?thesis using q'(2) heap by (auto simp: fun_eq_iff)
qed

interpretation ts: timer_service "TimerQueue_inv E" "timers_live E" TimerId_valid fresh_timer loop_add loop_cancel
  for E
proof unfold_locales
  show "TimerQueue_inv E q \<Longrightarrow> fresh_timer r q \<Longrightarrow>
      \<exists>i q'. loop_add r c q = Inr (i, q') \<and> TimerQueue_inv E q' \<and> TimerId_valid i \<and>
        timers_live E q i = None \<and> timers_live E q' = (timers_live E q)(i \<mapsto> c)" for q r c
    by (rule loop_add_ok)
  show "TimerQueue_inv E q \<Longrightarrow> \<exists>q'. loop_cancel i q = Inr q' \<and> TimerQueue_inv E q' \<and>
      timers_live E q' = (timers_live E q)(i := None)" for q i
    using loop_cancel_ok by blast
  show "TimerQueue_inv E q \<Longrightarrow> \<not> TimerId_valid i \<Longrightarrow> timers_live E q i = None" for q i
    using TimerQueue_invD(5) [of E q 0] by (auto simp: TimerId_valid_def timers_live_def)
  show "TimerQueue_inv E q \<Longrightarrow> loop_cancel i q = Inr q' \<Longrightarrow> fresh_timer r q \<Longrightarrow> fresh_timer r q'" for q i q' r
    using loop_cancel_ok [of E q i] by (auto simp: fresh_timer_def)
qed

section \<open>The loop, step by step\<close>

text \<open>
  \<open>own_step\<close>: the loop's thread. \<open>poll\<close> blocks until the eventfd, or with \<open>poll_io\<close> some other
  descriptor, is ready; a handler may call \<open>quit()\<close>. \<open>doPendingFuncs\<close> asserts that it is not already
  running: a state in which that assertion would fail has no step.
\<close>

inductive own_step :: "(task \<Rightarrow> bool) \<Rightarrow> event_loop \<Rightarrow> event_loop \<Rightarrow> bool" for quits where
  start: "pc s = NotStarted \<Longrightarrow> own_step quits s (s\<lparr>looping := True, quit := False, pc := AtTest\<rparr>)"
| test_quit: "pc s = AtTest \<Longrightarrow> quit s \<Longrightarrow> own_step quits s (s\<lparr>pc := FinalSwap\<rparr>)"
| test_poll: "pc s = AtTest \<Longrightarrow> \<not> quit s \<Longrightarrow> own_step quits s (s\<lparr>pc := Polling\<rparr>)"
| poll_woken: "pc s = Polling \<Longrightarrow> eventfd s > 0 \<Longrightarrow>
    own_step quits s (s\<lparr>eventHanding := True, pc := Handling True\<rparr>)"
| handled: "pc s = Handling woken \<Longrightarrow>
    own_step quits s ((if woken then EventLoop_handleWeakup s else s)\<lparr>eventHanding := False, pc := BeforeSwap\<rparr>)"
| swap: "pc s = BeforeSwap \<Longrightarrow> \<not> callingPendingFunc s \<Longrightarrow>
    own_step quits s (s\<lparr>callingPendingFunc := True, pc := Running (pendingFunc s), pendingFunc := []\<rparr>)"
| run_one: "pc s = Running (f # fs) \<Longrightarrow> own_step quits s ((run_task quits f s)\<lparr>pc := Running fs\<rparr>)"
| run_done: "pc s = Running [] \<Longrightarrow> own_step quits s (s\<lparr>callingPendingFunc := False, pc := AtTest\<rparr>)"
| final_swap: "pc s = FinalSwap \<Longrightarrow> \<not> callingPendingFunc s \<Longrightarrow>
    own_step quits s (s\<lparr>callingPendingFunc := True, pc := FinalRunning (pendingFunc s), pendingFunc := []\<rparr>)"
| final_one: "pc s = FinalRunning (f # fs) \<Longrightarrow>
    own_step quits s ((run_task quits f s)\<lparr>pc := FinalRunning fs\<rparr>)"
| final_done: "pc s = FinalRunning [] \<Longrightarrow>
    own_step quits s (s\<lparr>callingPendingFunc := False, looping := False, pc := Exited\<rparr>)"

text \<open>
  What the environment does: other descriptors, handlers that call \<open>quit\<close>, handlers and functions that queue
  further ones, other threads. A call of \<open>queueInLoop\<close> in the loop's own thread from outside the loop, before
  it was started, makes no wake-up and is left out.
\<close>

inductive env_step :: "event_loop \<Rightarrow> event_loop \<Rightarrow> bool" where
  poll_io: "pc s = Polling \<Longrightarrow> eventfd s = 0 \<Longrightarrow>
    env_step s (s\<lparr>eventHanding := True, pc := Handling False\<rparr>)"
| handler_quits: "pc s = Handling woken \<Longrightarrow> env_step s (EventLoop_quit True s)"
| own_queues: "pc s = Handling woken \<or> callingPendingFunc s \<Longrightarrow> env_step s (EventLoop_queueInLoop True f s)"
| push: "env_step s ((push_pending f s)\<lparr>waking := waking s + 1\<rparr>)"
| quit_set: "\<not> quit s \<Longrightarrow> env_step s (s\<lparr>quit := True, waking := waking s + 1\<rparr>)"
| wake: "waking s > 0 \<Longrightarrow> env_step s ((EventLoop_weakup s)\<lparr>waking := waking s - 1\<rparr>)"

definition loop_step :: "(task \<Rightarrow> bool) \<Rightarrow> event_loop \<Rightarrow> event_loop \<Rightarrow> bool" where
  "loop_step quits s s' \<longleftrightarrow> own_step quits s s' \<or> env_step s s'"

abbreviation loop_reachable :: "(task \<Rightarrow> bool) \<Rightarrow> event_loop \<Rightarrow> bool" where
  "loop_reachable quits \<equiv> (loop_step quits)\<^sup>*\<^sup>* EventLoop_new"

inductive_cases own_stepE: "own_step quits s s'"
inductive_cases env_stepE: "env_step s s'"

section \<open>Invariant\<close>

fun batch :: "loop_pc \<Rightarrow> task list" where
  "batch (Running fs) = fs"
| "batch (FinalRunning fs) = fs"
| "batch _ = []"

text \<open>
  In these places the loop will test, poll or run before it swaps the queue again, so a queued function
  has to have the eventfd readable or about to become so.
\<close>

fun needs_wake :: "loop_pc \<Rightarrow> bool" where
  "needs_wake NotStarted = True"
| "needs_wake AtTest = True"
| "needs_wake Polling = True"
| "needs_wake (Running fs) = True"
| "needs_wake _ = False"

fun in_pending :: "loop_pc \<Rightarrow> bool" where
  "in_pending (Running fs) = True"
| "in_pending (FinalRunning fs) = True"
| "in_pending _ = False"

fun in_handling :: "loop_pc \<Rightarrow> bool" where
  "in_handling (Handling woken) = True"
| "in_handling _ = False"

definition signalled :: "event_loop \<Rightarrow> bool" where
  "signalled s \<longleftrightarrow> eventfd s > 0 \<or> waking s > 0"

definition EventLoop_inv :: "event_loop \<Rightarrow> bool" where
  "EventLoop_inv s \<longleftrightarrow>
    callingPendingFunc s = in_pending (pc s) \<and>
    queued s = executed s @ batch (pc s) @ pendingFunc s \<and>
    (needs_wake (pc s) \<and> pendingFunc s \<noteq> [] \<longrightarrow> signalled s) \<and>
    (pc s = Polling \<and> quit s \<longrightarrow> signalled s) \<and>
    (looping s \<longleftrightarrow> pc s \<noteq> NotStarted \<and> pc s \<noteq> Exited) \<and>
    eventHanding s = in_handling (pc s) \<and>
    eventfd s \<le> eventfd_max"

lemma EventLoop_new_inv [inv_intros]: "EventLoop_inv EventLoop_new"
  by (simp add: EventLoop_inv_def EventLoop_new_def)

lemma run_task_fields [simp]:
  "pc (run_task quits f s) = pc s" "executed (run_task quits f s) = executed s @ [f]"
  "queued (run_task quits f s) = queued s" "pendingFunc (run_task quits f s) = pendingFunc s"
  "callingPendingFunc (run_task quits f s) = callingPendingFunc s" "waking (run_task quits f s) = waking s"
  "eventfd (run_task quits f s) = eventfd s" "looping (run_task quits f s) = looping s"
  "eventHanding (run_task quits f s) = eventHanding s"
  by (simp_all add: run_task_def EventLoop_quit_def Let_def)

lemma own_step_inv: "own_step quits s s' \<Longrightarrow> EventLoop_inv s \<Longrightarrow> EventLoop_inv s'"
  by (induction rule: own_step.induct)
    (simp_all add: EventLoop_inv_def signalled_def EventLoop_handleWeakup_def)

lemma weakup_fields [simp]:
  "pc (EventLoop_weakup s) = pc s" "executed (EventLoop_weakup s) = executed s"
  "queued (EventLoop_weakup s) = queued s" "pendingFunc (EventLoop_weakup s) = pendingFunc s"
  "callingPendingFunc (EventLoop_weakup s) = callingPendingFunc s" "waking (EventLoop_weakup s) = waking s"
  "quit (EventLoop_weakup s) = quit s" "looping (EventLoop_weakup s) = looping s"
  "eventHanding (EventLoop_weakup s) = eventHanding s"
  by (simp_all add: EventLoop_weakup_def)

lemma weakup_signals [simp]: "eventfd (EventLoop_weakup s) > 0"
  by (simp add: EventLoop_weakup_def eventfd_max_def)

lemma weakup_bound [simp]: "eventfd s \<le> eventfd_max \<Longrightarrow> eventfd (EventLoop_weakup s) \<le> eventfd_max"
  by (simp add: EventLoop_weakup_def)

lemma env_step_inv: "env_step s s' \<Longrightarrow> EventLoop_inv s \<Longrightarrow> EventLoop_inv s'"
  by (induction rule: env_step.induct)
    (auto simp: EventLoop_inv_def signalled_def push_pending_def EventLoop_quit_def EventLoop_queueInLoop_def Let_def)

lemma reachable_inv: "loop_reachable quits s \<Longrightarrow> EventLoop_inv s"
  by (induction rule: rtranclp_induct)
    (auto simp: EventLoop_new_inv loop_step_def dest: own_step_inv env_step_inv)

lemma queueInLoop_fields [simp]:
  "pc (EventLoop_queueInLoop inT f s) = pc s" "executed (EventLoop_queueInLoop inT f s) = executed s"
  "queued (EventLoop_queueInLoop inT f s) = queued s @ [f]" "waking (EventLoop_queueInLoop inT f s) = waking s"
  by (simp_all add: EventLoop_queueInLoop_def push_pending_def Let_def)

text \<open>A whole call of \<open>queueInLoop\<close> is made of steps.\<close>

lemma queueInLoop_reachable:
  assumes "loop_reachable quits s" and "\<not> inT \<or> callingPendingFunc s \<or> pc s = Handling woken"
  shows "loop_reachable quits (EventLoop_queueInLoop inT f s)"
proof (cases inT)
  case True
  with assms(2) have "loop_step quits s (EventLoop_queueInLoop inT f s)"
    unfolding loop_step_def by (auto intro: env_step.own_queues)
  with assms(1) show ?thesis by (rule rtranclp.rtrancl_into_rtrancl)
next
  case False
  let ?t = "(push_pending f s)\<lparr>waking := waking s + 1\<rparr>"
  have "loop_step quits s ?t" unfolding loop_step_def by (intro disjI2 env_step.push)
  moreover have "loop_step quits ?t ((EventLoop_weakup ?t)\<lparr>waking := waking ?t - 1\<rparr>)"
    unfolding loop_step_def by (intro disjI2 env_step.wake) simp
  moreover have "(EventLoop_weakup ?t)\<lparr>waking := waking ?t - 1\<rparr> = EventLoop_queueInLoop inT f s"
    using False by (simp add: EventLoop_queueInLoop_def EventLoop_weakup_def push_pending_def Let_def)
  ultimately show ?thesis using assms(1) by (metis rtranclp.rtrancl_into_rtrancl)
qed

section \<open>Progress of the loop's own thread\<close>

abbreviation own_steps :: "(task \<Rightarrow> bool) \<Rightarrow> event_loop \<Rightarrow> event_loop \<Rightarrow> bool" where
  "own_steps quits \<equiv> (own_step quits)\<^sup>*\<^sup>*"

lemma own_steps_one: "own_step quits s t \<Longrightarrow> own_steps quits s t"
  by (rule r_into_rtranclp)

lemma own_steps_first: "own_step quits s t \<Longrightarrow> own_steps quits t u \<Longrightarrow> own_steps quits s u"
  by (rule converse_rtranclp_into_rtranclp)

lemma loop_steps_first:
  "loop_step quits s t \<Longrightarrow> (loop_step quits)\<^sup>*\<^sup>* t u \<Longrightarrow> (loop_step quits)\<^sup>*\<^sup>* s u"
  by (rule converse_rtranclp_into_rtranclp)

lemma own_step_keeps: "own_step quits s s' \<Longrightarrow> waking s' = waking s \<and> queued s' = queued s"
  by (induction rule: own_step.induct) (simp_all add: EventLoop_handleWeakup_def)

lemma run_task_quit: "quit s \<Longrightarrow> quit (run_task quits f s)"
  by (simp add: run_task_def EventLoop_quit_def Let_def)

lemma run_batch:
  assumes "pc s = Running fs"
  shows "\<exists>s'. own_steps quits s s' \<and> pc s' = AtTest \<and> executed s' = executed s @ fs \<and>
    pendingFunc s' = pendingFunc s \<and> (quit s \<longrightarrow> quit s')"
  using assms
proof (induction fs arbitrary: s)
  case Nil
  from own_step.run_done [OF Nil, of quits] show ?case
    by (intro exI [of _ "s\<lparr>callingPendingFunc := False, pc := AtTest\<rparr>"] conjI)
      (simp_all add: own_steps_one)
next
  case (Cons f fs)
  let ?t = "(run_task quits f s)\<lparr>pc := Running fs\<rparr>"
  obtain s' where "own_steps quits ?t s'" "pc s' = AtTest" "executed s' = executed ?t @ fs"
    "pendingFunc s' = pendingFunc ?t" "quit ?t \<longrightarrow> quit s'"
    using Cons.IH [of ?t] by auto
  moreover have "own_steps quits s s'"
    using own_step.run_one [OF Cons.prems] calculation(1) by (rule own_steps_first)
  ultimately show ?case
    using run_task_quit [of s quits f] by (intro exI [of _ s']) simp
qed

lemma final_batch:
  assumes "pc s = FinalRunning fs"
  shows "\<exists>s'. own_steps quits s s' \<and> pc s' = Exited \<and> executed s' = executed s @ fs \<and>
    pendingFunc s' = pendingFunc s"
  using assms
proof (induction fs arbitrary: s)
  case Nil
  from own_step.final_done [OF Nil, of quits] show ?case
    by (intro exI [of _ "s\<lparr>callingPendingFunc := False, looping := False, pc := Exited\<rparr>"] conjI)
      (simp_all add: own_steps_one)
next
  case (Cons f fs)
  let ?t = "(run_task quits f s)\<lparr>pc := FinalRunning fs\<rparr>"
  obtain s' where "own_steps quits ?t s'" "pc s' = Exited" "executed s' = executed ?t @ fs"
    "pendingFunc s' = pendingFunc ?t"
    using Cons.IH [of ?t] by auto
  moreover have "own_steps quits s s'"
    using own_step.final_one [OF Cons.prems] calculation(1) by (rule own_steps_first)
  ultimately show ?case by (intro exI [of _ s']) simp
qed

lemma own_steps_keep:
  "own_steps quits s s' \<Longrightarrow> EventLoop_inv s \<Longrightarrow> EventLoop_inv s' \<and> waking s' = waking s \<and> queued s' = queued s"
  by (induction rule: rtranclp_induct) (auto dest: own_step_inv own_step_keeps)

text \<open>\<open>drains s\<close>: the loop's thread alone gets from \<open>s\<close> to a state in which all that was queued has run.\<close>

definition drains :: "(task \<Rightarrow> bool) \<Rightarrow> event_loop \<Rightarrow> bool" where
  "drains quits s \<longleftrightarrow> (\<exists>s'. own_steps quits s s' \<and> executed s' = queued s \<and> pendingFunc s' = [])"

lemma drains_steps:
  assumes "own_steps quits s t" and "EventLoop_inv s" and "drains quits t"
  shows "drains quits s"
  using assms own_steps_keep [OF assms(1,2)] unfolding drains_def by (metis rtranclp_trans)

lemma drains_before_swap:
  assumes inv: "EventLoop_inv s" and "pc s = BeforeSwap"
  shows "drains quits s"
proof -
  let ?t = "s\<lparr>callingPendingFunc := True, pc := Running (pendingFunc s), pendingFunc := []\<rparr>"
  have step: "own_step quits s ?t"
    using assms by (intro own_step.swap) (simp_all add: EventLoop_inv_def)
  obtain s' where "own_steps quits ?t s'" "executed s' = executed ?t @ pendingFunc s" "pendingFunc s' = []"
    using run_batch [of ?t "pendingFunc s" quits] by auto
  with step assms have "own_steps quits s s' \<and> executed s' = queued s \<and> pendingFunc s' = []"
    by (auto simp: EventLoop_inv_def intro: own_steps_first)
  then show ?thesis unfolding drains_def by blast
qed

lemma drains_final_swap:
  assumes inv: "EventLoop_inv s" and "pc s = FinalSwap"
  shows "drains quits s"
proof -
  let ?t = "s\<lparr>callingPendingFunc := True, pc := FinalRunning (pendingFunc s), pendingFunc := []\<rparr>"
  have step: "own_step quits s ?t"
    using assms by (intro own_step.final_swap) (simp_all add: EventLoop_inv_def)
  obtain s' where "own_steps quits ?t s'" "executed s' = executed ?t @ pendingFunc s" "pendingFunc s' = []"
    using final_batch [of ?t "pendingFunc s" quits] by auto
  with step assms have "own_steps quits s s' \<and> executed s' = queued s \<and> pendingFunc s' = []"
    by (auto simp: EventLoop_inv_def intro: own_steps_first)
  then show ?thesis unfolding drains_def by blast
qed

lemma drains_via:
  assumes "own_step quits s t" and "EventLoop_inv s" and "EventLoop_inv t \<Longrightarrow> drains quits t"
  shows "drains quits s"
  using drains_steps [OF own_steps_one [OF assms(1)] assms(2)] assms own_step_inv by blast

lemma drains_handling:
  assumes "EventLoop_inv s" and "pc s = Handling woken"
  shows "drains quits s"
  using own_step.handled [OF assms(2)] assms(1) by (rule drains_via) (simp add: drains_before_swap)

lemma drains_polling:
  assumes inv: "EventLoop_inv s" and pc: "pc s = Polling" and idle: "waking s = 0"
  shows "drains quits s"
proof (cases "pendingFunc s = []")
  case True
  with inv pc show ?thesis unfolding drains_def by (intro exI [of _ s]) (simp add: EventLoop_inv_def)
next
  case False
  with inv pc idle have "eventfd s > 0" by (simp add: EventLoop_inv_def signalled_def)
  from own_step.poll_woken [OF pc this] inv show ?thesis by (rule drains_via) (simp add: drains_handling)
qed

lemma drains_at_test:
  assumes inv: "EventLoop_inv s" and pc: "pc s = AtTest" and idle: "waking s = 0"
  shows "drains quits s"
proof (cases "quit s")
  case True
  from own_step.test_quit [OF pc this] inv show ?thesis by (rule drains_via) (simp add: drains_final_swap)
next
  case False
  from own_step.test_poll [OF pc this] inv show ?thesis
    by (rule drains_via) (simp add: drains_polling idle)
qed

lemma drains_all:
  assumes inv: "EventLoop_inv s" and idle: "waking s = 0"
    and "pc s \<noteq> Exited" and "\<forall>fs. pc s \<noteq> FinalRunning fs"
  shows "drains quits s"
proof (cases "pc s")
  case NotStarted
  from own_step.start [OF this] inv show ?thesis by (rule drains_via) (simp add: drains_at_test idle)
next
  case (Running fs)
  from run_batch [OF this] obtain t where t: "own_steps quits s t" "pc t = AtTest" by blast
  with own_steps_keep [OF t(1) inv] idle have "drains quits t" by (simp add: drains_at_test)
  with drains_steps [OF t(1) inv] show ?thesis .
qed (use assms in \<open>simp_all add: drains_at_test drains_polling drains_handling drains_before_swap drains_final_swap\<close>)

text \<open>Leaving the loop.\<close>

definition exits :: "(task \<Rightarrow> bool) \<Rightarrow> event_loop \<Rightarrow> bool" where
  "exits quits s \<longleftrightarrow> (\<exists>s'. own_steps quits s s' \<and> pc s' = Exited)"

lemma exits_steps: "own_steps quits s t \<Longrightarrow> exits quits t \<Longrightarrow> exits quits s"
  unfolding exits_def by (meson rtranclp_trans)

lemma exits_via: "own_step quits s t \<Longrightarrow> exits quits t \<Longrightarrow> exits quits s"
  by (rule exits_steps) auto

lemma exits_final:
  assumes "EventLoop_inv s" and "pc s = FinalSwap"
  shows "exits quits s"
proof -
  let ?t = "s\<lparr>callingPendingFunc := True, pc := FinalRunning (pendingFunc s), pendingFunc := []\<rparr>"
  have "own_step quits s ?t"
    using assms by (intro own_step.final_swap) (simp_all add: EventLoop_inv_def)
  moreover have "exits quits ?t"
    using final_batch [of ?t "pendingFunc s" quits] unfolding exits_def by auto
  ultimately show ?thesis by (rule exits_via)
qed

lemma exits_at_test: "EventLoop_inv s \<Longrightarrow> pc s = AtTest \<Longrightarrow> quit s \<Longrightarrow> exits quits s"
  by (rule exits_via [OF own_step.test_quit], assumption, assumption, rule exits_final)
    (auto dest: own_step_inv [OF own_step.test_quit])

lemma exits_running:
  assumes "EventLoop_inv s" and "pc s = Running fs" and "quit s"
  shows "exits quits s"
proof -
  from run_batch [OF assms(2), of quits] obtain t where t: "own_steps quits s t" "pc t = AtTest" "quit t"
    using assms(3) by blast
  with own_steps_keep [OF t(1) assms(1)] show ?thesis by (intro exits_steps [OF t(1)] exits_at_test) simp_all
qed

lemma exits_before_swap:
  assumes "EventLoop_inv s" and "pc s = BeforeSwap" and "quit s"
  shows "exits quits s"
proof -
  let ?t = "s\<lparr>callingPendingFunc := True, pc := Running (pendingFunc s), pendingFunc := []\<rparr>"
  have step: "own_step quits s ?t"
    using assms by (intro own_step.swap) (simp_all add: EventLoop_inv_def)
  from own_step_inv [OF this assms(1)] assms(3) have "exits quits ?t"
    by (intro exits_running) simp_all
  with step show ?thesis by (rule exits_via)
qed

lemma exits_handling:
  assumes "EventLoop_inv s" and "pc s = Handling woken" and "quit s"
  shows "exits quits s"
proof -
  note step = own_step.handled [OF assms(2), of quits]
  from own_step_inv [OF step assms(1)] assms(3) show ?thesis
    by (intro exits_via [OF step] exits_before_swap) (simp_all add: EventLoop_handleWeakup_def)
qed

lemma exits_all:
  assumes inv: "EventLoop_inv s" and "quit s" and "waking s = 0" and "pc s \<noteq> NotStarted"
  shows "exits quits s"
proof (cases "pc s")
  case Polling
  with assms have "eventfd s > 0" by (simp add: EventLoop_inv_def signalled_def)
  note step = own_step.poll_woken [OF Polling this, of quits]
  from own_step_inv [OF step inv] assms(2) show ?thesis
    by (intro exits_via [OF step] exits_handling) simp_all
next
  case (FinalRunning fs)
  from final_batch [OF this] show ?thesis unfolding exits_def by blast
next
  case Exited
  then show ?thesis unfolding exits_def by blast
qed (use assms in \<open>auto intro: exits_at_test exits_handling exits_before_swap exits_running exits_final\<close>)

section \<open>Properties\<close>

text \<open>
  C7. No lost wake-up: a function that is queued, by another thread, by a handler or by a running function, is run
  after all those queued before it by the loop's own thread, without any further event from outside: in
  every state that the loop and any number of other threads can reach, once no other thread is between its
  push and its write to the eventfd. Only functions queued after the swap that follows the loop are excepted.
\<close>

theorem loop_runs_queued_functions:
  assumes "loop_reachable quits s" and "waking s = 0" and "pc s \<noteq> Exited" and "\<forall>fs. pc s \<noteq> FinalRunning fs"
    and "\<not> inT \<or> callingPendingFunc s \<or> pc s = Handling woken"
  shows "\<exists>s'. (own_step quits)\<^sup>*\<^sup>* (EventLoop_queueInLoop inT f s) s' \<and> executed s' = queued s @ [f] \<and>
    pendingFunc s' = []"
  using drains_all [OF reachable_inv [OF queueInLoop_reachable [OF assms(1,5)]], of f] assms(2-4)
  by (simp add: drains_def)

definition demo_queued :: event_loop where
  "demo_queued = (EventLoop_weakup ((push_pending 5 EventLoop_new)\<lparr>waking := 1\<rparr>))\<lparr>waking := 0\<rparr>"

lemma demo_queued_reachable: "loop_reachable quits demo_queued"
proof -
  let ?s = "(push_pending 5 EventLoop_new)\<lparr>waking := 1\<rparr>"
  have st: "loop_step quits EventLoop_new ?s" "loop_step quits ?s demo_queued"
    using env_step.push [of EventLoop_new 5] env_step.wake [of ?s]
    by (simp_all add: loop_step_def demo_queued_def EventLoop_new_def)
  show ?thesis
    by (rule loop_steps_first [OF st(1)], rule loop_steps_first [OF st(2)], rule rtranclp.rtrancl_refl)
qed

theorem loop_runs_queued_functions_witness:
  "\<exists>s'. (own_step (\<lambda>_. False))\<^sup>*\<^sup>* (EventLoop_queueInLoop False 6 demo_queued) s' \<and> executed s' = [5, 6] \<and>
    pendingFunc s' = []"
  using loop_runs_queued_functions [OF demo_queued_reachable, where quits = "\<lambda>_. False" and inT = False and f = 6]
  by (simp add: demo_queued_def push_pending_def EventLoop_new_def)

text \<open>
  Functions queued from other threads run at most once and in the order in which they were queued,
  and the assertion in \<open>doPendingFuncs\<close> never fails.
\<close>

theorem loop_queue_fifo:
  assumes "loop_reachable quits s"
  shows "queued s = executed s @ batch (pc s) @ pendingFunc s \<and>
    (pc s = BeforeSwap \<or> pc s = FinalSwap \<longrightarrow> \<not> callingPendingFunc s)"
  using reachable_inv [OF assms] by (auto simp: EventLoop_inv_def)

theorem loop_queue_fifo_witness:
  "queued demo_queued = executed demo_queued @ batch (pc demo_queued) @ pendingFunc demo_queued"
  using loop_queue_fifo [OF demo_queued_reachable] by blast

text \<open>
  C29. \<open>quit\<close> is effective: once the loop has started and the thread that asked has returned from
  \<open>quit\<close>, the loop's thread leaves the loop without any further event from outside.
\<close>

theorem loop_quit_exits:
  assumes "loop_reachable quits s" and "quit s" and "waking s = 0" and "pc s \<noteq> NotStarted"
  shows "\<exists>s'. (own_step quits)\<^sup>*\<^sup>* s s' \<and> pc s' = Exited"
  using exits_all [OF reachable_inv [OF assms(1)] assms(2-4)] unfolding exits_def .

lemma demo_exit_reachable:
  "\<exists>s. loop_reachable quits s \<and> pc s = AtTest \<and> quit s \<and> waking s = 0"
proof -
  let ?s1 = "EventLoop_new\<lparr>looping := True, quit := False, pc := AtTest\<rparr>"
  let ?s2 = "?s1\<lparr>quit := True, waking := 1\<rparr>" and ?s3 = "(EventLoop_weakup (?s1\<lparr>quit := True, waking := 1\<rparr>))\<lparr>waking := 0\<rparr>"
  have st1: "loop_step quits EventLoop_new ?s1"
    unfolding loop_step_def by (intro disjI1 own_step.start) (simp add: EventLoop_new_def)
  have st2: "loop_step quits ?s1 ?s2"
    using env_step.quit_set [of ?s1] by (simp add: loop_step_def EventLoop_new_def)
  have st3: "loop_step quits ?s2 ?s3"
    using env_step.wake [of ?s2] by (simp add: loop_step_def)
  have "loop_reachable quits ?s3"
    by (rule loop_steps_first [OF st1], rule loop_steps_first [OF st2], rule loop_steps_first [OF st3],
        rule rtranclp.rtrancl_refl)
  then show ?thesis by (intro exI [of _ ?s3]) simp
qed

theorem loop_quit_exits_witness:
  "\<exists>s s'. (own_step (\<lambda>_. False))\<^sup>*\<^sup>* s s' \<and> pc s = AtTest \<and> pc s' = Exited"
proof -
  obtain s where s: "loop_reachable (\<lambda>_. False) s" "pc s = AtTest" "quit s" "waking s = 0"
    using demo_exit_reachable by blast
  from loop_quit_exits [OF s(1,3,4)] s(2) show ?thesis by auto
qed

text \<open>
  A \<open>quit\<close> that another thread calls before the loop's thread has entered \<open>loop()\<close> is lost: \<open>loop()\<close>
  clears the flag, and after one turn for the wake-up the loop blocks in \<open>poll\<close> with nothing pending
  and no step of its own.
\<close>

lemma quit_before_loop_is_lost:
  "\<exists>s. own_steps quits (EventLoop_quit False EventLoop_new) s \<and> pc s = Polling \<and> \<not> quit s \<and>
    waking s = 0 \<and> (\<forall>s'. \<not> own_step quits s s')"
proof -
  let ?s0 = "EventLoop_quit False EventLoop_new"
  let ?s1 = "?s0\<lparr>looping := True, quit := False, pc := AtTest\<rparr>"
  let ?s2 = "?s1\<lparr>pc := Polling\<rparr>"
  let ?s3 = "?s2\<lparr>eventHanding := True, pc := Handling True\<rparr>"
  let ?s4 = "(EventLoop_handleWeakup ?s3)\<lparr>eventHanding := False, pc := BeforeSwap\<rparr>"
  let ?s5 = "?s4\<lparr>callingPendingFunc := True, pc := Running [], pendingFunc := []\<rparr>"
  let ?s6 = "?s5\<lparr>callingPendingFunc := False, pc := AtTest\<rparr>"
  let ?s7 = "?s6\<lparr>pc := Polling\<rparr>"
  have init: "pc ?s0 = NotStarted" "eventfd ?s0 = 1" "waking ?s0 = 0" "pendingFunc ?s0 = []"
    "\<not> callingPendingFunc ?s0"
    by (simp_all add: EventLoop_quit_def EventLoop_new_def EventLoop_weakup_def eventfd_max_def)
  have st1: "own_step quits ?s0 ?s1" using init by (intro own_step.start)
  have st2: "own_step quits ?s1 ?s2" by (intro own_step.test_poll) simp_all
  have st3: "own_step quits ?s2 ?s3" using init by (intro own_step.poll_woken) simp_all
  have st4: "own_step quits ?s3 ?s4" using own_step.handled [of ?s3 True quits] by simp
  have st5: "own_step quits ?s4 ?s5"
    using own_step.swap [of ?s4 quits] init by (simp add: EventLoop_handleWeakup_def)
  have st6: "own_step quits ?s5 ?s6" by (intro own_step.run_done) simp
  have st7: "own_step quits ?s6 ?s7" by (intro own_step.test_poll) (simp_all add: EventLoop_handleWeakup_def)
  note chain = own_steps_first
  have "own_steps quits ?s0 ?s7"
    by (rule chain [OF st1], rule chain [OF st2], rule chain [OF st3], rule chain [OF st4],
        rule chain [OF st5], rule chain [OF st6], rule own_steps_one [OF st7])
  moreover have "\<not> own_step quits ?s7 s'" for s'
    by (auto simp: EventLoop_handleWeakup_def elim!: own_stepE)
  ultimately show ?thesis using init by (intro exI [of _ ?s7]) (simp add: EventLoop_handleWeakup_def)
qed

end
