(* ===== verification/TcpConnection.thy ===== *)
theory TcpConnection
  imports Buffer EventLoop
begin

text \<open>
  One TCP connection in its loop (\<open>net/TcpConnection.h\<close>, \<open>net/TcpConnection.cc\<close>): the connection, the
  loop's poller and timer queue, and the calls it makes. The channel and the socket are members of the
  connection. The results of \<open>write\<close>, \<open>readv\<close>, \<open>sendfile\<close>, \<open>open\<close> and \<open>fstat\<close>, the clock readings and
  the address of a new timer (in a \<open>timer_request\<close>) and the random number are arguments. The four user
  callbacks are arguments too: functions on the whole state, since they may call back into the
  connection. \<open>trace\<close> and \<open>accepted\<close> record, for the statements only, the calls made and the bytes that
  \<open>sendInLoop\<close> took over.
\<close>

section \<open>State\<close>

datatype conn_state = kConnecting | kConnected | kDisConnecting | kDisConnected

record retransmit_entry =
  re_seq :: nat
  re_data :: string
  re_retries :: nat
  re_timerId :: timer_id

record tcp_connection =
  tc_id :: nat
  tc_channel :: addr
  tc_fd :: int
  tc_state :: conn_state
  writeBuffer :: buffer
  readBuffer :: buffer
  fileFd :: int
  fileSentOffset :: nat
  fileTotalSize :: nat
  sendingFile :: bool
  idleTimerId :: timer_id
  pendingRetrans :: "(nat, retransmit_entry) omap"

datatype conn_event =
  SysWrite string | SendFile nat nat | ShutdownWrite | CloseFile int
| CallConnection | CallMessage | CallWriteComplete | CallClose

datatype conn_task =
  SendTask string | SendFileTask string | RetransmitTask string nat | AckTask nat
| ShutdownTask | ForceCloseTask

record world =
  conn :: tcp_connection
  poll_of :: poller
  tq :: timer_queue
  in_thread :: bool
  posted :: "conn_task list"
  timer_tasks :: "tq_task list"
  trace :: "conn_event list"
  accepted :: string

record conn_callbacks =
  connectionCallback :: "(world \<Rightarrow> world res) option"
  messageCallback :: "(timestamp \<Rightarrow> world \<Rightarrow> world res) option"
  writeCompleteCallback :: "(world \<Rightarrow> world res) option"
  closeCallback :: "(world \<Rightarrow> world res) option"

definition on_conn :: "(tcp_connection \<Rightarrow> tcp_connection) \<Rightarrow> world \<Rightarrow> world" where
  "on_conn f w = w\<lparr>conn := f (conn w)\<rparr>"

definition emit :: "conn_event \<Rightarrow> world \<Rightarrow> world" where
  "emit ev w = w\<lparr>trace := trace w @ [ev]\<rparr>"

definition invoke :: "(world \<Rightarrow> world res) option \<Rightarrow> conn_event \<Rightarrow> world \<Rightarrow> world res" where
  "invoke cb ev w = (case cb of None \<Rightarrow> Inr w | Some f \<Rightarrow> f (emit ev w))"

definition assert_thread :: "world \<Rightarrow> world res" where
  "assert_thread w = EventLoop_assertInLoopThread (in_thread w) w"

definition setState :: "conn_state \<Rightarrow> world \<Rightarrow> world" where
  "setState st = on_conn (\<lambda>c. c\<lparr>tc_state := st\<rparr>)"

abbreviation state_of :: "world \<Rightarrow> conn_state" where
  "state_of w \<equiv> tc_state (conn w)"

definition channel_isWriting :: "world \<Rightarrow> bool" where
  "channel_isWriting w =
    (case channels (poll_of w) (tc_channel (conn w)) of Some c \<Rightarrow> Channel_isWriting c | None \<Rightarrow> False)"

definition channel_isReading :: "world \<Rightarrow> bool" where
  "channel_isReading w =
    (case channels (poll_of w) (tc_channel (conn w)) of Some c \<Rightarrow> Channel_isReading c | None \<Rightarrow> False)"

definition on_channel :: "(bool \<Rightarrow> addr \<Rightarrow> poller \<Rightarrow> poller res) \<Rightarrow> world \<Rightarrow> world res" where
  "on_channel f w =
    rbind (f (in_thread w) (tc_channel (conn w)) (poll_of w)) (\<lambda>p. Inr (w\<lparr>poll_of := p\<rparr>))"

definition conn_cancel :: "timer_id \<Rightarrow> world \<Rightarrow> world res" where
  "conn_cancel i w =
    rbind (EventLoop_cancel (in_thread w) i (tq w)) (\<lambda>(ts, q).
      Inr (w\<lparr>tq := q, timer_tasks := timer_tasks w @ ts\<rparr>))"

definition conn_runAfter :: "timer_request \<Rightarrow> closure \<Rightarrow> world \<Rightarrow> (timer_id \<times> world) res" where
  "conn_runAfter r f w =
    rbind (EventLoop_runAfter (in_thread w) (rq_now r) (rq_now' r) (rq_addr r) (rq_delay r) f (tq w))
      (\<lambda>(i, ts, q). Inr (i, w\<lparr>tq := q, timer_tasks := timer_tasks w @ ts\<rparr>))"

text \<open>The closures that the connection registers: the idle timer, and one per sequence number.\<close>

definition idle_closure :: "tcp_connection \<Rightarrow> closure" where
  "idle_closure c = Closure (tc_id c) 0"

definition retransmit_closure :: "tcp_connection \<Rightarrow> nat \<Rightarrow> closure" where
  "retransmit_closure c seq = Closure (tc_id c) (Suc seq)"

section \<open>Timers\<close>

definition kTimeoutSeconds :: rat where
  "kTimeoutSeconds = 60"

definition TcpConnection_cancelIdle :: "world \<Rightarrow> world res" where
  "TcpConnection_cancelIdle w =
    (if TimerId_valid (idleTimerId (conn w)) then
       rbind (conn_cancel (idleTimerId (conn w)) w) (\<lambda>w.
         Inr (on_conn (\<lambda>c. c\<lparr>idleTimerId := TimerId_null\<rparr>) w))
     else Inr w)"

definition TcpConnection_resetIdleTimer :: "timer_request \<Rightarrow> world \<Rightarrow> world res" where
  "TcpConnection_resetIdleTimer r w =
    rbind (TcpConnection_cancelIdle w) (\<lambda>w.
    rbind (conn_runAfter (r\<lparr>rq_delay := kTimeoutSeconds\<rparr>) (idle_closure (conn w)) w) (\<lambda>(i, w).
    Inr (on_conn (\<lambda>c. c\<lparr>idleTimerId := i\<rparr>) w)))"

definition TcpConnection_cancelPending :: "world \<Rightarrow> world res" where
  "TcpConnection_cancelPending w =
    rbind (rfold (\<lambda>kv w. if TimerId_valid (re_timerId (snd kv)) then conn_cancel (re_timerId (snd kv)) w
                         else Inr w) (pendingRetrans (conn w)) w)
      (\<lambda>w. Inr (on_conn (\<lambda>c. c\<lparr>pendingRetrans := []\<rparr>) w))"

section \<open>Closing\<close>

definition TcpConnection_handleClose :: "conn_callbacks \<Rightarrow> world \<Rightarrow> world res" where
  "TcpConnection_handleClose cbs w =
    rbind (assert_thread w) (\<lambda>w.
    if state_of w = kDisConnected then Inr w
    else if \<not> (state_of w = kConnected \<or> state_of w = kDisConnecting) then Inl AssertFailed
    else
      rbind (on_channel Channel_remove (setState kDisConnected w)) (\<lambda>w.
        let w = (if fileFd (conn w) \<ge> 0
                 then on_conn (\<lambda>c. c\<lparr>fileFd := -1\<rparr>) (emit (CloseFile (fileFd (conn w))) w) else w);
            w = on_conn (\<lambda>c. c\<lparr>fileSentOffset := 0, fileTotalSize := 0, sendingFile := False\<rparr>) w
        in rbind (TcpConnection_cancelIdle w) (\<lambda>w.
           rbind (TcpConnection_cancelPending w) (\<lambda>w.
           invoke (closeCallback cbs) CallClose w))))"

definition TcpConnection_handleError :: "conn_callbacks \<Rightarrow> world \<Rightarrow> world res" where
  "TcpConnection_handleError cbs w = TcpConnection_handleClose cbs w"

definition TcpConnection_shutdownInLoop :: "conn_callbacks \<Rightarrow> world \<Rightarrow> world res" where
  "TcpConnection_shutdownInLoop cbs w =
    rbind (assert_thread w) (\<lambda>w.
    if \<not> channel_isWriting w then TcpConnection_handleClose cbs (emit ShutdownWrite w)
    else Inr (emit ShutdownWrite w))"

definition TcpConnection_forceCloseInLoop :: "conn_callbacks \<Rightarrow> world \<Rightarrow> world res" where
  "TcpConnection_forceCloseInLoop cbs w =
    rbind (assert_thread w) (\<lambda>w.
    if state_of w = kConnected \<or> state_of w = kDisConnecting then TcpConnection_handleClose cbs w
    else Inr w)"

definition TcpConnection_onIdleTimeout :: "conn_callbacks \<Rightarrow> world \<Rightarrow> world res" where
  "TcpConnection_onIdleTimeout cbs w =
    rbind (assert_thread w) (TcpConnection_forceCloseInLoop cbs)"

text \<open>\<open>runInLoop\<close> of the connection's own functions: now, or posted to the loop.\<close>

definition run_or_post :: "conn_task \<Rightarrow> (world \<Rightarrow> world res) \<Rightarrow> world \<Rightarrow> world res" where
  "run_or_post t f w = (if in_thread w then f w else Inr (w\<lparr>posted := posted w @ [t]\<rparr>))"

definition TcpConnection_shutdown :: "conn_callbacks \<Rightarrow> world \<Rightarrow> world res" where
  "TcpConnection_shutdown cbs w =
    (if state_of w = kConnected then
       run_or_post ShutdownTask (TcpConnection_shutdownInLoop cbs) (setState kDisConnecting w)
     else Inr w)"

definition TcpConnection_forceClose :: "conn_callbacks \<Rightarrow> world \<Rightarrow> world res" where
  "TcpConnection_forceClose cbs w =
    (if state_of w = kConnected \<or> state_of w = kDisConnecting then
       run_or_post ForceCloseTask (TcpConnection_forceCloseInLoop cbs) (setState kDisConnecting w)
     else Inr w)"

section \<open>Opening and destruction\<close>

definition TcpConnection_connectEstablelished ::
  "conn_callbacks \<Rightarrow> timer_request \<Rightarrow> world \<Rightarrow> world res" where
  "TcpConnection_connectEstablelished cbs r w =
    rbind (assert_thread w) (\<lambda>w.
    if \<not> state_of w = kConnecting then Inl AssertFailed
    else
      rbind (on_channel Channel_enableReading w) (\<lambda>w.
      rbind (TcpConnection_resetIdleTimer r (setState kConnected w)) (\<lambda>w.
      invoke (connectionCallback cbs) CallConnection w)))"

definition TcpConnection_connectDestroyed :: "world \<Rightarrow> world res" where
  "TcpConnection_connectDestroyed w =
    rbind (assert_thread w) (\<lambda>w.
      let w = (if state_of w = kConnected then setState kDisConnected w else w)
      in rbind (TcpConnection_cancelIdle w) (\<lambda>w.
         rbind (TcpConnection_cancelPending w) (\<lambda>w.
         on_channel Channel_remove w)))"

text \<open>The destructor, up to the end of the members' life: the channel is destroyed with it.\<close>

definition TcpConnection_destroy :: "world \<Rightarrow> world res" where
  "TcpConnection_destroy w =
    (if \<not> state_of w = kDisConnected then Inl AssertFailed
     else
       rbind (TcpConnection_cancelIdle w) (\<lambda>w.
       rbind (TcpConnection_cancelPending w) (\<lambda>w.
       on_channel Channel_destroy w)))"

section \<open>Sending\<close>

definition TcpConnection_sendInLoop ::
  "conn_callbacks \<Rightarrow> errno + nat \<Rightarrow> string \<Rightarrow> world \<Rightarrow> world res" where
  "TcpConnection_sendInLoop cbs sys data w =
    rbind (assert_thread w) (\<lambda>w.
    if state_of w = kDisConnected then Inr w
    else
      (let w = w\<lparr>accepted := accepted w @ data\<rparr>;
           direct = (\<not> channel_isWriting w \<and> Buffer_readableBytes (writeBuffer (conn w)) = 0);
           n = (if direct then (case sys of Inr n \<Rightarrow> n | Inl _ \<Rightarrow> 0) else 0);
           w = (if direct \<and> sys = Inr n then emit (SysWrite (take n data)) w else w)
       in if direct \<and> sys = Inr n \<and> n = length data
          then invoke (writeCompleteCallback cbs) CallWriteComplete w
          else
            rbind
              (if n < length data then
                 rbind (Buffer_append (drop n data) (writeBuffer (conn w))) (\<lambda>b.
                   let w = on_conn (\<lambda>c. c\<lparr>writeBuffer := b\<rparr>) w
                   in if \<not> channel_isWriting w then on_channel Channel_enableWriting w else Inr w)
               else Inr w)
              (\<lambda>w. if state_of w = kDisConnecting \<and> Buffer_readableBytes (writeBuffer (conn w)) = 0
                   then TcpConnection_shutdownInLoop cbs w else Inr w)))"

definition TcpConnection_send ::
  "conn_callbacks \<Rightarrow> errno + nat \<Rightarrow> string \<Rightarrow> world \<Rightarrow> world res" where
  "TcpConnection_send cbs sys data w =
    (if state_of w \<noteq> kConnected then Inr w
     else run_or_post (SendTask data) (TcpConnection_sendInLoop cbs sys data) w)"

text \<open>\<open>send\<close> of a buffer leaves the buffer as it is.\<close>

definition TcpConnection_sendBuffer ::
  "conn_callbacks \<Rightarrow> errno + nat \<Rightarrow> buffer \<Rightarrow> world \<Rightarrow> world res" where
  "TcpConnection_sendBuffer cbs sys b w =
    TcpConnection_send cbs sys (Buffer_bytes (Buffer_readableBytes b) b) w"

definition TcpConnection_sendFileInLoop ::
  "conn_callbacks \<Rightarrow> int option \<Rightarrow> nat option \<Rightarrow> world \<Rightarrow> world res" where
  "TcpConnection_sendFileInLoop cbs opened fstat w =
    rbind (assert_thread w) (\<lambda>w.
    if state_of w = kDisConnected then Inr w
    else
      (case opened of
         None \<Rightarrow> TcpConnection_forceCloseInLoop cbs w
       | Some fd \<Rightarrow>
          (case fstat of
             None \<Rightarrow> TcpConnection_forceCloseInLoop cbs (emit (CloseFile fd) w)
           | Some st_size \<Rightarrow>
               on_channel Channel_enableWriting
                 (on_conn (\<lambda>c. c\<lparr>fileFd := fd, fileSentOffset := 0, fileTotalSize := st_size,
                                 sendingFile := True\<rparr>) w))))"

definition TcpConnection_sendFile ::
  "conn_callbacks \<Rightarrow> int option \<Rightarrow> nat option \<Rightarrow> string \<Rightarrow> world \<Rightarrow> world res" where
  "TcpConnection_sendFile cbs opened fstat path w =
    (if state_of w \<noteq> kConnected then Inr w
     else run_or_post (SendFileTask path) (TcpConnection_sendFileInLoop cbs opened fstat) w)"

section \<open>Events of the channel\<close>

definition TcpConnection_handleRead ::
  "conn_callbacks \<Rightarrow> errno + char list \<Rightarrow> timestamp \<Rightarrow> timer_request \<Rightarrow> world \<Rightarrow> world res" where
  "TcpConnection_handleRead cbs sys t r w =
    rbind (assert_thread w) (\<lambda>w.
    rbind (Buffer_readFd sys (readBuffer (conn w))) (\<lambda>(n, b).
      let w = on_conn (\<lambda>c. c\<lparr>readBuffer := b\<rparr>) w in
      case n of
        Inr k \<Rightarrow>
          if k > 0 then
            rbind (TcpConnection_resetIdleTimer r w) (\<lambda>w.
              invoke (map_option (\<lambda>f. f t) (messageCallback cbs)) CallMessage w)
          else TcpConnection_handleClose cbs w
      | Inl savedErrno \<Rightarrow>
          if savedErrno \<noteq> EAGAIN then TcpConnection_handleError cbs w else Inr w))"

text \<open>
  The three phases of \<open>handleWrite\<close>. \<open>drain\<close> writes the buffer; it tells whether \<open>handleWrite\<close> returns
  after it. A \<open>write\<close> that returns 0 leaves \<open>savedErrno\<close> at 0 and so counts as an error.
\<close>

definition handleWrite_drain :: "conn_callbacks \<Rightarrow> errno + nat \<Rightarrow> world \<Rightarrow> (bool \<times> world) res" where
  "handleWrite_drain cbs sys w =
    (if Buffer_readableBytes (writeBuffer (conn w)) > 0 then
       rbind (Buffer_WriteFd sys (writeBuffer (conn w))) (\<lambda>(n, b).
         let bytes = take (case n of Inr k \<Rightarrow> k | Inl _ \<Rightarrow> 0) (Buffer_content (writeBuffer (conn w)));
             w = on_conn (\<lambda>c. c\<lparr>writeBuffer := b\<rparr>) w
         in rbind
              (case n of
                 Inr k \<Rightarrow>
                   if k > 0 then
                     rbind (if Buffer_readableBytes b = 0 \<and> \<not> sendingFile (conn w)
                            then on_channel Channel_disableWriting (emit (SysWrite bytes) w)
                            else Inr (emit (SysWrite bytes) w))
                       (invoke (writeCompleteCallback cbs) CallWriteComplete)
                   else TcpConnection_handleError cbs w
               | Inl savedErrno \<Rightarrow>
                   if savedErrno \<noteq> EAGAIN then TcpConnection_handleError cbs w else Inr w)
              (\<lambda>w. Inr (Buffer_readableBytes (writeBuffer (conn w)) > 0, w)))
     else Inr (False, w))"

definition handleWrite_file :: "conn_callbacks \<Rightarrow> errno + nat \<Rightarrow> world \<Rightarrow> world res" where
  "handleWrite_file cbs sys w =
    (case sys of
       Inr sent \<Rightarrow>
         if sent > 0 then
           (let w = emit (SendFile (fileSentOffset (conn w)) sent) w;
                w = on_conn (\<lambda>c. c\<lparr>fileSentOffset := fileSentOffset c + sent\<rparr>) w
            in if fileSentOffset (conn w) \<ge> fileTotalSize (conn w) then
                 rbind (on_channel Channel_disableWriting
                   (on_conn (\<lambda>c. c\<lparr>fileFd := -1, sendingFile := False\<rparr>)
                     (emit (CloseFile (fileFd (conn w))) w)))
                   (invoke (writeCompleteCallback cbs) CallWriteComplete)
               else Inr w)
         else Inr w
     | Inl err \<Rightarrow>
         if err \<noteq> EAGAIN then
           rbind (on_channel Channel_disableWriting
             (on_conn (\<lambda>c. c\<lparr>fileFd := -1, sendingFile := False\<rparr>)
               (emit (CloseFile (fileFd (conn w))) w)))
             (TcpConnection_handleError cbs)
         else Inr w)"

definition handleWrite_rest :: "conn_callbacks \<Rightarrow> errno + nat \<Rightarrow> world \<Rightarrow> world res" where
  "handleWrite_rest cbs sys w =
    (if Buffer_readableBytes (writeBuffer (conn w)) > 0 then
       rbind (Buffer_WriteFd sys (writeBuffer (conn w))) (\<lambda>(n, b).
         let bytes = take (case n of Inr k \<Rightarrow> k | Inl _ \<Rightarrow> 0) (Buffer_content (writeBuffer (conn w)));
             w = on_conn (\<lambda>c. c\<lparr>writeBuffer := b\<rparr>) w
         in case n of
              Inr k \<Rightarrow>
                if k > 0 then
                  rbind (if Buffer_readableBytes b = 0
                         then on_channel Channel_disableWriting (emit (SysWrite bytes) w)
                         else Inr (emit (SysWrite bytes) w)) (\<lambda>w.
                  rbind (invoke (writeCompleteCallback cbs) CallWriteComplete w) (\<lambda>w.
                  if state_of w = kDisConnecting then TcpConnection_shutdownInLoop cbs w else Inr w))
                else TcpConnection_handleError cbs w
            | Inl savedErrno \<Rightarrow>
                if savedErrno \<noteq> EAGAIN then TcpConnection_handleError cbs w else Inr w)
     else Inr w)"

definition TcpConnection_handleWrite ::
  "conn_callbacks \<Rightarrow> errno + nat \<Rightarrow> errno + nat \<Rightarrow> errno + nat \<Rightarrow> timer_request \<Rightarrow> world \<Rightarrow> world res" where
  "TcpConnection_handleWrite cbs sys sysf sys' r w =
    rbind (assert_thread w) (\<lambda>w.
    if \<not> channel_isWriting w then Inr w
    else
      rbind (TcpConnection_resetIdleTimer r w) (\<lambda>w.
      rbind (handleWrite_drain cbs sys w) (\<lambda>(returned, w).
      if returned then Inr w
      else if sendingFile (conn w) \<and> fileFd (conn w) \<ge> 0 then handleWrite_file cbs sysf w
      else handleWrite_rest cbs sys' w)))"

section \<open>Reliable sending\<close>

text \<open>\<open>draw cap\<close> is the random number of \<open>uniform_int_distribution(0, cap)\<close>.\<close>

definition kMaxRetries :: nat where "kMaxRetries = 5"
definition kBaseTimeout :: nat where "kBaseTimeout = 1"
definition kMaxTimeout :: nat where "kMaxTimeout = 10"

fun backoff_cap :: "nat \<Rightarrow> nat \<Rightarrow> nat \<Rightarrow> nat" where
  "backoff_cap cap_ms 0 max_delay_ms = cap_ms"
| "backoff_cap cap_ms (Suc retries) max_delay_ms =
    (if cap_ms > max_delay_ms div 2 then max_delay_ms
     else backoff_cap (cap_ms * 2) retries max_delay_ms)"

definition caculate_backoff_jitter :: "nat \<Rightarrow> nat \<Rightarrow> nat \<Rightarrow> (nat \<Rightarrow> nat) \<Rightarrow> nat" where
  "caculate_backoff_jitter base_delay_ms retries max_delay_ms draw =
    draw (min (backoff_cap base_delay_ms retries max_delay_ms) max_delay_ms)"

definition set_entry :: "nat \<Rightarrow> retransmit_entry \<Rightarrow> world \<Rightarrow> world" where
  "set_entry seq e = on_conn (\<lambda>c. c\<lparr>pendingRetrans := mput seq e (pendingRetrans c)\<rparr>)"

definition TcpConnection_resetRetransmitTimer ::
  "(nat \<Rightarrow> nat) \<Rightarrow> timer_request \<Rightarrow> nat \<Rightarrow> world \<Rightarrow> world res" where
  "TcpConnection_resetRetransmitTimer draw r seq w =
    (case mget (pendingRetrans (conn w)) seq of
       None \<Rightarrow> Inl UseAfterFree
     | Some entry \<Rightarrow>
         rbind
           (if TimerId_valid (re_timerId entry) then
              rbind (conn_cancel (re_timerId entry) w) (\<lambda>w.
                Inr (set_entry seq (entry\<lparr>re_timerId := TimerId_null\<rparr>) w))
            else Inr w)
           (\<lambda>w. let timeout = caculate_backoff_jitter kBaseTimeout (re_retries entry) kMaxTimeout draw in
              rbind (conn_runAfter (r\<lparr>rq_delay := of_nat timeout / 1000\<rparr>)
                       (retransmit_closure (conn w) (re_seq entry)) w)
                (\<lambda>(i, w). Inr (set_entry seq (entry\<lparr>re_timerId := i\<rparr>) w))))"

definition TcpConnection_onRetransmitTimeout ::
  "conn_callbacks \<Rightarrow> errno + nat \<Rightarrow> (nat \<Rightarrow> nat) \<Rightarrow> timer_request \<Rightarrow> nat \<Rightarrow> world \<Rightarrow> world res" where
  "TcpConnection_onRetransmitTimeout cbs sys draw r seq w =
    rbind (assert_thread w) (\<lambda>w.
    case mget (pendingRetrans (conn w)) seq of
      None \<Rightarrow> Inr w
    | Some entry \<Rightarrow>
        if re_retries entry \<ge> kMaxRetries then
          TcpConnection_forceCloseInLoop cbs
            (on_conn (\<lambda>c. c\<lparr>pendingRetrans := mdel seq (pendingRetrans c)\<rparr>) w)
        else
          rbind (TcpConnection_sendInLoop cbs sys (re_data entry) w) (\<lambda>w.
            case mget (pendingRetrans (conn w)) seq of
              None \<Rightarrow> Inl UseAfterFree
            | Some entry \<Rightarrow>
                TcpConnection_resetRetransmitTimer draw r seq
                  (set_entry seq (entry\<lparr>re_retries := re_retries entry + 1\<rparr>) w)))"

text \<open>\<open>SendFunc\<close> runs in the loop's thread; the entry replaces one with the same number.\<close>

definition TcpConnection_SendFunc ::
  "conn_callbacks \<Rightarrow> errno + nat \<Rightarrow> (nat \<Rightarrow> nat) \<Rightarrow> timer_request \<Rightarrow> string \<Rightarrow> nat \<Rightarrow> world \<Rightarrow> world res" where
  "TcpConnection_SendFunc cbs sys draw r data seq w =
    rbind (TcpConnection_send cbs sys data w) (\<lambda>w.
      TcpConnection_resetRetransmitTimer draw r seq
        (set_entry seq \<lparr>re_seq = seq, re_data = data, re_retries = 0, re_timerId = TimerId_null\<rparr> w))"

definition TcpConnection_sendWithRetransmit ::
  "conn_callbacks \<Rightarrow> errno + nat \<Rightarrow> (nat \<Rightarrow> nat) \<Rightarrow> timer_request \<Rightarrow> string \<Rightarrow> nat \<Rightarrow> world \<Rightarrow> world res" where
  "TcpConnection_sendWithRetransmit cbs sys draw r data seq w =
    run_or_post (RetransmitTask data seq) (TcpConnection_SendFunc cbs sys draw r data seq) w"

definition TcpConnection_sendBufferWithRetransmit ::
  "conn_callbacks \<Rightarrow> errno + nat \<Rightarrow> (nat \<Rightarrow> nat) \<Rightarrow> timer_request \<Rightarrow> buffer \<Rightarrow> nat \<Rightarrow> world \<Rightarrow> world res" where
  "TcpConnection_sendBufferWithRetransmit cbs sys draw r buffer seq w =
    TcpConnection_sendWithRetransmit cbs sys draw r (Buffer_bytes (Buffer_readableBytes buffer) buffer) seq w"

definition TcpConnection_ackInLoop :: "nat \<Rightarrow> world \<Rightarrow> world res" where
  "TcpConnection_ackInLoop seq w =
    (case mget (pendingRetrans (conn w)) seq of
       None \<Rightarrow> Inr w
     | Some entry \<Rightarrow>
         rbind (if TimerId_valid (re_timerId entry) then conn_cancel (re_timerId entry) w else Inr w) (\<lambda>w.
           Inr (on_conn (\<lambda>c. c\<lparr>pendingRetrans := mdel seq (pendingRetrans c)\<rparr>) w)))"

definition TcpConnection_ackReceived :: "nat \<Rightarrow> world \<Rightarrow> world res" where
  "TcpConnection_ackReceived seq w = run_or_post (AckTask seq) (TcpConnection_ackInLoop seq) w"

section \<open>A new connection\<close>

definition TcpConnection_new :: "nat \<Rightarrow> addr \<Rightarrow> int \<Rightarrow> tcp_connection" where
  "TcpConnection_new i a fd =
    \<lparr>tc_id = i, tc_channel = a, tc_fd = fd, tc_state = kConnecting, writeBuffer = Buffer_new,
     readBuffer = Buffer_new, fileFd = -1, fileSentOffset = 0, fileTotalSize = 0, sendingFile = False,
     idleTimerId = TimerId_null, pendingRetrans = []\<rparr>"

definition new_world :: "nat \<Rightarrow> addr \<Rightarrow> int \<Rightarrow> poller \<Rightarrow> timer_queue \<Rightarrow> world" where
  "new_world i a fd p q =
    \<lparr>conn = TcpConnection_new i a fd, poll_of = create_channel a fd p, tq = q, in_thread = True,
     posted = [], timer_tasks = [], trace = [], accepted = []\<rparr>"

end
