(* ===== verification/TcpConnection_Invariant.thy ===== *)
theory TcpConnection_Invariant
  imports TcpConnection
begin

text \<open>
  The invariant of a connection and its preservation. \<open>conn_inv\<close> has four parts: \<open>conn_ok\<close> (poller, timer
  queue and buffers are consistent), \<open>conn_flags\<close> (registration, write interest and file fields follow the
  state), \<open>conn_stream\<close> (bytes written and bytes buffered are the bytes accepted) and \<open>conn_owns\<close> (every
  registered timer of the connection is in its slot). \<open>goes_ok\<close> says of the outcome of an operation that
  it is not a fault, keeps the invariant and moves the state only forward; each operation of the class
  has a lemma \<open><operation>_ok\<close> of that form.
\<close>

section \<open>Invariant\<close>

fun sys_bytes :: "conn_event list \<Rightarrow> string" where
  "sys_bytes [] = []"
| "sys_bytes (SysWrite cs # es) = cs @ sys_bytes es"
| "sys_bytes (_ # es) = sys_bytes es"

lemma sys_bytes_append [simp]: "sys_bytes (es @ fs) = sys_bytes es @ sys_bytes fs"
  by (induction es rule: sys_bytes.induct) simp_all

abbreviation unsent :: "world \<Rightarrow> string" where
  "unsent w \<equiv> Buffer_content (writeBuffer (conn w))"

abbreviation conn_open :: "world \<Rightarrow> bool" where
  "conn_open w \<equiv> state_of w = kConnected \<or> state_of w = kDisConnecting"

text \<open>The components the connection is built on are consistent, and its channel is alive.\<close>

definition conn_ok :: "addr set \<Rightarrow> world \<Rightarrow> bool" where
  "conn_ok E w \<longleftrightarrow>
    in_thread w \<and> Poller_inv (poll_of w) \<and> fd_free (tc_channel (conn w)) (poll_of w) \<and>
    map_option ch_fd (channels (poll_of w) (tc_channel (conn w))) = Some (tc_fd (conn w)) \<and>
    TimerQueue_inv E (tq w) \<and> Buffer_inv (writeBuffer (conn w)) \<and> Buffer_inv (readBuffer (conn w))"

text \<open>Write interest, registration and the file's flags follow the state of the connection.\<close>

definition conn_flags :: "world \<Rightarrow> bool" where
  "conn_flags w \<longleftrightarrow>
    (state_of w \<noteq> kDisConnected \<longrightarrow> channel_isWriting w = (unsent w \<noteq> [] \<or> sendingFile (conn w))) \<and>
    registered (tc_channel (conn w)) (poll_of w) = conn_open w \<and> (conn_open w \<longrightarrow> channel_isReading w) \<and>
    (state_of w = kConnecting \<longrightarrow> unsent w = [] \<and> \<not> sendingFile (conn w)) \<and>
    (state_of w = kDisConnected \<longrightarrow> \<not> sendingFile (conn w)) \<and>
    (sendingFile (conn w) = (fileFd (conn w) \<ge> 0))"

text \<open>The bytes written to the socket and the bytes still in the buffer are the bytes accepted.\<close>

definition conn_stream :: "world \<Rightarrow> bool" where
  "conn_stream w \<longleftrightarrow> sys_bytes (trace w) @ unsent w = accepted w"

text \<open>Every registered timer of the connection is in its slot.\<close>

definition my_closure :: "tcp_connection \<Rightarrow> closure \<Rightarrow> bool" where
  "my_closure c f \<longleftrightarrow> (case f of Closure i k \<Rightarrow> i = tc_id c)"

definition timer_slot :: "tcp_connection \<Rightarrow> closure \<Rightarrow> timer_id option" where
  "timer_slot c f =
    (case f of Closure i k \<Rightarrow>
      (case k of 0 \<Rightarrow> Some (idleTimerId c)
       | Suc seq \<Rightarrow> map_option re_timerId (mget (pendingRetrans c) seq)))"

definition conn_owns :: "addr set \<Rightarrow> world \<Rightarrow> bool" where
  "conn_owns E w \<longleftrightarrow>
    ts.owned E (my_closure (conn w)) (timer_slot (conn w)) (tq w) \<and>
    ordered (pendingRetrans (conn w)) \<and>
    (\<forall>seq e. mget (pendingRetrans (conn w)) seq = Some e \<longrightarrow> re_seq e = seq)"

definition conn_inv :: "addr set \<Rightarrow> world \<Rightarrow> bool" where
  "conn_inv E w \<longleftrightarrow> conn_ok E w \<and> conn_flags w \<and> conn_stream w \<and> conn_owns E w"

fun conn_rank :: "conn_state \<Rightarrow> nat" where
  "conn_rank kConnecting = 0"
| "conn_rank kConnected = 1"
| "conn_rank kDisConnecting = 2"
| "conn_rank kDisConnected = 3"

definition evolves :: "world \<Rightarrow> world \<Rightarrow> bool" where
  "evolves w w' \<longleftrightarrow>
    tc_id (conn w') = tc_id (conn w) \<and> tc_channel (conn w') = tc_channel (conn w) \<and>
    tc_fd (conn w') = tc_fd (conn w) \<and> conn_rank (state_of w) \<le> conn_rank (state_of w')"

lemma evolves_refl [simp]: "evolves w w"
  by (simp add: evolves_def)

lemma evolves_trans: "evolves w w' \<Longrightarrow> evolves w' w'' \<Longrightarrow> evolves w w''"
  by (auto simp: evolves_def)

text \<open>\<open>goes_ok\<close>: the step does not fault, keeps the invariant and moves the state only forward.\<close>

definition goes_ok :: "addr set \<Rightarrow> world \<Rightarrow> world res \<Rightarrow> bool" where
  "goes_ok E w m \<longleftrightarrow> (\<exists>w'. m = Inr w' \<and> conn_inv E w' \<and> evolves w w')"

lemma goes_ok_Inr: "conn_inv E w' \<Longrightarrow> evolves w w' \<Longrightarrow> goes_ok E w (Inr w')"
  by (simp add: goes_ok_def)

lemma goes_ok_bind:
  assumes "goes_ok E w m" and "\<And>w'. conn_inv E w' \<Longrightarrow> evolves w w' \<Longrightarrow> goes_ok E w' (g w')"
  shows "goes_ok E w (rbind m g)"
  using assms unfolding goes_ok_def by (metis evolves_trans rbind_simps(2))

lemma goes_ok_from: "goes_ok E w' m \<Longrightarrow> evolves w w' \<Longrightarrow> goes_ok E w m"
  unfolding goes_ok_def using evolves_trans by blast

text \<open>User callbacks may do anything that goes well in this sense.\<close>

definition cb_ok :: "addr set \<Rightarrow> (world \<Rightarrow> world res) option \<Rightarrow> bool" where
  "cb_ok E cb \<longleftrightarrow> (\<forall>f w. cb = Some f \<longrightarrow> conn_inv E w \<longrightarrow> goes_ok E w (f w))"

definition callbacks_ok :: "addr set \<Rightarrow> conn_callbacks \<Rightarrow> bool" where
  "callbacks_ok E cbs \<longleftrightarrow>
    cb_ok E (connectionCallback cbs) \<and> cb_ok E (writeCompleteCallback cbs) \<and> cb_ok E (closeCallback cbs) \<and>
    (\<forall>t. cb_ok E (map_option (\<lambda>f. f t) (messageCallback cbs)))"

section \<open>Frame lemmas\<close>

lemma emit_fields [simp]:
  "conn (emit ev w) = conn w" "poll_of (emit ev w) = poll_of w" "tq (emit ev w) = tq w"
  "in_thread (emit ev w) = in_thread w" "accepted (emit ev w) = accepted w"
  "channel_isWriting (emit ev w) = channel_isWriting w"
  "channel_isReading (emit ev w) = channel_isReading w"
  by (simp_all add: emit_def channel_isWriting_def channel_isReading_def)

lemma emit_inv [simp]:
  "conn_ok E (emit ev w) = conn_ok E w" "conn_flags (emit ev w) = conn_flags w"
  "conn_owns E (emit ev w) = conn_owns E w"
  by (simp_all add: conn_ok_def conn_flags_def conn_owns_def)

lemma emit_stream:
  "\<forall>cs. ev \<noteq> SysWrite cs \<Longrightarrow> conn_stream (emit ev w) = conn_stream w"
  by (cases ev) (simp_all add: conn_stream_def emit_def)

lemma emit_conn_inv [simp]: "\<forall>cs. ev \<noteq> SysWrite cs \<Longrightarrow> conn_inv E (emit ev w) = conn_inv E w"
  by (simp add: conn_inv_def emit_stream)

lemma emit_evolves [simp]: "evolves w (emit ev w')= evolves w w'"
  by (simp add: evolves_def)

lemma invoke_ok:
  assumes "cb_ok E cb" and "conn_inv E w" and "\<forall>cs. ev \<noteq> SysWrite cs"
  shows "goes_ok E w (invoke cb ev w)"
proof (cases cb)
  case None
  with assms(2) show ?thesis by (simp add: invoke_def goes_ok_def)
next
  case (Some f)
  have "conn_inv E (emit ev w)" using assms(2,3) by simp
  with assms(1) Some have "goes_ok E (emit ev w) (f (emit ev w))" by (simp add: cb_ok_def)
  with Some show ?thesis unfolding invoke_def by (auto intro: goes_ok_from)
qed

lemma assert_thread_ok [simp]: "in_thread w \<Longrightarrow> assert_thread w = Inr w"
  by (simp add: assert_thread_def EventLoop_assertInLoopThread_def)

lemma conn_inv_thread [simp]: "conn_inv E w \<Longrightarrow> in_thread w"
  by (simp add: conn_inv_def conn_ok_def)

section \<open>Timers of the connection\<close>

abbreviation live_timers :: "addr set \<Rightarrow> world \<Rightarrow> timer_id \<Rightarrow> closure option" where
  "live_timers E w \<equiv> timers_live E (tq w)"

lemma conn_cancel_loop:
  "in_thread w \<Longrightarrow> conn_cancel i w = rbind (loop_cancel i (tq w)) (\<lambda>q. Inr (w\<lparr>tq := q\<rparr>))"
  by (cases "TimerQueue_cancelInLoop i (tq w)")
    (simp_all add: conn_cancel_def loop_cancel_def EventLoop_cancel_def TimerQueue_cancel_def)

lemma conn_runAfter_loop:
  "in_thread w \<Longrightarrow> conn_runAfter r f w = rbind (loop_add r f (tq w)) (\<lambda>(i, q). Inr (i, w\<lparr>tq := q\<rparr>))"
  by (auto simp: conn_runAfter_def loop_add_def EventLoop_runAfter_def TimerQueue_addTimer_def Let_def rbind_def
      split: sum.split)

text \<open>Cancelling what is in a slot, whether or not it is null.\<close>

lemma cancel_slot:
  assumes "in_thread w"
  shows "(if TimerId_valid i then conn_cancel i w else Inr w) = rbind (ts.drop i (tq w)) (\<lambda>q. Inr (w\<lparr>tq := q\<rparr>))"
  using assms by (simp add: conn_cancel_loop ts.drop_def)

lemma cancelIdle_result:
  assumes "in_thread w" and "TimerQueue_inv E (tq w)"
  shows "\<exists>q j. TcpConnection_cancelIdle w = Inr (w\<lparr>tq := q, conn := (conn w)\<lparr>idleTimerId := j\<rparr>\<rparr>) \<and>
    ts.drop (idleTimerId (conn w)) (tq w) = Inr q \<and>
    TimerQueue_inv E q \<and> timers_live E q = (live_timers E w)(idleTimerId (conn w) := None) \<and>
    \<not> TimerId_valid j"
proof -
  obtain q where q: "ts.drop (idleTimerId (conn w)) (tq w) = Inr q" "TimerQueue_inv E q"
    "timers_live E q = (live_timers E w)(idleTimerId (conn w) := None)"
    using ts.drop_ok [OF assms(2)] by blast
  show ?thesis
  proof (cases "TimerId_valid (idleTimerId (conn w))")
    case True
    with q assms(1) have "TcpConnection_cancelIdle w =
        Inr (w\<lparr>tq := q, conn := (conn w)\<lparr>idleTimerId := TimerId_null\<rparr>\<rparr>)"
      by (simp add: TcpConnection_cancelIdle_def conn_cancel_loop ts.drop_def on_conn_def)
    with q show ?thesis by (intro exI [of _ q] exI [of _ TimerId_null]) (simp add: TimerId_valid_def TimerId_null_def)
  next
    case False
    with q have "q = tq w" by (simp add: ts.drop_def)
    with False have "TcpConnection_cancelIdle w =
        Inr (w\<lparr>tq := q, conn := (conn w)\<lparr>idleTimerId := idleTimerId (conn w)\<rparr>\<rparr>)"
      by (simp add: TcpConnection_cancelIdle_def)
    with q False show ?thesis by blast
  qed
qed

lemma ownedD:
  assumes "ts.owned E mine slot q" and "timers_live E q i = Some f" and "mine f"
  shows "slot f = Some i"
  using assms by (simp add: ts.owned_def)

text \<open>Replacing the idle timer keeps the connection's timers in their slots.\<close>

lemma owned_idle:
  assumes own: "conn_owns E w" and live: "timers_live E q = (live_timers E w)(idleTimerId (conn w) := None, j \<mapsto> idle_closure (conn w))"
    and new: "live_timers E w j = None \<or> j = idleTimerId (conn w)"
  shows "conn_owns E (w\<lparr>tq := q, conn := (conn w)\<lparr>idleTimerId := j\<rparr>\<rparr>)"
proof -
  let ?c = "(conn w)\<lparr>idleTimerId := j\<rparr>"
  have "timer_slot ?c f = Some i" if f: "timers_live E q i = Some f" "my_closure ?c f" for i f
  proof (cases "i = j")
    case True
    with f(1) live have "f = idle_closure (conn w)" by simp
    with True show ?thesis by (simp add: timer_slot_def idle_closure_def)
  next
    case False
    with f(1) live have old: "live_timers E w i = Some f" and i: "i \<noteq> idleTimerId (conn w)"
      by (auto split: if_splits)
    have "my_closure (conn w) f" using f(2) by (cases f) (simp add: my_closure_def)
    with own old have "timer_slot (conn w) f = Some i" by (auto simp: conn_owns_def dest: ownedD)
    with i show ?thesis by (auto simp: timer_slot_def split: closure.splits nat.splits)
  qed
  with own show ?thesis by (simp add: conn_owns_def ts.owned_def)
qed

lemma conn_inv_idle:
  assumes "conn_inv E w" and "TimerQueue_inv E q"
    and "conn_owns E (w\<lparr>tq := q, conn := (conn w)\<lparr>idleTimerId := j\<rparr>\<rparr>)"
  shows "conn_inv E (w\<lparr>tq := q, conn := (conn w)\<lparr>idleTimerId := j\<rparr>\<rparr>)"
  using assms
  by (auto simp: conn_inv_def conn_ok_def conn_flags_def conn_stream_def channel_isWriting_def
      channel_isReading_def)

lemma resetIdle_result:
  assumes ok: "in_thread w" "TimerQueue_inv E (tq w)" and own: "conn_owns E w" and fresh: "fresh_timer r (tq w)"
  obtains q j where "TcpConnection_resetIdleTimer r w = Inr (w\<lparr>tq := q, conn := (conn w)\<lparr>idleTimerId := j\<rparr>\<rparr>)"
    and "TimerQueue_inv E q" and "conn_owns E (w\<lparr>tq := q, conn := (conn w)\<lparr>idleTimerId := j\<rparr>\<rparr>)"
    and "TimerId_valid j" and "timers_live E q j = Some (idle_closure (conn w))"
proof -
  let ?r = "r\<lparr>rq_delay := kTimeoutSeconds\<rparr>" and ?f = "idle_closure (conn w)"
  have "fresh_timer ?r (tq w)" using fresh by (simp add: fresh_timer_def)
  from ts.rearm_ok [OF ok(2) this, of "idleTimerId (conn w)" ?f] obtain j q where
    q: "rbind (ts.drop (idleTimerId (conn w)) (tq w)) (loop_add ?r ?f) = Inr (j, q)" "TimerQueue_inv E q"
    "TimerId_valid j" "timers_live E q = (live_timers E w)(idleTimerId (conn w) := None, j \<mapsto> ?f)"
    "live_timers E w j = None \<or> j = idleTimerId (conn w)"
    by blast
  obtain q1 j1 where q1: "TcpConnection_cancelIdle w = Inr (w\<lparr>tq := q1, conn := (conn w)\<lparr>idleTimerId := j1\<rparr>\<rparr>)"
    "ts.drop (idleTimerId (conn w)) (tq w) = Inr q1"
    using cancelIdle_result [OF ok] by blast
  with q(1) have add: "loop_add ?r ?f q1 = Inr (j, q)" by simp
  have "TcpConnection_resetIdleTimer r w = Inr (w\<lparr>tq := q, conn := (conn w)\<lparr>idleTimerId := j\<rparr>\<rparr>)"
    using q1(1) add ok(1)
    by (simp add: TcpConnection_resetIdleTimer_def conn_runAfter_loop idle_closure_def on_conn_def)
  moreover have "conn_owns E (w\<lparr>tq := q, conn := (conn w)\<lparr>idleTimerId := j\<rparr>\<rparr>)"
    using own q(4,5) by (rule owned_idle)
  moreover have "timers_live E q j = Some ?f" using q(4) by simp
  ultimately show ?thesis using q(2,3) that by blast
qed

lemma resetIdle_ok:
  assumes inv: "conn_inv E w" and fresh: "fresh_timer r (tq w)"
  shows "\<exists>q j. TcpConnection_resetIdleTimer r w = Inr (w\<lparr>tq := q, conn := (conn w)\<lparr>idleTimerId := j\<rparr>\<rparr>) \<and>
    conn_inv E (w\<lparr>tq := q, conn := (conn w)\<lparr>idleTimerId := j\<rparr>\<rparr>) \<and> TimerId_valid j \<and>
    timers_live E q j = Some (idle_closure (conn w))"
proof -
  have "in_thread w" "TimerQueue_inv E (tq w)" "conn_owns E w" using inv by (simp_all add: conn_inv_def conn_ok_def)
  then obtain q j where "TcpConnection_resetIdleTimer r w = Inr (w\<lparr>tq := q, conn := (conn w)\<lparr>idleTimerId := j\<rparr>\<rparr>)"
    "TimerQueue_inv E q" "conn_owns E (w\<lparr>tq := q, conn := (conn w)\<lparr>idleTimerId := j\<rparr>\<rparr>)" "TimerId_valid j"
    "timers_live E q j = Some (idle_closure (conn w))" using fresh by (rule resetIdle_result)
  with conn_inv_idle [OF inv] show ?thesis by blast
qed

text \<open>Cancelling everything: afterwards no timer of the connection is registered.\<close>

lemma cancelPending_result:
  assumes "in_thread w"
  shows "TcpConnection_cancelPending w =
    rbind (rfold ts.drop (map (\<lambda>kv. re_timerId (snd kv)) (pendingRetrans (conn w))) (tq w))
      (\<lambda>q. Inr (w\<lparr>tq := q, conn := (conn w)\<lparr>pendingRetrans := []\<rparr>\<rparr>))"
proof -
  have "rfold (\<lambda>kv w. if TimerId_valid (re_timerId (snd kv)) then conn_cancel (re_timerId (snd kv)) w
                         else Inr w) kvs v =
      rbind (rfold ts.drop (map (\<lambda>kv. re_timerId (snd kv)) kvs) (tq v)) (\<lambda>q. Inr (v\<lparr>tq := q\<rparr>))"
    if "in_thread v" for kvs :: "(nat \<times> retransmit_entry) list" and v
    using that
  proof (induction kvs arbitrary: v)
    case (Cons kv kvs)
    have "rfold (\<lambda>kv w. if TimerId_valid (re_timerId (snd kv)) then conn_cancel (re_timerId (snd kv)) w
                         else Inr w) kvs (v\<lparr>tq := q\<rparr>) =
      rbind (rfold ts.drop (map (\<lambda>kv. re_timerId (snd kv)) kvs) q) (\<lambda>q. Inr (v\<lparr>tq := q\<rparr>))" for q
      using Cons.IH [of "v\<lparr>tq := q\<rparr>"] Cons.prems by simp
    then show ?case
      using cancel_slot [OF Cons.prems, of "re_timerId (snd kv)"] by (simp add: rbind_assoc)
  qed simp
  from this [OF assms, of "pendingRetrans (conn w)"] show ?thesis
    by (simp add: TcpConnection_cancelPending_def on_conn_def rbind_assoc)
qed

lemma cancel_all_ok:
  assumes own: "conn_owns E w" and ok: "in_thread w" "TimerQueue_inv E (tq w)"
  shows "\<exists>q j. rbind (TcpConnection_cancelIdle w) TcpConnection_cancelPending =
      Inr (w\<lparr>tq := q, conn := (conn w)\<lparr>idleTimerId := j, pendingRetrans := []\<rparr>\<rparr>) \<and>
    TimerQueue_inv E q \<and> \<not> TimerId_valid j \<and>
    (\<forall>i f. timers_live E q i = Some f \<longrightarrow> \<not> my_closure (conn w) f) \<and>
    (\<forall>r. fresh_timer r (tq w) \<longrightarrow> fresh_timer r q)"
proof -
  let ?ids = "map (\<lambda>kv. re_timerId (snd kv)) (pendingRetrans (conn w))"
  obtain q1 j where q1: "TcpConnection_cancelIdle w = Inr (w\<lparr>tq := q1, conn := (conn w)\<lparr>idleTimerId := j\<rparr>\<rparr>)"
    "ts.drop (idleTimerId (conn w)) (tq w) = Inr q1" "TimerQueue_inv E q1" "\<not> TimerId_valid j"
    using cancelIdle_result [OF ok] by blast
  have slots: "i \<in> set (idleTimerId (conn w) # ?ids)" if slot: "timer_slot (conn w) f = Some i" for f i
  proof -
    obtain n k where f: "f = Closure n k" by (cases f)
    show ?thesis
    proof (cases k)
      case 0
      with slot f show ?thesis by (simp add: timer_slot_def)
    next
      case (Suc seq)
      with slot f obtain e where "mget (pendingRetrans (conn w)) seq = Some e" "i = re_timerId e"
        by (auto simp: timer_slot_def)
      then show ?thesis by (force dest: mget_in_set)
    qed
  qed
  obtain q where q: "rfold ts.drop (idleTimerId (conn w) # ?ids) (tq w) = Inr q" "TimerQueue_inv E q"
    "\<forall>i f. timers_live E q i = Some f \<longrightarrow> \<not> my_closure (conn w) f"
    using ts.owned_drop_all [OF ok(2), of "my_closure (conn w)" "timer_slot (conn w)"
        "idleTimerId (conn w) # ?ids"] own slots
    unfolding conn_owns_def by blast
  from q(1) q1(2) have "rfold ts.drop ?ids q1 = Inr q" by simp
  with q1(1) ok(1) have "rbind (TcpConnection_cancelIdle w) TcpConnection_cancelPending =
      Inr (w\<lparr>tq := q, conn := (conn w)\<lparr>idleTimerId := j, pendingRetrans := []\<rparr>\<rparr>)"
    by (simp add: cancelPending_result)
  moreover have "\<forall>r. fresh_timer r (tq w) \<longrightarrow> fresh_timer r q"
    using ts.drop_all_admissible [OF ok(2) q(1)] by blast
  ultimately show ?thesis using q q1(4) by blast
qed

section \<open>The channel of the connection\<close>

abbreviation my_channel :: "world \<Rightarrow> channel option" where
  "my_channel w \<equiv> channels (poll_of w) (tc_channel (conn w))"

lemma on_channel_set:
  assumes ok: "conn_ok E w"
  obtains p' c where "on_channel (Channel_set_events f) w = Inr (w\<lparr>poll_of := p'\<rparr>)"
    and "conn_ok E (w\<lparr>poll_of := p'\<rparr>)" and "my_channel w = Some c"
    and "channels p' (tc_channel (conn w)) = Some (updated c (f (ch_events c)))"
    and "registered (tc_channel (conn w)) p' = (\<not> (ch_index c = kAdded \<and> f (ch_events c) = 0))"
proof -
  from ok obtain c where c: "my_channel w = Some c" "ch_fd c = tc_fd (conn w)"
    and inv: "Poller_inv (poll_of w)" "fd_free (tc_channel (conn w)) (poll_of w)" "in_thread w"
    by (auto simp: conn_ok_def)
  obtain p' where p': "Channel_set_events f True (tc_channel (conn w)) (poll_of w) = Inr p'" "Poller_inv p'"
    "channels p' = (channels (poll_of w))(tc_channel (conn w) \<mapsto> updated c (f (ch_events c)))"
    by (rule set_events_ok [OF inv(1) c(1) inv(2), of f]) (rule that)
  have fd: "ch_fd (updated c (f (ch_events c))) = ch_fd c" by (simp add: updated_def)
  have "fd_free (tc_channel (conn w)) p'"
    by (rule fd_free_channels [OF inv(1) p'(2) c(1) inv(2) p'(3) fd])
  with ok p' c fd have "conn_ok E (w\<lparr>poll_of := p'\<rparr>)" by (simp add: conn_ok_def)
  moreover have "registered (tc_channel (conn w)) p' = (\<not> (ch_index c = kAdded \<and> f (ch_events c) = 0))"
    using p'(3) by (auto simp: registered_iff [OF p'(2)] updated_def)
  ultimately show ?thesis
    using p' c inv by (intro that [of p' c]) (simp_all add: on_channel_def)
qed

lemma updated_events: "ch_events (updated c ev) = ev"
  by (simp add: updated_def)

lemma or_nonzero: "m \<noteq> (0 :: 32 word) \<Longrightarrow> ev OR m \<noteq> 0"
  by (auto simp: or_eq_0_iff)

lemma updated_writing:
  "Channel_isWriting (updated c (ev OR EPOLLOUT))" "\<not> Channel_isWriting (updated c (ev AND NOT EPOLLOUT))"
  "Channel_isReading (updated c (ev OR EPOLLOUT)) = (ev AND EPOLLIN \<noteq> 0)"
  "Channel_isReading (updated c (ev AND NOT EPOLLOUT)) = (ev AND EPOLLIN \<noteq> 0)"
  using set_writing [where ev = ev and c = c] set_writing_reading [where ev = ev and c = c]
  by (simp_all add: Channel_isWriting_def Channel_isReading_def updated_def)

lemma enableWriting_ok:
  assumes ok: "conn_ok E w"
  obtains p' where "on_channel Channel_enableWriting w = Inr (w\<lparr>poll_of := p'\<rparr>)"
    and "conn_ok E (w\<lparr>poll_of := p'\<rparr>)" and "channel_isWriting (w\<lparr>poll_of := p'\<rparr>)"
    and "registered (tc_channel (conn w)) p'"
    and "channel_isReading (w\<lparr>poll_of := p'\<rparr>) = channel_isReading w"
proof -
  obtain p' c where p': "on_channel (Channel_set_events (\<lambda>ev. ev OR EPOLLOUT)) w = Inr (w\<lparr>poll_of := p'\<rparr>)"
    "conn_ok E (w\<lparr>poll_of := p'\<rparr>)" "my_channel w = Some c"
    "channels p' (tc_channel (conn w)) = Some (updated c (ch_events c OR EPOLLOUT))"
    "registered (tc_channel (conn w)) p' = (\<not> (ch_index c = kAdded \<and> ch_events c OR EPOLLOUT = 0))"
    by (rule on_channel_set [OF ok, of "\<lambda>ev. ev OR EPOLLOUT"]) (rule that)
  have "ch_events c OR EPOLLOUT \<noteq> 0" by (rule or_nonzero) (simp add: EPOLLOUT_def)
  with p' show ?thesis
    by (intro that [of p'])
      (simp_all add: Channel_enableWriting_def Channel_disableWriting_def Channel_enableReading_def
        channel_isWriting_def channel_isReading_def updated_writing
        Channel_isReading_def [of c])
qed

lemma disableWriting_ok:
  assumes ok: "conn_ok E w"
  obtains p' where "on_channel Channel_disableWriting w = Inr (w\<lparr>poll_of := p'\<rparr>)"
    and "conn_ok E (w\<lparr>poll_of := p'\<rparr>)" and "\<not> channel_isWriting (w\<lparr>poll_of := p'\<rparr>)"
    and "channel_isReading w \<Longrightarrow> registered (tc_channel (conn w)) p'"
    and "channel_isReading (w\<lparr>poll_of := p'\<rparr>) = channel_isReading w"
proof -
  obtain p' c where p': "on_channel (Channel_set_events (\<lambda>ev. ev AND NOT EPOLLOUT)) w = Inr (w\<lparr>poll_of := p'\<rparr>)"
    "conn_ok E (w\<lparr>poll_of := p'\<rparr>)" "my_channel w = Some c"
    "channels p' (tc_channel (conn w)) = Some (updated c (ch_events c AND NOT EPOLLOUT))"
    "registered (tc_channel (conn w)) p' = (\<not> (ch_index c = kAdded \<and> ch_events c AND NOT EPOLLOUT = 0))"
    by (rule on_channel_set [OF ok, of "\<lambda>ev. ev AND NOT EPOLLOUT"]) (rule that)
  have "ch_events c AND NOT EPOLLOUT \<noteq> 0" if "ch_events c AND EPOLLIN \<noteq> 0"
    using that andnot_out_in [of "ch_events c"] by auto
  with p' show ?thesis
    by (intro that [of p'])
      (simp_all add: Channel_enableWriting_def Channel_disableWriting_def Channel_enableReading_def
        channel_isWriting_def channel_isReading_def updated_writing
        Channel_isReading_def [of c])
qed

lemma enableReading_ok:
  assumes ok: "conn_ok E w"
  obtains p' where "on_channel Channel_enableReading w = Inr (w\<lparr>poll_of := p'\<rparr>)"
    and "conn_ok E (w\<lparr>poll_of := p'\<rparr>)" and "registered (tc_channel (conn w)) p'"
    and "channel_isReading (w\<lparr>poll_of := p'\<rparr>)"
    and "channel_isWriting (w\<lparr>poll_of := p'\<rparr>) = channel_isWriting w"
proof -
  obtain p' c where p': "on_channel (Channel_set_events (\<lambda>ev. ev OR EPOLLIN)) w = Inr (w\<lparr>poll_of := p'\<rparr>)"
    "conn_ok E (w\<lparr>poll_of := p'\<rparr>)" "my_channel w = Some c"
    "channels p' (tc_channel (conn w)) = Some (updated c (ch_events c OR EPOLLIN))"
    "registered (tc_channel (conn w)) p' = (\<not> (ch_index c = kAdded \<and> ch_events c OR EPOLLIN = 0))"
    by (rule on_channel_set [OF ok, of "\<lambda>ev. ev OR EPOLLIN"]) (rule that)
  have "ch_events c OR EPOLLIN \<noteq> 0" by (rule or_nonzero) (simp add: EPOLLIN_def)
  moreover have "(ch_events c OR EPOLLIN) AND EPOLLIN \<noteq> 0"
    "(ch_events c OR EPOLLIN) AND EPOLLOUT = ch_events c AND EPOLLOUT"
    by (simp_all add: EPOLLIN_def EPOLLOUT_def word_ao_absorbs bit.conj_disj_distrib2)
  ultimately show ?thesis using p'
    by (intro that [of p'])
      (simp_all add: Channel_enableWriting_def Channel_disableWriting_def Channel_enableReading_def
        channel_isWriting_def channel_isReading_def
        Channel_isReading_def Channel_isWriting_def updated_events)
qed

lemma channel_remove_ok:
  assumes ok: "conn_ok E w"
  obtains p' where "on_channel Channel_remove w = Inr (w\<lparr>poll_of := p'\<rparr>)"
    and "conn_ok E (w\<lparr>poll_of := p'\<rparr>)" and "\<not> registered (tc_channel (conn w)) p'"
    and "channel_isWriting (w\<lparr>poll_of := p'\<rparr>) = channel_isWriting w"
    and "channel_isReading (w\<lparr>poll_of := p'\<rparr>) = channel_isReading w"
proof -
  from ok obtain c where c: "my_channel w = Some c" "ch_fd c = tc_fd (conn w)"
    and inv: "Poller_inv (poll_of w)" "fd_free (tc_channel (conn w)) (poll_of w)" "in_thread w"
    by (auto simp: conn_ok_def)
  obtain p' c' where p': "Channel_remove True (tc_channel (conn w)) (poll_of w) = Inr p'" "Poller_inv p'"
    "\<not> registered (tc_channel (conn w)) p'"
    "channels p' = (channels (poll_of w))(tc_channel (conn w) \<mapsto> c')" "ch_fd c' = ch_fd c"
    "ch_events c' = ch_events c"
    by (rule remove_ok [OF inv(1) c(1), of True]) auto
  have "fd_free (tc_channel (conn w)) p'"
    by (rule fd_free_channels [OF inv(1) p'(2) c(1) inv(2) p'(4,5)])
  with ok p' c have "conn_ok E (w\<lparr>poll_of := p'\<rparr>)" by (simp add: conn_ok_def)
  with p' inv c(1) show ?thesis
    by (intro that [of p']) (simp_all add: on_channel_def channel_isWriting_def channel_isReading_def
        Channel_isWriting_def Channel_isReading_def)
qed

section \<open>Closing releases everything\<close>

text \<open>What a closed connection must not hold any more: its registration, its timers, its file.\<close>

definition released :: "addr set \<Rightarrow> world \<Rightarrow> bool" where
  "released E w \<longleftrightarrow>
    state_of w = kDisConnected \<and> \<not> registered (tc_channel (conn w)) (poll_of w) \<and>
    fileFd (conn w) < 0 \<and> pendingRetrans (conn w) = [] \<and> \<not> TimerId_valid (idleTimerId (conn w)) \<and>
    (\<forall>i f. live_timers E w i = Some f \<longrightarrow> \<not> my_closure (conn w) f)"

lemma conn_inv_released:
  assumes "conn_ok E w" and "conn_stream w" and "released E w" and "\<not> sendingFile (conn w)"
  shows "conn_inv E w"
  using assms by (simp add: conn_inv_def conn_flags_def conn_owns_def ts.owned_def released_def)

text \<open>Once everything is released, \<open>connectDestroyed\<close> and the destructor only have the channel left to deal with.\<close>

lemma cancel_released:
  assumes "in_thread w" and "released E w"
  shows "TcpConnection_cancelIdle w = Inr w" and "TcpConnection_cancelPending w = Inr w"
  using assms by (simp_all add: released_def TcpConnection_cancelIdle_def TcpConnection_cancelPending_def on_conn_def)

lemma connectDestroyed_released:
  assumes "conn_inv E w" and "released E w"
  shows "\<exists>p. TcpConnection_connectDestroyed w = Inr (w\<lparr>poll_of := p\<rparr>) \<and> conn_inv E (w\<lparr>poll_of := p\<rparr>) \<and>
    released E (w\<lparr>poll_of := p\<rparr>)"
proof -
  have ok: "conn_ok E w" using assms(1) by (simp add: conn_inv_def)
  then obtain p where p: "on_channel Channel_remove w = Inr (w\<lparr>poll_of := p\<rparr>)" "conn_ok E (w\<lparr>poll_of := p\<rparr>)"
    "\<not> registered (tc_channel (conn w)) p" by (rule channel_remove_ok)
  have rel: "released E (w\<lparr>poll_of := p\<rparr>)" using assms(2) p(3) by (simp add: released_def)
  have "\<not> sendingFile (conn w)" "conn_stream (w\<lparr>poll_of := p\<rparr>)"
    using assms by (simp_all add: conn_inv_def conn_flags_def released_def conn_stream_def)
  then have "conn_inv E (w\<lparr>poll_of := p\<rparr>)" using p(2) rel by (intro conn_inv_released) simp_all
  moreover have "TcpConnection_connectDestroyed w = Inr (w\<lparr>poll_of := p\<rparr>)"
    using p(1) cancel_released [OF _ assms(2)] conn_inv_thread [OF assms(1)] assms(2)
    by (simp add: TcpConnection_connectDestroyed_def released_def Let_def)
  ultimately show ?thesis using rel by blast
qed

lemma destroy_released:
  assumes "conn_inv E w" and "released E w"
  shows "\<exists>p. TcpConnection_destroy w = Inr (w\<lparr>poll_of := p\<rparr>) \<and> Poller_inv p \<and>
    channels p = (channels (poll_of w))(tc_channel (conn w) := None) \<and> \<not> registered (tc_channel (conn w)) p"
proof -
  have thr: "in_thread w" and inv: "Poller_inv (poll_of w)" using assms(1) by (simp_all add: conn_inv_def conn_ok_def)
  obtain c where "channels (poll_of w) (tc_channel (conn w)) = Some c"
    using assms(1) by (auto simp: conn_inv_def conn_ok_def)
  from destroy_ok [OF inv this, of True] obtain p where
    "Channel_destroy True (tc_channel (conn w)) (poll_of w) = Inr p" "Poller_inv p"
    "\<not> registered (tc_channel (conn w)) p" "channels p = (channels (poll_of w))(tc_channel (conn w) := None)"
    by blast
  with cancel_released [OF thr assms(2)] thr assms(2) show ?thesis
    by (intro exI [of _ p]) (simp add: TcpConnection_destroy_def on_channel_def released_def)
qed

lemma my_closure_cong: "tc_id c = tc_id c' \<Longrightarrow> my_closure c = my_closure c'"
  by (simp add: my_closure_def fun_eq_iff split: closure.split)

definition closed_file :: "world \<Rightarrow> conn_event list" where
  "closed_file w = (if fileFd (conn w) \<ge> 0 then [CloseFile (fileFd (conn w))] else [])"

lemma sys_bytes_closed_file [simp]: "sys_bytes (closed_file w) = []"
  by (simp add: closed_file_def)

lemma handleClose_result:
  assumes inv: "conn_inv E w" and "open": "conn_open w"
  shows "\<exists>w1. TcpConnection_handleClose cbs w = invoke (closeCallback cbs) CallClose w1 \<and>
    conn_inv E w1 \<and> evolves w w1 \<and> released E w1 \<and> trace w1 = trace w @ closed_file w \<and>
    unsent w1 = unsent w \<and> accepted w1 = accepted w \<and>
    channel_isWriting w1 = channel_isWriting w \<and> channel_isReading w1 = channel_isReading w \<and>
    (\<forall>r. fresh_timer r (tq w) \<longrightarrow> fresh_timer r (tq w1)) \<and> posted w1 = posted w \<and>
    readBuffer (conn w1) = readBuffer (conn w)"
proof -
  have ok: "conn_ok E w" and own: "conn_owns E w" and flags: "conn_flags w" and stream: "conn_stream w"
    using inv by (simp_all add: conn_inv_def)
  have "conn_ok E (setState kDisConnected w)" using ok by (simp add: conn_ok_def setState_def on_conn_def)
  then obtain p where p: "on_channel Channel_remove (setState kDisConnected w) =
      Inr ((setState kDisConnected w)\<lparr>poll_of := p\<rparr>)"
    "conn_ok E ((setState kDisConnected w)\<lparr>poll_of := p\<rparr>)" "\<not> registered (tc_channel (conn w)) p"
    "channel_isWriting ((setState kDisConnected w)\<lparr>poll_of := p\<rparr>) = channel_isWriting (setState kDisConnected w)"
    "channel_isReading ((setState kDisConnected w)\<lparr>poll_of := p\<rparr>) = channel_isReading (setState kDisConnected w)"
    by (rule channel_remove_ok) (auto simp: setState_def on_conn_def intro: that)
  define w2 where "w2 = w\<lparr>poll_of := p, trace := trace w @ closed_file w,
    conn := (conn w)\<lparr>tc_state := kDisConnected, fileFd := min (-1) (fileFd (conn w)), fileSentOffset := 0, fileTotalSize := 0,
      sendingFile := False\<rparr>\<rparr>"
  have "conn_owns E w2" using own
    by (simp add: conn_owns_def w2_def ts.owned_def my_closure_def timer_slot_def split: closure.splits)
  moreover have ok2: "in_thread w2" "TimerQueue_inv E (tq w2)" using ok by (simp_all add: conn_ok_def w2_def)
  ultimately obtain q j where q: "rbind (TcpConnection_cancelIdle w2) TcpConnection_cancelPending =
      Inr (w2\<lparr>tq := q, conn := (conn w2)\<lparr>idleTimerId := j, pendingRetrans := []\<rparr>\<rparr>)"
    "TimerQueue_inv E q" "\<not> TimerId_valid j"
    "\<forall>i f. timers_live E q i = Some f \<longrightarrow> \<not> my_closure (conn w2) f"
    "\<forall>r. fresh_timer r (tq w2) \<longrightarrow> fresh_timer r q"
    using cancel_all_ok by blast
  define w3 where "w3 = w2\<lparr>tq := q, conn := (conn w2)\<lparr>idleTimerId := j, pendingRetrans := []\<rparr>\<rparr>"
  have "TcpConnection_handleClose cbs w =
      rbind (rbind (TcpConnection_cancelIdle w2) TcpConnection_cancelPending) (invoke (closeCallback cbs) CallClose)"
    using ok "open" p(1)
    by (auto simp: TcpConnection_handleClose_def conn_ok_def Let_def on_conn_def emit_def w2_def setState_def
        closed_file_def rbind_assoc)
  then have "TcpConnection_handleClose cbs w = invoke (closeCallback cbs) CallClose w3"
    using q(1) by (simp add: w3_def)
  moreover have rel: "released E w3"
    using p(3) q my_closure_cong [of "conn w3" "conn w2"]
    by (simp add: released_def w3_def w2_def min_less_iff_disj)
  moreover have "conn_inv E w3"
  proof (rule conn_inv_released)
    show "conn_ok E w3" using p(2) q(2) by (simp add: conn_ok_def w3_def w2_def setState_def on_conn_def)
    show "conn_stream w3" using stream by (simp add: conn_stream_def w3_def w2_def)
    show "released E w3" using rel .
  qed (simp add: w3_def w2_def)
  moreover have "evolves w w3" using "open" by (auto simp: evolves_def w3_def w2_def)
  moreover have "channel_isWriting w3 = channel_isWriting w" "channel_isReading w3 = channel_isReading w"
    using p(4,5)
    by (simp_all add: w3_def w2_def setState_def on_conn_def channel_isWriting_def channel_isReading_def)
  moreover have "\<forall>r. fresh_timer r (tq w) \<longrightarrow> fresh_timer r (tq w3)" using q(5) by (simp add: w3_def w2_def)
  ultimately show ?thesis by (intro exI [of _ w3]) (simp add: w3_def w2_def)
qed

lemma handleClose_ok:
  assumes cbs: "callbacks_ok E cbs" and inv: "conn_inv E w" and st: "state_of w \<noteq> kConnecting"
  shows "goes_ok E w (TcpConnection_handleClose cbs w)"
proof (cases "state_of w = kDisConnected")
  case True
  with inv show ?thesis by (simp add: TcpConnection_handleClose_def goes_ok_def)
next
  case False
  with st have "conn_open w" by (cases "state_of w") auto
  from handleClose_result [OF inv this, of cbs] obtain w1 where
    "TcpConnection_handleClose cbs w = invoke (closeCallback cbs) CallClose w1" "conn_inv E w1" "evolves w w1"
    by blast
  moreover have "cb_ok E (closeCallback cbs)" using cbs by (simp add: callbacks_ok_def)
  ultimately show ?thesis by (metis invoke_ok goes_ok_from conn_event.distinct)
qed

lemma handleError_ok:
  "callbacks_ok E cbs \<Longrightarrow> conn_inv E w \<Longrightarrow> state_of w \<noteq> kConnecting \<Longrightarrow>
    goes_ok E w (TcpConnection_handleError cbs w)"
  by (simp add: TcpConnection_handleError_def handleClose_ok)

lemma shutdownInLoop_ok:
  assumes "callbacks_ok E cbs" and "conn_inv E w" and "state_of w \<noteq> kConnecting"
  shows "goes_ok E w (TcpConnection_shutdownInLoop cbs w)"
proof -
  have "goes_ok E (emit ShutdownWrite w) (TcpConnection_handleClose cbs (emit ShutdownWrite w))"
    using assms by (intro handleClose_ok) simp_all
  then show ?thesis using assms
    by (auto simp: TcpConnection_shutdownInLoop_def intro: goes_ok_from goes_ok_Inr)
qed

lemma forceCloseInLoop_ok:
  assumes "callbacks_ok E cbs" and "conn_inv E w"
  shows "goes_ok E w (TcpConnection_forceCloseInLoop cbs w)"
  using assms by (auto simp: TcpConnection_forceCloseInLoop_def intro: handleClose_ok goes_ok_Inr)

lemma onIdleTimeout_ok:
  assumes "callbacks_ok E cbs" and "conn_inv E w"
  shows "goes_ok E w (TcpConnection_onIdleTimeout cbs w)"
  using assms by (simp add: TcpConnection_onIdleTimeout_def forceCloseInLoop_ok)

section \<open>Sending keeps the byte stream\<close>

text \<open>The invariant of an open connection but for its write interest, which the operations then set.\<close>

definition but_writing :: "addr set \<Rightarrow> world \<Rightarrow> bool" where
  "but_writing E w \<longleftrightarrow>
    conn_ok E w \<and> conn_owns E w \<and> conn_stream w \<and> conn_open w \<and> channel_isReading w \<and>
    registered (tc_channel (conn w)) (poll_of w) \<and> (sendingFile (conn w) = (fileFd (conn w) \<ge> 0))"

lemma conn_inv_open:
  assumes "conn_open w"
  shows "conn_inv E w \<longleftrightarrow> but_writing E w \<and> channel_isWriting w = (unsent w \<noteq> [] \<or> sendingFile (conn w))"
  using assms by (auto simp: conn_inv_def conn_flags_def but_writing_def)

lemma but_writing_poll:
  "conn_ok E (w\<lparr>poll_of := p\<rparr>) \<Longrightarrow> registered (tc_channel (conn w)) p \<Longrightarrow>
    channel_isReading (w\<lparr>poll_of := p\<rparr>) = channel_isReading w \<Longrightarrow> but_writing E w \<Longrightarrow>
    but_writing E (w\<lparr>poll_of := p\<rparr>)"
  by (simp add: but_writing_def conn_owns_def conn_stream_def)

lemma start_writing:
  assumes pre: "but_writing E w" and todo: "unsent w \<noteq> [] \<or> sendingFile (conn w)"
  obtains p where "on_channel Channel_enableWriting w = Inr (w\<lparr>poll_of := p\<rparr>)"
    and "conn_inv E (w\<lparr>poll_of := p\<rparr>)"
proof -
  have "conn_ok E w" and "conn_open w" using pre by (simp_all add: but_writing_def)
  from enableWriting_ok [OF this(1)] obtain p where p:
    "on_channel Channel_enableWriting w = Inr (w\<lparr>poll_of := p\<rparr>)" "conn_ok E (w\<lparr>poll_of := p\<rparr>)"
    "channel_isWriting (w\<lparr>poll_of := p\<rparr>)" "registered (tc_channel (conn w)) p"
    "channel_isReading (w\<lparr>poll_of := p\<rparr>) = channel_isReading w" by blast
  with pre todo \<open>conn_open w\<close> have "conn_inv E (w\<lparr>poll_of := p\<rparr>)"
    by (simp add: conn_inv_open but_writing_poll)
  with p(1) show ?thesis by (rule that)
qed

lemma stop_writing:
  assumes pre: "but_writing E w" and "done": "unsent w = []" "\<not> sendingFile (conn w)"
  obtains p where "on_channel Channel_disableWriting w = Inr (w\<lparr>poll_of := p\<rparr>)"
    and "conn_inv E (w\<lparr>poll_of := p\<rparr>)"
proof -
  have "conn_ok E w" and "conn_open w" and "channel_isReading w" using pre by (simp_all add: but_writing_def)
  with disableWriting_ok [OF this(1)] obtain p where p:
    "on_channel Channel_disableWriting w = Inr (w\<lparr>poll_of := p\<rparr>)" "conn_ok E (w\<lparr>poll_of := p\<rparr>)"
    "\<not> channel_isWriting (w\<lparr>poll_of := p\<rparr>)" "registered (tc_channel (conn w)) p"
    "channel_isReading (w\<lparr>poll_of := p\<rparr>) = channel_isReading w" by blast
  with pre "done" \<open>conn_open w\<close> have "conn_inv E (w\<lparr>poll_of := p\<rparr>)"
    by (simp add: conn_inv_open but_writing_poll)
  with p(1) show ?thesis by (rule that)
qed

lemma buffer_on_conn [simp]:
  "in_thread (on_conn f w) = in_thread w" "poll_of (on_conn f w) = poll_of w" "tq (on_conn f w) = tq w"
  "trace (on_conn f w) = trace w" "accepted (on_conn f w) = accepted w" "conn (on_conn f w) = f (conn w)"
  by (simp_all add: on_conn_def)

lemma accepted_fields [simp]:
  "channel_isWriting (w\<lparr>accepted := x\<rparr>) = channel_isWriting w"
  "channel_isReading (w\<lparr>accepted := x\<rparr>) = channel_isReading w"
  "conn (w\<lparr>accepted := x\<rparr>) = conn w"
  by (simp_all add: channel_isWriting_def channel_isReading_def)

lemma on_conn_buffer [simp]:
  "channel_isWriting (on_conn (\<lambda>c. c\<lparr>writeBuffer := b\<rparr>) w) = channel_isWriting w"
  "channel_isReading (on_conn (\<lambda>c. c\<lparr>writeBuffer := b\<rparr>) w) = channel_isReading w"
  "conn_owns E (on_conn (\<lambda>c. c\<lparr>writeBuffer := b\<rparr>) w) = conn_owns E w"
  "evolves w (on_conn (\<lambda>c. c\<lparr>writeBuffer := b\<rparr>) w)"
  by (simp_all add: channel_isWriting_def channel_isReading_def conn_owns_def ts.owned_def my_closure_def
      timer_slot_def evolves_def cong: closure.case_cong split: closure.splits)

text \<open>A new content of the write buffer, with the bytes it lost already in the trace.\<close>

lemma but_writing_buffer:
  assumes "but_writing E w0" and "conn w = conn w0" and "poll_of w = poll_of w0" and "tq w = tq w0"
    and "in_thread w = in_thread w0" and "Buffer_inv b"
    and "sys_bytes (trace w) @ Buffer_content b = accepted w"
  shows "but_writing E (on_conn (\<lambda>c. c\<lparr>writeBuffer := b\<rparr>) w)"
proof -
  have "channel_isReading w" "conn_owns E w"
    using assms by (simp_all add: but_writing_def channel_isReading_def conn_owns_def)
  with assms show ?thesis by (simp add: but_writing_def conn_ok_def conn_stream_def)
qed

lemma readable_iff: "conn_ok E w \<Longrightarrow> Buffer_readableBytes (writeBuffer (conn w)) = 0 \<longleftrightarrow> unsent w = []"
  by (simp add: conn_ok_def readable_zero_iff)

text \<open>The part of \<open>sendInLoop\<close> that keeps the bytes the kernel did not take.\<close>

lemma keep_rest:
  assumes pre: "but_writing E w0" and eqs: "conn w = conn w0" "poll_of w = poll_of w0" "tq w = tq w0"
    "in_thread w = in_thread w0"
    and stream: "sys_bytes (trace w) @ unsent w @ rest = accepted w" and rest: "rest \<noteq> []"
    and wr: "channel_isWriting w0 = (unsent w0 \<noteq> [] \<or> sendingFile (conn w0))"
  shows "\<exists>w'. rbind (Buffer_append rest (writeBuffer (conn w))) (\<lambda>b.
        let w = on_conn (\<lambda>c. c\<lparr>writeBuffer := b\<rparr>) w
        in if \<not> channel_isWriting w then on_channel Channel_enableWriting w else Inr w) = Inr w' \<and>
      conn_inv E w' \<and> evolves w w' \<and> conn_ok E w' \<and> unsent w' \<noteq> []"
proof -
  have "Buffer_inv (writeBuffer (conn w))" using pre eqs by (simp add: but_writing_def conn_ok_def)
  from append_ok [OF this] obtain b where b: "Buffer_append rest (writeBuffer (conn w)) = Inr b"
    "Buffer_inv b" "Buffer_content b = unsent w @ rest" by blast
  let ?w = "on_conn (\<lambda>c. c\<lparr>writeBuffer := b\<rparr>) w"
  have bw: "but_writing E ?w" using stream b by (intro but_writing_buffer [OF pre eqs]) simp_all
  have un: "unsent ?w \<noteq> []" using b rest by simp
  show ?thesis
  proof (cases "channel_isWriting ?w")
    case True
    with bw un have "conn_inv E ?w" by (subst conn_inv_open) (auto simp: but_writing_def)
    with True b un show ?thesis by (auto simp: conn_inv_def)
  next
    case False
    from start_writing [OF bw] un obtain p where "on_channel Channel_enableWriting ?w = Inr (?w\<lparr>poll_of := p\<rparr>)"
      "conn_inv E (?w\<lparr>poll_of := p\<rparr>)" by blast
    with False b un show ?thesis by (auto simp: conn_inv_def evolves_def)
  qed
qed

lemma sendInLoop_ok:
  assumes cbs: "callbacks_ok E cbs" and inv: "conn_inv E w" and st: "state_of w \<noteq> kConnecting"
    and sys: "\<And>n. sys = Inr n \<Longrightarrow> n \<le> length data"
  shows "goes_ok E w (TcpConnection_sendInLoop cbs sys data w)"
proof (cases "state_of w = kDisConnected")
  case True
  with inv show ?thesis by (simp add: TcpConnection_sendInLoop_def goes_ok_def)
next
  case False
  with st have op: "conn_open w" by (cases "state_of w") auto
  then have bw: "but_writing E w" and wr: "channel_isWriting w = (unsent w \<noteq> [] \<or> sendingFile (conn w))"
    using inv by (simp_all add: conn_inv_open)
  have ok: "conn_ok E w" and stream: "sys_bytes (trace w) @ unsent w = accepted w"
    using bw by (simp_all add: but_writing_def conn_stream_def)
  define direct where "direct = (\<not> channel_isWriting w \<and> Buffer_readableBytes (writeBuffer (conn w)) = 0)"
  define n where "n = (if direct then (case sys of Inr n \<Rightarrow> n | Inl _ \<Rightarrow> 0) else 0)"
  define w1 where "w1 = (let w = w\<lparr>accepted := accepted w @ data\<rparr>
    in if direct \<and> sys = Inr n then emit (SysWrite (take n data)) w else w)"
  have w1: "conn w1 = conn w" "poll_of w1 = poll_of w" "tq w1 = tq w" "in_thread w1 = in_thread w"
    "accepted w1 = accepted w @ data"
    by (simp_all add: w1_def Let_def)
  have tr: "sys_bytes (trace w1) @ unsent w1 @ drop n data = accepted w1"
    using stream readable_iff [OF ok] sys by (auto simp: w1_def direct_def n_def emit_def Let_def split: sum.split)
  have thr: "in_thread w" using ok by (simp add: conn_ok_def)
  let ?fin = "\<lambda>w. if state_of w = kDisConnecting \<and> Buffer_readableBytes (writeBuffer (conn w)) = 0
    then TcpConnection_shutdownInLoop cbs w else Inr w"
  let ?keep = "rbind (Buffer_append (drop n data) (writeBuffer (conn w1))) (\<lambda>b.
        let w = on_conn (\<lambda>c. c\<lparr>writeBuffer := b\<rparr>) w1
        in if \<not> channel_isWriting w then on_channel Channel_enableWriting w else Inr w)"
  have eq: "TcpConnection_sendInLoop cbs sys data w =
      (if direct \<and> sys = Inr n \<and> n = length data then invoke (writeCompleteCallback cbs) CallWriteComplete w1
       else rbind (if n < length data then ?keep else Inr w1) ?fin)"
    by (simp only: TcpConnection_sendInLoop_def assert_thread_ok [OF thr] rbind_simps False if_False Let_def
        accepted_fields direct_def n_def w1_def conj_assoc)
  have "evolves w w1" using w1 by (simp add: evolves_def)
  have same: "conn_inv E w1" if "drop n data = []"
  proof -
    have "but_writing E w1" "channel_isWriting w1 = channel_isWriting w"
      using bw w1 tr that
      by (simp_all add: but_writing_def conn_ok_def conn_owns_def conn_stream_def channel_isReading_def
          channel_isWriting_def)
    with op wr w1 show ?thesis by (simp add: conn_inv_open)
  qed
  show ?thesis
  proof (cases "n < length data")
    case True
    with keep_rest [OF bw w1(1-4) tr _ wr] obtain w2 where w2: "?keep = Inr w2" "conn_inv E w2"
      "evolves w1 w2" "conn_ok E w2" "unsent w2 \<noteq> []" by auto
    with True have "TcpConnection_sendInLoop cbs sys data w = Inr w2"
      by (simp add: eq readable_iff)
    with w2 \<open>evolves w w1\<close> show ?thesis by (auto simp: goes_ok_def intro: evolves_trans)
  next
    case False
    then have inv1: "conn_inv E w1" by (intro same) simp
    have "goes_ok E w1 (invoke (writeCompleteCallback cbs) CallWriteComplete w1)"
      using cbs inv1 by (intro invoke_ok) (simp_all add: callbacks_ok_def)
    moreover have "goes_ok E w1 (?fin w1)"
      using cbs inv1 by (auto intro: shutdownInLoop_ok goes_ok_Inr)
    ultimately have "goes_ok E w1 (TcpConnection_sendInLoop cbs sys data w)" using False by (simp add: eq)
    then show ?thesis using \<open>evolves w w1\<close> by (rule goes_ok_from)
  qed
qed

lemma send_ok:
  assumes "callbacks_ok E cbs" and "conn_inv E w" and "\<And>n. sys = Inr n \<Longrightarrow> n \<le> length data"
  shows "goes_ok E w (TcpConnection_send cbs sys data w)"
  using assms by (auto simp: TcpConnection_send_def run_or_post_def intro: goes_ok_Inr sendInLoop_ok)

text \<open>File fields: setting them touches neither the stream nor the timers.\<close>

lemma on_conn_file [simp]:
  "channel_isWriting (on_conn (\<lambda>c. c\<lparr>fileFd := a, fileSentOffset := i, fileTotalSize := n, sendingFile := s\<rparr>) w) =
    channel_isWriting w"
  "channel_isWriting (on_conn (\<lambda>c. c\<lparr>fileFd := a, sendingFile := s\<rparr>) w) = channel_isWriting w"
  "channel_isWriting (on_conn (\<lambda>c. c\<lparr>fileSentOffset := fileSentOffset c + k\<rparr>) w) = channel_isWriting w"
  "channel_isReading (on_conn (\<lambda>c. c\<lparr>fileFd := a, fileSentOffset := i, fileTotalSize := n, sendingFile := s\<rparr>) w) =
    channel_isReading w"
  "channel_isReading (on_conn (\<lambda>c. c\<lparr>fileFd := a, sendingFile := s\<rparr>) w) = channel_isReading w"
  "channel_isReading (on_conn (\<lambda>c. c\<lparr>fileSentOffset := fileSentOffset c + k\<rparr>) w) = channel_isReading w"
  by (simp_all add: channel_isWriting_def channel_isReading_def)

lemma conn_owns_cong:
  assumes "tc_id (conn w') = tc_id (conn w)" and "idleTimerId (conn w') = idleTimerId (conn w)"
    and "pendingRetrans (conn w') = pendingRetrans (conn w)" and "tq w' = tq w"
  shows "conn_owns E w' = conn_owns E w"
proof -
  have "timer_slot (conn w') = timer_slot (conn w)"
    using assms by (simp add: timer_slot_def fun_eq_iff split: closure.split nat.split)
  with assms show ?thesis by (simp add: conn_owns_def my_closure_cong [OF assms(1)])
qed

lemma but_writing_cong:
  assumes "but_writing E w" and "in_thread w' = in_thread w" and "poll_of w' = poll_of w" and "tq w' = tq w"
    and "sys_bytes (trace w') = sys_bytes (trace w)" and "accepted w' = accepted w"
    and "tc_id (conn w') = tc_id (conn w)" and "tc_channel (conn w') = tc_channel (conn w)"
    and "tc_fd (conn w') = tc_fd (conn w)" and "state_of w' = state_of w"
    and "writeBuffer (conn w') = writeBuffer (conn w)" and "readBuffer (conn w') = readBuffer (conn w)"
    and "idleTimerId (conn w') = idleTimerId (conn w)" and "pendingRetrans (conn w') = pendingRetrans (conn w)"
    and "sendingFile (conn w') = (fileFd (conn w') \<ge> 0)"
  shows "but_writing E w'"
proof -
  have "conn_owns E w'" using assms conn_owns_cong [of w' w] by (simp add: but_writing_def)
  with assms show ?thesis
    by (simp add: but_writing_def conn_ok_def conn_stream_def channel_isReading_def)
qed

lemma sendFileInLoop_ok:
  assumes cbs: "callbacks_ok E cbs" and inv: "conn_inv E w" and st: "state_of w \<noteq> kConnecting"
    and fd: "\<And>fd. opened = Some fd \<Longrightarrow> fd \<ge> 0"
  shows "goes_ok E w (TcpConnection_sendFileInLoop cbs opened fstat w)"
proof (cases "state_of w = kDisConnected")
  case True
  with inv show ?thesis by (simp add: TcpConnection_sendFileInLoop_def goes_ok_Inr)
next
  case False
  then have op: "conn_open w" using st by (cases "state_of w") auto
  have thr: "in_thread w" using inv by simp
  have force: "goes_ok E w (TcpConnection_forceCloseInLoop cbs w)"
    using cbs inv by (rule forceCloseInLoop_ok)
  have force': "goes_ok E w (TcpConnection_forceCloseInLoop cbs (emit (CloseFile fd) w))" for fd
    by (rule goes_ok_from [OF forceCloseInLoop_ok]) (use cbs inv in simp_all)
  show ?thesis
  proof (cases opened)
    case None
    with False thr force show ?thesis by (simp add: TcpConnection_sendFileInLoop_def)
  next
    case (Some fd)
    show ?thesis
    proof (cases fstat)
      case None
      with Some False thr force' show ?thesis by (simp add: TcpConnection_sendFileInLoop_def)
    next
      case (Some n)
      let ?w = "on_conn (\<lambda>c. c\<lparr>fileFd := fd, fileSentOffset := 0, fileTotalSize := n, sendingFile := True\<rparr>) w"
      have "but_writing E w" using inv op by (simp add: conn_inv_open)
      then have "but_writing E ?w" by (rule but_writing_cong) (simp_all add: fd \<open>opened = Some fd\<close>)
      from start_writing [OF this] obtain p where "on_channel Channel_enableWriting ?w = Inr (?w\<lparr>poll_of := p\<rparr>)"
        "conn_inv E (?w\<lparr>poll_of := p\<rparr>)" by auto
      with Some \<open>opened = Some fd\<close> False thr show ?thesis
        by (simp add: TcpConnection_sendFileInLoop_def goes_ok_def evolves_def)
    qed
  qed
qed

lemma resetIdleTimer_ok:
  assumes "conn_inv E w" and "fresh_timer r (tq w)"
  shows "goes_ok E w (TcpConnection_resetIdleTimer r w)"
proof -
  from resetIdle_ok [OF assms] obtain q j where
    "TcpConnection_resetIdleTimer r w = Inr (w\<lparr>tq := q, conn := (conn w)\<lparr>idleTimerId := j\<rparr>\<rparr>)"
    "conn_inv E (w\<lparr>tq := q, conn := (conn w)\<lparr>idleTimerId := j\<rparr>\<rparr>)" by blast
  then show ?thesis by (simp add: goes_ok_def evolves_def)
qed

lemma established_result:
  assumes inv: "conn_inv E w" and st: "state_of w = kConnecting" and fresh: "fresh_timer r (tq w)"
  shows "\<exists>w1. TcpConnection_connectEstablelished cbs r w = invoke (connectionCallback cbs) CallConnection w1 \<and>
    conn_inv E w1 \<and> evolves w w1 \<and> state_of w1 = kConnected \<and>
    live_timers E w1 (idleTimerId (conn w1)) = Some (idle_closure (conn w1)) \<and> trace w1 = trace w \<and>
    posted w1 = posted w"
proof -
  have ok: "conn_ok E w" using inv by (simp add: conn_inv_def)
  have thr: "in_thread w" using inv by (rule conn_inv_thread)
  from enableReading_ok [OF ok] obtain p where p: "on_channel Channel_enableReading w = Inr (w\<lparr>poll_of := p\<rparr>)"
    "conn_ok E (w\<lparr>poll_of := p\<rparr>)" "registered (tc_channel (conn w)) p" "channel_isReading (w\<lparr>poll_of := p\<rparr>)"
    "channel_isWriting (w\<lparr>poll_of := p\<rparr>) = channel_isWriting w" by blast
  let ?w = "setState kConnected (w\<lparr>poll_of := p\<rparr>)"
  have cong: "channel_isReading ?w = channel_isReading (w\<lparr>poll_of := p\<rparr>)"
    "channel_isWriting ?w = channel_isWriting (w\<lparr>poll_of := p\<rparr>)"
    by (simp_all add: setState_def channel_isReading_def channel_isWriting_def)
  have owns: "conn_owns E ?w = conn_owns E w" by (rule conn_owns_cong) (simp_all add: setState_def)
  have "conn_ok E ?w" using p(2) by (simp add: setState_def conn_ok_def)
  moreover have "conn_flags w" "conn_owns E w" "conn_stream w" using inv by (simp_all add: conn_inv_def)
  ultimately have inv': "conn_inv E ?w" using st p(3-5) cong owns
    by (auto simp: conn_inv_def conn_flags_def conn_stream_def setState_def)
  have "fresh_timer r (tq ?w)" using fresh by (simp add: setState_def)
  from resetIdle_ok [OF inv' this] obtain q j where
    "TcpConnection_resetIdleTimer r ?w = Inr (?w\<lparr>tq := q, conn := (conn ?w)\<lparr>idleTimerId := j\<rparr>\<rparr>)"
    "conn_inv E (?w\<lparr>tq := q, conn := (conn ?w)\<lparr>idleTimerId := j\<rparr>\<rparr>)"
    "timers_live E q j = Some (idle_closure (conn ?w))" by blast
  with p(1) st thr show ?thesis
    by (intro exI [of _ "?w\<lparr>tq := q, conn := (conn ?w)\<lparr>idleTimerId := j\<rparr>\<rparr>"])
      (simp add: TcpConnection_connectEstablelished_def evolves_def setState_def idle_closure_def on_conn_def)
qed

lemma connectEstablelished_ok:
  assumes cbs: "callbacks_ok E cbs" and inv: "conn_inv E w" and st: "state_of w = kConnecting"
    and fresh: "fresh_timer r (tq w)"
  shows "goes_ok E w (TcpConnection_connectEstablelished cbs r w)"
proof -
  from established_result [OF inv st fresh] obtain w1 where
    "TcpConnection_connectEstablelished cbs r w = invoke (connectionCallback cbs) CallConnection w1"
    "conn_inv E w1" "evolves w w1" by blast
  then show ?thesis using cbs
    by (metis invoke_ok goes_ok_from callbacks_ok_def conn_event.distinct)
qed

section \<open>Events keep the invariant\<close>

lemma conn_inv_read:
  assumes "conn_inv E w" and "Buffer_inv b"
  shows "conn_inv E (on_conn (\<lambda>c. c\<lparr>readBuffer := b\<rparr>) w)"
proof -
  let ?w = "on_conn (\<lambda>c. c\<lparr>readBuffer := b\<rparr>) w"
  have "channel_isWriting ?w = channel_isWriting w" "channel_isReading ?w = channel_isReading w"
    by (simp_all add: channel_isWriting_def channel_isReading_def)
  moreover have "conn_owns E ?w = conn_owns E w" by (rule conn_owns_cong) simp_all
  ultimately show ?thesis using assms
    by (auto simp: conn_inv_def conn_ok_def conn_flags_def conn_stream_def)
qed

lemma readFd_any:
  assumes "Buffer_inv a"
  obtains n b where "Buffer_readFd sys a = Inr (n, b)" and "Buffer_inv b"
proof (cases sys)
  case (Inl e)
  with assms show ?thesis by (intro that [of "Inl e" a]) (simp_all add: Buffer_readFd_def)
next
  case (Inr d)
  from readFd_ok [OF assms, of d] Inr that show ?thesis by blast
qed

lemma handleRead_ok:
  assumes cbs: "callbacks_ok E cbs" and inv: "conn_inv E w" and st: "state_of w \<noteq> kConnecting"
    and fresh: "fresh_timer r (tq w)"
  shows "goes_ok E w (TcpConnection_handleRead cbs sys t r w)"
proof -
  have thr: "in_thread w" and ok: "Buffer_inv (readBuffer (conn w))"
    using inv by (simp_all add: conn_inv_def conn_ok_def)
  obtain n b where b: "Buffer_readFd sys (readBuffer (conn w)) = Inr (n, b)" "Buffer_inv b" by (rule readFd_any [OF ok])
  let ?w = "on_conn (\<lambda>c. c\<lparr>readBuffer := b\<rparr>) w"
  have inv': "conn_inv E ?w" using inv b(2) by (rule conn_inv_read)
  have "goes_ok E ?w (rbind (TcpConnection_resetIdleTimer r ?w)
      (invoke (map_option (\<lambda>f. f t) (messageCallback cbs)) CallMessage))"
    using cbs inv' fresh
    by (intro goes_ok_bind resetIdleTimer_ok goes_ok_from [OF invoke_ok]) (simp_all add: callbacks_ok_def)
  moreover have "goes_ok E ?w (TcpConnection_handleClose cbs ?w)" "goes_ok E ?w (TcpConnection_handleError cbs ?w)"
    using cbs inv' st by (auto intro: handleClose_ok handleError_ok)
  moreover have "goes_ok E ?w (Inr ?w)" using inv' by (simp add: goes_ok_Inr)
  ultimately have "goes_ok E ?w (TcpConnection_handleRead cbs sys t r w)"
    using b(1) thr by (cases n) (auto simp: TcpConnection_handleRead_def Let_def)
  then show ?thesis by (rule goes_ok_from) (simp add: evolves_def)
qed

lemma emit_write_inv:
  assumes "but_writing E w" and "Buffer_inv b" and "Buffer_content b = drop k (unsent w)"
  shows "but_writing E (emit (SysWrite (take k (unsent w))) (on_conn (\<lambda>c. c\<lparr>writeBuffer := b\<rparr>) w))"
proof -
  have "conn_stream w" using assms(1) by (simp add: but_writing_def)
  then have "but_writing E (on_conn (\<lambda>c. c\<lparr>writeBuffer := b\<rparr>) (emit (SysWrite (take k (unsent w))) w))"
    using assms by (intro but_writing_buffer [of E w]) (simp_all add: conn_stream_def emit_def)
  moreover have "on_conn (\<lambda>c. c\<lparr>writeBuffer := b\<rparr>) (emit ev w) = emit ev (on_conn (\<lambda>c. c\<lparr>writeBuffer := b\<rparr>) w)" for ev
    by (simp add: emit_def on_conn_def)
  ultimately show ?thesis by simp
qed

text \<open>Draining: what is asked of the kernel's answer is that it took no more than it was given.\<close>

lemma handleWrite_drain_ok:
  assumes cbs: "callbacks_ok E cbs" and inv: "conn_inv E w" and op: "conn_open w"
    and sys: "\<And>k. sys = Inr k \<Longrightarrow> k \<le> length (unsent w)"
  shows "\<exists>returned w'. handleWrite_drain cbs sys w = Inr (returned, w') \<and> conn_inv E w' \<and> evolves w w' \<and>
    (returned \<longleftrightarrow> unsent w' \<noteq> [])"
proof (cases "unsent w = []")
  case True
  moreover have "conn_ok E w" using inv by (simp add: conn_inv_def)
  ultimately show ?thesis using inv readable_iff [of E w] by (auto simp: handleWrite_drain_def)
next
  case False
  have bw: "but_writing E w" using inv op by (simp add: conn_inv_open)
  then have ok: "conn_ok E w" and bok: "Buffer_inv (writeBuffer (conn w))"
    by (simp_all add: but_writing_def conn_ok_def)
  have pos: "Buffer_readableBytes (writeBuffer (conn w)) > 0" using False readable_iff [OF ok] by simp
  have fin: "\<exists>returned w'. rbind m (\<lambda>w. Inr (Buffer_readableBytes (writeBuffer (conn w)) > 0, w)) = Inr (returned, w') \<and>
      conn_inv E w' \<and> evolves w w' \<and> (returned \<longleftrightarrow> unsent w' \<noteq> [])" if m: "goes_ok E w m" for m
  proof -
    from m obtain w' where "m = Inr w'" "conn_inv E w'" "evolves w w'" by (auto simp: goes_ok_def)
    moreover from this have "conn_ok E w'" by (simp add: conn_inv_def)
    ultimately show ?thesis using readable_iff [of E w'] by auto
  qed
  show ?thesis
  proof (cases sys)
    case (Inl e)
    have same: "on_conn (\<lambda>c. c\<lparr>writeBuffer := writeBuffer (conn w)\<rparr>) w = w" by (simp add: on_conn_def)
    have "goes_ok E w (if e \<noteq> EAGAIN then TcpConnection_handleError cbs w else Inr w)"
      using cbs inv op by (auto intro: handleError_ok goes_ok_Inr)
    then have g: "goes_ok E w (if e \<noteq> EAGAIN then TcpConnection_handleError cbs w else Inr w)" .
    have "handleWrite_drain cbs sys w =
      rbind (if e \<noteq> EAGAIN then TcpConnection_handleError cbs w else Inr w)
        (\<lambda>w. Inr (Buffer_readableBytes (writeBuffer (conn w)) > 0, w))"
      using Inl pos same by (simp add: handleWrite_drain_def Buffer_WriteFd_def Let_def)
    then show ?thesis using fin [OF g] by (simp only:)
  next
    case (Inr k)
    then have k: "k \<le> Buffer_readableBytes (writeBuffer (conn w))" using sys bok by simp
    from WriteFd_ok [OF bok this] obtain b where b: "Buffer_WriteFd (Inr k) (writeBuffer (conn w)) = Inr (Inr k, b)"
      "Buffer_inv b" "Buffer_content b = drop k (unsent w)" by blast
    let ?w = "on_conn (\<lambda>c. c\<lparr>writeBuffer := b\<rparr>) w"
    let ?e = "emit (SysWrite (take k (unsent w))) ?w"
    have e: "conn ?e = (conn w)\<lparr>writeBuffer := b\<rparr>" "channel_isWriting ?e = channel_isWriting w" by simp_all
    have bwe: "but_writing E ?e" using bw b by (intro emit_write_inv)
    have ope: "conn_open ?e" using op by simp
    have zero: "Buffer_readableBytes b = 0 \<longleftrightarrow> Buffer_content b = []" using b by (simp add: readable_zero_iff)
    let ?m1 = "if Buffer_readableBytes b = 0 \<and> \<not> sendingFile (conn ?w)
      then on_channel Channel_disableWriting ?e else Inr ?e"
    have m1: "goes_ok E w ?m1"
    proof (cases "Buffer_content b = [] \<and> \<not> sendingFile (conn w)")
      case True
      with stop_writing [OF bwe] obtain p where "on_channel Channel_disableWriting ?e = Inr (?e\<lparr>poll_of := p\<rparr>)"
        "conn_inv E (?e\<lparr>poll_of := p\<rparr>)" by auto
      with True zero show ?thesis by (simp add: goes_ok_def evolves_def)
    next
      case False
      have "channel_isWriting w" using inv op \<open>unsent w \<noteq> []\<close> by (simp add: conn_inv_open)
      with False bwe ope e have "conn_inv E ?e" by (subst conn_inv_open) auto
      with False zero show ?thesis by (auto simp: goes_ok_def evolves_def)
    qed
    have m2: "goes_ok E w (rbind ?m1 (invoke (writeCompleteCallback cbs) CallWriteComplete))"
      using m1 by (rule goes_ok_bind) (use cbs in \<open>auto simp: callbacks_ok_def intro: invoke_ok\<close>)
    have m0: "goes_ok E w (TcpConnection_handleError cbs ?w)" if "k = 0"
    proof -
      have "but_writing E ?w" using bw b that
        by (intro but_writing_buffer [of E w]) (simp_all add: but_writing_def conn_stream_def)
      moreover have "channel_isWriting w = (unsent w \<noteq> [] \<or> sendingFile (conn w))"
        using inv op by (simp add: conn_inv_open)
      ultimately have "conn_inv E ?w" using ope b(3) that by (subst conn_inv_open) auto
      then have "goes_ok E ?w (TcpConnection_handleError cbs ?w)" using cbs op by (intro handleError_ok) auto
      then show ?thesis by (rule goes_ok_from) simp
    qed
    let ?m = "if k > 0 then rbind ?m1 (invoke (writeCompleteCallback cbs) CallWriteComplete)
             else TcpConnection_handleError cbs ?w"
    have "goes_ok E w ?m" using m0 m2 by (cases "k > 0") simp_all
    note G = fin [OF this]
    have "handleWrite_drain cbs sys w =
      rbind (if k > 0 then rbind ?m1 (invoke (writeCompleteCallback cbs) CallWriteComplete)
             else TcpConnection_handleError cbs ?w)
        (\<lambda>w. Inr (Buffer_readableBytes (writeBuffer (conn w)) > 0, w))"
      using pos b Inl_not_Inr Inr by (simp add: handleWrite_drain_def Let_def)
    then show ?thesis using G by (simp only:)
  qed
qed

lemma handleWrite_file_ok:
  assumes cbs: "callbacks_ok E cbs" and inv: "conn_inv E w" and sending: "sendingFile (conn w)"
    and drained: "unsent w = []"
  shows "goes_ok E w (handleWrite_file cbs sys w)"
proof -
  have flags: "conn_flags w" using inv by (simp add: conn_inv_def)
  have op: "conn_open w" using flags sending by (cases "state_of w") (simp_all add: conn_flags_def)
  then have bw: "but_writing E w" using inv by (simp add: conn_inv_open)
  define w1 where "w1 sent = on_conn (\<lambda>c. c\<lparr>fileSentOffset := fileSentOffset c + sent\<rparr>)
    (emit (SendFile (fileSentOffset (conn w)) sent) w)" for sent
  define stop where "stop v = on_conn (\<lambda>c. c\<lparr>fileFd := -1, sendingFile := False\<rparr>)
    (emit (CloseFile (fileFd (conn v))) v)" for v
  have bw1: "but_writing E (w1 sent)" for sent
    using bw by (rule but_writing_cong) (use flags in \<open>simp_all add: w1_def emit_def conn_flags_def\<close>)
  have inv1: "conn_inv E (w1 sent)" for sent
    using bw1 [of sent] inv op sending
    by (subst conn_inv_open) (simp_all add: w1_def conn_inv_open)
  have stopped: "goes_ok E v (rbind (on_channel Channel_disableWriting (stop v)) f)"
    if v: "but_writing E v" "unsent v = []"
      and f: "\<And>v'. conn_inv E v' \<Longrightarrow> evolves v v' \<Longrightarrow> goes_ok E v' (f v')" for v f
  proof -
    have "but_writing E (stop v)" using v(1) by (rule but_writing_cong) (simp_all add: stop_def emit_def)
    from stop_writing [OF this] v(2) obtain p where
      "on_channel Channel_disableWriting (stop v) = Inr ((stop v)\<lparr>poll_of := p\<rparr>)"
      "conn_inv E ((stop v)\<lparr>poll_of := p\<rparr>)" by (auto simp: stop_def)
    then have "goes_ok E v (on_channel Channel_disableWriting (stop v))"
      by (simp add: goes_ok_def evolves_def stop_def)
    then show ?thesis using f by (rule goes_ok_bind)
  qed
  show ?thesis
  proof (cases sys)
    case (Inl e)
    have "goes_ok E w (rbind (on_channel Channel_disableWriting (stop w)) (TcpConnection_handleError cbs))"
      using cbs op by (intro stopped [OF bw drained] handleError_ok) (auto simp: evolves_def)
    with Inl inv show ?thesis by (auto simp: handleWrite_file_def stop_def intro: goes_ok_Inr)
  next
    case (Inr sent)
    have "goes_ok E (w1 sent) (rbind (on_channel Channel_disableWriting (stop (w1 sent)))
        (invoke (writeCompleteCallback cbs) CallWriteComplete))"
      using cbs drained
      by (intro stopped [OF bw1] invoke_ok) (simp_all add: w1_def callbacks_ok_def)
    moreover have "goes_ok E (w1 sent) (Inr (w1 sent))" using inv1 by (simp add: goes_ok_Inr)
    moreover have "evolves w (w1 sent)" by (simp add: evolves_def w1_def)
    ultimately show ?thesis using Inr inv
      by (auto simp: handleWrite_file_def Let_def stop_def w1_def intro: goes_ok_from goes_ok_Inr)
  qed
qed

lemma handleWrite_rest_drained:
  assumes "conn_ok E w" and "unsent w = []"
  shows "handleWrite_rest cbs sys w = Inr w"
  using assms readable_iff [of E w] by (simp add: handleWrite_rest_def)

text \<open>
  \<open>handleWrite\<close> from an open connection. The third phase, which would finish a shutdown once the buffer is
  empty, is never entered: after \<open>drain\<close> either \<open>handleWrite\<close> has returned or the buffer is empty.
\<close>

lemma handleWrite_phases:
  assumes cbs: "callbacks_ok E cbs" and inv: "conn_inv E w" and op: "conn_open w"
    and writing: "channel_isWriting w" and fresh: "fresh_timer r (tq w)"
    and sys: "\<And>k. sys = Inr k \<Longrightarrow> k \<le> length (unsent w)"
  shows "\<exists>w1 returned w2. TcpConnection_resetIdleTimer r w = Inr w1 \<and>
    handleWrite_drain cbs sys w1 = Inr (returned, w2) \<and> conn_inv E w2 \<and> evolves w w2 \<and>
    returned = (unsent w2 \<noteq> []) \<and>
    TcpConnection_handleWrite cbs sys sysf sys' r w =
      (if unsent w2 = [] \<and> sendingFile (conn w2) then handleWrite_file cbs sysf w2 else Inr w2)"
proof -
  from resetIdle_ok [OF inv fresh] obtain q j where
    r: "TcpConnection_resetIdleTimer r w = Inr (w\<lparr>tq := q, conn := (conn w)\<lparr>idleTimerId := j\<rparr>\<rparr>)"
    "conn_inv E (w\<lparr>tq := q, conn := (conn w)\<lparr>idleTimerId := j\<rparr>\<rparr>)" by blast
  let ?w = "w\<lparr>tq := q, conn := (conn w)\<lparr>idleTimerId := j\<rparr>\<rparr>"
  obtain returned w2 where d: "handleWrite_drain cbs sys ?w = Inr (returned, w2)" "conn_inv E w2"
    "evolves ?w w2" "returned \<longleftrightarrow> unsent w2 \<noteq> []"
    using handleWrite_drain_ok [OF cbs r(2), of sys] op sys by auto
  have "evolves w w2" using d(3) by (simp add: evolves_def)
  have fd: "sendingFile (conn w2) \<and> fileFd (conn w2) \<ge> 0 \<longleftrightarrow> sendingFile (conn w2)" and ok: "conn_ok E w2"
    using d(2) by (auto simp: conn_inv_def conn_flags_def)
  have "TcpConnection_handleWrite cbs sys sysf sys' r w =
      (if unsent w2 = [] \<and> sendingFile (conn w2) then handleWrite_file cbs sysf w2 else Inr w2)"
    using inv writing r(1) d(1,4) fd handleWrite_rest_drained [OF ok, of cbs sys']
    by (auto simp: TcpConnection_handleWrite_def)
  with r(1) d \<open>evolves w w2\<close> show ?thesis by blast
qed

lemma handleWrite_ok:
  assumes cbs: "callbacks_ok E cbs" and inv: "conn_inv E w" and st: "state_of w \<noteq> kDisConnected"
    and fresh: "fresh_timer r (tq w)" and sys: "\<And>k. sys = Inr k \<Longrightarrow> k \<le> length (unsent w)"
  shows "goes_ok E w (TcpConnection_handleWrite cbs sys sysf sys' r w)"
proof (cases "channel_isWriting w")
  case False
  with inv show ?thesis by (simp add: TcpConnection_handleWrite_def goes_ok_Inr)
next
  case True
  with inv st have op: "conn_open w"
    by (cases "state_of w") (auto simp: conn_inv_def conn_flags_def)
  from handleWrite_phases [OF cbs inv op True fresh sys] obtain w2 where w2: "conn_inv E w2" "evolves w w2"
    "TcpConnection_handleWrite cbs sys sysf sys' r w =
      (if unsent w2 = [] \<and> sendingFile (conn w2) then handleWrite_file cbs sysf w2 else Inr w2)"
    by blast
  have "goes_ok E w2 (TcpConnection_handleWrite cbs sys sysf sys' r w)"
    using w2 cbs by (auto intro: handleWrite_file_ok goes_ok_Inr)
  then show ?thesis using w2(2) by (rule goes_ok_from)
qed

section \<open>Retransmission\<close>

lemma set_entry_fields [simp]:
  "in_thread (set_entry seq e w) = in_thread w" "poll_of (set_entry seq e w) = poll_of w"
  "tq (set_entry seq e w) = tq w" "trace (set_entry seq e w) = trace w" "accepted (set_entry seq e w) = accepted w"
  "conn (set_entry seq e w) = (conn w)\<lparr>pendingRetrans := mput seq e (pendingRetrans (conn w))\<rparr>"
  "evolves w (set_entry seq e w)"
  by (simp_all add: set_entry_def evolves_def)

lemma set_entry_again [simp]: "set_entry seq e (set_entry seq e' w) = set_entry seq e w"
  by (simp add: set_entry_def on_conn_def)

text \<open>What the invariant needs when only the timer queue and the pending messages change.\<close>

lemma conn_inv_pending:
  assumes inv: "conn_inv E w" and "TimerQueue_inv E q"
    and "conn_owns E (w\<lparr>tq := q, conn := (conn w)\<lparr>pendingRetrans := m\<rparr>\<rparr>)"
  shows "conn_inv E (w\<lparr>tq := q, conn := (conn w)\<lparr>pendingRetrans := m\<rparr>\<rparr>)"
  using assms
  by (auto simp: conn_inv_def conn_ok_def conn_flags_def conn_stream_def channel_isWriting_def
      channel_isReading_def)

lemma owned_pending:
  assumes own: "conn_owns E w" and m: "ordered m" "\<And>n e. mget m n = Some e \<Longrightarrow> re_seq e = n"
    and slots: "\<And>i f. timers_live E q i = Some f \<Longrightarrow> my_closure (conn w) f \<Longrightarrow>
      timer_slot ((conn w)\<lparr>pendingRetrans := m\<rparr>) f = Some i"
  shows "conn_owns E (w\<lparr>tq := q, conn := (conn w)\<lparr>pendingRetrans := m\<rparr>\<rparr>)"
  using m slots my_closure_cong [of "(conn w)\<lparr>pendingRetrans := m\<rparr>" "conn w"]
  by (simp add: conn_owns_def ts.owned_def)

lemma slot_pending:
  "timer_slot (c\<lparr>pendingRetrans := m\<rparr>) (Closure n 0) = timer_slot c (Closure n 0)"
  "timer_slot (c\<lparr>pendingRetrans := m\<rparr>) (Closure n (Suc seq)) = map_option re_timerId (mget m seq)"
  by (simp_all add: timer_slot_def)

lemma set_entry_inv:
  assumes inv: "conn_inv E w" and e: "re_seq e = seq"
    and same: "\<And>e'. mget (pendingRetrans (conn w)) seq = Some e' \<Longrightarrow> re_timerId e' = re_timerId e"
  shows "conn_inv E (set_entry seq e w)"
proof -
  let ?m = "mput seq e (pendingRetrans (conn w))"
  have own: "conn_owns E w" and tq: "TimerQueue_inv E (tq w)" using inv by (simp_all add: conn_inv_def conn_ok_def)
  have "timer_slot ((conn w)\<lparr>pendingRetrans := ?m\<rparr>) f = Some i"
    if "live_timers E w i = Some f" "my_closure (conn w) f" for i f
  proof -
    have old: "timer_slot (conn w) f = Some i" using own that by (auto simp: conn_owns_def dest: ownedD)
    obtain n k where f: "f = Closure n k" by (cases f)
    with old same show ?thesis by (cases k) (auto simp: slot_pending timer_slot_def)
  qed
  with own e have "conn_owns E (w\<lparr>tq := tq w, conn := (conn w)\<lparr>pendingRetrans := ?m\<rparr>\<rparr>)"
    by (intro owned_pending) (auto simp: conn_owns_def ordered_mput split: if_splits)
  from conn_inv_pending [OF inv tq this] show ?thesis by (simp add: set_entry_def on_conn_def)
qed

definition retransmit_delay :: "(nat \<Rightarrow> nat) \<Rightarrow> retransmit_entry \<Rightarrow> nat" where
  "retransmit_delay draw e = caculate_backoff_jitter kBaseTimeout (re_retries e) kMaxTimeout draw"

lemma resetRetransmit_result:
  assumes inv: "conn_inv E w" and e: "mget (pendingRetrans (conn w)) seq = Some e"
    and fresh: "fresh_timer r (tq w)"
  shows "\<exists>q i. TcpConnection_resetRetransmitTimer draw r seq w =
      Inr (set_entry seq (e\<lparr>re_timerId := i\<rparr>) (w\<lparr>tq := q\<rparr>)) \<and>
    conn_inv E (set_entry seq (e\<lparr>re_timerId := i\<rparr>) (w\<lparr>tq := q\<rparr>)) \<and> TimerId_valid i \<and>
    timers_live E q i = Some (retransmit_closure (conn w) seq)"
proof -
  let ?r = "r\<lparr>rq_delay := of_nat (retransmit_delay draw e) / 1000\<rparr>" and ?f = "retransmit_closure (conn w) seq"
  let ?t = "re_timerId e"
  have thr: "in_thread w" and own: "conn_owns E w" and tq: "TimerQueue_inv E (tq w)"
    using inv by (simp_all add: conn_inv_def conn_ok_def)
  have seq: "re_seq e = seq" using own e by (simp add: conn_owns_def)
  have "fresh_timer ?r (tq w)" using fresh by (simp add: fresh_timer_def)
  from ts.rearm_ok [OF tq this, of ?t ?f] obtain i q where
    q: "rbind (ts.drop ?t (tq w)) (loop_add ?r ?f) = Inr (i, q)" "TimerQueue_inv E q" "TimerId_valid i"
    "timers_live E q = (live_timers E w)(?t := None, i \<mapsto> ?f)" "live_timers E w i = None \<or> i = ?t"
    by blast
  let ?m = "mput seq (e\<lparr>re_timerId := i\<rparr>) (pendingRetrans (conn w))"
  obtain q1 where q1: "ts.drop ?t (tq w) = Inr q1" "loop_add ?r ?f q1 = Inr (i, q)"
    using q(1) by (auto elim: rbind_InrE)
  have "TcpConnection_resetRetransmitTimer draw r seq w = Inr (set_entry seq (e\<lparr>re_timerId := i\<rparr>) (w\<lparr>tq := q\<rparr>))"
  proof (cases "TimerId_valid ?t")
    case True
    with q1 thr seq e show ?thesis
      by (simp add: TcpConnection_resetRetransmitTimer_def conn_cancel_loop conn_runAfter_loop ts.drop_def
          retransmit_delay_def set_entry_def on_conn_def retransmit_closure_def)
  next
    case False
    with q1 thr seq e show ?thesis
      by (simp add: TcpConnection_resetRetransmitTimer_def conn_runAfter_loop ts.drop_def retransmit_delay_def
          set_entry_def on_conn_def retransmit_closure_def)
  qed
  moreover have "timer_slot ((conn w)\<lparr>pendingRetrans := ?m\<rparr>) f = Some i'"
    if live: "timers_live E q i' = Some f" and my: "my_closure (conn w) f" for i' f
  proof (cases "i' = i")
    case True
    with live q(4) have "f = ?f" by simp
    with True show ?thesis by (simp add: retransmit_closure_def slot_pending)
  next
    case False
    with live q(4) have old: "live_timers E w i' = Some f" and i': "i' \<noteq> ?t" by (auto split: if_splits)
    have slot: "timer_slot (conn w) f = Some i'" using own old my by (auto simp: conn_owns_def dest: ownedD)
    obtain n k where "f = Closure n k" by (cases f)
    with slot i' e show ?thesis by (cases k) (auto simp: slot_pending timer_slot_def)
  qed
  with own seq have "conn_owns E (w\<lparr>tq := q, conn := (conn w)\<lparr>pendingRetrans := ?m\<rparr>\<rparr>)"
    by (intro owned_pending) (auto simp: conn_owns_def ordered_mput split: if_splits)
  from conn_inv_pending [OF inv q(2) this] have "conn_inv E (set_entry seq (e\<lparr>re_timerId := i\<rparr>) (w\<lparr>tq := q\<rparr>))"
    by (simp add: set_entry_def on_conn_def)
  ultimately show ?thesis using q(3,4) by (intro exI [of _ q] exI [of _ i]) simp
qed

lemma resetRetransmitTimer_ok:
  assumes "conn_inv E w" and "mget (pendingRetrans (conn w)) seq = Some e" and "fresh_timer r (tq w)"
  shows "goes_ok E w (TcpConnection_resetRetransmitTimer draw r seq w)"
proof -
  have "evolves w (set_entry seq e' (w\<lparr>tq := q\<rparr>))" for e' q by (simp add: evolves_def)
  with resetRetransmit_result [OF assms, of draw] show ?thesis by (auto simp: goes_ok_def)
qed

text \<open>\<open>SendFunc\<close>: the sequence number must not be pending already.\<close>

lemma SendFunc_ok:
  assumes cbs: "callbacks_ok E cbs" and inv: "conn_inv E w"
    and sys: "\<And>n. sys = Inr n \<Longrightarrow> n \<le> length data"
    and free: "\<And>w'. TcpConnection_send cbs sys data w = Inr w' \<Longrightarrow>
      mget (pendingRetrans (conn w')) seq = None \<and> fresh_timer r (tq w')"
  shows "goes_ok E w (TcpConnection_SendFunc cbs sys draw r data seq w)"
proof -
  from send_ok [OF cbs inv sys] obtain w1 where w1: "TcpConnection_send cbs sys data w = Inr w1"
    "conn_inv E w1" "evolves w w1" by (auto simp: goes_ok_def)
  let ?e = "\<lparr>re_seq = seq, re_data = data, re_retries = 0, re_timerId = TimerId_null\<rparr>"
  have "conn_inv E (set_entry seq ?e w1)" using w1(2) free [OF w1(1)] by (intro set_entry_inv) auto
  then have "goes_ok E (set_entry seq ?e w1) (TcpConnection_resetRetransmitTimer draw r seq (set_entry seq ?e w1))"
    using free [OF w1(1)] by (intro resetRetransmitTimer_ok [where e = ?e]) auto
  moreover have "evolves w (set_entry seq ?e w1)" using w1(3) by (simp add: evolves_def)
  ultimately show ?thesis using w1(1) by (auto simp: TcpConnection_SendFunc_def intro: goes_ok_from)
qed

text \<open>Forgetting a message whose timer is no longer registered.\<close>

lemma forget_ok:
  assumes inv: "conn_inv E w" and tq: "TimerQueue_inv E q"
    and live: "\<And>i f. timers_live E q i = Some f \<Longrightarrow>
      live_timers E w i = Some f \<and> f \<noteq> retransmit_closure (conn w) seq"
  shows "conn_inv E (w\<lparr>tq := q, conn := (conn w)\<lparr>pendingRetrans := mdel seq (pendingRetrans (conn w))\<rparr>\<rparr>)"
proof -
  let ?m = "mdel seq (pendingRetrans (conn w))"
  have own: "conn_owns E w" using inv by (simp add: conn_inv_def)
  then have ord: "ordered (pendingRetrans (conn w))" by (simp add: conn_owns_def)
  have "timer_slot ((conn w)\<lparr>pendingRetrans := ?m\<rparr>) f = Some i"
    if l: "timers_live E q i = Some f" and my: "my_closure (conn w) f" for i f
  proof -
    have old: "timer_slot (conn w) f = Some i" using own live [OF l] my by (auto simp: conn_owns_def dest: ownedD)
    obtain n k where f: "f = Closure n k" by (cases f)
    with my have n: "n = tc_id (conn w)" by (simp add: my_closure_def)
    show ?thesis
    proof (cases k)
      case 0
      with old f show ?thesis by (simp add: slot_pending)
    next
      case (Suc m)
      with live [OF l] f n have "m \<noteq> seq" by (auto simp: retransmit_closure_def)
      with old f Suc show ?thesis by (simp add: slot_pending timer_slot_def mget_mdel [OF ord])
    qed
  qed
  with own ord have "conn_owns E (w\<lparr>tq := q, conn := (conn w)\<lparr>pendingRetrans := ?m\<rparr>\<rparr>)"
    by (intro owned_pending) (auto simp: conn_owns_def ordered_mdel mget_mdel split: if_splits)
  with inv tq show ?thesis by (rule conn_inv_pending)
qed

lemma forget_fired:
  assumes inv: "conn_inv E w" and fired: "\<And>i. live_timers E w i \<noteq> Some (retransmit_closure (conn w) seq)"
  shows "conn_inv E (on_conn (\<lambda>c. c\<lparr>pendingRetrans := mdel seq (pendingRetrans c)\<rparr>) w)"
proof -
  have "TimerQueue_inv E (tq w)" using inv by (simp add: conn_inv_def conn_ok_def)
  then have "conn_inv E (w\<lparr>tq := tq w, conn := (conn w)\<lparr>pendingRetrans := mdel seq (pendingRetrans (conn w))\<rparr>\<rparr>)"
    using fired by (intro forget_ok [OF inv]) auto
  then show ?thesis by (simp add: on_conn_def)
qed

lemma ackInLoop_ok:
  assumes inv: "conn_inv E w"
  shows "\<exists>q. TcpConnection_ackInLoop seq w =
      Inr (w\<lparr>tq := q, conn := (conn w)\<lparr>pendingRetrans := mdel seq (pendingRetrans (conn w))\<rparr>\<rparr>) \<and>
    conn_inv E (w\<lparr>tq := q, conn := (conn w)\<lparr>pendingRetrans := mdel seq (pendingRetrans (conn w))\<rparr>\<rparr>) \<and>
    (\<forall>i. timers_live E q i \<noteq> Some (retransmit_closure (conn w) seq))"
proof -
  have thr: "in_thread w" and own: "conn_owns E w" and tq: "TimerQueue_inv E (tq w)"
    using inv by (simp_all add: conn_inv_def conn_ok_def)
  have slot: "map_option re_timerId (mget (pendingRetrans (conn w)) seq) = Some i"
    if "live_timers E w i = Some (retransmit_closure (conn w) seq)" for i
    using own that
    by (auto simp: conn_owns_def timer_slot_def retransmit_closure_def my_closure_def dest: ownedD)
  show ?thesis
  proof (cases "mget (pendingRetrans (conn w)) seq")
    case None
    then have "mdel seq (pendingRetrans (conn w)) = pendingRetrans (conn w)"
      by (rule mdel_absent)
    with None inv slot show ?thesis
      by (intro exI [of _ "tq w"]) (auto simp: TcpConnection_ackInLoop_def)
  next
    case (Some e)
    obtain q where q: "ts.drop (re_timerId e) (tq w) = Inr q" "TimerQueue_inv E q"
      "timers_live E q = (live_timers E w)(re_timerId e := None)"
      using ts.drop_ok [OF tq] by blast
    have "conn_inv E (w\<lparr>tq := q, conn := (conn w)\<lparr>pendingRetrans := mdel seq (pendingRetrans (conn w))\<rparr>\<rparr>)"
      using q(3) Some slot by (intro forget_ok [OF inv q(2)]) (auto split: if_splits)
    moreover have "TcpConnection_ackInLoop seq w =
        Inr (w\<lparr>tq := q, conn := (conn w)\<lparr>pendingRetrans := mdel seq (pendingRetrans (conn w))\<rparr>\<rparr>)"
      using Some cancel_slot [OF thr, of "re_timerId e"] q(1)
      by (simp add: TcpConnection_ackInLoop_def on_conn_def)
    moreover have "timers_live E q i \<noteq> Some (retransmit_closure (conn w) seq)" for i
      using q(3) slot [of i] Some by auto
    ultimately show ?thesis by blast
  qed
qed

lemma closing_state_inv:
  assumes "conn_inv E w" and "state_of w = kConnected"
  shows "conn_inv E (setState kDisConnecting w)"
proof -
  let ?w = "setState kDisConnecting w"
  have "channel_isWriting ?w = channel_isWriting w" "channel_isReading ?w = channel_isReading w"
    by (simp_all add: setState_def channel_isReading_def channel_isWriting_def)
  moreover have "conn_owns E ?w = conn_owns E w" by (rule conn_owns_cong) (simp_all add: setState_def)
  ultimately show ?thesis using assms
    by (auto simp: conn_inv_def conn_ok_def conn_flags_def conn_stream_def setState_def)
qed

lemma shutdown_ok:
  assumes "callbacks_ok E cbs" and "conn_inv E w"
  shows "goes_ok E w (TcpConnection_shutdown cbs w)"
proof (cases "state_of w = kConnected")
  case True
  let ?w = "setState kDisConnecting w"
  have "conn_inv E ?w" using assms(2) True by (rule closing_state_inv)
  then have "goes_ok E ?w (TcpConnection_shutdownInLoop cbs ?w)"
    using assms(1) by (intro shutdownInLoop_ok) (simp_all add: setState_def)
  moreover have "evolves w ?w" using True by (simp add: evolves_def setState_def)
  moreover have "in_thread ?w" using assms(2) by (simp add: setState_def)
  ultimately show ?thesis using True
    by (auto simp: TcpConnection_shutdown_def run_or_post_def intro: goes_ok_from)
next
  case False
  with assms(2) show ?thesis by (simp add: TcpConnection_shutdown_def goes_ok_Inr)
qed

lemma setState_same: "state_of w = st \<Longrightarrow> setState st w = w"
  by (simp add: setState_def on_conn_def)

lemma forceClose_ok:
  assumes "callbacks_ok E cbs" and "conn_inv E w"
  shows "goes_ok E w (TcpConnection_forceClose cbs w)"
proof (cases "conn_open w")
  case True
  let ?w = "setState kDisConnecting w"
  have "conn_inv E ?w"
    using assms(2) True closing_state_inv [OF assms(2)] setState_same [of w kDisConnecting] by auto
  then have "goes_ok E ?w (TcpConnection_forceCloseInLoop cbs ?w)"
    using assms(1) by (rule forceCloseInLoop_ok [rotated])
  moreover have "evolves w ?w" using True by (auto simp: evolves_def setState_def)
  moreover have "in_thread ?w" using assms(2) by (simp add: setState_def)
  ultimately show ?thesis using True
    by (auto simp: TcpConnection_forceClose_def run_or_post_def intro: goes_ok_from)
next
  case False
  with assms(2) show ?thesis by (auto simp: TcpConnection_forceClose_def goes_ok_Inr)
qed

lemma sendFile_ok:
  assumes "callbacks_ok E cbs" and "conn_inv E w" and "\<And>fd. opened = Some fd \<Longrightarrow> fd \<ge> 0"
  shows "goes_ok E w (TcpConnection_sendFile cbs opened fstat path w)"
  using assms by (auto simp: TcpConnection_sendFile_def run_or_post_def intro: goes_ok_Inr sendFileInLoop_ok)

text \<open>
  A retransmission timeout. The timer has fired, so it is not registered any more. What is asked of the
  callbacks that \<open>sendInLoop\<close> runs is that they do not drop the message.
\<close>

lemma onRetransmitTimeout_ok:
  assumes cbs: "callbacks_ok E cbs" and inv: "conn_inv E w" and st: "state_of w \<noteq> kConnecting"
    and fired: "\<And>i. live_timers E w i \<noteq> Some (retransmit_closure (conn w) seq)"
    and sys: "\<And>e n. mget (pendingRetrans (conn w)) seq = Some e \<Longrightarrow> sys = Inr n \<Longrightarrow> n \<le> length (re_data e)"
    and kept: "\<And>e w'. mget (pendingRetrans (conn w)) seq = Some e \<Longrightarrow>
      TcpConnection_sendInLoop cbs sys (re_data e) w = Inr w' \<Longrightarrow>
      mget (pendingRetrans (conn w')) seq \<noteq> None \<and> fresh_timer r (tq w')"
  shows "goes_ok E w (TcpConnection_onRetransmitTimeout cbs sys draw r seq w)"
proof (cases "mget (pendingRetrans (conn w)) seq")
  case None
  with inv show ?thesis by (simp add: TcpConnection_onRetransmitTimeout_def goes_ok_Inr)
next
  case (Some e)
  have thr: "in_thread w" and tq: "TimerQueue_inv E (tq w)" and own: "conn_owns E w"
    using inv by (simp_all add: conn_inv_def conn_ok_def)
  show ?thesis
  proof (cases "re_retries e \<ge> kMaxRetries")
    case True
    let ?w = "on_conn (\<lambda>c. c\<lparr>pendingRetrans := mdel seq (pendingRetrans c)\<rparr>) w"
    have "conn_inv E ?w" using inv fired by (rule forget_fired)
    with cbs have "goes_ok E ?w (TcpConnection_forceCloseInLoop cbs ?w)" by (rule forceCloseInLoop_ok)
    moreover have "evolves w ?w" by (simp add: evolves_def)
    ultimately show ?thesis using Some True thr
      by (auto simp: TcpConnection_onRetransmitTimeout_def intro: goes_ok_from)
  next
    case False
    from sendInLoop_ok [OF cbs inv st sys [OF Some]] obtain w1 where
      w1: "TcpConnection_sendInLoop cbs sys (re_data e) w = Inr w1" "conn_inv E w1" "evolves w w1"
      by (auto simp: goes_ok_def)
    from kept [OF Some w1(1)] obtain e1 where e1: "mget (pendingRetrans (conn w1)) seq = Some e1"
      "fresh_timer r (tq w1)" by auto
    let ?e = "e1\<lparr>re_retries := re_retries e1 + 1\<rparr>"
    have "re_seq e1 = seq" using w1(2) e1(1) by (simp add: conn_inv_def conn_owns_def)
    then have "conn_inv E (set_entry seq ?e w1)" using w1(2) e1(1) by (intro set_entry_inv) auto
    then have "goes_ok E (set_entry seq ?e w1) (TcpConnection_resetRetransmitTimer draw r seq (set_entry seq ?e w1))"
      using e1(2) by (intro resetRetransmitTimer_ok [where e = ?e]) auto
    moreover have "evolves w (set_entry seq ?e w1)" using w1(3) by (simp add: evolves_def)
    ultimately show ?thesis using Some False thr w1(1) e1(1)
      by (auto simp: TcpConnection_onRetransmitTimeout_def intro: goes_ok_from)
  qed
qed

end
