(* ===== verification/TcpConnection_Properties.thy ===== *)
theory TcpConnection_Properties
  imports TcpConnection_Invariant
begin

text \<open>
  The connection among the other users of its loop, as a step relation, and the properties of the
  connection: what every reachable state guarantees, what closing releases, how reading, writing, file
  transfer, shutdown and retransmission behave.
\<close>

section \<open>The connection in its loop\<close>

text \<open>
  What the rest of the loop's thread may do between two steps of the connection: anything to other
  channels and timers; of the connection's own timers it can only take away (those that have fired).
\<close>

definition env_change :: "addr set \<Rightarrow> world \<Rightarrow> poller \<Rightarrow> timer_queue \<Rightarrow> bool" where
  "env_change E w p q \<longleftrightarrow>
    Poller_inv p \<and> channels p (tc_channel (conn w)) = my_channel w \<and> fd_free (tc_channel (conn w)) p \<and>
    TimerQueue_inv E q \<and>
    (\<forall>i f. timers_live E q i = Some f \<longrightarrow> my_closure (conn w) f \<longrightarrow> live_timers E w i = Some f)"

text \<open>
  The same for the loop itself: a poll may store new \<open>revents_\<close> in the channel of the connection, and a round of the timer
  queue may begin or end, which changes the timers \<open>E\<close> being handled.
\<close>

definition loop_change :: "addr set \<Rightarrow> addr set \<Rightarrow> world \<Rightarrow> poller \<Rightarrow> timer_queue \<Rightarrow> bool" where
  "loop_change E E' w p q \<longleftrightarrow>
    Poller_inv p \<and> same_registration (channels p (tc_channel (conn w))) (my_channel w) \<and> fd_free (tc_channel (conn w)) p \<and>
    TimerQueue_inv E' q \<and>
    (\<forall>i f. timers_live E' q i = Some f \<longrightarrow> my_closure (conn w) f \<longrightarrow> live_timers E w i = Some f)"

lemma loop_change_ok:
  assumes inv: "conn_inv E w" and env: "loop_change E E' w p q"
  shows "conn_inv E' (w\<lparr>poll_of := p, tq := q\<rparr>)"
proof -
  obtain d where d: "my_channel w = Some d" using inv by (auto simp: conn_inv_def conn_ok_def)
  have "same_registration (channels p (tc_channel (conn w))) (Some d)" using env d by (simp add: loop_change_def)
  then obtain c where c: "channels p (tc_channel (conn w)) = Some c" "ch_fd c = ch_fd d" "ch_events c = ch_events d"
    "ch_index c = ch_index d" by (rule same_registration_Some)
  have "Poller_inv (poll_of w)" "Poller_inv p" using inv env by (simp_all add: conn_inv_def conn_ok_def loop_change_def)
  with c d have "registered (tc_channel (conn w)) p = registered (tc_channel (conn w)) (poll_of w)"
    by (simp add: registered_iff)
  moreover have "channel_isWriting (w\<lparr>poll_of := p, tq := q\<rparr>) = channel_isWriting w"
    "channel_isReading (w\<lparr>poll_of := p, tq := q\<rparr>) = channel_isReading w"
    using c d by (simp_all add: channel_isWriting_def channel_isReading_def Channel_isWriting_def Channel_isReading_def)
  ultimately show ?thesis using inv env c d
    by (auto simp: conn_inv_def conn_ok_def conn_flags_def conn_stream_def conn_owns_def ts.owned_def loop_change_def)
qed

lemma env_change_loop: "env_change E w p q \<Longrightarrow> loop_change E E w p q"
  by (simp add: env_change_def loop_change_def)

lemma env_change_ok: "conn_inv E w \<Longrightarrow> env_change E w p q \<Longrightarrow> conn_inv E (w\<lparr>poll_of := p, tq := q\<rparr>)"
  by (rule loop_change_ok [OF _ env_change_loop])

text \<open>
  The steps, each with its outcome. An event handler runs while the channel is registered; a kernel call
  never takes more bytes than it is given; a descriptor from \<open>open\<close> is not negative; \<open>r\<close> brings an unused
  address; a timeout comes from a timer that has fired; a message is not sent under a pending number.
\<close>

definition took :: "errno + nat \<Rightarrow> nat \<Rightarrow> bool" where
  "took sys n \<longleftrightarrow> (\<forall>k. sys = Inr k \<longrightarrow> k \<le> n)"

lemma took_simps [simp, code]: "took (Inl e) n = True" "took (Inr k) n = (k \<le> n)"
  by (simp_all add: took_def)

abbreviation my_registered :: "world \<Rightarrow> bool" where
  "my_registered w \<equiv> registered (tc_channel (conn w)) (poll_of w)"

inductive conn_act :: "addr set \<Rightarrow> conn_callbacks \<Rightarrow> world \<Rightarrow> world res \<Rightarrow> bool" for E cbs where
  Established: "state_of w = kConnecting \<Longrightarrow> fresh_timer r (tq w) \<Longrightarrow>
    conn_act E cbs w (TcpConnection_connectEstablelished cbs r w)"
| Readable: "my_registered w \<Longrightarrow> fresh_timer r (tq w) \<Longrightarrow>
    conn_act E cbs w (TcpConnection_handleRead cbs sys t r w)"
| Writable: "my_registered w \<Longrightarrow> fresh_timer r (tq w) \<Longrightarrow> took sys (length (unsent w)) \<Longrightarrow>
    conn_act E cbs w (TcpConnection_handleWrite cbs sys sysf sys' r w)"
| Erroneous: "my_registered w \<Longrightarrow> conn_act E cbs w (TcpConnection_handleError cbs w)"
| Send: "took sys (length data) \<Longrightarrow> conn_act E cbs w (TcpConnection_send cbs sys data w)"
| SendFile: "(\<And>fd. opened = Some fd \<Longrightarrow> fd \<ge> 0) \<Longrightarrow>
    conn_act E cbs w (TcpConnection_sendFile cbs opened fstat path w)"
| Shutdown: "conn_act E cbs w (TcpConnection_shutdown cbs w)"
| ForceClose: "conn_act E cbs w (TcpConnection_forceClose cbs w)"
| Idle: "conn_act E cbs w (TcpConnection_onIdleTimeout cbs w)"
| Reliable: "took sys (length data) \<Longrightarrow>
    (\<And>w'. TcpConnection_send cbs sys data w = Inr w' \<Longrightarrow>
      mget (pendingRetrans (conn w')) seq = None \<and> fresh_timer r (tq w')) \<Longrightarrow>
    conn_act E cbs w (TcpConnection_sendWithRetransmit cbs sys draw r data seq w)"
| Timeout: "state_of w \<noteq> kConnecting \<Longrightarrow>
    (\<And>i. live_timers E w i \<noteq> Some (retransmit_closure (conn w) seq)) \<Longrightarrow>
    (\<And>e. mget (pendingRetrans (conn w)) seq = Some e \<Longrightarrow> took sys (length (re_data e))) \<Longrightarrow>
    (\<And>e w'. mget (pendingRetrans (conn w)) seq = Some e \<Longrightarrow>
      TcpConnection_sendInLoop cbs sys (re_data e) w = Inr w' \<Longrightarrow>
      mget (pendingRetrans (conn w')) seq \<noteq> None \<and> fresh_timer r (tq w')) \<Longrightarrow>
    conn_act E cbs w (TcpConnection_onRetransmitTimeout cbs sys draw r seq w)"
| Ack: "conn_act E cbs w (TcpConnection_ackReceived seq w)"

text \<open>Sending a buffer is sending what it holds, so it is a step of the same kind.\<close>

lemma sendBuffer_acts:
  assumes "Buffer_inv b" and "took sys (length (Buffer_content b))"
  shows "conn_act E cbs w (TcpConnection_sendBuffer cbs sys b w)"
proof -
  have "Buffer_bytes (Buffer_readableBytes b) b = Buffer_content b" using assms(1) by (simp add: Buffer_bytes_take)
  with assms(2) show ?thesis by (simp add: TcpConnection_sendBuffer_def conn_act.Send)
qed

lemma sendBufferWithRetransmit_acts:
  assumes "Buffer_inv b" and "took sys (length (Buffer_content b))"
    and "\<And>w'. TcpConnection_sendBuffer cbs sys b w = Inr w' \<Longrightarrow> mget (pendingRetrans (conn w')) seq = None \<and> fresh_timer r (tq w')"
  shows "conn_act E cbs w (TcpConnection_sendBufferWithRetransmit cbs sys draw r b seq w)"
proof -
  have "Buffer_bytes (Buffer_readableBytes b) b = Buffer_content b" using assms(1) by (simp add: Buffer_bytes_take)
  with assms(2,3) show ?thesis
    by (simp add: TcpConnection_sendBufferWithRetransmit_def TcpConnection_sendBuffer_def conn_act.Reliable)
qed

inductive conn_step :: "addr set \<Rightarrow> conn_callbacks \<Rightarrow> world \<Rightarrow> world res \<Rightarrow> bool" for E cbs where
  Acts: "conn_act E cbs w m \<Longrightarrow> conn_step E cbs w m"
| Env: "loop_change E E w p q \<Longrightarrow> conn_step E cbs w (Inr (w\<lparr>poll_of := p, tq := q\<rparr>))"

lemma registered_open: "conn_inv E w \<Longrightarrow> my_registered w \<longleftrightarrow> conn_open w"
  by (simp add: conn_inv_def conn_flags_def)

lemma conn_act_ok:
  assumes cbs: "callbacks_ok E cbs" and inv: "conn_inv E w" and step: "conn_act E cbs w m"
  shows "goes_ok E w m"
  using step inv
proof (induction rule: conn_act.induct)
  case (Established w r)
  with cbs show ?case by (intro connectEstablelished_ok)
next
  case (Readable w r sys t)
  then have "conn_open w" by (simp add: registered_open)
  with Readable cbs show ?case by (intro handleRead_ok) auto
next
  case (Writable w r sys sysf sys')
  then have "conn_open w" by (simp add: registered_open)
  with Writable cbs show ?case by (intro handleWrite_ok) (auto simp: took_def)
next
  case (Erroneous w)
  then have "conn_open w" by (simp add: registered_open)
  with Erroneous cbs show ?case by (intro handleError_ok) auto
next
  case (Send sys data w)
  with cbs show ?case by (intro send_ok) (auto simp: took_def)
next
  case (SendFile opened w fstat path)
  with cbs show ?case by (intro sendFile_ok)
next
  case (Shutdown w)
  with cbs show ?case by (intro shutdown_ok)
next
  case (ForceClose w)
  with cbs show ?case by (intro forceClose_ok)
next
  case (Idle w)
  with cbs show ?case by (intro onIdleTimeout_ok)
next
  case (Reliable sys data w seq r draw)
  then have "goes_ok E w (TcpConnection_SendFunc cbs sys draw r data seq w)"
    using cbs by (intro SendFunc_ok) (auto simp: took_def)
  with Reliable.prems show ?case by (simp add: TcpConnection_sendWithRetransmit_def run_or_post_def)
next
  case (Timeout w seq sys r draw)
  from Timeout.hyps(3) show ?case using cbs Timeout.prems Timeout.hyps(1,2,4)
    by (intro onRetransmitTimeout_ok) (auto simp: took_def)
next
  case (Ack w seq)
  from ackInLoop_ok [OF this, of seq] Ack show ?case
    by (auto simp: TcpConnection_ackReceived_def run_or_post_def goes_ok_def evolves_def)
qed

lemma conn_step_ok:
  assumes cbs: "callbacks_ok E cbs" and inv: "conn_inv E w" and step: "conn_step E cbs w m"
  shows "goes_ok E w m"
  using step
proof cases
  case Acts
  with cbs inv show ?thesis by (rule conn_act_ok)
next
  case (Env p q)
  with loop_change_ok [OF inv Env(2)] show ?thesis by (simp add: goes_ok_def evolves_def)
qed

inductive conn_reach :: "addr set \<Rightarrow> conn_callbacks \<Rightarrow> world \<Rightarrow> world \<Rightarrow> bool" for E cbs where
  Start: "conn_reach E cbs w w"
| Step: "conn_reach E cbs w w' \<Longrightarrow> conn_step E cbs w' (Inr w'') \<Longrightarrow> conn_reach E cbs w w''"

lemma conn_reach_ok:
  assumes "conn_reach E cbs w w'" and "callbacks_ok E cbs" and "conn_inv E w"
  shows "conn_inv E w' \<and> evolves w w'"
  using assms
proof (induction rule: conn_reach.induct)
  case (Step w w' w'')
  with conn_step_ok [OF Step.prems(1) _ Step.hyps(2)] show ?case
    by (auto simp: goes_ok_def intro: evolves_trans)
qed simp

text \<open>A new connection, over a descriptor that no registered channel uses.\<close>

lemma new_world_inv:
  assumes p: "Poller_inv p" "channels p a = None" "ChannelMap p fd = None" and q: "TimerQueue_inv E q"
    and own: "\<And>j k. timers_live E q j \<noteq> Some (Closure i k)"
  shows "conn_inv E (new_world i a fd p q)"
proof -
  let ?p = "create_channel a fd p"
  have inv: "Poller_inv ?p" using p(1,2) by (rule create_channel_inv)
  have ch: "channels ?p a = Some (Channel_new fd)" "ChannelMap ?p = ChannelMap p"
    by (simp_all add: create_channel_def)
  have "fd_free a ?p" using ch p(3) by (simp add: fd_free_def Channel_new_def)
  moreover have "\<not> registered a ?p" using ch by (simp add: registered_iff [OF inv] Channel_new_def)
  moreover have "timers_live E q j = Some f \<Longrightarrow> \<not> my_closure (TcpConnection_new i a fd) f" for j f
    using own [of j] by (cases f) (auto simp: my_closure_def TcpConnection_new_def)
  ultimately show ?thesis using inv ch q
    by (simp add: conn_inv_def conn_ok_def conn_flags_def conn_stream_def conn_owns_def ts.owned_def new_world_def
        TcpConnection_new_def Channel_new_def channel_isWriting_def Channel_isWriting_def)
qed

section \<open>Properties\<close>

definition no_callbacks :: conn_callbacks where
  "no_callbacks = \<lparr>connectionCallback = None, messageCallback = None, writeCompleteCallback = None,
     closeCallback = None\<rparr>"

lemma no_callbacks_ok [simp]: "callbacks_ok E no_callbacks"
  by (simp add: callbacks_ok_def cb_ok_def no_callbacks_def)

lemma invoke_None [simp]: "invoke None ev w = Inr w"
  by (simp add: invoke_def)

text \<open>A server that sends every message back, on a kernel that takes no bytes at once.\<close>

definition echo :: conn_callbacks where
  "echo = no_callbacks\<lparr>messageCallback := Some (\<lambda>t w. TcpConnection_send no_callbacks (Inl EAGAIN)
     (Buffer_content (readBuffer (conn w))) w)\<rparr>"

lemma echo_ok: "callbacks_ok {} echo"
  by (auto simp: callbacks_ok_def cb_ok_def echo_def no_callbacks_def intro: send_ok [unfolded callbacks_ok_def])

definition demo_request :: timer_request where
  "demo_request = \<lparr>rq_now = 0, rq_now' = 0, rq_addr = 32, rq_delay = 0\<rparr>"

lemma demo_request_fresh: "fresh_timer demo_request TimerQueue_new"
  by (simp add: fresh_timer_def demo_request_def TimerQueue_new_def UINTPTR_MAX_def)

lemma new_world_ok: "conn_inv {} (new_world 1 16 7 Epoller_new TimerQueue_new)"
  by (rule new_world_inv [OF Epoller_new_inv _ _ TimerQueue_new_inv])
    (simp_all add: Epoller_new_def TimerQueue_new_def timers_live_def)

text \<open>
  A connection never faults and keeps its promises, whatever happens in its loop: in every state that
  a new connection reaches by events, sends, file transfers, retransmissions, acknowledgements, timeouts,
  shutdowns and the loop's other work, with callbacks that are well behaved in the same sense, each next
  step returns; the bytes written to the socket followed by the bytes in the write buffer are the bytes
  accepted for sending, in order; the channel is registered exactly while the connection is open; and
  write events are asked for exactly while there is something to write.
\<close>

theorem connection_invariant:
  assumes "callbacks_ok E cbs" and "Poller_inv p" and "channels p a = None" and "ChannelMap p fd = None"
    and "TimerQueue_inv E q" and "\<forall>j k. timers_live E q j \<noteq> Some (Closure i k)"
    and "conn_reach E cbs (new_world i a fd p q) w"
  shows "(\<forall>m. conn_step E cbs w m \<longrightarrow> (\<exists>w'. m = Inr w')) \<and>
    sys_bytes (trace w) @ unsent w = accepted w \<and> (my_registered w \<longleftrightarrow> conn_open w) \<and>
    (conn_open w \<longrightarrow> channel_isWriting w = (unsent w \<noteq> [] \<or> sendingFile (conn w)))"
proof -
  have "conn_inv E (new_world i a fd p q)" using assms by (intro new_world_inv) auto
  with assms have inv: "conn_inv E w" using conn_reach_ok by blast
  with conn_step_ok [OF assms(1) inv] show ?thesis
    by (auto simp: goes_ok_def conn_inv_def conn_flags_def conn_stream_def)
qed

lemma demo_established:
  obtains w where "conn_reach {} echo (new_world 1 16 7 Epoller_new TimerQueue_new) w"
    and "conn_inv {} w" and "state_of w = kConnected"
proof -
  let ?w = "new_world 1 16 7 Epoller_new TimerQueue_new"
  have c: "state_of ?w = kConnecting" "fresh_timer demo_request (tq ?w)"
    using demo_request_fresh by (simp_all add: new_world_def TcpConnection_new_def)
  from established_result [OF new_world_ok c, of echo] obtain w where
    w: "TcpConnection_connectEstablelished echo demo_request ?w = Inr w" "conn_inv {} w" "state_of w = kConnected"
    by (auto simp: echo_def no_callbacks_def)
  have "conn_step {} echo ?w (TcpConnection_connectEstablelished echo demo_request ?w)"
    by (rule Acts [OF Established [OF c]])
  with w(1) have "conn_reach {} echo ?w w" by (metis Start Step)
  with w show ?thesis by (intro that)
qed

theorem connection_invariant_witness:
  "\<exists>w. conn_reach {} echo (new_world 1 16 7 Epoller_new TimerQueue_new) w \<and> state_of w = kConnected \<and>
    my_registered w \<and> (\<exists>w'. TcpConnection_forceClose echo w = Inr w')"
proof -
  obtain w where w: "conn_reach {} echo (new_world 1 16 7 Epoller_new TimerQueue_new) w" "state_of w = kConnected"
    by (rule demo_established)
  have "(\<forall>m. conn_step {} echo w m \<longrightarrow> (\<exists>w'. m = Inr w')) \<and>
    sys_bytes (trace w) @ unsent w = accepted w \<and> (my_registered w \<longleftrightarrow> conn_open w) \<and>
    (conn_open w \<longrightarrow> channel_isWriting w = (unsent w \<noteq> [] \<or> sendingFile (conn w)))"
    by (rule connection_invariant [OF echo_ok Epoller_new_inv _ _ TimerQueue_new_inv _ w(1)])
      (simp_all add: Epoller_new_def TimerQueue_new_def timers_live_def)
  with w show ?thesis using Acts [OF ForceClose [of "{}" echo w]] by blast
qed

text \<open>The end of the stream closes the connection.\<close>

lemma read_end:
  assumes inv: "conn_inv E w" and op: "conn_open w"
  obtains w1 where "TcpConnection_handleRead cbs (Inr []) t r w = invoke (closeCallback cbs) CallClose w1"
    and "conn_inv E w1" and "released E w1" and "trace w1 = trace w @ closed_file w" and "unsent w1 = unsent w"
    and "channel_isWriting w1 = channel_isWriting w" and "channel_isReading w1 = channel_isReading w"
    and "\<forall>r. fresh_timer r (tq w) \<longrightarrow> fresh_timer r (tq w1)"
proof -
  have thr: "in_thread w" and rb: "Buffer_inv (readBuffer (conn w))" using inv by (simp_all add: conn_inv_def conn_ok_def)
  from readFd_ok [OF rb, of "[]"] obtain b where
    b: "Buffer_readFd (Inr []) (readBuffer (conn w)) = Inr (Inr 0, b)" "Buffer_inv b" by auto
  let ?w = "on_conn (\<lambda>c. c\<lparr>readBuffer := b\<rparr>) w"
  have inv': "conn_inv E ?w" using inv b(2) by (rule conn_inv_read)
  have same: "channel_isWriting ?w = channel_isWriting w" "channel_isReading ?w = channel_isReading w"
    "closed_file ?w = closed_file w"
    by (simp_all add: channel_isWriting_def channel_isReading_def closed_file_def)
  have "TcpConnection_handleRead cbs (Inr []) t r w = TcpConnection_handleClose cbs ?w"
    using b(1) thr by (simp add: TcpConnection_handleRead_def)
  with handleClose_result [OF inv', of cbs] op same that show ?thesis by auto
qed

text \<open>
  C10. Closing releases everything, whatever it comes from - end of file, an error, a forced close, the
  idle timeout: the close callback then runs in a state where the connection is disconnected, its channel
  is unregistered, the file being sent is closed, and none of its timers is registered any more.
\<close>

theorem close_releases_everything:
  assumes "conn_inv E w" and "conn_open w"
    and "act \<in> {TcpConnection_handleClose cbs, TcpConnection_handleError cbs, TcpConnection_forceCloseInLoop cbs,
      TcpConnection_onIdleTimeout cbs, TcpConnection_handleRead cbs (Inr []) t r}"
  shows "\<exists>w1. act w = invoke (closeCallback cbs) CallClose w1 \<and> conn_inv E w1 \<and> released E w1 \<and>
    trace w1 = trace w @ closed_file w"
proof -
  have thr: "in_thread w" using assms(1) by simp
  show ?thesis
  proof (cases "act = TcpConnection_handleRead cbs (Inr []) t r")
    case False
    with assms(2,3) thr have "act w = TcpConnection_handleClose cbs w"
      by (auto simp: TcpConnection_handleError_def TcpConnection_forceCloseInLoop_def TcpConnection_onIdleTimeout_def)
    with handleClose_result [OF assms(1,2), of cbs] show ?thesis by auto
  next
    case True
    then show ?thesis by (metis read_end [OF assms(1,2)])
  qed
qed

theorem close_releases_everything_witness:
  "\<exists>w w1. TcpConnection_onIdleTimeout echo w = Inr w1 \<and> state_of w = kConnected \<and> released {} w1"
proof -
  obtain w where "conn_inv {} w" "state_of w = kConnected" by (rule demo_established)
  with close_releases_everything [of "{}" w "TcpConnection_onIdleTimeout echo" echo 0 demo_request]
  show ?thesis by (auto simp: echo_def no_callbacks_def)
qed

text \<open>A step of a disconnected connection leaves no trace.\<close>

lemma closed_act_silent:
  assumes "conn_inv E w" and "state_of w = kDisConnected" and "conn_act E cbs w (Inr w')"
  shows "trace w' = trace w \<and> accepted w' = accepted w"
proof -
  have thr: "in_thread w" and reg: "\<not> my_registered w"
    using assms(1,2) by (simp_all add: registered_open)
  have cancel: "conn_cancel i v = Inr v' \<Longrightarrow> trace v' = trace v \<and> accepted v' = accepted v" for i v v'
    by (auto simp: conn_cancel_def split: prod.splits)
  have reset: "TcpConnection_resetRetransmitTimer draw r seq v = Inr v' \<Longrightarrow>
      trace v' = trace v \<and> accepted v' = accepted v" for draw r seq v v'
    by (auto simp: TcpConnection_resetRetransmitTimer_def conn_runAfter_def Let_def split: option.splits if_splits
        prod.splits dest!: cancel elim!: rbind_InrE)
  from assms(3) show ?thesis
  proof (cases rule: conn_act.cases)
    case (Send sys data)
    with assms(2) show ?thesis by (simp add: TcpConnection_send_def)
  next
    case (SendFile opened fstat path)
    with assms(2) show ?thesis by (simp add: TcpConnection_sendFile_def)
  next
    case Shutdown
    with assms(2) show ?thesis by (simp add: TcpConnection_shutdown_def)
  next
    case ForceClose
    with assms(2) show ?thesis by (simp add: TcpConnection_forceClose_def)
  next
    case Idle
    with assms(2) thr show ?thesis by (simp add: TcpConnection_onIdleTimeout_def TcpConnection_forceCloseInLoop_def)
  next
    case (Reliable sys data seq r draw)
    with assms(2) thr show ?thesis
      by (auto simp: TcpConnection_sendWithRetransmit_def run_or_post_def TcpConnection_SendFunc_def
          TcpConnection_send_def dest!: sym [of "Inr w'"] reset)
  next
    case (Timeout seq sys r draw)
    from Timeout(1) [symmetric] assms(2) thr show ?thesis
      by (auto simp: TcpConnection_onRetransmitTimeout_def TcpConnection_forceCloseInLoop_def
          TcpConnection_sendInLoop_def split: option.splits if_splits dest!: reset)
  next
    case (Ack seq)
    from Ack(1) [symmetric] thr show ?thesis
      by (auto simp: TcpConnection_ackReceived_def run_or_post_def TcpConnection_ackInLoop_def
          split: option.splits if_splits dest!: cancel elim!: rbind_InrE)
  qed (use assms(2) reg in auto)
qed

lemma closed_step_silent:
  assumes "conn_inv E w" and "state_of w = kDisConnected" and "conn_step E cbs w (Inr w')"
  shows "trace w' = trace w \<and> accepted w' = accepted w"
  using assms(3) by cases (use closed_act_silent [OF assms(1,2)] in auto)


text \<open>A state of an open connection: some bytes unsent, maybe a file of ten bytes in transit.\<close>

definition demo_world :: "conn_state \<Rightarrow> string \<Rightarrow> int \<Rightarrow> (nat, retransmit_entry) omap \<Rightarrow> world" where
  "demo_world st cs f m =
    \<lparr>conn = \<lparr>tc_id = 1, tc_channel = 16, tc_fd = 7, tc_state = st, writeBuffer = buffer_of cs,
       readBuffer = buffer_of [], fileFd = f, fileSentOffset = 0, fileTotalSize = 10, sendingFile = (f \<ge> 0),
       idleTimerId = TimerId_null, pendingRetrans = m\<rparr>,
     poll_of = \<lparr>channels = [16 \<mapsto> \<lparr>ch_fd = 7, ch_revents = 0,
         ch_events = (if cs \<noteq> [] \<or> f \<ge> 0 then EPOLLIN OR EPOLLOUT else EPOLLIN),
         ch_added = True, ch_index = kAdded\<rparr>],
       ChannelMap = [7 \<mapsto> 16],
       interest = [7 \<mapsto> (if cs \<noteq> [] \<or> f \<ge> 0 then EPOLLIN OR EPOLLOUT else EPOLLIN, 16)], events_size = kMaxEvents\<rparr>,
     tq = TimerQueue_new, in_thread = True, posted = [], timer_tasks = [], trace = [], accepted = cs\<rparr>"

lemma demo_world_inv:
  assumes "st = kConnected \<or> st = kDisConnecting" and "ordered m"
    and "\<And>n e. mget m n = Some e \<Longrightarrow> re_seq e = n"
  shows "conn_inv {} (demo_world st cs f m)"
proof -
  let ?w = "demo_world st cs f m"
  have p: "Poller_inv (poll_of ?w)" by (auto simp: Poller_inv_def demo_world_def split: if_splits)
  then have "registered 16 (poll_of ?w)" by (simp add: registered_iff) (simp add: demo_world_def)
  moreover have "channel_isReading ?w" "channel_isWriting ?w = (cs \<noteq> [] \<or> f \<ge> 0)"
    by (simp_all add: channel_isReading_def channel_isWriting_def demo_world_def Channel_isReading_def
        Channel_isWriting_def epoll_masks)
  moreover have "timers_live {} TimerQueue_new i = None" for i
    by (simp add: timers_live_def TimerQueue_new_def)
  ultimately show ?thesis using assms p
    by (auto simp: conn_inv_def conn_ok_def conn_flags_def conn_stream_def conn_owns_def ts.owned_def demo_world_def
        fd_free_def TimerQueue_new_inv)
qed


text \<open>The read path up to the message callback.\<close>

lemma read_delivers:
  assumes "conn_inv E w" and "fresh_timer r (tq w)" and "data \<noteq> []"
  shows "\<exists>w1. TcpConnection_handleRead cbs (Inr data) t r w =
      invoke (map_option (\<lambda>f. f t) (messageCallback cbs)) CallMessage w1 \<and> conn_inv E w1 \<and>
    Buffer_content (readBuffer (conn w1)) = Buffer_content (readBuffer (conn w)) @ data \<and>
    state_of w1 = state_of w \<and> trace w1 = trace w \<and> writeBuffer (conn w1) = writeBuffer (conn w) \<and>
    sendingFile (conn w1) = sendingFile (conn w) \<and>
    (\<forall>i. live_timers E w1 i = Some (idle_closure (conn w1)) \<longleftrightarrow> i = idleTimerId (conn w1))"
proof -
  have thr: "in_thread w" and rb: "Buffer_inv (readBuffer (conn w))"
    using assms(1) by (simp_all add: conn_inv_def conn_ok_def)
  from readFd_ok [OF rb, of data] obtain b where
    b: "Buffer_readFd (Inr data) (readBuffer (conn w)) = Inr (Inr (length data), b)" "Buffer_inv b"
    "Buffer_content b = Buffer_content (readBuffer (conn w)) @ data" by blast
  let ?w = "on_conn (\<lambda>c. c\<lparr>readBuffer := b\<rparr>) w"
  have inv: "conn_inv E ?w" using assms(1) b(2) by (rule conn_inv_read)
  have "fresh_timer r (tq ?w)" using assms(2) by simp
  from resetIdle_ok [OF inv this] obtain q j where
    q: "TcpConnection_resetIdleTimer r ?w = Inr (?w\<lparr>tq := q, conn := (conn ?w)\<lparr>idleTimerId := j\<rparr>\<rparr>)"
    "conn_inv E (?w\<lparr>tq := q, conn := (conn ?w)\<lparr>idleTimerId := j\<rparr>\<rparr>)"
    "timers_live E q j = Some (idle_closure (conn ?w))" by blast
  let ?w1 = "?w\<lparr>tq := q, conn := (conn ?w)\<lparr>idleTimerId := j\<rparr>\<rparr>"
  have own: "i = idleTimerId (conn ?w1)" if "live_timers E ?w1 i = Some (idle_closure (conn ?w1))" for i
  proof -
    have "timer_slot (conn ?w1) (idle_closure (conn ?w1)) = Some i"
      using q(2) that by (auto simp: conn_inv_def conn_owns_def my_closure_def idle_closure_def dest: ownedD)
    then show ?thesis by (simp add: timer_slot_def idle_closure_def)
  qed
  have "live_timers E ?w1 (idleTimerId (conn ?w1)) = Some (idle_closure (conn ?w1))"
    using q(3) by (simp add: idle_closure_def)
  with own have only: "\<forall>i. live_timers E ?w1 i = Some (idle_closure (conn ?w1)) \<longleftrightarrow> i = idleTimerId (conn ?w1)"
    by blast
  have "TcpConnection_handleRead cbs (Inr data) t r w =
      invoke (map_option (\<lambda>f. f t) (messageCallback cbs)) CallMessage ?w1"
    using thr assms(3) b(1) q(1) by (simp add: TcpConnection_handleRead_def)
  with only q(2) b(3) show ?thesis by (intro exI [of _ ?w1]) simp
qed

text \<open>
  Reading: the bytes that arrive are appended to the read buffer and handed to the message callback
  together with what was still unread, and by then the idle timer has been started anew: one idle timer of
  the connection is registered, and no other.
\<close>

theorem read_delivers_and_rearms:
  assumes "conn_inv E w" and "fresh_timer r (tq w)" and "data \<noteq> []"
  shows "\<exists>w1. TcpConnection_handleRead cbs (Inr data) t r w =
      invoke (map_option (\<lambda>f. f t) (messageCallback cbs)) CallMessage w1 \<and> conn_inv E w1 \<and>
    Buffer_content (readBuffer (conn w1)) = Buffer_content (readBuffer (conn w)) @ data \<and>
    state_of w1 = state_of w \<and> trace w1 = trace w \<and>
    (\<forall>i. live_timers E w1 i = Some (idle_closure (conn w1)) \<longleftrightarrow> i = idleTimerId (conn w1))"
  using read_delivers [OF assms, of cbs t] by blast

theorem read_delivers_and_rearms_witness:
  "\<exists>w1. TcpConnection_handleRead no_callbacks (Inr ''hi'') 0 demo_request (demo_world kConnected [] (-1) []) = Inr w1 \<and>
    Buffer_content (readBuffer (conn w1)) = ''hi'' \<and> live_timers {} w1 (idleTimerId (conn w1)) \<noteq> None"
proof -
  let ?w = "demo_world kConnected [] (-1) []"
  have "conn_inv {} ?w" by (rule demo_world_inv) simp_all
  moreover have "fresh_timer demo_request (tq ?w)" using demo_request_fresh by (simp add: demo_world_def)
  moreover have "Buffer_content (readBuffer (conn ?w)) = []" by (simp add: demo_world_def)
  ultimately show ?thesis
    using read_delivers_and_rearms [of "{}" ?w demo_request "''hi''" no_callbacks 0]
    by (auto simp: no_callbacks_def)
qed

text \<open>A write event on which the kernel takes all that is left, whatever the state of the connection.\<close>

lemma write_everything:
  assumes inv: "conn_inv E w" and mask: "channel_isWriting w" "channel_isReading w"
    and some: "unsent w \<noteq> []" and nofile: "\<not> sendingFile (conn w)" and fresh: "fresh_timer r (tq w)"
    and cb: "writeCompleteCallback cbs = None"
  shows "\<exists>w2. TcpConnection_handleWrite cbs (Inr (length (unsent w))) sysf sys' r w = Inr w2 \<and>
    trace w2 = trace w @ [SysWrite (unsent w)] \<and> unsent w2 = [] \<and> state_of w2 = state_of w \<and>
    my_registered w2 \<and> \<not> channel_isWriting w2 \<and>
    live_timers E w2 (idleTimerId (conn w2)) = Some (idle_closure (conn w2))"
proof -
  from resetIdle_ok [OF inv fresh] obtain q j where
    r: "TcpConnection_resetIdleTimer r w = Inr (w\<lparr>tq := q, conn := (conn w)\<lparr>idleTimerId := j\<rparr>\<rparr>)"
    "conn_inv E (w\<lparr>tq := q, conn := (conn w)\<lparr>idleTimerId := j\<rparr>\<rparr>)"
    "timers_live E q j = Some (idle_closure (conn w))" by blast
  let ?v = "w\<lparr>tq := q, conn := (conn w)\<lparr>idleTimerId := j\<rparr>\<rparr>" and ?n = "length (unsent w)"
  have vok: "conn_ok E ?v" "Buffer_inv (writeBuffer (conn w))" using r(2) by (simp_all add: conn_inv_def conn_ok_def)
  have len: "?n = Buffer_readableBytes (writeBuffer (conn w))" using length_content [OF vok(2)] by simp
  from WriteFd_ok [OF vok(2), of ?n] len obtain b where
    b: "Buffer_WriteFd (Inr ?n) (writeBuffer (conn w)) = Inr (Inr ?n, b)" "Buffer_inv b" "Buffer_content b = []"
    by auto
  let ?e = "emit (SysWrite (unsent w)) (on_conn (\<lambda>c. c\<lparr>writeBuffer := b\<rparr>) ?v)"
  have eok: "conn_ok E ?e" "channel_isReading ?e" using vok b(2) mask(2)
    by (simp_all add: conn_ok_def channel_isReading_def)
  from disableWriting_ok [OF eok(1)] eok(2) obtain p where
    p: "on_channel Channel_disableWriting ?e = Inr (?e\<lparr>poll_of := p\<rparr>)"
    "\<not> channel_isWriting (?e\<lparr>poll_of := p\<rparr>)" "registered (tc_channel (conn ?e)) p" by blast
  let ?w2 = "?e\<lparr>poll_of := p\<rparr>"
  have zero: "Buffer_readableBytes b = 0" using b by (simp add: readable_zero_iff)
  have pos: "Buffer_readableBytes (writeBuffer (conn w)) > 0" using some readable_zero_iff [OF vok(2)] by simp
  have "handleWrite_drain cbs (Inr ?n) ?v = Inr (False, ?w2)"
    by (simp add: handleWrite_drain_def pos b(1) nofile p(1) zero cb some)
  moreover have "in_thread w" using inv by (rule conn_inv_thread)
  ultimately have "TcpConnection_handleWrite cbs (Inr ?n) sysf sys' r w = Inr ?w2"
    using mask(1) r(1) nofile zero by (simp add: TcpConnection_handleWrite_def handleWrite_rest_def)
  moreover have "trace ?w2 = trace w @ [SysWrite (unsent w)]" by (simp add: emit_def)
  ultimately show ?thesis using p(2,3) b(3) r(3)
    by (intro exI [of _ ?w2]) (simp add: idle_closure_def)
qed



text \<open>
  A write event that the kernel reported together with the end of the stream is still handled after
  the read handler has closed the connection: it writes the rest of the buffer, arms an idle timer again
  and puts the channel of the disconnected connection back into the poller.
\<close>

theorem write_event_after_close:
  assumes "conn_inv E w" and "conn_open w" and "unsent w \<noteq> []" and "writeCompleteCallback cbs = None"
    and "closeCallback cbs = None"
    and "fresh_timer r' (tq w)"
  shows "\<exists>w1 w2. TcpConnection_handleRead cbs (Inr []) t r w = Inr w1 \<and> released E w1 \<and>
    TcpConnection_handleWrite cbs (Inr (length (unsent w))) sysf sys' r' w1 = Inr w2 \<and>
    state_of w2 = kDisConnected \<and> my_registered w2 \<and> trace w2 = trace w1 @ [SysWrite (unsent w)] \<and>
    live_timers E w2 (idleTimerId (conn w2)) = Some (idle_closure (conn w2))"
proof -
  obtain w1 where w1: "TcpConnection_handleRead cbs (Inr []) t r w = invoke (closeCallback cbs) CallClose w1" "conn_inv E w1"
    "released E w1" "unsent w1 = unsent w" "channel_isWriting w1 = channel_isWriting w" "channel_isReading w1 = channel_isReading w"
    "fresh_timer r' (tq w1)" using read_end [OF assms(1,2), of cbs t r] assms(6) by metis
  have st: "state_of w1 = kDisConnected" "\<not> sendingFile (conn w1)"
    using w1(2,3) by (auto simp: released_def conn_inv_def conn_flags_def)
  have "channel_isWriting w1" "channel_isReading w1" "unsent w1 \<noteq> []"
    using assms(1-3) w1(4-6) by (auto simp: conn_inv_def conn_flags_def)
  from write_everything [OF w1(2) this st(2) w1(7) assms(4), of sysf sys'] show ?thesis
    using w1(1,3,4) st(1) assms(5) by auto
qed

theorem write_event_after_close_witness:
  "\<exists>w1 w2. TcpConnection_handleRead no_callbacks (Inr []) 0 demo_request (demo_world kConnected ''tail'' (-1) []) = Inr w1 \<and>
    TcpConnection_handleWrite no_callbacks (Inr 4) (Inl 0) (Inl 0) demo_request w1 = Inr w2 \<and>
    state_of w2 = kDisConnected \<and> my_registered w2"
proof -
  let ?w = "demo_world kConnected ''tail'' (-1) []"
  have inv: "conn_inv {} ?w" by (rule demo_world_inv) simp_all
  have un: "unsent ?w = ''tail''" "length (unsent ?w) = 4" and op: "conn_open ?w"
    by (simp_all add: demo_world_def)
  have fr: "fresh_timer demo_request (tq ?w)" using demo_request_fresh by (simp add: demo_world_def)
  have "unsent ?w \<noteq> []" "writeCompleteCallback no_callbacks = None" "closeCallback no_callbacks = None"
    using un by (simp_all add: no_callbacks_def)
  moreover have "length ''tail'' = (4 :: nat)" by simp
  ultimately show ?thesis
    using write_event_after_close [OF inv op _ _ _ fr, of no_callbacks 0 demo_request "Inl 0" "Inl 0"]
    unfolding un(1) by metis
qed

fun file_events :: "nat \<Rightarrow> nat list \<Rightarrow> conn_event list" where
  "file_events i [] = []"
| "file_events i (k # ks) = SendFile i k # file_events (i + k) ks"

lemma file_step:
  assumes inv: "conn_inv E w" and sending: "sendingFile (conn w)" and drained: "unsent w = []" and k: "k > 0"
    and cb: "writeCompleteCallback cbs = None"
  shows "\<exists>w'. handleWrite_file cbs (Inr k) w = Inr w' \<and> conn_inv E w' \<and> unsent w' = [] \<and>
    state_of w' = state_of w \<and>
    (if fileSentOffset (conn w) + k < fileTotalSize (conn w)
     then trace w' = trace w @ [SendFile (fileSentOffset (conn w)) k] \<and>
       sendingFile (conn w') \<and> fileFd (conn w') = fileFd (conn w) \<and>
       fileSentOffset (conn w') = fileSentOffset (conn w) + k \<and> fileTotalSize (conn w') = fileTotalSize (conn w)
     else trace w' = trace w @ [SendFile (fileSentOffset (conn w)) k, CloseFile (fileFd (conn w))] \<and>
       \<not> sendingFile (conn w') \<and> \<not> channel_isWriting w')"
proof -
  have flags: "conn_flags w" using inv by (simp add: conn_inv_def)
  have op: "conn_open w" using flags sending by (cases "state_of w") (simp_all add: conn_flags_def)
  then have bw: "but_writing E w" using inv by (simp add: conn_inv_open)
  let ?w1 = "on_conn (\<lambda>c. c\<lparr>fileSentOffset := fileSentOffset c + k\<rparr>)
    (emit (SendFile (fileSentOffset (conn w)) k) w)"
  have bw1: "but_writing E ?w1"
    using bw by (rule but_writing_cong) (use flags in \<open>simp_all add: emit_def conn_flags_def\<close>)
  show ?thesis
  proof (cases "fileSentOffset (conn w) + k < fileTotalSize (conn w)")
    case True
    have "conn_inv E ?w1" using bw1 inv op sending by (subst conn_inv_open) (simp_all add: conn_inv_open)
    with True drained sending k show ?thesis
      by (intro exI [of _ ?w1]) (simp add: handleWrite_file_def, simp add: emit_def)
  next
    case False
    let ?s = "on_conn (\<lambda>c. c\<lparr>fileFd := -1, sendingFile := False\<rparr>) (emit (CloseFile (fileFd (conn w))) ?w1)"
    have "but_writing E ?s" using bw1 by (rule but_writing_cong) (simp_all add: emit_def)
    from stop_writing [OF this] drained obtain p where
      p: "on_channel Channel_disableWriting ?s = Inr (?s\<lparr>poll_of := p\<rparr>)" "conn_inv E (?s\<lparr>poll_of := p\<rparr>)"
      by auto
    moreover from p(2) have "\<not> channel_isWriting (?s\<lparr>poll_of := p\<rparr>)"
      using op drained by (auto simp: conn_inv_def conn_flags_def)
    ultimately show ?thesis using False drained k cb
      by (intro exI [of _ "?s\<lparr>poll_of := p\<rparr>"]) (simp add: handleWrite_file_def, simp add: emit_def)
  qed
qed



lemma backoff_cap_min: "min (backoff_cap b n m) m = min (b * 2 ^ n) m"
proof (induction b n m rule: backoff_cap.induct)
  case (2 b n m)
  show ?case
  proof (cases "b > m div 2")
    case True
    then have "m \<le> b * 2" by linarith
    also have "\<dots> \<le> b * 2 ^ Suc n" by simp
    finally show ?thesis using True by simp
  next
    case False
    with 2 show ?thesis by (simp add: mult.assoc)
  qed
qed simp

text \<open>
  The retransmission delay is drawn from the interval from zero to the smaller of the doubled-up base
  and the maximum: the loop that doubles with its early exit computes exactly \<open>min (base * 2 ^ retries) max\<close>.
\<close>

theorem backoff_is_capped_exponential:
  "caculate_backoff_jitter base_delay_ms retries max_delay_ms draw = draw (min (base_delay_ms * 2 ^ retries) max_delay_ms)"
  by (simp add: caculate_backoff_jitter_def backoff_cap_min)


definition demo_entry :: "nat \<Rightarrow> retransmit_entry" where
  "demo_entry n = \<lparr>re_seq = 9, re_data = ''ping'', re_retries = n, re_timerId = TimerId_null\<rparr>"

lemma demo_entry_world: "conn_inv {} (demo_world kConnected [] (-1) [(9, demo_entry n)])"
  by (rule demo_world_inv) (auto simp: demo_entry_def split: if_splits)

lemma demo_no_timers: "live_timers {} (demo_world st cs f m) i = None"
  by (simp add: demo_world_def timers_live_def TimerQueue_new_def)


text \<open>A send on an idle connection that the kernel takes whole.\<close>

lemma sendInLoop_whole:
  assumes "conn_inv E w" and "conn_open w" and "unsent w = []" and "\<not> sendingFile (conn w)"
  shows "TcpConnection_sendInLoop cbs (Inr (length data)) data w =
    invoke (writeCompleteCallback cbs) CallWriteComplete
      (emit (SysWrite data) (w\<lparr>accepted := accepted w @ data\<rparr>))"
proof -
  have "conn_ok E w" "\<not> channel_isWriting w" using assms by (auto simp: conn_inv_def conn_flags_def)
  with assms readable_iff [of E w] show ?thesis
    by (auto simp: TcpConnection_sendInLoop_def Let_def conn_ok_def)
qed

text \<open>
  A write-complete callback that closes the connection makes a retransmission touch a freed entry:
  \<open>onRetransmitTimeout\<close> keeps a reference into the map that the close has just emptied.
\<close>

theorem retransmit_uses_freed_entry:
  assumes "conn_inv E w" and "conn_open w" and "unsent w = []" and "\<not> sendingFile (conn w)"
    and "mget (pendingRetrans (conn w)) seq = Some e" and "re_retries e < kMaxRetries"
    and "writeCompleteCallback cbs = Some (TcpConnection_forceClose no_callbacks)"
  shows "TcpConnection_onRetransmitTimeout cbs (Inr (length (re_data e))) draw r seq w = Inl UseAfterFree"
proof -
  let ?w1 = "emit CallWriteComplete (emit (SysWrite (re_data e)) (w\<lparr>accepted := accepted w @ re_data e\<rparr>))"
  let ?w2 = "setState kDisConnecting ?w1"
  have send: "TcpConnection_sendInLoop cbs (Inr (length (re_data e))) (re_data e) w =
      TcpConnection_forceClose no_callbacks ?w1"
    using sendInLoop_whole [OF assms(1-4)] assms(7) by (simp add: invoke_def)
  have ok: "conn_ok E w" "conn_owns E w" "in_thread w" using assms(1) by (simp_all add: conn_inv_def conn_ok_def)
  have bw: "but_writing E w" using assms(1,2) by (simp add: conn_inv_open)
  have "conn_inv E ?w2"
  proof (subst conn_inv_open)
    show "conn_open ?w2" by (simp add: setState_def)
    have "conn_ok E ?w2" using ok(1) by (simp add: conn_ok_def setState_def)
    moreover have "conn_owns E ?w2 = conn_owns E w" by (rule conn_owns_cong) (simp_all add: setState_def)
    moreover have "channel_isReading ?w2 = channel_isReading w" "channel_isWriting ?w2 = channel_isWriting w"
      by (simp_all add: setState_def channel_isReading_def channel_isWriting_def)
    ultimately show "but_writing E ?w2 \<and> channel_isWriting ?w2 = (unsent ?w2 \<noteq> [] \<or> sendingFile (conn ?w2))"
      using bw assms(1-3)
      by (simp add: but_writing_def conn_stream_def setState_def conn_inv_open emit_def)
  qed
  from handleClose_result [OF this, of no_callbacks] obtain w3 where
    w3: "TcpConnection_handleClose no_callbacks ?w2 = Inr w3" "released E w3"
    by (auto simp: setState_def no_callbacks_def)
  have "TcpConnection_forceClose no_callbacks ?w1 = Inr w3"
    using assms(2) w3(1) ok(3)
    by (auto simp: TcpConnection_forceClose_def run_or_post_def TcpConnection_forceCloseInLoop_def setState_def)
  with send w3(2) assms(5,6) ok(3) show ?thesis
    by (simp add: TcpConnection_onRetransmitTimeout_def released_def)
qed

theorem retransmit_uses_freed_entry_witness:
  "TcpConnection_onRetransmitTimeout (no_callbacks\<lparr>writeCompleteCallback := Some (TcpConnection_forceClose no_callbacks)\<rparr>)
     (Inr 4) id demo_request 9 (demo_world kConnected [] (-1) [(9, demo_entry 0)]) = Inl UseAfterFree"
proof -
  let ?w = "demo_world kConnected [] (-1) [(9, demo_entry 0)]"
  have "conn_open ?w" "unsent ?w = []" "\<not> sendingFile (conn ?w)"
    "mget (pendingRetrans (conn ?w)) 9 = Some (demo_entry 0)" "re_retries (demo_entry 0) < kMaxRetries"
    "length (re_data (demo_entry 0)) = 4"
    by (simp_all add: demo_world_def demo_entry_def kMaxRetries_def)
  with retransmit_uses_freed_entry [OF demo_entry_world, of 0 9 "demo_entry 0"
      "no_callbacks\<lparr>writeCompleteCallback := Some (TcpConnection_forceClose no_callbacks)\<rparr>" id demo_request]
  show ?thesis by simp
qed

section \<open>Facts for the users of a connection\<close>

lemma posted_simps [simp]:
  "posted (emit ev w) = posted w" "posted (on_conn f w) = posted w" "posted (setState st w) = posted w"
  by (simp_all add: emit_def on_conn_def setState_def)

lemma conn_inv_cong:
  "conn w' = conn w \<Longrightarrow> poll_of w' = poll_of w \<Longrightarrow> tq w' = tq w \<Longrightarrow> in_thread w' = in_thread w \<Longrightarrow>
    trace w' = trace w \<Longrightarrow> accepted w' = accepted w \<Longrightarrow> conn_inv E w' = conn_inv E w"
  by (simp add: conn_inv_def conn_ok_def conn_flags_def conn_stream_def conn_owns_def channel_isWriting_def
      channel_isReading_def)

lemma released_cong:
  "conn w' = conn w \<Longrightarrow> poll_of w' = poll_of w \<Longrightarrow> tq w' = tq w \<Longrightarrow> released E w' = released E w"
  by (simp add: released_def)

text \<open>The end of the stream, an error and \<open>forceClose\<close> close an open connection.\<close>

definition closes_conn :: "addr set \<Rightarrow> conn_callbacks \<Rightarrow> world \<Rightarrow> world res \<Rightarrow> bool" where
  "closes_conn E cbs w m \<longleftrightarrow>
    (\<exists>w1. m = invoke (closeCallback cbs) CallClose w1 \<and> conn_inv E w1 \<and> released E w1 \<and>
      trace w1 = trace w @ closed_file w \<and> posted w1 = posted w \<and> evolves w w1)"

lemma handleClose_closes:
  assumes "conn_inv E w" and "conn_open w"
  shows "closes_conn E cbs w (TcpConnection_handleClose cbs w)"
  using handleClose_result [OF assms, of cbs] unfolding closes_conn_def by blast

lemma handleError_closes: "conn_inv E w \<Longrightarrow> conn_open w \<Longrightarrow> closes_conn E cbs w (TcpConnection_handleError cbs w)"
  by (simp add: TcpConnection_handleError_def handleClose_closes)

lemma closes_conn_from:
  assumes "closes_conn E cbs v m" and "evolves w v" and "trace v = trace w" and "closed_file v = closed_file w"
    and "posted v = posted w"
  shows "closes_conn E cbs w m"
proof -
  obtain w1 where "m = invoke (closeCallback cbs) CallClose w1" "conn_inv E w1" "released E w1"
      "trace w1 = trace w @ closed_file w" "posted w1 = posted w" "evolves v w1"
    using assms(1) unfolding closes_conn_def assms(3-5) by blast
  with evolves_trans [OF assms(2)] show ?thesis unfolding closes_conn_def by blast
qed

lemma handleRead_closes:
  assumes inv: "conn_inv E w" and op: "conn_open w"
  shows "closes_conn E cbs w (TcpConnection_handleRead cbs (Inr []) t r w)"
proof -
  have thr: "in_thread w" and rb: "Buffer_inv (readBuffer (conn w))"
    using inv by (simp_all add: conn_inv_def conn_ok_def)
  from readFd_ok [OF rb, of "[]"] obtain b where
    b: "Buffer_readFd (Inr []) (readBuffer (conn w)) = Inr (Inr 0, b)" "Buffer_inv b" by auto
  let ?w = "on_conn (\<lambda>c. c\<lparr>readBuffer := b\<rparr>) w"
  have "conn_inv E ?w" using inv b(2) by (rule conn_inv_read)
  then have close: "closes_conn E cbs ?w (TcpConnection_handleClose cbs ?w)" by (rule handleClose_closes) (use op in simp)
  have eq: "TcpConnection_handleRead cbs (Inr []) t r w = TcpConnection_handleClose cbs ?w"
    using b(1) thr by (simp add: TcpConnection_handleRead_def)
  show ?thesis unfolding eq by (rule closes_conn_from [OF close]) (simp_all add: evolves_def closed_file_def on_conn_def)
qed

lemma forceClose_closes:
  assumes inv: "conn_inv E w" and op: "conn_open w"
  shows "closes_conn E cbs w (TcpConnection_forceClose cbs w)"
proof -
  let ?w = "setState kDisConnecting w"
  have "conn_inv E ?w" using inv op closing_state_inv [OF inv] setState_same [of w kDisConnecting] by auto
  then have close: "closes_conn E cbs ?w (TcpConnection_handleClose cbs ?w)"
    by (rule handleClose_closes) (simp add: setState_def)
  have eq: "TcpConnection_forceClose cbs w = TcpConnection_handleClose cbs ?w"
    using op conn_inv_thread [OF inv]
    by (auto simp: TcpConnection_forceClose_def run_or_post_def TcpConnection_forceCloseInLoop_def setState_def)
  have "evolves w ?w" using op by (auto simp: evolves_def setState_def)
  then show ?thesis
    unfolding eq by (rule closes_conn_from [OF close]) (simp_all add: closed_file_def setState_def on_conn_def)
qed

text \<open>What a send leaves alone when there is no write-complete callback.\<close>

lemma enableWriting_frame:
  "on_channel Channel_enableWriting w = Inr w' \<Longrightarrow> conn w' = conn w \<and> accepted w' = accepted w"
  by (auto simp: on_channel_def)

lemma disableWriting_frame:
  "on_channel Channel_disableWriting w = Inr w' \<Longrightarrow> conn w' = conn w \<and> accepted w' = accepted w"
  by (auto simp: on_channel_def)

lemma send_frame:
  assumes "TcpConnection_send cbs sys data w = Inr w'" and "state_of w = kConnected" and "in_thread w"
    and "writeCompleteCallback cbs = None"
  shows "state_of w' = kConnected \<and> sendingFile (conn w') = sendingFile (conn w) \<and>
    readBuffer (conn w') = readBuffer (conn w) \<and> accepted w' = accepted w @ data"
  using assms
  by (auto simp: TcpConnection_send_def run_or_post_def TcpConnection_sendInLoop_def Let_def rbind_eq_Inr
      dest!: enableWriting_frame split: if_splits)

text \<open>
  An established connection is a byte sink for the sends that run in its loop: each is data with what the kernel answers
  to the \<open>write\<close>.
\<close>

definition send_ready :: "addr set \<Rightarrow> conn_callbacks \<Rightarrow> world \<Rightarrow> bool" where
  "send_ready E cbs w \<longleftrightarrow>
    callbacks_ok E cbs \<and> writeCompleteCallback cbs = None \<and> conn_inv E w \<and> state_of w = kConnected"

lemma send_connected: "in_thread w \<Longrightarrow> state_of w = kConnected \<Longrightarrow>
    TcpConnection_send cbs sys data w = TcpConnection_sendInLoop cbs sys data w"
  by (simp add: TcpConnection_send_def run_or_post_def)

interpretation sends: byte_sink accepted "send_ready E cbs" "\<lambda>x. TcpConnection_sendInLoop cbs (snd x) (fst x)" fst
    "\<lambda>x. took (snd x) (length (fst x))" for E cbs
proof unfold_locales
  fix w :: world and x :: "string \<times> (errno + nat)"
  assume "send_ready E cbs w" and x: "took (snd x) (length (fst x))"
  then have cbs: "callbacks_ok E cbs" "writeCompleteCallback cbs = None" and w: "conn_inv E w" "state_of w = kConnected"
    by (simp_all add: send_ready_def)
  from sendInLoop_ok [OF cbs(1) w(1), of "snd x" "fst x"] w(2) x obtain w' where
    w': "TcpConnection_sendInLoop cbs (snd x) (fst x) w = Inr w'" "conn_inv E w'" by (auto simp: goes_ok_def took_def)
  with send_frame [of cbs "snd x" "fst x" w w'] send_connected [OF conn_inv_thread [OF w(1)] w(2)] w(2) cbs
    conn_inv_thread [OF w(1)]
  show "\<exists>w'. TcpConnection_sendInLoop cbs (snd x) (fst x) w = Inr w' \<and> send_ready E cbs w' \<and>
      accepted w' = accepted w @ fst x" by (auto simp: send_ready_def)
qed

end
