(* ===== verification/InetAddress.thy ===== *)
theory InetAddress
  imports Endian
begin

text \<open>
  Socket addresses (\<open>net/InetAddress.h\<close>, \<open>net/InetAddress.cc\<close>). The address bytes of a structure are
  kept in memory order, which is network order; the port is the \<open>uint16_t\<close> that the structure stores, and
  \<open>le\<close> tells the byte order of the host. The union of the class and its tag \<open>ipv6_\<close> are one datatype.
  \<open>inet_ntop\<close> and \<open>inet_pton\<close> are the C library's: written out for IPv4, parameters (\<open>ntop6\<close>, \<open>pton6\<close>)
  for IPv6.
\<close>

section \<open>Structures\<close>

definition AF_INET :: "16 word" where "AF_INET = 2"
definition AF_INET6 :: "16 word" where "AF_INET6 = 10"

record sockaddr_in =
  sin_family :: "16 word"
  sin_port :: "16 word"
  sin_addr :: "char list"

record sockaddr_in6 =
  sin6_family :: "16 word"
  sin6_port :: "16 word"
  sin6_flowinfo :: "32 word"
  sin6_addr :: "char list"
  sin6_scope_id :: "32 word"

datatype inet_address = Ipv4 sockaddr_in | Ipv6 sockaddr_in6

text \<open>A \<open>sockaddr_storage\<close>: its family and its bytes read as either structure.\<close>

record sockaddr_storage =
  ss_family :: "16 word"
  as_in :: sockaddr_in
  as_in6 :: sockaddr_in6

section \<open>Text form of IPv4 addresses\<close>

definition octet :: "char \<Rightarrow> nat" where
  "octet c = of_char c"

fun join_octets :: "nat list \<Rightarrow> string" where
  "join_octets [] = []"
| "join_octets [n] = to_string n"
| "join_octets (n # ns) = to_string n @ ''.'' @ join_octets ns"

definition inet_ntop4 :: "char list \<Rightarrow> string" where
  "inet_ntop4 a = join_octets (map octet a)"

text \<open>
  \<open>inet_pton\<close> for IPv4: \<open>ns\<close> are the octets that are complete, \<open>cur\<close> the one being read. A leading
  zero, a value above 255, an empty octet or another number of octets than four is an error.
\<close>

fun pton4_scan :: "nat list \<Rightarrow> nat option \<Rightarrow> string \<Rightarrow> nat list option" where
  "pton4_scan ns cur [] =
    (case cur of None \<Rightarrow> None | Some n \<Rightarrow> if length ns = 3 then Some (ns @ [n]) else None)"
| "pton4_scan ns cur (c # cs) =
    (if is_digit c then
       (case cur of
          None \<Rightarrow> pton4_scan ns (Some (digit_val c)) cs
        | Some n \<Rightarrow>
            if n = 0 \<or> n * 10 + digit_val c > 255 then None
            else pton4_scan ns (Some (n * 10 + digit_val c)) cs)
     else if c = CHR ''.'' then
       (case cur of
          None \<Rightarrow> None
        | Some n \<Rightarrow> if length ns = 3 then None else pton4_scan (ns @ [n]) None cs)
     else None)"

definition inet_pton4 :: "string \<Rightarrow> char list option" where
  "inet_pton4 s = map_option (map char_of) (pton4_scan [] None s)"

definition c_str :: "string \<Rightarrow> string" where
  "c_str s = takeWhile (\<lambda>c. c \<noteq> CHR 0x00) s"

section \<open>Operations\<close>

definition ipv4ToString :: "sockaddr_in \<Rightarrow> string" where
  "ipv4ToString addr4 = inet_ntop4 (sin_addr addr4)"

definition ipv6ToString :: "(char list \<Rightarrow> string) \<Rightarrow> sockaddr_in6 \<Rightarrow> string" where
  "ipv6ToString ntop6 addr6 = ntop6 (sin6_addr addr6)"

definition fillIpv4 :: "bool \<Rightarrow> string \<Rightarrow> 16 word \<Rightarrow> sockaddr_in res" where
  "fillIpv4 le ip port =
    (let addr4 = \<lparr>sin_family = AF_INET, sin_port = host16ToNet le port, sin_addr = replicate 4 (CHR 0x00)\<rparr>
     in if ip = [] then Inr addr4
        else (case inet_pton4 (c_str ip) of
                None \<Rightarrow> Inl AssertFailed
              | Some a \<Rightarrow> Inr (addr4\<lparr>sin_addr := a\<rparr>)))"

definition fillIpv6 ::
  "(string \<Rightarrow> char list option) \<Rightarrow> bool \<Rightarrow> string \<Rightarrow> 16 word \<Rightarrow> sockaddr_in6 res" where
  "fillIpv6 pton6 le ip port =
    (let addr6 = \<lparr>sin6_family = AF_INET6, sin6_port = host16ToNet le port, sin6_flowinfo = 0,
                  sin6_addr = replicate 16 (CHR 0x00), sin6_scope_id = 0\<rparr>
     in if ip = [] then Inr addr6
        else (case pton6 (c_str ip) of
                None \<Rightarrow> Inl AssertFailed
              | Some a \<Rightarrow> Inr (addr6\<lparr>sin6_addr := a\<rparr>)))"

definition InetAddress_default :: inet_address where
  "InetAddress_default = Ipv4 \<lparr>sin_family = 0, sin_port = 0, sin_addr = replicate 4 (CHR 0x00)\<rparr>"

definition InetAddress_new ::
  "(string \<Rightarrow> char list option) \<Rightarrow> bool \<Rightarrow> string \<Rightarrow> 16 word \<Rightarrow> bool \<Rightarrow> inet_address res" where
  "InetAddress_new pton6 le ip port ipv6 =
    (if ipv6 then rbind (fillIpv6 pton6 le ip port) (\<lambda>a. Inr (Ipv6 a))
     else rbind (fillIpv4 le ip port) (\<lambda>a. Inr (Ipv4 a)))"

definition InetAddress_ofIn :: "sockaddr_in \<Rightarrow> inet_address" where
  "InetAddress_ofIn addr4 = Ipv4 addr4"

definition InetAddress_ofIn6 :: "sockaddr_in6 \<Rightarrow> inet_address" where
  "InetAddress_ofIn6 addr6 = Ipv6 addr6"

definition InetAddress_toIp :: "(char list \<Rightarrow> string) \<Rightarrow> inet_address \<Rightarrow> string" where
  "InetAddress_toIp ntop6 x = (case x of Ipv6 a \<Rightarrow> ipv6ToString ntop6 a | Ipv4 a \<Rightarrow> ipv4ToString a)"

definition InetAddress_toPort :: "bool \<Rightarrow> inet_address \<Rightarrow> 16 word" where
  "InetAddress_toPort le x =
    (case x of Ipv6 a \<Rightarrow> netToHost16 le (sin6_port a) | Ipv4 a \<Rightarrow> netToHost16 le (sin_port a))"

definition InetAddress_toIpPort :: "(char list \<Rightarrow> string) \<Rightarrow> bool \<Rightarrow> inet_address \<Rightarrow> string" where
  "InetAddress_toIpPort ntop6 le x =
    (let ip = InetAddress_toIp ntop6 x; port = unat (InetAddress_toPort le x)
     in case x of Ipv6 _ \<Rightarrow> ''['' @ ip @ '']:'' @ to_string port | Ipv4 _ \<Rightarrow> ip @ '':'' @ to_string port)"

definition InetAddress_getFamily :: "inet_address \<Rightarrow> 16 word" where
  "InetAddress_getFamily x = (case x of Ipv6 a \<Rightarrow> sin6_family a | Ipv4 a \<Rightarrow> sin_family a)"

definition InetAddress_getSockLen :: "inet_address \<Rightarrow> nat" where
  "InetAddress_getSockLen x = (case x of Ipv6 _ \<Rightarrow> 28 | Ipv4 _ \<Rightarrow> 16)"

text \<open>Both overloads; the length argument of the second one is not used.\<close>

definition InetAddress_setFromSockaddr :: "sockaddr_storage \<Rightarrow> inet_address" where
  "InetAddress_setFromSockaddr st = (if ss_family st = AF_INET then Ipv4 (as_in st) else Ipv6 (as_in6 st))"

section \<open>Reading back what is written\<close>

lemma digit_of_char: "is_digit c \<Longrightarrow> digit_val c < 10 \<and> digit_char (digit_val c) = c"
  by (auto simp: is_digit_def digit_val_def digit_char_def)

lemma to_string_snoc:
  assumes "0 < n" and "is_digit c"
  shows "to_string (n * 10 + digit_val c) = to_string n @ [c]"
proof -
  have c: "digit_val c < 10" "digit_char (digit_val c) = c"
    using assms(2) digit_of_char by auto
  then have "\<not> n * 10 + digit_val c < 10" "(n * 10 + digit_val c) div 10 = n" "(n * 10 + digit_val c) mod 10 = digit_val c"
    using assms(1) by auto
  then show ?thesis using c(2) by (simp add: to_string.simps [of "n * 10 + digit_val c"])
qed

lemma to_string_digit: "is_digit c \<Longrightarrow> to_string (digit_val c) = [c]"
  using digit_of_char [of c] by (simp add: to_string.simps [of "digit_val c"])

lemma scan_number:
  assumes "n \<le> 255"
  shows "pton4_scan ns None (to_string n @ cs) = pton4_scan ns (Some n) cs"
  using assms
proof (induction n arbitrary: cs rule: to_string.induct)
  case (1 n)
  show ?case
  proof (cases "n < 10")
    case True
    then show ?thesis by (simp add: to_string.simps [of n] digit_char_props)
  next
    case False
    have "to_string n = to_string (n div 10) @ [digit_char (n mod 10)]"
      using False by (simp add: to_string.simps [of n])
    moreover have "n div 10 \<noteq> 0" using False by auto
    ultimately show ?thesis using 1 False by (simp add: digit_char_props)
  qed
qed

lemma dot_no_digit [simp]: "\<not> is_digit (CHR ''.'')"
  by (simp add: is_digit_def)

lemma scan_octets:
  assumes "\<forall>n \<in> set ms. n \<le> 255" and "length ns + length ms = 4" and "ms \<noteq> []"
  shows "pton4_scan ns None (join_octets ms) = Some (ns @ ms)"
  using assms
proof (induction ms arbitrary: ns rule: join_octets.induct)
  case (2 n)
  then show ?case using scan_number [of n ns "[]"] by simp
next
  case (3 n m ms)
  then show ?case by (simp add: scan_number)
qed simp

text \<open>The text that a state of the scanner stands for.\<close>

definition scanned :: "nat list \<Rightarrow> nat option \<Rightarrow> string" where
  "scanned ns cur = concat (map (\<lambda>n. to_string n @ ''.'') ns) @ (case cur of None \<Rightarrow> [] | Some n \<Rightarrow> to_string n)"

lemma join_scanned: "join_octets (ns @ [n]) = scanned ns (Some n)"
  by (induction ns rule: join_octets.induct) (simp_all add: scanned_def)

lemma digit_val_le: "is_digit c \<Longrightarrow> digit_val c \<le> 255"
  using digit_of_char [of c] by simp

lemma scan_sound:
  assumes "pton4_scan ns cur s = Some ms" and "\<forall>n \<in> set ns. n \<le> 255" and "\<forall>n. cur = Some n \<longrightarrow> n \<le> 255"
  shows "join_octets ms = scanned ns cur @ s \<and> length ms = 4 \<and> (\<forall>n \<in> set ms. n \<le> 255)"
  using assms
proof (induction ns cur s rule: pton4_scan.induct)
  case (1 ns cur)
  then show ?case by (auto simp: join_scanned split: option.splits if_splits)
next
  case (2 ns cur c cs)
  show ?case
  proof (cases "is_digit c")
    case True
    then show ?thesis
      using 2 by (cases cur) (auto simp: scanned_def to_string_digit to_string_snoc digit_val_le split: if_splits)
  next
    case False
    then show ?thesis
      using 2 by (cases cur) (auto simp: scanned_def split: if_splits)
  qed
qed

lemma octet_le: "octet c \<le> 255"
  using nat_of_char_less_256 [of c] unfolding octet_def by linarith

lemma char_of_octet [simp]: "map (\<lambda>x. char_of (octet x)) a = a"
  by (simp add: octet_def)

lemma octet_char_of: "\<forall>n \<in> set ms. n \<le> 255 \<Longrightarrow> map (\<lambda>n. octet (char_of n)) ms = ms"
  by (induction ms) (auto simp: octet_def)

lemma ntop_pton:
  assumes "length a = 4"
  shows "inet_pton4 (inet_ntop4 a) = Some a"
proof -
  have "map octet a \<noteq> []" using assms by auto
  then have "pton4_scan [] None (inet_ntop4 a) = Some (map octet a)"
    using scan_octets [of "map octet a" "[]"] assms by (simp add: inet_ntop4_def octet_le)
  then show ?thesis by (simp add: inet_pton4_def comp_def)
qed

lemma pton_ntop:
  assumes "inet_pton4 s = Some a"
  shows "inet_ntop4 a = s \<and> length a = 4"
proof -
  obtain ms where ms: "pton4_scan [] None s = Some ms" "a = map char_of ms"
    using assms by (auto simp: inet_pton4_def)
  with scan_sound [OF ms(1)] show ?thesis
    by (simp add: inet_ntop4_def comp_def octet_char_of scanned_def)
qed

lemma port_roundtrip [simp]: "netToHost16 le (host16ToNet le p) = p"
  by (simp add: netToHost16_def host16ToNet_def)

lemma c_str_text: "CHR 0x00 \<notin> set s \<Longrightarrow> c_str s = s"
  unfolding c_str_def by (rule takeWhile_eq_all_conv [THEN iffD2]) auto

section \<open>Properties\<close>

text \<open>
  An address built from text reads back as the same text: an IPv4 address is accepted exactly when it is
  a canonical dotted quad (any other text fails the assertion), \<open>toIp\<close>, \<open>toPort\<close> and \<open>toIpPort\<close> then give
  back the text and the port, whatever the byte order of the host; and every four bytes have such a text.
\<close>

theorem inet_address_roundtrip:
  assumes "ip \<noteq> []" and "CHR 0x00 \<notin> set ip"
  shows "(case InetAddress_new pton6 le ip port False of
      Inl e \<Rightarrow> e = AssertFailed \<and> (\<nexists>a. length a = 4 \<and> inet_ntop4 a = ip)
    | Inr x \<Rightarrow> InetAddress_toIp ntop6 x = ip \<and> InetAddress_toPort le x = port \<and>
        InetAddress_toIpPort ntop6 le x = ip @ '':'' @ to_string (unat port) \<and>
        InetAddress_getFamily x = AF_INET \<and> (\<exists>a. length a = 4 \<and> inet_ntop4 a = ip))"
proof (cases "inet_pton4 ip")
  case None
  then have "\<nexists>a. length a = 4 \<and> inet_ntop4 a = ip" using ntop_pton by force
  with None assms show ?thesis by (simp add: InetAddress_new_def fillIpv4_def c_str_text Let_def)
next
  case (Some a)
  with pton_ntop [OF Some] assms show ?thesis
    by (auto simp: InetAddress_new_def fillIpv4_def c_str_text Let_def InetAddress_toIp_def InetAddress_toPort_def
        InetAddress_toIpPort_def InetAddress_getFamily_def ipv4ToString_def)
qed

theorem inet_address_roundtrip_witness:
  "\<exists>x. InetAddress_new (\<lambda>_. None) True ''1.2.3.4'' 80 False = Inr x \<and>
    InetAddress_toIpPort (\<lambda>_. []) True x = ''1.2.3.4'' @ '':'' @ to_string (unat (80 :: 16 word))"
proof -
  let ?ip = "''1.2.3.4''"
  have "inet_pton4 ?ip \<noteq> None" by code_simp
  moreover have ip: "?ip \<noteq> []" "CHR 0x00 \<notin> set ?ip" by simp_all
  ultimately obtain x where x: "InetAddress_new (\<lambda>_. None) True ?ip 80 False = Inr x"
    using c_str_text [of ?ip] by (auto simp: InetAddress_new_def fillIpv4_def Let_def)
  from inet_address_roundtrip [OF ip, of "\<lambda>_. []" True 80 "\<lambda>_. None"] x show ?thesis
    unfolding x sum.case by blast
qed

end
