(* ===== verification/Socket.thy ===== *)
theory Socket
  imports InetAddress
begin

text \<open>
  Sockets (\<open>net/Socket.h\<close>, \<open>net/Socket.cc\<close>): objects that own a descriptor. \<open>socks\<close> holds the live
  \<open>Socket\<close> objects with their \<open>fd_\<close>, \<open>open_fds\<close> is the descriptor table of the process, and
  \<open>bad_closes\<close> counts, for the statements only, calls of \<open>close\<close> on a descriptor that is not open. The
  results of the system calls are arguments (\<open>errno + result\<close>).
\<close>

record sock_state =
  socks :: "addr \<Rightarrow> int option"
  open_fds :: "int set"
  bad_closes :: nat

definition sock_state_new :: sock_state where
  "sock_state_new = \<lparr>socks = (\<lambda>_. None), open_fds = {}, bad_closes = 0\<rparr>"

definition sys_close :: "int \<Rightarrow> sock_state \<Rightarrow> sock_state" where
  "sys_close fd s =
    (if fd \<in> open_fds s then s\<lparr>open_fds := open_fds s - {fd}\<rparr>
     else s\<lparr>bad_closes := bad_closes s + 1\<rparr>)"

definition sys_open :: "int \<Rightarrow> sock_state \<Rightarrow> sock_state" where
  "sys_open fd s = s\<lparr>open_fds := insert fd (open_fds s)\<rparr>"

definition set_sock :: "addr \<Rightarrow> int \<Rightarrow> sock_state \<Rightarrow> sock_state" where
  "set_sock a fd s = s\<lparr>socks := (socks s)(a \<mapsto> fd)\<rparr>"

definition the_sock :: "addr \<Rightarrow> sock_state \<Rightarrow> (int \<Rightarrow> 'r res) \<Rightarrow> 'r res" where
  "the_sock a s f = (case socks s a of None \<Rightarrow> Inl UseAfterFree | Some fd \<Rightarrow> f fd)"

section \<open>Construction, moves and destruction\<close>

definition Socket_default :: "addr \<Rightarrow> sock_state \<Rightarrow> sock_state res" where
  "Socket_default a s = Inr (set_sock a (-1) s)"

definition creatNonBlockFd :: "nat + nat \<Rightarrow> sock_state \<Rightarrow> (int \<times> sock_state) res" where
  "creatNonBlockFd ret s =
    (case ret of
       Inl e \<Rightarrow> Inl AssertFailed
     | Inr fd \<Rightarrow> Inr (int fd, sys_open (int fd) s))"

definition Socket_new :: "nat + nat \<Rightarrow> addr \<Rightarrow> sock_state \<Rightarrow> sock_state res" where
  "Socket_new ret a s = rbind (creatNonBlockFd ret s) (\<lambda>(fd, s). Inr (set_sock a fd s))"

definition Socket_fromFd :: "int \<Rightarrow> addr \<Rightarrow> sock_state \<Rightarrow> sock_state res" where
  "Socket_fromFd sockfd a s = Inr (set_sock a sockfd s)"

definition Socket_move :: "addr \<Rightarrow> addr \<Rightarrow> sock_state \<Rightarrow> sock_state res" where
  "Socket_move a other s = the_sock other s (\<lambda>fd. Inr (set_sock other (-1) (set_sock a fd s)))"

definition Socket_assign :: "addr \<Rightarrow> addr \<Rightarrow> sock_state \<Rightarrow> sock_state res" where
  "Socket_assign a other s =
    the_sock a s (\<lambda>mine. the_sock other s (\<lambda>fd.
      if a = other then Inr s
      else
        (let s = (if mine \<ge> 0 then sys_close mine s else s)
         in Inr (set_sock other (-1) (set_sock a fd s)))))"

definition Socket_destroy :: "addr \<Rightarrow> sock_state \<Rightarrow> sock_state res" where
  "Socket_destroy a s =
    the_sock a s (\<lambda>fd.
      let s = (if fd \<ge> 0 then sys_close fd s else s) in Inr (s\<lparr>socks := (socks s)(a := None)\<rparr>))"

definition Socket_valid :: "addr \<Rightarrow> sock_state \<Rightarrow> bool res" where
  "Socket_valid a s = the_sock a s (\<lambda>fd. Inr (fd \<ge> 0))"

section \<open>System calls\<close>

text \<open>\<open>accept\<close> constructs the object at \<open>b\<close> and fills \<open>peerAddr\<close> when it is not null and a peer came.\<close>

definition Socket_accept ::
  "nat + (nat \<times> sockaddr_storage) \<Rightarrow> addr \<Rightarrow> addr \<Rightarrow> inet_address option \<Rightarrow> sock_state
    \<Rightarrow> (inet_address option \<times> sock_state) res" where
  "Socket_accept ret a b peerAddr s =
    the_sock a s (\<lambda>_.
      case ret of
        Inl e \<Rightarrow> rbind (Socket_default b s) (\<lambda>s. Inr (peerAddr, s))
      | Inr (connfd, addr) \<Rightarrow>
          let peerAddr = map_option (\<lambda>_. InetAddress_setFromSockaddr addr) peerAddr
          in rbind (Socket_fromFd (int connfd) b (sys_open (int connfd) s)) (\<lambda>s. Inr (peerAddr, s)))"

definition Socket_getLocalAddr :: "nat + sockaddr_storage \<Rightarrow> inet_address" where
  "Socket_getLocalAddr ret =
    (case ret of Inl e \<Rightarrow> InetAddress_default | Inr addr \<Rightarrow> InetAddress_setFromSockaddr addr)"

definition Socket_bind :: "int \<Rightarrow> unit res" where
  "Socket_bind ret = check (ret = 0) AssertFailed ()"

definition Socket_listen :: "int \<Rightarrow> unit res" where
  "Socket_listen ret = check (ret = 0) AssertFailed ()"

text \<open>The options: the value passed to \<open>setsockopt\<close>, then the assertion on its result.\<close>

definition sockopt :: "(int \<Rightarrow> int) \<Rightarrow> bool \<Rightarrow> unit res" where
  "sockopt setsockopt on = (let optval = (if on then 1 else 0) in check (setsockopt optval = 0) AssertFailed ())"

definition Socket_setReuseAddress :: "(int \<Rightarrow> int) \<Rightarrow> bool \<Rightarrow> unit res" where
  "Socket_setReuseAddress = sockopt"

definition Socket_setReusePort :: "(int \<Rightarrow> int) \<Rightarrow> bool \<Rightarrow> unit res" where
  "Socket_setReusePort = sockopt"

definition Socket_setKeepAlive :: "(int \<Rightarrow> int) \<Rightarrow> bool \<Rightarrow> unit res" where
  "Socket_setKeepAlive = sockopt"

definition Socket_setTcpNoDelay :: "(int \<Rightarrow> int) \<Rightarrow> bool \<Rightarrow> unit res" where
  "Socket_setTcpNoDelay = sockopt"

unbundle bit_operations_syntax

definition O_NONBLOCK :: "32 word" where "O_NONBLOCK = 0x800"

definition Socket_setNonBlocking :: "32 word \<Rightarrow> (32 word \<Rightarrow> int) \<Rightarrow> bool \<Rightarrow> unit res" where
  "Socket_setNonBlocking flags setfl on =
    (let flag = (if on then flags OR O_NONBLOCK else flags AND NOT O_NONBLOCK)
     in check (setfl flag = 0) AssertFailed ())"

section \<open>Ownership\<close>

datatype sock_op =
  DefaultSocket addr | NewSocket "nat + nat" addr | AcceptSocket "nat + (nat \<times> sockaddr_storage)" addr addr
| MoveSocket addr addr | AssignSocket addr addr | DestroySocket addr

fun Socket_apply :: "sock_op \<Rightarrow> sock_state \<Rightarrow> sock_state res" where
  "Socket_apply (DefaultSocket a) s = Socket_default a s"
| "Socket_apply (NewSocket ret a) s = Socket_new ret a s"
| "Socket_apply (AcceptSocket ret a b) s = rbind (Socket_accept ret a b None s) (\<lambda>(_, s). Inr s)"
| "Socket_apply (MoveSocket a b) s = Socket_move a b s"
| "Socket_apply (AssignSocket a b) s = Socket_assign a b s"
| "Socket_apply (DestroySocket a) s = Socket_destroy a s"

text \<open>
  What the language and the kernel guarantee: objects are constructed where none is alive and used while
  they are alive; \<open>socket\<close> succeeds (its failure is the assertion); a new descriptor is not open yet.
\<close>

fun sock_legal :: "sock_op \<Rightarrow> sock_state \<Rightarrow> bool" where
  "sock_legal (DefaultSocket a) s \<longleftrightarrow> socks s a = None"
| "sock_legal (NewSocket ret a) s \<longleftrightarrow>
    socks s a = None \<and> (case ret of Inl e \<Rightarrow> False | Inr fd \<Rightarrow> int fd \<notin> open_fds s)"
| "sock_legal (AcceptSocket ret a b) s \<longleftrightarrow>
    socks s a \<noteq> None \<and> socks s b = None \<and> (case ret of Inl e \<Rightarrow> True | Inr (fd, _) \<Rightarrow> int fd \<notin> open_fds s)"
| "sock_legal (MoveSocket a b) s \<longleftrightarrow> socks s a = None \<and> socks s b \<noteq> None"
| "sock_legal (AssignSocket a b) s \<longleftrightarrow> socks s a \<noteq> None \<and> socks s b \<noteq> None"
| "sock_legal (DestroySocket a) s \<longleftrightarrow> socks s a \<noteq> None"

fun socks_legal :: "sock_op list \<Rightarrow> sock_state \<Rightarrow> bool" where
  "socks_legal [] s = True"
| "socks_legal (x # xs) s \<longleftrightarrow>
    sock_legal x s \<and> (case Socket_apply x s of Inl _ \<Rightarrow> True | Inr s' \<Rightarrow> socks_legal xs s')"

text \<open>Every open descriptor has exactly one owner, every valid socket owns an open descriptor.\<close>

definition Socket_inv :: "sock_state \<Rightarrow> bool" where
  "Socket_inv s \<longleftrightarrow>
    (\<forall>fd. fd \<in> open_fds s \<longleftrightarrow> fd \<ge> 0 \<and> (\<exists>a. socks s a = Some fd)) \<and>
    (\<forall>a b fd. socks s a = Some fd \<longrightarrow> socks s b = Some fd \<longrightarrow> fd \<ge> 0 \<longrightarrow> a = b) \<and>
    bad_closes s = 0"

lemmas socket_defs =
  Socket_default_def Socket_new_def creatNonBlockFd_def Socket_fromFd_def Socket_move_def Socket_assign_def
  Socket_destroy_def Socket_accept_def the_sock_def set_sock_def sys_open_def sys_close_def Let_def

lemma Socket_invD:
  assumes "Socket_inv s"
  shows "fd \<in> open_fds s \<longleftrightarrow> fd \<ge> 0 \<and> (\<exists>a. socks s a = Some fd)"
    and "socks s a = Some fd \<Longrightarrow> socks s b = Some fd \<Longrightarrow> fd \<ge> 0 \<Longrightarrow> a = b"
    and "bad_closes s = 0"
  using assms by (auto simp: Socket_inv_def)

lemma add_invalid:
  assumes "Socket_inv s" and "socks s a = None"
  shows "Socket_inv (set_sock a (-1) s)"
  using assms by (auto simp: socket_defs Socket_inv_def) (metis option.distinct(1))+

lemma add_open:
  assumes inv: "Socket_inv s" and a: "socks s a = None" and fd: "fd \<ge> 0" "fd \<notin> open_fds s"
  shows "Socket_inv (set_sock a fd (sys_open fd s))"
proof -
  have "socks s b \<noteq> Some fd" for b using Socket_invD(1) [OF inv, of fd] fd by auto
  with assms show ?thesis
    by (auto simp: set_sock_def sys_open_def Socket_inv_def split: if_splits) (metis option.distinct(1))+
qed

text \<open>Handing a descriptor over to a fresh object, and giving up the one an object owns.\<close>

lemma transfer_inv:
  assumes inv: "Socket_inv s" and a: "socks s a = None" and b: "socks s b = Some fd"
  shows "Socket_inv (set_sock b (-1) (set_sock a fd s))"
proof -
  have ab: "a \<noteq> b" using a b by auto
  define s' where "s' = set_sock b (-1) (set_sock a fd s)"
  have socks': "socks s' c = (if c = b then Some (-1) else if c = a then Some fd else socks s c)" for c
    by (simp add: s'_def set_sock_def)
  have "(\<exists>c. socks s' c = Some x) \<longleftrightarrow> (\<exists>c. socks s c = Some x)" if "x \<ge> 0" for x
  proof
    assume "\<exists>c. socks s' c = Some x"
    then obtain c where "socks s' c = Some x" ..
    with b that show "\<exists>c. socks s c = Some x" by (auto simp: socks' split: if_splits)
  next
    assume "\<exists>c. socks s c = Some x"
    then obtain c where c: "socks s c = Some x" ..
    show "\<exists>c. socks s' c = Some x"
    proof (cases "c = b")
      case True
      with b c ab show ?thesis by (intro exI [of _ a]) (simp add: socks')
    next
      case False
      with a c show ?thesis by (intro exI [of _ c]) (auto simp: socks')
    qed
  qed
  moreover have "c = d" if "socks s' c = Some x" "socks s' d = Some x" "x \<ge> 0" for c d x
    using that Socket_invD(2) [OF inv _ _ that(3)] b by (auto simp: socks' split: if_splits)
  moreover have "open_fds s' = open_fds s" "bad_closes s' = bad_closes s" by (simp_all add: s'_def set_sock_def)
  ultimately have "Socket_inv s'" using inv by (auto simp: Socket_inv_def)
  then show ?thesis by (simp add: s'_def)
qed

definition release :: "addr \<Rightarrow> int \<Rightarrow> sock_state \<Rightarrow> sock_state" where
  "release a k s = (let s = (if k \<ge> 0 then sys_close k s else s) in s\<lparr>socks := (socks s)(a := None)\<rparr>)"

lemma release_inv:
  assumes inv: "Socket_inv s" and a: "socks s a = Some k"
  shows "Socket_inv (release a k s)"
proof -
  define s' where "s' = release a k s"
  have socks': "socks s' c = (if c = a then None else socks s c)" for c
    by (simp add: s'_def release_def sys_close_def Let_def)
  have "k \<in> open_fds s" if "k \<ge> 0" using Socket_invD(1) [OF inv, of k] a that by auto
  then have open': "open_fds s' = open_fds s - (if k \<ge> 0 then {k} else {})" and bad: "bad_closes s' = 0"
    using Socket_invD(3) [OF inv] by (auto simp: s'_def release_def sys_close_def)
  have "x \<in> open_fds s' \<longleftrightarrow> x \<ge> 0 \<and> (\<exists>c. socks s' c = Some x)" for x
  proof (cases "x = k")
    case True
    have "\<not> (\<exists>c. socks s' c = Some k)" if "k \<ge> 0"
      using Socket_invD(2) [OF inv a _ that] by (auto simp: socks')
    with True Socket_invD(1) [OF inv, of k] show ?thesis by (auto simp: open')
  next
    case False
    have "(\<exists>c. socks s' c = Some x) \<longleftrightarrow> (\<exists>c. socks s c = Some x)"
    proof
      assume "\<exists>c. socks s c = Some x"
      then obtain c where "socks s c = Some x" ..
      with a False show "\<exists>c. socks s' c = Some x" by (intro exI [of _ c]) (auto simp: socks')
    qed (auto simp: socks' split: if_splits)
    with False Socket_invD(1) [OF inv, of x] show ?thesis by (auto simp: open')
  qed
  moreover have "c = d" if "socks s' c = Some x" "socks s' d = Some x" "x \<ge> 0" for c d x
    using that Socket_invD(2) [OF inv _ _ that(3)] by (auto simp: socks' split: if_splits)
  ultimately have "Socket_inv s'" using bad by (auto simp: Socket_inv_def)
  then show ?thesis by (simp add: s'_def)
qed

lemma Socket_apply_ok:
  assumes "Socket_inv s" and "sock_legal x s"
  shows "\<exists>s'. Socket_apply x s = Inr s' \<and> Socket_inv s'"
proof (cases x)
  case (DefaultSocket a)
  with assms add_invalid show ?thesis by (simp add: Socket_default_def)
next
  case (NewSocket ret a)
  with assms add_open show ?thesis by (auto simp: Socket_new_def creatNonBlockFd_def split: sum.splits)
next
  case (AcceptSocket ret a b)
  with assms add_open add_invalid show ?thesis
    by (auto simp: Socket_accept_def the_sock_def Socket_default_def Socket_fromFd_def split: sum.splits)
next
  case (MoveSocket a b)
  with assms transfer_inv show ?thesis by (auto simp: Socket_move_def the_sock_def)
next
  case (DestroySocket a)
  with assms release_inv show ?thesis by (auto simp: Socket_destroy_def the_sock_def release_def Let_def)
next
  case (AssignSocket a b)
  from assms(2) AssignSocket obtain k fd where a: "socks s a = Some k" and b: "socks s b = Some fd" by auto
  show ?thesis
  proof (cases "a = b")
    case True
    with AssignSocket a assms(1) show ?thesis by (simp add: Socket_assign_def the_sock_def)
  next
    case False
    have "Socket_inv (set_sock b (-1) (set_sock a fd (release a k s)))"
      using False b by (intro transfer_inv release_inv [OF assms(1) a]) (auto simp: release_def sys_close_def)
    moreover have "set_sock b (-1) (set_sock a fd (release a k s)) =
        set_sock b (-1) (set_sock a fd (if k \<ge> 0 then sys_close k s else s))"
      by (simp add: set_sock_def release_def Let_def)
    ultimately show ?thesis using AssignSocket a b False by (simp add: Socket_assign_def the_sock_def Let_def)
  qed
qed

lemma Socket_new_inv: "Socket_inv sock_state_new"
  by (simp add: Socket_inv_def sock_state_new_def)

section \<open>Properties\<close>

text \<open>
  C23. Descriptors are owned: however sockets are created, accepted, moved, assigned and destroyed, no
  operation faults, \<open>close\<close> is called only on open descriptors (so none is closed twice), two live sockets
  never hold the same descriptor, and once every socket is gone no descriptor is left open.
\<close>

theorem socket_ownership:
  assumes "Socket_inv s" and "socks_legal xs s"
  shows "\<exists>s'. rfold Socket_apply xs s = Inr s' \<and> bad_closes s' = 0 \<and>
    (\<forall>a b fd. socks s' a = Some fd \<longrightarrow> socks s' b = Some fd \<longrightarrow> fd \<ge> 0 \<longrightarrow> a = b) \<and>
    ((\<forall>a. socks s' a = None) \<longrightarrow> open_fds s' = {})"
proof -
  have "\<exists>s'. rfold Socket_apply xs s = Inr s' \<and> Socket_inv s'"
    using assms
  proof (induction xs arbitrary: s)
    case (Cons x xs)
    obtain s1 where "Socket_apply x s = Inr s1" "Socket_inv s1"
      using Socket_apply_ok [OF Cons.prems(1), of x] Cons.prems(2) by auto
    with Cons.IH [of s1] Cons.prems(2) show ?case by simp
  qed simp
  then show ?thesis by (auto simp: Socket_inv_def)
qed

theorem socket_ownership_witness:
  "\<exists>s'. rfold Socket_apply
      [NewSocket (Inr 3) 1, DefaultSocket 2, AssignSocket 2 1, MoveSocket 4 2, NewSocket (Inr 5) 6,
       AssignSocket 6 4, DestroySocket 6] sock_state_new = Inr s' \<and> bad_closes s' = 0"
proof -
  have "socks_legal [NewSocket (Inr 3) 1, DefaultSocket 2, AssignSocket 2 1, MoveSocket 4 2, NewSocket (Inr 5) 6,
       AssignSocket 6 4, DestroySocket 6] sock_state_new"
    by (simp add: socket_defs sock_state_new_def)
  from socket_ownership [OF Socket_new_inv this] show ?thesis by blast
qed

end
