(* ===== verification/Acceptor.thy ===== *)
theory Acceptor
  imports Buffer Socket EventLoop
begin

text \<open>
  The acceptor (\<open>net/Acceptor.h\<close>, \<open>net/Acceptor.cc\<close>): the listening socket with its channel, and the
  loop that accepts connections. The results of \<open>accept4\<close> are a sequence \<open>ret\<close>, one per call. The
  connection callback works on an arbitrary state of the program; \<open>discard fd\<close> is what the destructor of
  an accepted socket that no callback took does to that state. The accept loop is a partial function:
  the value \<open>None\<close> means that it never returns.
\<close>

section \<open>The accept loop\<close>

type_synonym accept_result = "errno + (nat \<times> sockaddr_storage)"

definition take_connection ::
  "(nat \<Rightarrow> inet_address \<Rightarrow> 'w \<Rightarrow> 'w res) option \<Rightarrow> (nat \<Rightarrow> 'w \<Rightarrow> 'w) \<Rightarrow> nat \<times> sockaddr_storage \<Rightarrow> 'w \<Rightarrow> 'w res" where
  "take_connection connCallback discard c w =
    (case connCallback of
       Some cb \<Rightarrow> cb (fst c) (InetAddress_setFromSockaddr (snd c)) w
     | None \<Rightarrow> Inr (discard (fst c) w))"

partial_function (option) accept_loop ::
  "(nat \<times> sockaddr_storage \<Rightarrow> 'w \<Rightarrow> 'w res) \<Rightarrow> (nat \<Rightarrow> accept_result) \<Rightarrow> nat \<Rightarrow> 'w \<Rightarrow> 'w res option" where
  "accept_loop f ret i w =
    (case ret i of
       Inr c \<Rightarrow> (case f c w of Inl e \<Rightarrow> Some (Inl e) | Inr w' \<Rightarrow> accept_loop f ret (Suc i) w')
     | Inl savedErrno \<Rightarrow>
         if savedErrno = EAGAIN then Some (Inr w) else accept_loop f ret (Suc i) w)"

definition Acceptor_handleRead ::
  "(nat \<Rightarrow> inet_address \<Rightarrow> 'w \<Rightarrow> 'w res) option \<Rightarrow> (nat \<Rightarrow> 'w \<Rightarrow> 'w) \<Rightarrow> (nat \<Rightarrow> accept_result) \<Rightarrow> 'w
    \<Rightarrow> 'w res option" where
  "Acceptor_handleRead connCallback discard ret w = accept_loop (take_connection connCallback discard) ret 0 w"

section \<open>The listening socket\<close>

record acceptor =
  acc_fd :: int
  acc_channel :: addr
  listening :: bool

text \<open>
  The constructor: \<open>fd\<close> is the result of \<open>socket\<close>, the other arguments are the results of the option
  calls and of \<open>bind\<close>. The channel is created in the poller of the loop.
\<close>

definition Acceptor_new ::
  "errno + nat \<Rightarrow> (int \<Rightarrow> int) \<Rightarrow> 32 word \<Rightarrow> (32 word \<Rightarrow> int) \<Rightarrow> int \<Rightarrow> addr \<Rightarrow> poller \<Rightarrow> (acceptor \<times> poller) res" where
  "Acceptor_new fd reuse flags setfl bound a p =
    (case fd of
       Inl e \<Rightarrow> Inl AssertFailed
     | Inr fd \<Rightarrow>
         rbind (Socket_setReuseAddress reuse True) (\<lambda>_.
         rbind (Socket_setNonBlocking flags setfl True) (\<lambda>_.
         rbind (Socket_bind bound) (\<lambda>_.
           Inr (\<lparr>acc_fd = int fd, acc_channel = a, listening = False\<rparr>, create_channel a (int fd) p)))))"

definition Acceptor_listen :: "bool \<Rightarrow> int \<Rightarrow> acceptor \<times> poller \<Rightarrow> (acceptor \<times> poller) res" where
  "Acceptor_listen inT listened s =
    (case s of (acc, p) \<Rightarrow>
      if listening acc then Inr s
      else
        rbind (Socket_listen listened) (\<lambda>_.
        rbind (Channel_enableReading inT (acc_channel acc) p) (\<lambda>p.
          Inr (acc\<lparr>listening := True\<rparr>, p))))"

definition Acceptor_closeInLoop :: "bool \<Rightarrow> acceptor \<times> poller \<Rightarrow> (acceptor \<times> poller) res" where
  "Acceptor_closeInLoop inT s =
    (case s of (acc, p) \<Rightarrow>
      rbind (Channel_disableAll inT (acc_channel acc) p) (\<lambda>p. Inr (acc\<lparr>listening := False\<rparr>, p)))"

text \<open>\<open>close\<close>: in the loop's thread at once, from another thread posted (\<open>True\<close> in the result).\<close>

definition Acceptor_close :: "bool \<Rightarrow> acceptor \<times> poller \<Rightarrow> (bool \<times> acceptor \<times> poller) res" where
  "Acceptor_close inT s =
    (if \<not> listening (fst s) then Inr (False, s)
     else if inT then rbind (Acceptor_closeInLoop True s) (\<lambda>s. Inr (False, s))
     else Inr (True, s))"

definition Acceptor_destroy :: "bool \<Rightarrow> acceptor \<times> poller \<Rightarrow> poller res" where
  "Acceptor_destroy inT s =
    (case s of (acc, p) \<Rightarrow>
      rbind (Channel_disableAll inT (acc_channel acc) p) (Channel_destroy inT (acc_channel acc)))"

section \<open>When the loop returns\<close>

fun accepted_of :: "accept_result list \<Rightarrow> (nat \<times> sockaddr_storage) list" where
  "accepted_of [] = []"
| "accepted_of (Inr c # rs) = c # accepted_of rs"
| "accepted_of (Inl e # rs) = accepted_of rs"

lemma accept_loop_until:
  assumes "ret (i + n) = Inl EAGAIN" and "\<forall>k < n. ret (i + k) \<noteq> Inl EAGAIN"
  shows "accept_loop f ret i w = Some (rfold f (accepted_of (map (\<lambda>k. ret (i + k)) [0..<n])) w)"
  using assms
proof (induction n arbitrary: i w)
  case 0
  then show ?case by (simp add: accept_loop.simps)
next
  case (Suc n)
  have IH: "accept_loop f ret (Suc i) w = Some (rfold f (accepted_of (map (\<lambda>k. ret (Suc i + k)) [0..<n])) w)" for w
  proof (rule Suc.IH)
    show "ret (Suc i + n) = Inl EAGAIN" using Suc.prems(1) by simp
    show "\<forall>k < n. ret (Suc i + k) \<noteq> Inl EAGAIN" using Suc.prems(2) by (metis add_Suc_shift Suc_less_eq)
  qed
  have shift: "map (\<lambda>k. ret (i + k)) [0..<Suc n] = ret i # map (\<lambda>k. ret (Suc i + k)) [0..<n]"
    unfolding upt_conv_Cons [OF zero_less_Suc] by (simp add: map_Suc_upt [symmetric] del: upt_Suc)
  from Suc.prems(2) have "ret i \<noteq> Inl EAGAIN" by force
  with IH show ?case
    unfolding shift
    by (cases "ret i") (simp_all add: accept_loop.simps [of f ret i] rbind_def split: sum.split)
qed

lemma accept_loop_returns:
  fixes f :: "nat \<times> sockaddr_storage \<Rightarrow> 'w \<Rightarrow> 'w res"
  assumes run: "accept_loop f ret i w = Some y" and total: "\<And>c w. \<exists>w'. f c w = Inr w'"
  shows "\<exists>n. ret n = Inl EAGAIN"
proof -
  let ?P = "\<lambda>(g :: nat \<times> sockaddr_storage \<Rightarrow> 'w \<Rightarrow> 'w res) (ret :: nat \<Rightarrow> accept_result) (i :: nat) (w :: 'w) (y :: 'w res).
    (\<forall>c w. \<exists>w'. g c w = Inr w') \<longrightarrow> (\<exists>n. ret n = Inl EAGAIN)"
  have "?P f ret i w y"
  proof (rule accept_loop.raw_induct [of ?P, OF _ run], rule impI)
    fix loop and g :: "nat \<times> sockaddr_storage \<Rightarrow> 'w \<Rightarrow> 'w res" and ret :: "nat \<Rightarrow> accept_result" and i :: nat
      and w :: 'w and y :: "'w res"
    assume IH: "\<And>g ret i w y. loop g ret i w = Some y \<Longrightarrow> ?P g ret i w y"
      and step: "(case ret i of
        Inl savedErrno \<Rightarrow> if savedErrno = EAGAIN then Some (Inr w) else loop g ret (Suc i) w
      | Inr c \<Rightarrow> (case g c w of Inl e \<Rightarrow> Some (Inl e) | Inr w' \<Rightarrow> loop g ret (Suc i) w')) = Some y"
      and total: "\<forall>c w. \<exists>w'. g c w = Inr w'"
    show "\<exists>n. ret n = Inl EAGAIN"
    proof (cases "ret i")
      case (Inl e)
      with IH [of g ret "Suc i" w y] step total show ?thesis by (auto split: if_splits)
    next
      case (Inr c)
      obtain w' where "g c w = Inr w'" using total by blast
      with IH [of g ret "Suc i" w' y] step total Inr show ?thesis by auto
    qed
  qed
  with total show ?thesis by blast
qed

lemma take_connection_total:
  "(\<And>cb fd a w. connCallback = Some cb \<Longrightarrow> \<exists>w'. cb fd a w = Inr w') \<Longrightarrow>
    \<exists>w'. take_connection connCallback discard c w = Inr w'"
  by (cases connCallback) (simp_all add: take_connection_def)

lemma first_index:
  fixes P :: "nat \<Rightarrow> bool"
  assumes "P n"
  shows "P (LEAST k. P k) \<and> (\<forall>k < (LEAST k. P k). \<not> P k)"
  using LeastI [of P, OF assms] not_less_Least [of _ P] by blast

section \<open>Properties\<close>

text \<open>
  C34. The read handler of the acceptor returns exactly if some \<open>accept4\<close> eventually fails with \<open>EAGAIN\<close>,
  and has then handed every connection accepted before to the callback, once and in order. Any other
  error is tried again at once: if the process has run out of descriptors (\<open>EMFILE\<close> on every call) the
  handler never returns and the loop's thread spins.
\<close>

theorem accept_loop_returns_iff_eagain:
  assumes "\<forall>cb fd a w. connCallback = Some cb \<longrightarrow> (\<exists>w'. cb fd a w = Inr w')"
  shows "(Acceptor_handleRead connCallback discard ret w = None \<longleftrightarrow> (\<forall>n. ret n \<noteq> Inl EAGAIN)) \<and>
    (\<forall>n. ret n = Inl EAGAIN \<and> (\<forall>k < n. ret k \<noteq> Inl EAGAIN) \<longrightarrow>
      Acceptor_handleRead connCallback discard ret w =
        Some (rfold (take_connection connCallback discard) (accepted_of (map ret [0..<n])) w))"
proof -
  let ?f = "take_connection connCallback discard"
  have first: "Acceptor_handleRead connCallback discard ret w = Some (rfold ?f (accepted_of (map ret [0..<n])) w)"
    if "ret n = Inl EAGAIN \<and> (\<forall>k < n. ret k \<noteq> Inl EAGAIN)" for n
    using accept_loop_until [of ret 0 n ?f w] that by (simp add: Acceptor_handleRead_def)
  moreover have "Acceptor_handleRead connCallback discard ret w \<noteq> None" if "ret n = Inl EAGAIN" for n
    using first [OF first_index [of "\<lambda>n. ret n = Inl EAGAIN", OF that]] by simp
  moreover have "Acceptor_handleRead connCallback discard ret w = None" if never: "\<forall>n. ret n \<noteq> Inl EAGAIN"
  proof (rule ccontr)
    assume "Acceptor_handleRead connCallback discard ret w \<noteq> None"
    then obtain y where "accept_loop ?f ret 0 w = Some y" by (auto simp: Acceptor_handleRead_def)
    from accept_loop_returns [OF this take_connection_total] assms never show False by blast
  qed
  ultimately show ?thesis by blast
qed

definition EMFILE :: errno where "EMFILE = 24"

theorem accept_loop_returns_iff_eagain_witness:
  "Acceptor_handleRead (Some (\<lambda>fd a w. Inr (w @ [fd]))) (\<lambda>_ w. w) (\<lambda>_. Inl EMFILE) [] = None \<and>
   (\<forall>st. Acceptor_handleRead (Some (\<lambda>fd a w. Inr (w @ [fd]))) (\<lambda>_ w. w)
     (\<lambda>n. if n < 2 then Inr (n + 7, st) else Inl EAGAIN) [] = Some (Inr [7, 8]))"
proof -
  let ?cb = "Some (\<lambda>fd (a :: inet_address) w. Inr (w @ [fd]) :: nat list res)"
  have total: "\<forall>cb fd a w. ?cb = Some cb \<longrightarrow> (\<exists>w'. cb fd a w = Inr w')" by auto
  have "Acceptor_handleRead ?cb (\<lambda>_ w. w) (\<lambda>_. Inl EMFILE) [] = None"
    using accept_loop_returns_iff_eagain [OF total, of "\<lambda>_ w. w" "\<lambda>_. Inl EMFILE" "[]"]
    by (simp add: EMFILE_def EAGAIN_def)
  moreover have "Acceptor_handleRead ?cb (\<lambda>_ w. w) (\<lambda>n. if n < 2 then Inr (n + 7, st) else Inl EAGAIN) [] =
      Some (Inr [7, 8])" for st
    using accept_loop_returns_iff_eagain [OF total, of "\<lambda>_ w. w" "\<lambda>n. if n < 2 then Inr (n + 7, st) else Inl EAGAIN" "[]"]
    by (auto simp: take_connection_def upt_rec numeral_2_eq_2 dest!: spec [of _ "2 :: nat"])
  ultimately show ?thesis by simp
qed

end
