(* ===== verification/Connector.thy ===== *)
theory Connector
  imports Buffer Socket EventLoop
begin

text \<open>
  The connector (\<open>net/Connector.h\<close>, \<open>net/Connector.cc\<close>): one attempt to connect, with its socket, its channel
  and its timeout. The state is the connector with the poller, the timer queue and the sockets it works
  on. \<open>channel_\<close> is a \<open>unique_ptr\<close>, hence an optional address, and a call through a null pointer is a
  fault. \<open>sock_\<close> is the \<open>Socket\<close> object at \<open>cn_sock\<close>. The results of the system calls, the addresses of new
  objects and of temporaries and the clock readings are the arguments collected in \<open>connect_args\<close> and
  \<open>release_args\<close>. The new-connection callback works on the whole state and gets the address of its
  \<open>Socket\<close> parameter. \<open>handed\<close> records, for the statements only, the descriptors passed to it.
\<close>

section \<open>State\<close>

datatype connect_state = Disconnected | Connecting | Connected

record connector =
  cn_id :: nat
  cn_state :: connect_state
  cn_channel :: "addr option"
  cn_sock :: addr
  cn_timeoutId :: timer_id

datatype connect_task = StartTask | StopTask

record connect_world =
  cn :: connector
  cn_poll :: poller
  cn_tq :: timer_queue
  cn_socks :: sock_state
  cn_thread :: bool
  cn_posted :: "connect_task list"
  handed :: "int list"

type_synonym new_conn_callback = "addr \<Rightarrow> inet_address \<Rightarrow> connect_world \<Rightarrow> connect_world res"

record connect_args =
  ca_socket :: "nat + nat"
  ca_flags :: "32 word"
  ca_setfl :: "32 word \<Rightarrow> int"
  ca_connect :: "errno + unit"
  ca_channel :: addr
  ca_timer :: timer_request

text \<open>A temporary \<open>Socket\<close>, the callback's parameter, and the result of \<open>getsockname\<close>.\<close>

record release_args =
  ra_tmp :: addr
  ra_param :: addr
  ra_local :: "nat + sockaddr_storage"

definition EINPROGRESS :: errno where "EINPROGRESS = 115"
definition connectTimeout :: rat where "connectTimeout = 1"

definition Connector_new :: "nat \<Rightarrow> addr \<Rightarrow> sock_state \<Rightarrow> (connector \<times> sock_state) res" where
  "Connector_new i a s =
    rbind (Socket_default a s) (\<lambda>s.
      Inr (\<lparr>cn_id = i, cn_state = Disconnected, cn_channel = None, cn_sock = a, cn_timeoutId = TimerId_null\<rparr>, s))"

definition on_cn :: "(connector \<Rightarrow> connector) \<Rightarrow> connect_world \<Rightarrow> connect_world" where
  "on_cn f w = w\<lparr>cn := f (cn w)\<rparr>"

definition on_socks :: "(sock_state \<Rightarrow> sock_state res) \<Rightarrow> connect_world \<Rightarrow> connect_world res" where
  "on_socks f w = rbind (f (cn_socks w)) (\<lambda>s. Inr (w\<lparr>cn_socks := s\<rparr>))"

definition on_cn_poll :: "(poller \<Rightarrow> poller res) \<Rightarrow> connect_world \<Rightarrow> connect_world res" where
  "on_cn_poll f w = rbind (f (cn_poll w)) (\<lambda>p. Inr (w\<lparr>cn_poll := p\<rparr>))"

definition on_cn_channel ::
  "(bool \<Rightarrow> addr \<Rightarrow> poller \<Rightarrow> poller res) \<Rightarrow> connect_world \<Rightarrow> connect_world res" where
  "on_cn_channel f w =
    (case cn_channel (cn w) of None \<Rightarrow> Inl UseAfterFree | Some a \<Rightarrow> on_cn_poll (f (cn_thread w) a) w)"

section \<open>Parts of the operations\<close>

text \<open>\<open>sock_ = Socket()\<close> and \<open>sock_ = Socket(AF_INET, SOCK_STREAM, 0)\<close>: a temporary is assigned and dies.\<close>

definition assign_temporary :: "addr \<Rightarrow> addr \<Rightarrow> sock_state \<Rightarrow> sock_state res" where
  "assign_temporary tmp a s = rbind (Socket_assign a tmp s) (Socket_destroy tmp)"

definition clear_sock :: "addr \<Rightarrow> connect_world \<Rightarrow> connect_world res" where
  "clear_sock tmp w = on_socks (\<lambda>s. rbind (Socket_default tmp s) (assign_temporary tmp (cn_sock (cn w)))) w"

definition open_sock :: "nat + nat \<Rightarrow> addr \<Rightarrow> connect_world \<Rightarrow> connect_world res" where
  "open_sock ret tmp w = on_socks (\<lambda>s. rbind (Socket_new ret tmp s) (assign_temporary tmp (cn_sock (cn w)))) w"

text \<open>\<open>channel_.reset()\<close>, and \<open>channel_->remove()\<close> before it.\<close>

definition reset_channel :: "connect_world \<Rightarrow> connect_world res" where
  "reset_channel w =
    (case cn_channel (cn w) of
       None \<Rightarrow> Inr w
     | Some a \<Rightarrow>
         rbind (on_cn_poll (Channel_destroy (cn_thread w) a) w) (\<lambda>w. Inr (on_cn (\<lambda>c. c\<lparr>cn_channel := None\<rparr>) w)))"

definition drop_channel :: "connect_world \<Rightarrow> connect_world res" where
  "drop_channel w = rbind (on_cn_channel Channel_remove w) reset_channel"

definition cancel_timeout :: "connect_world \<Rightarrow> connect_world res" where
  "cancel_timeout w =
    (if TimerId_valid (cn_timeoutId (cn w)) then
       rbind (loop_cancel (cn_timeoutId (cn w)) (cn_tq w)) (\<lambda>q.
         Inr (on_cn (\<lambda>c. c\<lparr>cn_timeoutId := TimerId_null\<rparr>) (w\<lparr>cn_tq := q\<rparr>)))
     else Inr w)"

text \<open>\<open>newConnCallback_(std::move(sock_), std::move(localAddr))\<close>.\<close>

definition hand_over :: "new_conn_callback option \<Rightarrow> release_args \<Rightarrow> connect_world \<Rightarrow> connect_world res" where
  "hand_over newConnCallback r w =
    (let localAddr = Socket_getLocalAddr (ra_local r) in
     case newConnCallback of
       None \<Rightarrow> Inr w
     | Some cb \<Rightarrow>
         rbind (on_socks (Socket_move (ra_param r) (cn_sock (cn w)))
             (w\<lparr>handed := handed w @ [the (socks (cn_socks w) (cn_sock (cn w)))]\<rparr>)) (\<lambda>w.
         rbind (cb (ra_param r) localAddr w) (\<lambda>w.
         on_socks (Socket_destroy (ra_param r)) w)))"

definition connector_closure :: "connector \<Rightarrow> closure" where
  "connector_closure c = Closure (cn_id c) 0"

section \<open>Operations\<close>

definition Connector_setState :: "connect_state \<Rightarrow> connect_world \<Rightarrow> connect_world" where
  "Connector_setState st = on_cn (\<lambda>c. c\<lparr>cn_state := st\<rparr>)"

definition Connector_connect ::
  "new_conn_callback option \<Rightarrow> connect_args \<Rightarrow> release_args \<Rightarrow> connect_world \<Rightarrow> connect_world res" where
  "Connector_connect newConnCallback k r w =
    rbind (open_sock (ca_socket k) (ra_tmp r) w) (\<lambda>w.
    rbind (Socket_setNonBlocking (ca_flags k) (ca_setfl k) True) (\<lambda>_.
    rbind (Socket_valid (cn_sock (cn w)) (cn_socks w)) (\<lambda>valid.
    if \<not> valid then Inr w
    else
      (case ca_connect k of
         Inr _ \<Rightarrow> hand_over newConnCallback r (Connector_setState Connected w)
       | Inl err \<Rightarrow>
           if err = EINPROGRESS then
             (let w = Connector_setState Connecting w;
                  fd = the (socks (cn_socks w) (cn_sock (cn w)));
                  w = w\<lparr>cn_poll := create_channel (ca_channel k) fd (cn_poll w)\<rparr>
              in rbind (reset_channel w) (\<lambda>w.
                 rbind (on_cn_channel Channel_enableWriting (on_cn (\<lambda>c. c\<lparr>cn_channel := Some (ca_channel k)\<rparr>) w)) (\<lambda>w.
                 rbind (loop_add ((ca_timer k)\<lparr>rq_delay := connectTimeout\<rparr>) (connector_closure (cn w)) (cn_tq w)) (\<lambda>(i, q).
                   Inr (on_cn (\<lambda>c. c\<lparr>cn_timeoutId := i\<rparr>) (w\<lparr>cn_tq := q\<rparr>))))))
           else clear_sock (ra_tmp r) w))))"

definition Connector_startInLoop ::
  "new_conn_callback option \<Rightarrow> connect_args \<Rightarrow> release_args \<Rightarrow> connect_world \<Rightarrow> connect_world res" where
  "Connector_startInLoop newConnCallback k r w =
    rbind (EventLoop_assertInLoopThread (cn_thread w) w) (Connector_connect newConnCallback k r)"

definition Connector_start ::
  "new_conn_callback option \<Rightarrow> connect_args \<Rightarrow> release_args \<Rightarrow> connect_world \<Rightarrow> connect_world res" where
  "Connector_start newConnCallback k r w =
    (if cn_thread w then Connector_startInLoop newConnCallback k r w
     else Inr (w\<lparr>cn_posted := cn_posted w @ [StartTask]\<rparr>))"

definition Connector_stopInLoop :: "release_args \<Rightarrow> connect_world \<Rightarrow> connect_world res" where
  "Connector_stopInLoop r w =
    rbind
      (if cn_state (cn w) = Connecting then
         (let w = Connector_setState Disconnected w
          in rbind (if cn_channel (cn w) \<noteq> None then drop_channel w else Inr w) (clear_sock (ra_tmp r)))
       else Inr w)
      cancel_timeout"

definition Connector_stop :: "release_args \<Rightarrow> connect_world \<Rightarrow> connect_world res" where
  "Connector_stop r w =
    (if cn_thread w then Connector_stopInLoop r w else Inr (w\<lparr>cn_posted := cn_posted w @ [StopTask]\<rparr>))"

text \<open>\<open>err\<close> is the pending error of the socket, or the \<open>errno\<close> of a failed \<open>getsockopt\<close>.\<close>

definition Connector_handleWrite ::
  "new_conn_callback option \<Rightarrow> errno \<Rightarrow> release_args \<Rightarrow> connect_world \<Rightarrow> connect_world res" where
  "Connector_handleWrite newConnCallback err r w =
    rbind (EventLoop_assertInLoopThread (cn_thread w) w) (\<lambda>w.
    if cn_state (cn w) \<noteq> Connecting then Inr w
    else if err \<noteq> 0 then
      rbind (drop_channel w) (\<lambda>w.
      rbind (clear_sock (ra_tmp r) w) (\<lambda>w. Inr (Connector_setState Disconnected w)))
    else
      rbind (cancel_timeout w) (\<lambda>w.
      rbind (drop_channel (Connector_setState Connected w)) (hand_over newConnCallback r)))"

definition Connector_handleError :: "release_args \<Rightarrow> connect_world \<Rightarrow> connect_world res" where
  "Connector_handleError r w =
    (if cn_state (cn w) = Connecting then
       rbind (drop_channel w) (\<lambda>w.
       rbind (clear_sock (ra_tmp r) w) (\<lambda>w. cancel_timeout (Connector_setState Disconnected w)))
     else Inr w)"

definition Connector_handleTimeout :: "release_args \<Rightarrow> connect_world \<Rightarrow> connect_world res" where
  "Connector_handleTimeout r w =
    rbind (EventLoop_assertInLoopThread (cn_thread w) w) (\<lambda>w.
    if cn_state (cn w) \<noteq> Connecting then Inr w
    else
      rbind (drop_channel w) (\<lambda>w.
      rbind (clear_sock (ra_tmp r) w) (\<lambda>w.
        Inr (on_cn (\<lambda>c. c\<lparr>cn_timeoutId := TimerId_null\<rparr>) (Connector_setState Disconnected w)))))"

text \<open>The destructor asserts that the channel, if any, asks for no events; then the members go.\<close>

definition Connector_destroy :: "connect_world \<Rightarrow> connect_world res" where
  "Connector_destroy w =
    (if (case cn_channel (cn w) of None \<Rightarrow> False | Some a \<Rightarrow>
           (case channels (cn_poll w) a of None \<Rightarrow> False | Some c \<Rightarrow> \<not> Channel_isNonEvent c))
     then Inl AssertFailed
     else rbind (on_socks (Socket_destroy (cn_sock (cn w))) w) reset_channel)"

section \<open>Lemmas on the parts\<close>

lemma on_cn_fields [simp]:
  "cn (on_cn f w) = f (cn w)" "cn_poll (on_cn f w) = cn_poll w" "cn_tq (on_cn f w) = cn_tq w"
  "cn_socks (on_cn f w) = cn_socks w" "cn_thread (on_cn f w) = cn_thread w" "handed (on_cn f w) = handed w"
  "cn_posted (on_cn f w) = cn_posted w"
  by (simp_all add: on_cn_def)

text \<open>What every operation keeps of the components below; \<open>E\<close> are the timers of the current round.\<close>

definition below_ok :: "addr set \<Rightarrow> connect_world \<Rightarrow> bool" where
  "below_ok E w \<longleftrightarrow>
    cn_thread w \<and> Poller_inv (cn_poll w) \<and> TimerQueue_inv E (cn_tq w) \<and> Socket_inv (cn_socks w) \<and>
    socks (cn_socks w) (cn_sock (cn w)) \<noteq> None"

lemma below_okD:
  assumes "below_ok E w"
  shows "cn_thread w" "Poller_inv (cn_poll w)" "TimerQueue_inv E (cn_tq w)" "Socket_inv (cn_socks w)"
    "\<exists>fd. socks (cn_socks w) (cn_sock (cn w)) = Some fd"
  using assms by (auto simp: below_ok_def)

lemma assign_temporary_ok:
  assumes inv: "Socket_inv s" and tmp: "socks s tmp = Some fd" and a: "socks s a = Some k" "a \<noteq> tmp"
  shows "\<exists>s'. assign_temporary tmp a s = Inr s' \<and> Socket_inv s' \<and>
    socks s' = (socks s)(a \<mapsto> fd, tmp := None)"
proof -
  obtain s1 where s1: "Socket_assign a tmp s = Inr s1" "Socket_inv s1"
    using Socket_apply_ok [OF inv, of "AssignSocket a tmp"] tmp a by auto
  then have socks1: "socks s1 = (socks s)(a \<mapsto> fd, tmp \<mapsto> -1)"
    using tmp a by (auto simp: Socket_assign_def the_sock_def set_sock_def sys_close_def Let_def split: if_splits)
  obtain s2 where s2: "Socket_destroy tmp s1 = Inr s2" "Socket_inv s2"
    using Socket_apply_ok [OF s1(2), of "DestroySocket tmp"] socks1 by auto
  then have "socks s2 = (socks s)(a \<mapsto> fd, tmp := None)"
    using socks1 by (auto simp: Socket_destroy_def the_sock_def Let_def)
  with s1 s2 show ?thesis by (auto simp: assign_temporary_def)
qed

lemma clear_sock_ok:
  assumes ok: "below_ok E w" and tmp: "socks (cn_socks w) tmp = None"
  shows "\<exists>s'. clear_sock tmp w = Inr (w\<lparr>cn_socks := s'\<rparr>) \<and> Socket_inv s' \<and>
    socks s' = (socks (cn_socks w))(cn_sock (cn w) \<mapsto> -1)"
proof -
  let ?a = "cn_sock (cn w)" and ?s = "set_sock tmp (-1) (cn_socks w)"
  obtain k where k: "socks (cn_socks w) ?a = Some k" using below_okD(5) [OF ok] by blast
  have "Socket_inv ?s" using below_okD(4) [OF ok] tmp by (rule add_invalid)
  moreover have "socks ?s tmp = Some (-1)" "socks ?s ?a = Some k" "?a \<noteq> tmp"
    using k tmp by (auto simp: set_sock_def)
  ultimately obtain s' where "assign_temporary tmp ?a ?s = Inr s'" "Socket_inv s'"
    "socks s' = (socks ?s)(?a \<mapsto> -1, tmp := None)"
    using assign_temporary_ok by blast
  moreover have "(socks ?s)(?a \<mapsto> -1, tmp := None) = (socks (cn_socks w))(?a \<mapsto> -1)"
    using tmp k by (auto simp: set_sock_def fun_eq_iff)
  ultimately show ?thesis by (intro exI [of _ s']) (simp add: clear_sock_def on_socks_def Socket_default_def)
qed

lemma open_sock_ok:
  assumes ok: "below_ok E w" and tmp: "socks (cn_socks w) tmp = None"
    and fd: "int fd \<notin> open_fds (cn_socks w)"
  shows "\<exists>s'. open_sock (Inr fd) tmp w = Inr (w\<lparr>cn_socks := s'\<rparr>) \<and> Socket_inv s' \<and>
    socks s' = (socks (cn_socks w))(cn_sock (cn w) \<mapsto> int fd)"
proof -
  let ?a = "cn_sock (cn w)" and ?s = "set_sock tmp (int fd) (sys_open (int fd) (cn_socks w))"
  obtain k where k: "socks (cn_socks w) ?a = Some k" using below_okD(5) [OF ok] by blast
  have "Socket_inv ?s" using below_okD(4) [OF ok] tmp by (rule add_open) (use fd in simp_all)
  moreover have "socks ?s tmp = Some (int fd)" "socks ?s ?a = Some k" "?a \<noteq> tmp"
    using k tmp by (auto simp: set_sock_def sys_open_def)
  ultimately obtain s' where "assign_temporary tmp ?a ?s = Inr s'" "Socket_inv s'"
    "socks s' = (socks ?s)(?a \<mapsto> int fd, tmp := None)"
    using assign_temporary_ok by blast
  moreover have "(socks ?s)(?a \<mapsto> int fd, tmp := None) = (socks (cn_socks w))(?a \<mapsto> int fd)"
    using tmp k by (auto simp: set_sock_def sys_open_def fun_eq_iff)
  ultimately show ?thesis by (intro exI [of _ s']) (simp add: open_sock_def on_socks_def Socket_new_def creatNonBlockFd_def)
qed

lemma cancel_timeout_ok:
  assumes "below_ok E w"
  shows "\<exists>q i. cancel_timeout w = Inr (on_cn (\<lambda>c. c\<lparr>cn_timeoutId := i\<rparr>) (w\<lparr>cn_tq := q\<rparr>)) \<and>
    TimerQueue_inv E q \<and> \<not> TimerId_valid i \<and>
    timers_live E q = (timers_live E (cn_tq w))(cn_timeoutId (cn w) := None) \<and>
    (\<forall>r. fresh_timer r (cn_tq w) \<longrightarrow> fresh_timer r q)"
proof (cases "TimerId_valid (cn_timeoutId (cn w))")
  case True
  with loop_cancel_ok [OF below_okD(3) [OF assms], of "cn_timeoutId (cn w)"] show ?thesis
    by (auto simp: cancel_timeout_def TimerId_valid_def TimerId_null_def fresh_timer_def
        intro!: exI [of _ TimerId_null])
next
  case False
  with ts.null_dead [OF below_okD(3) [OF assms]]
  have "timers_live E (cn_tq w) = (timers_live E (cn_tq w))(cn_timeoutId (cn w) := None)" by (auto simp: fun_eq_iff)
  moreover have "w = on_cn (\<lambda>c. c\<lparr>cn_timeoutId := cn_timeoutId (cn w)\<rparr>) (w\<lparr>cn_tq := cn_tq w\<rparr>)"
    by (simp add: on_cn_def)
  ultimately show ?thesis
    using False below_okD(3) [OF assms] unfolding cancel_timeout_def
    by (intro exI [of _ "cn_tq w"] exI [of _ "cn_timeoutId (cn w)"]) simp
qed

lemma drop_channel_ok:
  assumes ok: "below_ok E w" and a: "cn_channel (cn w) = Some a" and c: "channels (cn_poll w) a = Some c"
  shows "\<exists>p. drop_channel w = Inr (on_cn (\<lambda>c. c\<lparr>cn_channel := None\<rparr>) (w\<lparr>cn_poll := p\<rparr>)) \<and> Poller_inv p \<and>
    channels p = (channels (cn_poll w))(a := None) \<and> \<not> registered a p"
proof -
  note below = below_okD [OF ok]
  obtain p1 c1 where p1: "Channel_remove True a (cn_poll w) = Inr p1" "Poller_inv p1" "\<not> registered a p1"
    "channels p1 = (channels (cn_poll w))(a \<mapsto> c1)"
    using remove_ok [OF below(2) c, of True] by (metis (full_types))
  obtain p2 where p2: "Channel_destroy True a p1 = Inr p2" "Poller_inv p2" "\<not> registered a p2"
    "channels p2 = (channels p1)(a := None)"
    using destroy_ok [OF p1(2), of a c1 True] p1(4) by (metis (full_types) fun_upd_same)
  from p1 p2 below(1) a show ?thesis
    by (intro exI [of _ p2]) (simp add: drop_channel_def on_cn_channel_def reset_channel_def on_cn_poll_def on_cn_def)
qed

section \<open>Invariant\<close>

text \<open>
  An attempt is in progress exactly while there is a channel; then the channel is alive, registered for
  writing on the open descriptor of \<open>sock_\<close>, and its timeout is registered or about to run. When disconnected
  the connector holds no descriptor.
\<close>

definition attempt_ok :: "addr set \<Rightarrow> addr \<Rightarrow> connect_world \<Rightarrow> bool" where
  "attempt_ok E a w \<longleftrightarrow>
    (\<exists>c. channels (cn_poll w) a = Some c \<and> ch_fd c \<ge> 0 \<and> socks (cn_socks w) (cn_sock (cn w)) = Some (ch_fd c) \<and>
       ch_events c = EPOLLOUT \<and> registered a (cn_poll w)) \<and>
    TimerId_valid (cn_timeoutId (cn w)) \<and>
    (timers_live E (cn_tq w) (cn_timeoutId (cn w)) = Some (connector_closure (cn w)) \<or>
     tid_timer (cn_timeoutId (cn w)) \<in> E)"

definition Connector_inv :: "addr set \<Rightarrow> connect_world \<Rightarrow> bool" where
  "Connector_inv E w \<longleftrightarrow>
    below_ok E w \<and>
    (case cn_channel (cn w) of None \<Rightarrow> cn_state (cn w) \<noteq> Connecting
     | Some a \<Rightarrow> cn_state (cn w) = Connecting \<and> attempt_ok E a w) \<and>
    (cn_state (cn w) = Disconnected \<longrightarrow> socks (cn_socks w) (cn_sock (cn w)) = Some (-1))"

text \<open>The callback may do anything that keeps the invariant and leaves its parameter for its destructor.\<close>

definition new_conn_ok :: "addr set \<Rightarrow> new_conn_callback option \<Rightarrow> bool" where
  "new_conn_ok E newConnCallback \<longleftrightarrow>
    (\<forall>cb b local w. newConnCallback = Some cb \<longrightarrow> Connector_inv E w \<longrightarrow> socks (cn_socks w) b \<noteq> None \<longrightarrow>
      b \<noteq> cn_sock (cn w) \<longrightarrow>
      (\<exists>w'. cb b local w = Inr w' \<and> Connector_inv E w' \<and> socks (cn_socks w') b \<noteq> None \<and> b \<noteq> cn_sock (cn w')))"

lemma idle_inv:
  assumes "below_ok E w" and "cn_channel (cn w) = None" and "cn_state (cn w) \<noteq> Connecting"
    and "cn_state (cn w) = Disconnected \<Longrightarrow> socks (cn_socks w) (cn_sock (cn w)) = Some (-1)"
  shows "Connector_inv E w"
  using assms by (simp add: Connector_inv_def)

lemma connectingE:
  assumes "Connector_inv E w" and "cn_state (cn w) = Connecting"
  obtains a c where "cn_channel (cn w) = Some a" and "channels (cn_poll w) a = Some c" and "below_ok E w"
    and "attempt_ok E a w"
  using assms by (auto simp: Connector_inv_def attempt_ok_def split: option.splits)

text \<open>Giving the attempt up: the channel, then the socket.\<close>

lemma give_up_ok:
  assumes inv: "Connector_inv E w" and st: "cn_state (cn w) = Connecting" and tmp: "socks (cn_socks w) tmp = None"
  shows "\<exists>p s. rbind (drop_channel w) (clear_sock tmp) =
      Inr (on_cn (\<lambda>c. c\<lparr>cn_channel := None\<rparr>) (w\<lparr>cn_poll := p, cn_socks := s\<rparr>)) \<and>
    Poller_inv p \<and> Socket_inv s \<and> socks s = (socks (cn_socks w))(cn_sock (cn w) \<mapsto> -1) \<and>
    (\<forall>a. cn_channel (cn w) = Some a \<longrightarrow> channels p a = None \<and> \<not> registered a p)"
proof -
  obtain a c where a: "cn_channel (cn w) = Some a" and c: "channels (cn_poll w) a = Some c" and ok: "below_ok E w"
    using connectingE [OF inv st] by blast
  obtain p where p: "drop_channel w = Inr (on_cn (\<lambda>c. c\<lparr>cn_channel := None\<rparr>) (w\<lparr>cn_poll := p\<rparr>))" "Poller_inv p"
    "channels p = (channels (cn_poll w))(a := None)" "\<not> registered a p"
    using drop_channel_ok [OF ok a c] by blast
  let ?w = "on_cn (\<lambda>c. c\<lparr>cn_channel := None\<rparr>) (w\<lparr>cn_poll := p\<rparr>)"
  have "below_ok E ?w" using ok p(2) by (simp add: below_ok_def)
  with clear_sock_ok [of E ?w tmp] tmp obtain s where
    s: "clear_sock tmp ?w = Inr (?w\<lparr>cn_socks := s\<rparr>)" "Socket_inv s" "socks s = (socks (cn_socks w))(cn_sock (cn w) \<mapsto> -1)"
    by auto
  with p a show ?thesis by (intro exI [of _ p] exI [of _ s]) (simp add: on_cn_def)
qed

lemma below_ok_released:
  assumes "below_ok E w" and "Poller_inv p" and "Socket_inv s" and "socks s (cn_sock (cn w)) = Some k"
    and "TimerQueue_inv E q" and "cn_sock c = cn_sock (cn w)"
  shows "below_ok E (w\<lparr>cn := c, cn_poll := p, cn_tq := q, cn_socks := s\<rparr>)"
  using assms by (simp add: below_ok_def)

lemma handleTimeout_ok:
  assumes inv: "Connector_inv E w" and tmp: "socks (cn_socks w) (ra_tmp r) = None"
  shows "\<exists>w'. Connector_handleTimeout r w = Inr w' \<and> Connector_inv E w' \<and> handed w' = handed w"
proof (cases "cn_state (cn w) = Connecting")
  case True
  from give_up_ok [OF inv True tmp] obtain p s where
    ps: "rbind (drop_channel w) (clear_sock (ra_tmp r)) =
      Inr (on_cn (\<lambda>c. c\<lparr>cn_channel := None\<rparr>) (w\<lparr>cn_poll := p, cn_socks := s\<rparr>))"
    and ok: "Poller_inv p" "Socket_inv s" "socks s = (socks (cn_socks w))(cn_sock (cn w) \<mapsto> -1)"
    by blast
  have below: "below_ok E w" using inv by (simp add: Connector_inv_def)
  let ?w = "on_cn (\<lambda>c. c\<lparr>cn_timeoutId := TimerId_null\<rparr>) (Connector_setState Disconnected
    (on_cn (\<lambda>c. c\<lparr>cn_channel := None\<rparr>) (w\<lparr>cn_poll := p, cn_socks := s\<rparr>)))"
  have "Connector_handleTimeout r w = Inr ?w"
    using True below_okD(1) [OF below] ps
    by (simp add: Connector_handleTimeout_def EventLoop_assertInLoopThread_def rbind_assoc [symmetric])
  moreover have "Connector_inv E ?w"
    by (rule idle_inv) (use below ok in \<open>simp_all add: below_ok_def Connector_setState_def\<close>)
  ultimately show ?thesis by (simp add: Connector_setState_def)
next
  case False
  with inv show ?thesis
    by (simp add: Connector_handleTimeout_def EventLoop_assertInLoopThread_def Connector_inv_def below_ok_def)
qed

lemma connector_handleError_ok:
  assumes inv: "Connector_inv E w" and tmp: "socks (cn_socks w) (ra_tmp r) = None"
  shows "\<exists>w'. Connector_handleError r w = Inr w' \<and> Connector_inv E w' \<and> handed w' = handed w"
proof (cases "cn_state (cn w) = Connecting")
  case True
  from give_up_ok [OF inv True tmp] obtain p s where
    ps: "rbind (drop_channel w) (clear_sock (ra_tmp r)) =
      Inr (on_cn (\<lambda>c. c\<lparr>cn_channel := None\<rparr>) (w\<lparr>cn_poll := p, cn_socks := s\<rparr>))"
    and ok: "Poller_inv p" "Socket_inv s" "socks s = (socks (cn_socks w))(cn_sock (cn w) \<mapsto> -1)"
    by blast
  have below: "below_ok E w" using inv by (simp add: Connector_inv_def)
  let ?w = "Connector_setState Disconnected (on_cn (\<lambda>c. c\<lparr>cn_channel := None\<rparr>) (w\<lparr>cn_poll := p, cn_socks := s\<rparr>))"
  have "below_ok E ?w" using below ok by (simp add: below_ok_def Connector_setState_def)
  from cancel_timeout_ok [OF this] obtain q i where
    q: "cancel_timeout ?w = Inr (on_cn (\<lambda>c. c\<lparr>cn_timeoutId := i\<rparr>) (?w\<lparr>cn_tq := q\<rparr>))" "TimerQueue_inv E q"
    by blast
  let ?v = "on_cn (\<lambda>c. c\<lparr>cn_timeoutId := i\<rparr>) (?w\<lparr>cn_tq := q\<rparr>)"
  have "Connector_handleError r w = Inr ?v"
    using True ps q(1) by (simp add: Connector_handleError_def rbind_assoc [symmetric])
  moreover have "Connector_inv E ?v"
    by (rule idle_inv) (use below ok q(2) in \<open>simp_all add: below_ok_def Connector_setState_def\<close>)
  ultimately show ?thesis by (simp add: Connector_setState_def)
next
  case False
  with inv show ?thesis by (simp add: Connector_handleError_def)
qed

lemma stopInLoop_ok:
  assumes inv: "Connector_inv E w" and tmp: "socks (cn_socks w) (ra_tmp r) = None"
  shows "\<exists>w'. Connector_stopInLoop r w = Inr w' \<and> Connector_inv E w' \<and> cn_channel (cn w') = None \<and>
    timers_live E (cn_tq w') = (timers_live E (cn_tq w))(cn_timeoutId (cn w) := None) \<and> handed w' = handed w"
proof (cases "cn_state (cn w) = Connecting")
  case True
  let ?u = "Connector_setState Disconnected w"
  from give_up_ok [OF inv True tmp] obtain p s where
    ps: "rbind (drop_channel w) (clear_sock (ra_tmp r)) =
      Inr (on_cn (\<lambda>c. c\<lparr>cn_channel := None\<rparr>) (w\<lparr>cn_poll := p, cn_socks := s\<rparr>))"
    and ok: "Poller_inv p" "Socket_inv s" "socks s = (socks (cn_socks w))(cn_sock (cn w) \<mapsto> -1)"
    by blast
  obtain a c where a: "cn_channel (cn w) = Some a" and c: "channels (cn_poll w) a = Some c" and below: "below_ok E w"
    using connectingE [OF inv True] by blast
  have u: "below_ok E ?u" "cn_channel (cn ?u) = Some a" "channels (cn_poll ?u) a = Some c"
    using below a c by (simp_all add: below_ok_def Connector_setState_def)
  obtain p where p: "drop_channel ?u = Inr (on_cn (\<lambda>c. c\<lparr>cn_channel := None\<rparr>) (?u\<lparr>cn_poll := p\<rparr>))" "Poller_inv p"
    using drop_channel_ok [OF u] by blast
  let ?v = "on_cn (\<lambda>c. c\<lparr>cn_channel := None\<rparr>) (?u\<lparr>cn_poll := p\<rparr>)"
  have v: "below_ok E ?v" "socks (cn_socks ?v) (ra_tmp r) = None" 
    using u(1) p(2) tmp by (simp_all add: below_ok_def Connector_setState_def)
  obtain s where s: "clear_sock (ra_tmp r) ?v = Inr (?v\<lparr>cn_socks := s\<rparr>)" "Socket_inv s"
    "socks s = (socks (cn_socks ?v))(cn_sock (cn ?v) \<mapsto> -1)"
    using clear_sock_ok [OF v] by blast
  let ?x = "?v\<lparr>cn_socks := s\<rparr>"
  have x: "below_ok E ?x" using v(1) s(2,3) by (simp add: below_ok_def)
  obtain q i where q: "cancel_timeout ?x = Inr (on_cn (\<lambda>c. c\<lparr>cn_timeoutId := i\<rparr>) (?x\<lparr>cn_tq := q\<rparr>))"
    "TimerQueue_inv E q" "timers_live E q = (timers_live E (cn_tq ?x))(cn_timeoutId (cn ?x) := None)"
    using cancel_timeout_ok [OF x] by blast
  let ?y = "on_cn (\<lambda>c. c\<lparr>cn_timeoutId := i\<rparr>) (?x\<lparr>cn_tq := q\<rparr>)"
  have "Connector_stopInLoop r w = Inr ?y"
    using True a p(1) s(1) q(1) by (simp add: Connector_stopInLoop_def Connector_setState_def)
  moreover have "Connector_inv E ?y"
    by (rule idle_inv) (use x q(2) s(3) in \<open>simp_all add: below_ok_def Connector_setState_def\<close>)
  ultimately show ?thesis using q(3) by (simp add: Connector_setState_def)
next
  case False
  have below: "below_ok E w" "cn_channel (cn w) = None"
    using inv False by (auto simp: Connector_inv_def split: option.splits)
  obtain q i where q: "cancel_timeout w = Inr (on_cn (\<lambda>c. c\<lparr>cn_timeoutId := i\<rparr>) (w\<lparr>cn_tq := q\<rparr>))"
    "TimerQueue_inv E q" "timers_live E q = (timers_live E (cn_tq w))(cn_timeoutId (cn w) := None)"
    using cancel_timeout_ok [OF below(1)] by blast
  let ?y = "on_cn (\<lambda>c. c\<lparr>cn_timeoutId := i\<rparr>) (w\<lparr>cn_tq := q\<rparr>)"
  have "Connector_inv E ?y"
    by (rule idle_inv) (use inv False below q(2) in \<open>simp_all add: below_ok_def Connector_inv_def\<close>)
  with False q below show ?thesis by (simp add: Connector_stopInLoop_def)
qed

text \<open>The hand-over: the descriptor moves to the parameter, which dies after the callback unless it was moved on.\<close>

lemma hand_over_ok:
  assumes below: "below_ok E w" and idle: "cn_channel (cn w) = None" "cn_state (cn w) = Connected"
    and param: "socks (cn_socks w) (ra_param r) = None" and cb: "new_conn_ok E newConnCallback"
  shows "\<exists>w'. hand_over newConnCallback r w = Inr w' \<and> Connector_inv E w'"
proof (cases newConnCallback)
  case None
  with idle_inv [OF below] idle show ?thesis by (simp add: hand_over_def)
next
  case (Some f)
  let ?b = "ra_param r" and ?a = "cn_sock (cn w)"
  obtain fd where fd: "socks (cn_socks w) ?a = Some fd" using below_okD(5) [OF below] by blast
  with param have ab: "?b \<noteq> ?a" by auto
  obtain s where s: "Socket_move ?b ?a (cn_socks w) = Inr s" "Socket_inv s"
    using Socket_apply_ok [OF below_okD(4) [OF below], of "MoveSocket ?b ?a"] param fd by auto
  then have socks: "socks s = (socks (cn_socks w))(?b \<mapsto> fd, ?a \<mapsto> -1)"
    using fd ab by (auto simp: Socket_move_def the_sock_def set_sock_def)
  let ?w = "w\<lparr>handed := handed w @ [fd], cn_socks := s\<rparr>"
  have "Connector_inv E ?w"
    by (rule idle_inv) (use below idle s(2) socks ab in \<open>simp_all add: below_ok_def\<close>)
  moreover have "socks (cn_socks ?w) ?b \<noteq> None" "?b \<noteq> cn_sock (cn ?w)" using socks ab by simp_all
  ultimately obtain w1 where w1: "f ?b (Socket_getLocalAddr (ra_local r)) ?w = Inr w1" "Connector_inv E w1"
    "socks (cn_socks w1) ?b \<noteq> None" "?b \<noteq> cn_sock (cn w1)"
    using cb [unfolded new_conn_ok_def, rule_format, OF Some] by blast
  obtain s2 where s2: "Socket_destroy ?b (cn_socks w1) = Inr s2" "Socket_inv s2"
    using Socket_apply_ok [of "cn_socks w1" "DestroySocket ?b"] w1(2,3) by (auto simp: Connector_inv_def below_ok_def)
  then have socks2: "socks s2 = (socks (cn_socks w1))(?b := None)"
    by (auto simp: Socket_destroy_def the_sock_def Let_def sys_close_def split: option.splits if_splits)
  have "Connector_inv E (w1\<lparr>cn_socks := s2\<rparr>)"
    using w1(2,4) s2(2) socks2 by (auto simp: Connector_inv_def below_ok_def attempt_ok_def split: option.splits)
  with Some s(1) w1(1) s2(1) fd show ?thesis by (simp add: hand_over_def on_socks_def)
qed

text \<open>The two outcomes of an attempt that \<open>handleWrite\<close> sees.\<close>

lemma handleWrite_failed:
  assumes inv: "Connector_inv E w" and st: "cn_state (cn w) = Connecting" and err: "err \<noteq> 0"
    and tmp: "socks (cn_socks w) (ra_tmp r) = None"
  shows "\<exists>w'. Connector_handleWrite cb err r w = Inr w' \<and> Connector_inv E w' \<and> cn_state (cn w') = Disconnected \<and>
    cn_tq w' = cn_tq w \<and> cn_timeoutId (cn w') = cn_timeoutId (cn w)"
proof -
  have below: "below_ok E w" using inv by (simp add: Connector_inv_def)
  from give_up_ok [OF inv st tmp] obtain p s where
    ps: "rbind (drop_channel w) (clear_sock (ra_tmp r)) =
      Inr (on_cn (\<lambda>c. c\<lparr>cn_channel := None\<rparr>) (w\<lparr>cn_poll := p, cn_socks := s\<rparr>))"
    and ok: "Poller_inv p" "Socket_inv s" "socks s = (socks (cn_socks w))(cn_sock (cn w) \<mapsto> -1)"
    by blast
  let ?w = "Connector_setState Disconnected (on_cn (\<lambda>c. c\<lparr>cn_channel := None\<rparr>) (w\<lparr>cn_poll := p, cn_socks := s\<rparr>))"
  have "Connector_handleWrite cb err r w = Inr ?w"
    using st err below_okD(1) [OF below] ps
    by (simp add: Connector_handleWrite_def EventLoop_assertInLoopThread_def rbind_assoc [symmetric])
  moreover have "Connector_inv E ?w"
    by (rule idle_inv) (use below ok in \<open>simp_all add: below_ok_def Connector_setState_def\<close>)
  ultimately show ?thesis by (simp add: Connector_setState_def)
qed

lemma handleWrite_connected:
  assumes inv: "Connector_inv E w" and st: "cn_state (cn w) = Connecting"
  shows "\<exists>v. Connector_handleWrite cb 0 r w = hand_over cb r v \<and> below_ok E v \<and> cn_channel (cn v) = None \<and>
    cn_state (cn v) = Connected \<and> cn_sock (cn v) = cn_sock (cn w) \<and> cn_socks v = cn_socks w \<and> handed v = handed w \<and>
    \<not> TimerId_valid (cn_timeoutId (cn v)) \<and>
    timers_live E (cn_tq v) = (timers_live E (cn_tq w))(cn_timeoutId (cn w) := None) \<and>
    (\<forall>a. cn_channel (cn w) = Some a \<longrightarrow> channels (cn_poll v) a = None \<and> \<not> registered a (cn_poll v) \<and>
      channels (cn_poll v) = (channels (cn_poll w))(a := None)) \<and>
    (\<forall>r. fresh_timer r (cn_tq w) \<longrightarrow> fresh_timer r (cn_tq v))"
proof -
  obtain a c where a: "cn_channel (cn w) = Some a" and c: "channels (cn_poll w) a = Some c" and below: "below_ok E w"
    using connectingE [OF inv st] by blast
  obtain q i where q: "cancel_timeout w = Inr (on_cn (\<lambda>c. c\<lparr>cn_timeoutId := i\<rparr>) (w\<lparr>cn_tq := q\<rparr>))"
    "TimerQueue_inv E q" "\<not> TimerId_valid i" "timers_live E q = (timers_live E (cn_tq w))(cn_timeoutId (cn w) := None)"
    "\<forall>r. fresh_timer r (cn_tq w) \<longrightarrow> fresh_timer r q"
    using cancel_timeout_ok [OF below] by blast
  let ?u = "Connector_setState Connected (on_cn (\<lambda>c. c\<lparr>cn_timeoutId := i\<rparr>) (w\<lparr>cn_tq := q\<rparr>))"
  have u: "below_ok E ?u" "cn_channel (cn ?u) = Some a" "channels (cn_poll ?u) a = Some c"
    using below a c q(2) by (simp_all add: below_ok_def Connector_setState_def)
  obtain p where p: "drop_channel ?u = Inr (on_cn (\<lambda>c. c\<lparr>cn_channel := None\<rparr>) (?u\<lparr>cn_poll := p\<rparr>))" "Poller_inv p"
    "channels p = (channels (cn_poll ?u))(a := None)" "\<not> registered a p"
    using drop_channel_ok [OF u] by blast
  let ?v = "on_cn (\<lambda>c. c\<lparr>cn_channel := None\<rparr>) (?u\<lparr>cn_poll := p\<rparr>)"
  have "Connector_handleWrite cb 0 r w = hand_over cb r ?v"
    using st q(1) p(1) below_okD(1) [OF below]
    by (simp add: Connector_handleWrite_def EventLoop_assertInLoopThread_def)
  then show ?thesis
    using u(1) p(2-4) q(3-5) a by (intro exI [of _ ?v]) (simp add: below_ok_def Connector_setState_def)
qed

lemma connector_handleWrite_ok:
  assumes inv: "Connector_inv E w" and tmp: "socks (cn_socks w) (ra_tmp r) = None"
    and param: "socks (cn_socks w) (ra_param r) = None" and cb: "new_conn_ok E cb"
  shows "\<exists>w'. Connector_handleWrite cb err r w = Inr w' \<and> Connector_inv E w'"
proof (cases "cn_state (cn w) = Connecting")
  case True
  show ?thesis
  proof (cases "err = 0")
    case True
    from handleWrite_connected [OF inv \<open>cn_state (cn w) = Connecting\<close>, of cb r] obtain v where
      v: "Connector_handleWrite cb 0 r w = hand_over cb r v" "below_ok E v" "cn_channel (cn v) = None"
      "cn_state (cn v) = Connected" "cn_socks v = cn_socks w"
      by blast
    with hand_over_ok [OF v(2-4) _ cb, of r] param True show ?thesis by simp
  next
    case False
    with handleWrite_failed [OF inv True False tmp] show ?thesis by blast
  qed
next
  case False
  with inv show ?thesis
    by (simp add: Connector_handleWrite_def EventLoop_assertInLoopThread_def Connector_inv_def below_ok_def)
qed

text \<open>
  What \<open>connect\<close> needs: a new descriptor that is neither open nor registered, option calls that succeed (the
  code asserts it) and addresses of no live object.
\<close>

definition connect_args_ok :: "connect_args \<Rightarrow> release_args \<Rightarrow> connect_world \<Rightarrow> bool" where
  "connect_args_ok k r w \<longleftrightarrow>
    (case ca_socket k of Inl e \<Rightarrow> False
     | Inr fd \<Rightarrow> int fd \<notin> open_fds (cn_socks w) \<and> ChannelMap (cn_poll w) (int fd) = None) \<and>
    (\<forall>x. ca_setfl k x = 0) \<and> channels (cn_poll w) (ca_channel k) = None \<and>
    fresh_timer (ca_timer k) (cn_tq w) \<and>
    socks (cn_socks w) (ra_tmp r) = None \<and> socks (cn_socks w) (ra_param r) = None"

lemma begin_attempt:
  assumes p: "Poller_inv p" and a: "channels p a = None" and fd: "ChannelMap p fd = None"
  shows "\<exists>p' c. Channel_enableWriting True a (create_channel a fd p) = Inr p' \<and> Poller_inv p' \<and>
    channels p' a = Some c \<and> ch_fd c = fd \<and> ch_events c = EPOLLOUT \<and> registered a p'"
proof -
  let ?p = "create_channel a fd p"
  have inv: "Poller_inv ?p" using p a by (rule create_channel_inv)
  have c: "channels ?p a = Some (Channel_new fd)" by (simp add: create_channel_def)
  have free: "fd_free a ?p" using c fd by (simp add: fd_free_def create_channel_def Channel_new_def)
  obtain p' where p': "Channel_enableWriting True a ?p = Inr p'" "Poller_inv p'"
    "channels p' = (channels ?p)(a \<mapsto> updated (Channel_new fd) (0 OR EPOLLOUT))"
    using set_events_ok [OF inv c free, of "\<lambda>ev. ev OR EPOLLOUT"]
    by (metis Channel_enableWriting_def Channel_new_def channel.select_convs(3))
  moreover have "registered a p'"
    using p'(3) by (simp add: registered_iff [OF p'(2)] updated_def Channel_new_def)
  ultimately show ?thesis by (simp add: updated_def Channel_new_def)
qed

lemma connect_ok:
  assumes inv: "Connector_inv E w" and st: "cn_state (cn w) \<noteq> Connecting" and args: "connect_args_ok k r w"
    and cb: "new_conn_ok E newConnCallback"
  shows "\<exists>w'. Connector_connect newConnCallback k r w = Inr w' \<and> Connector_inv E w' \<and>
    (ca_connect k = Inl EINPROGRESS \<longrightarrow> cn_state (cn w') = Connecting \<and>
      timers_live E (cn_tq w) (cn_timeoutId (cn w')) = None \<and>
      timers_live E (cn_tq w') = (timers_live E (cn_tq w))(cn_timeoutId (cn w') \<mapsto> connector_closure (cn w)) \<and>
      connector_closure (cn w') = connector_closure (cn w) \<and>
      dom (socks (cn_socks w')) = dom (socks (cn_socks w)))"
proof -
  have below: "below_ok E w" and idle: "cn_channel (cn w) = None"
    using inv st by (auto simp: Connector_inv_def split: option.splits)
  obtain fd where fd: "ca_socket k = Inr fd" "int fd \<notin> open_fds (cn_socks w)" "ChannelMap (cn_poll w) (int fd) = None"
    using args by (auto simp: connect_args_ok_def split: sum.splits)
  have tmp: "socks (cn_socks w) (ra_tmp r) = None" and param: "socks (cn_socks w) (ra_param r) = None"
    and opts: "\<forall>x. ca_setfl k x = 0"
    and fresh: "channels (cn_poll w) (ca_channel k) = None" "fresh_timer (ca_timer k) (cn_tq w)"
    using args by (simp_all add: connect_args_ok_def)
  obtain s where s: "open_sock (Inr fd) (ra_tmp r) w = Inr (w\<lparr>cn_socks := s\<rparr>)" "Socket_inv s"
    "socks s = (socks (cn_socks w))(cn_sock (cn w) \<mapsto> int fd)"
    using open_sock_ok [OF below tmp fd(2)] by blast
  let ?w = "w\<lparr>cn_socks := s\<rparr>" and ?a = "ca_channel k"
  have sock: "socks s (cn_sock (cn w)) = Some (int fd)" using s(3) by simp
  have below': "below_ok E ?w" using below s(2) sock by (simp add: below_ok_def)
  have neq: "ra_tmp r \<noteq> cn_sock (cn w)" "ra_param r \<noteq> cn_sock (cn w)" using below_okD(5) [OF below] tmp param by auto
  have start: "Connector_connect newConnCallback k r w =
    (case ca_connect k of
       Inr _ \<Rightarrow> hand_over newConnCallback r (Connector_setState Connected ?w)
     | Inl err \<Rightarrow>
         if err = EINPROGRESS then
           rbind (on_cn_channel Channel_enableWriting (on_cn (\<lambda>c. c\<lparr>cn_channel := Some ?a\<rparr>)
               ((Connector_setState Connecting ?w)\<lparr>cn_poll := create_channel ?a (int fd) (cn_poll w)\<rparr>))) (\<lambda>w.
           rbind (loop_add ((ca_timer k)\<lparr>rq_delay := connectTimeout\<rparr>) (connector_closure (cn w)) (cn_tq w)) (\<lambda>(i, q).
             Inr (on_cn (\<lambda>c. c\<lparr>cn_timeoutId := i\<rparr>) (w\<lparr>cn_tq := q\<rparr>))))
         else clear_sock (ra_tmp r) ?w)"
    using s(1) fd(1) opts sock idle
    by (simp add: Connector_connect_def Socket_setNonBlocking_def Socket_valid_def the_sock_def reset_channel_def
        Connector_setState_def Let_def split: sum.split)
  show ?thesis
  proof (cases "ca_connect k")
    case (Inr u)
    have "below_ok E (Connector_setState Connected ?w)" using below' by (simp add: below_ok_def Connector_setState_def)
    from hand_over_ok [OF this _ _ _ cb, of r] idle param neq s(3) start Inr show ?thesis
      by (simp add: Connector_setState_def)
  next
    case (Inl err)
    show ?thesis
    proof (cases "err = EINPROGRESS")
      case False
      have "socks (cn_socks ?w) (ra_tmp r) = None" using tmp neq s(3) by simp
      then obtain s' where s': "clear_sock (ra_tmp r) ?w = Inr (?w\<lparr>cn_socks := s'\<rparr>)" "Socket_inv s'"
        "socks s' = (socks (cn_socks ?w))(cn_sock (cn ?w) \<mapsto> -1)"
        using clear_sock_ok [OF below'] by blast
      have "Connector_inv E (?w\<lparr>cn_socks := s'\<rparr>)"
        by (rule idle_inv) (use below' idle st s'(2,3) in \<open>simp_all add: below_ok_def\<close>)
      with False Inl start s'(1) show ?thesis by simp
    next
      case True
      obtain p c where p: "Channel_enableWriting True ?a (create_channel ?a (int fd) (cn_poll w)) = Inr p" "Poller_inv p"
        "channels p ?a = Some c" "ch_fd c = int fd" "ch_events c = EPOLLOUT" "registered ?a p"
        using begin_attempt [OF below_okD(2) [OF below] fresh(1) fd(3)] by blast
      let ?u = "on_cn (\<lambda>c. c\<lparr>cn_channel := Some ?a\<rparr>) ((Connector_setState Connecting ?w)\<lparr>cn_poll := p\<rparr>)"
      have "fresh_timer ((ca_timer k)\<lparr>rq_delay := connectTimeout\<rparr>) (cn_tq w)"
        using fresh(2) by (simp add: fresh_timer_def)
      from loop_add_ok [OF below_okD(3) [OF below] this, of "connector_closure (cn ?u)"] obtain i q where
        q: "loop_add ((ca_timer k)\<lparr>rq_delay := connectTimeout\<rparr>) (connector_closure (cn ?u)) (cn_tq w) = Inr (i, q)"
        "TimerQueue_inv E q" "TimerId_valid i" "timers_live E q = (timers_live E (cn_tq w))(i \<mapsto> connector_closure (cn ?u))"
        "timers_live E (cn_tq w) i = None"
        by blast
      let ?v = "on_cn (\<lambda>c. c\<lparr>cn_timeoutId := i\<rparr>) (?u\<lparr>cn_tq := q\<rparr>)"
      have "Connector_connect newConnCallback k r w = Inr ?v"
        using start Inl True p(1) q(1) below_okD(1) [OF below]
        by (simp add: on_cn_channel_def on_cn_poll_def Connector_setState_def on_cn_def)
      moreover have "Connector_inv E ?v"
        using below s(2) sock p(2-6) q(2-4)
        by (simp add: Connector_inv_def below_ok_def attempt_ok_def Connector_setState_def connector_closure_def)
      ultimately show ?thesis
        using q(4,5) s(3) below_okD(5) [OF below]
        by (intro exI [of _ ?v]) (auto simp: Connector_setState_def connector_closure_def)
    qed
  qed
qed

section \<open>Properties\<close>

text \<open>The calls made on a connector in its loop.\<close>

datatype connector_op =
  DoConnect connect_args release_args | DoWrite errno release_args | DoError release_args
| DoTimeout release_args | DoStop release_args

fun Connector_apply :: "new_conn_callback option \<Rightarrow> connector_op \<Rightarrow> connect_world \<Rightarrow> connect_world res" where
  "Connector_apply cb (DoConnect k r) w = Connector_start cb k r w"
| "Connector_apply cb (DoWrite err r) w = Connector_handleWrite cb err r w"
| "Connector_apply cb (DoError r) w = Connector_handleError r w"
| "Connector_apply cb (DoTimeout r) w = Connector_handleTimeout r w"
| "Connector_apply cb (DoStop r) w = Connector_stop r w"

definition release_args_ok :: "release_args \<Rightarrow> connect_world \<Rightarrow> bool" where
  "release_args_ok r w \<longleftrightarrow> socks (cn_socks w) (ra_tmp r) = None \<and> socks (cn_socks w) (ra_param r) = None"

fun connector_op_legal :: "connector_op \<Rightarrow> connect_world \<Rightarrow> bool" where
  "connector_op_legal (DoConnect k r) w \<longleftrightarrow> cn_state (cn w) \<noteq> Connecting \<and> connect_args_ok k r w"
| "connector_op_legal (DoWrite err r) w \<longleftrightarrow> release_args_ok r w"
| "connector_op_legal (DoError r) w \<longleftrightarrow> release_args_ok r w"
| "connector_op_legal (DoTimeout r) w \<longleftrightarrow> release_args_ok r w"
| "connector_op_legal (DoStop r) w \<longleftrightarrow> release_args_ok r w"

fun connector_ops_legal :: "new_conn_callback option \<Rightarrow> connector_op list \<Rightarrow> connect_world \<Rightarrow> bool" where
  "connector_ops_legal cb [] w = True"
| "connector_ops_legal cb (x # xs) w \<longleftrightarrow>
    connector_op_legal x w \<and> (case Connector_apply cb x w of Inl _ \<Rightarrow> True | Inr w' \<Rightarrow> connector_ops_legal cb xs w')"

lemma Connector_apply_ok:
  assumes inv: "Connector_inv E w" and cb: "new_conn_ok E cb" and legal: "connector_op_legal x w"
  shows "\<exists>w'. Connector_apply cb x w = Inr w' \<and> Connector_inv E w'"
proof -
  have thread: "cn_thread w" using inv by (simp add: Connector_inv_def below_ok_def)
  show ?thesis
  proof (cases x)
    case (DoConnect k r)
    with legal connect_ok [OF inv _ _ cb, of k r] thread show ?thesis
      by (auto simp: Connector_start_def Connector_startInLoop_def EventLoop_assertInLoopThread_def)
  next
    case (DoWrite err r)
    with legal connector_handleWrite_ok [OF inv _ _ cb, of r err] show ?thesis by (simp add: release_args_ok_def)
  next
    case (DoError r)
    with legal connector_handleError_ok [OF inv, of r] show ?thesis by (auto simp: release_args_ok_def)
  next
    case (DoTimeout r)
    with legal handleTimeout_ok [OF inv, of r] show ?thesis by (auto simp: release_args_ok_def)
  next
    case (DoStop r)
    with legal stopInLoop_ok [OF inv, of r] thread show ?thesis by (auto simp: release_args_ok_def Connector_stop_def)
  qed
qed


definition demo_connect_world :: connect_world where
  "demo_connect_world =
    \<lparr>cn = \<lparr>cn_id = 7, cn_state = Disconnected, cn_channel = None, cn_sock = 1, cn_timeoutId = TimerId_null\<rparr>,
     cn_poll = Epoller_new, cn_tq = TimerQueue_new, cn_socks = set_sock 1 (-1) sock_state_new, cn_thread = True,
     cn_posted = [], handed = []\<rparr>"

definition demo_connect_args :: connect_args where
  "demo_connect_args =
    \<lparr>ca_socket = Inr 3, ca_flags = 2, ca_setfl = (\<lambda>_. 0), ca_connect = Inl EINPROGRESS, ca_channel = 50,
     ca_timer = \<lparr>rq_now = 0, rq_now' = 0, rq_addr = 9, rq_delay = 0\<rparr>\<rparr>"

definition demo_release_args :: release_args where
  "demo_release_args = \<lparr>ra_tmp = 20, ra_param = 21, ra_local = Inl 1\<rparr>"

lemma demo_connect_world_inv: "Connector_inv {} demo_connect_world"
  by (rule idle_inv)
    (use add_invalid [OF Socket_new_inv, of 1] Epoller_new_inv TimerQueue_new_inv in
      \<open>simp_all add: demo_connect_world_def below_ok_def sock_state_new_def set_sock_def\<close>)

lemma demo_connect_args_ok: "connect_args_ok demo_connect_args demo_release_args demo_connect_world"
  by (simp add: connect_args_ok_def demo_connect_args_def demo_release_args_def demo_connect_world_def set_sock_def
      sock_state_new_def Epoller_new_def TimerQueue_new_def fresh_timer_def UINTPTR_MAX_def)

lemma no_callback_ok: "new_conn_ok E None"
  by (simp add: new_conn_ok_def)


text \<open>A world in which the attempt of the example is in progress.\<close>

lemma demo_connecting:
  assumes "new_conn_ok {} cb"
  shows "\<exists>w. Connector_connect cb demo_connect_args demo_release_args demo_connect_world = Inr w \<and>
    Connector_inv {} w \<and> cn_state (cn w) = Connecting \<and>
    timers_live {} (cn_tq w) (cn_timeoutId (cn w)) = Some (connector_closure (cn w)) \<and>
    release_args_ok demo_release_args w"
proof -
  let ?k = demo_connect_args and ?r = demo_release_args and ?w0 = demo_connect_world
  have "cn_state (cn ?w0) \<noteq> Connecting" "ca_connect ?k = Inl EINPROGRESS"
    by (simp_all add: demo_connect_world_def demo_connect_args_def)
  with connect_ok [OF demo_connect_world_inv _ demo_connect_args_ok assms] obtain w where
    w: "Connector_connect cb ?k ?r ?w0 = Inr w" "Connector_inv {} w" "cn_state (cn w) = Connecting"
    "timers_live {} (cn_tq w) = (timers_live {} (cn_tq ?w0))(cn_timeoutId (cn w) \<mapsto> connector_closure (cn ?w0))"
    "connector_closure (cn w) = connector_closure (cn ?w0)" "dom (socks (cn_socks w)) = dom (socks (cn_socks ?w0))"
    by auto
  have "ra_tmp ?r \<notin> dom (socks (cn_socks ?w0))" "ra_param ?r \<notin> dom (socks (cn_socks ?w0))"
    using demo_connect_args_ok by (simp_all add: connect_args_ok_def domIff)
  then have "release_args_ok ?r w" unfolding release_args_ok_def w(6) [symmetric] by (simp add: domIff)
  with w show ?thesis by simp
qed

text \<open>
  C27. A connection that comes about is handed over once: when the socket has no error, \<open>handleWrite\<close> calls
  the callback with the descriptor, in a state in which the channel is unregistered and destroyed, the
  timeout is cancelled, the connector is in the connected state and no longer owns the descriptor.
\<close>

theorem connector_hands_over_once:
  assumes "Connector_inv E w" and "cn_state (cn w) = Connecting" and "socks (cn_socks w) (ra_param r) = None"
  shows "\<exists>v fd. Connector_handleWrite (Some f) 0 r w =
      rbind (f (ra_param r) (Socket_getLocalAddr (ra_local r)) v) (on_socks (Socket_destroy (ra_param r))) \<and>
    Connector_inv E v \<and> cn_state (cn v) = Connected \<and> handed v = handed w @ [fd] \<and> fd \<in> open_fds (cn_socks v) \<and>
    socks (cn_socks v) (ra_param r) = Some fd \<and> socks (cn_socks v) (cn_sock (cn v)) = Some (-1) \<and>
    timers_live E (cn_tq v) (cn_timeoutId (cn w)) = None \<and>
    (\<forall>a. cn_channel (cn w) = Some a \<longrightarrow> channels (cn_poll v) a = None \<and> \<not> registered a (cn_poll v))"
proof -
  obtain a c where "attempt_ok E a w" using connectingE [OF assms(1,2)] by blast
  then obtain fd where fd: "fd \<ge> 0" "socks (cn_socks w) (cn_sock (cn w)) = Some fd" by (auto simp: attempt_ok_def)
  obtain u where u: "Connector_handleWrite (Some f) 0 r w = hand_over (Some f) r u" "below_ok E u"
    "cn_channel (cn u) = None" "cn_state (cn u) = Connected" "cn_sock (cn u) = cn_sock (cn w)"
    "cn_socks u = cn_socks w" "handed u = handed w"
    "timers_live E (cn_tq u) = (timers_live E (cn_tq w))(cn_timeoutId (cn w) := None)"
    "\<forall>a. cn_channel (cn w) = Some a \<longrightarrow> channels (cn_poll u) a = None \<and> \<not> registered a (cn_poll u)"
    using handleWrite_connected [OF assms(1,2), of "Some f" r] by blast
  let ?b = "ra_param r" and ?a = "cn_sock (cn w)"
  have ab: "?b \<noteq> ?a" using assms(3) fd(2) by auto
  obtain s where s: "Socket_move ?b ?a (cn_socks w) = Inr s" "Socket_inv s"
    using Socket_apply_ok [OF below_okD(4) [OF u(2)], of "MoveSocket ?b ?a"] assms(3) fd u(6) by auto
  then have socks: "socks s = (socks (cn_socks w))(?b \<mapsto> fd, ?a \<mapsto> -1)"
    using fd ab by (auto simp: Socket_move_def the_sock_def set_sock_def)
  let ?v = "u\<lparr>handed := handed w @ [fd], cn_socks := s\<rparr>"
  have "Connector_inv E ?v"
    by (rule idle_inv) (use u s(2) socks ab in \<open>simp_all add: below_ok_def\<close>)
  moreover have "fd \<in> open_fds s" using Socket_invD(1) [OF s(2), of fd] fd socks ab by auto
  ultimately show ?thesis
    using u s(1) fd socks ab
    by (intro exI [of _ ?v] exI [of _ fd]) (simp add: hand_over_def on_socks_def fun_eq_iff)
qed

theorem connector_hands_over_once_witness:
  "\<exists>w (v :: connect_world). Connector_connect (Some (\<lambda>_ _ w. Inr w)) demo_connect_args demo_release_args demo_connect_world = Inr w \<and>
    cn_state (cn v) = Connected \<and> (\<exists>fd. handed v = handed w @ [fd])"
proof -
  let ?f = "\<lambda>(_ :: addr) (_ :: inet_address) w. Inr w :: connect_world res"
  have "new_conn_ok {} (Some ?f)" by (simp add: new_conn_ok_def)
  from demo_connecting [OF this] obtain w where
    w: "Connector_connect (Some ?f) demo_connect_args demo_release_args demo_connect_world = Inr w"
    "Connector_inv {} w" "cn_state (cn w) = Connecting" "release_args_ok demo_release_args w" by blast
  have "socks (cn_socks w) (ra_param demo_release_args) = None" using w(4) by (simp add: release_args_ok_def)
  from connector_hands_over_once [OF w(2,3) this, of ?f] obtain v :: connect_world and fd where
    "cn_state (cn v) = Connected" "handed v = handed w @ [fd]" by blast
  with w(1) show ?thesis by blast
qed

text \<open>The callbacks that \<open>connect\<close> sets, and the events of the channel.\<close>

definition connector_callbacks ::
  "new_conn_callback option \<Rightarrow> errno \<Rightarrow> release_args \<Rightarrow> ev_call \<Rightarrow> (connect_world \<Rightarrow> connect_world res) option" where
  "connector_callbacks cb err r k =
    (case k of
       ErrorCall \<Rightarrow> Some (Connector_handleError r)
     | ReadCall \<Rightarrow> None
     | WriteCall \<Rightarrow> Some (Connector_handleWrite cb err r))"

definition connector_revents :: "addr \<Rightarrow> connect_world \<Rightarrow> 32 word option" where
  "connector_revents a w = map_option ch_revents (channels (cn_poll w) a)"

text \<open>
  C35. A refused connection is reported with an error event, and then the connector destroys its channel
  while \<open>handleEvent\<close> of that channel is running, which goes on to read it: use after free. A pure write
  event is harmless, since its callback is the last thing \<open>handleEvent\<close> does.
\<close>

theorem refused_connection_uses_freed_channel:
  assumes "Connector_inv E w" and "cn_channel (cn w) = Some a" and "connector_revents a w = Some ev"
    and "release_args_ok r w"
  shows "(on_error ev \<longrightarrow>
      Channel_handleEvent (connector_revents a) (connector_callbacks cb err r) w = Inl UseAfterFree) \<and>
    (ev = EPOLLOUT \<longrightarrow>
      Channel_handleEvent (connector_revents a) (connector_callbacks cb err r) w = Connector_handleWrite cb err r w)"
proof -
  have st: "cn_state (cn w) = Connecting" and below: "below_ok E w" and tmp: "socks (cn_socks w) (ra_tmp r) = None"
    using assms by (auto simp: Connector_inv_def release_args_ok_def)
  obtain p s where ps: "rbind (drop_channel w) (clear_sock (ra_tmp r)) =
      Inr (on_cn (\<lambda>c. c\<lparr>cn_channel := None\<rparr>) (w\<lparr>cn_poll := p, cn_socks := s\<rparr>))"
    "Poller_inv p" "Socket_inv s" "socks s = (socks (cn_socks w))(cn_sock (cn w) \<mapsto> -1)" "channels p a = None"
    using give_up_ok [OF assms(1) st tmp] assms(2) by blast
  let ?w = "Connector_setState Disconnected (on_cn (\<lambda>c. c\<lparr>cn_channel := None\<rparr>) (w\<lparr>cn_poll := p, cn_socks := s\<rparr>))"
  have "below_ok E ?w" using below ps by (simp add: below_ok_def Connector_setState_def)
  then obtain q i where "cancel_timeout ?w = Inr (on_cn (\<lambda>c. c\<lparr>cn_timeoutId := i\<rparr>) (?w\<lparr>cn_tq := q\<rparr>))"
    using cancel_timeout_ok by blast
  then have "Connector_handleError r w = Inr (on_cn (\<lambda>c. c\<lparr>cn_timeoutId := i\<rparr>) (?w\<lparr>cn_tq := q\<rparr>))"
    using st ps(1) by (simp add: Connector_handleError_def rbind_assoc [symmetric])
  moreover have "connector_revents a (on_cn (\<lambda>c. c\<lparr>cn_timeoutId := i\<rparr>) (?w\<lparr>cn_tq := q\<rparr>)) = None"
    using ps(5) by (simp add: connector_revents_def Connector_setState_def)
  ultimately have "Channel_handleEvent (connector_revents a) (connector_callbacks cb err r) w = Inl UseAfterFree"
    if "on_error ev"
    using handleEvent_own_channel_destroyed [of "connector_revents a" w ev "connector_callbacks cb err r"
        "Connector_handleError r"] assms(3) that by (simp add: connector_callbacks_def)
  moreover have "Channel_handleEvent (connector_revents a) (connector_callbacks cb err r) w = Connector_handleWrite cb err r w"
    if "ev = EPOLLOUT"
    using assms(3) that
    by (simp add: Channel_handleEvent_def event_call_def on_error_def on_read_def on_hup_def on_write_def epoll_masks
        connector_callbacks_def)
  ultimately show ?thesis by blast
qed

theorem refused_connection_uses_freed_channel_witness:
  "\<exists>w. Connector_connect None demo_connect_args demo_release_args demo_connect_world = Inr w \<and>
    (\<exists>a u. cn_channel (cn w) = Some a \<and>
      Channel_handleEvent (connector_revents a) (connector_callbacks None 0 demo_release_args) u = Inl UseAfterFree)"
proof -
  from demo_connecting [OF no_callback_ok] obtain w where
    w: "Connector_connect None demo_connect_args demo_release_args demo_connect_world = Inr w"
    "Connector_inv {} w" "cn_state (cn w) = Connecting" "release_args_ok demo_release_args w" by blast
  from connectingE [OF w(2,3)] obtain a c where a: "cn_channel (cn w) = Some a" "channels (cn_poll w) a = Some c"
    "attempt_ok {} a w" by blast
  let ?p = "set_channel a (c\<lparr>ch_revents := EPOLLERR\<rparr>) (cn_poll w)"
  let ?u = "w\<lparr>cn_poll := ?p\<rparr>"
  have p: "Poller_inv ?p"
    using w(2) by (intro set_channel_inv [OF _ a(2)]) (simp_all add: Connector_inv_def below_ok_def)
  have "registered a ?p" using a(2,3) by (auto simp: attempt_ok_def registered_def set_channel_def)
  then have "Connector_inv {} ?u"
    using w(2,3) a p by (auto simp: Connector_inv_def below_ok_def attempt_ok_def set_channel_def)
  moreover have "cn_channel (cn ?u) = Some a" "connector_revents a ?u = Some EPOLLERR" "release_args_ok demo_release_args ?u"
    using a(1) w(4) by (simp_all add: connector_revents_def set_channel_def release_args_ok_def)
  ultimately have "Channel_handleEvent (connector_revents a) (connector_callbacks None 0 demo_release_args) ?u = Inl UseAfterFree"
    using refused_connection_uses_freed_channel [of "{}" ?u a EPOLLERR demo_release_args None 0]
    by (simp add: on_error_def epoll_masks)
  with w(1) a(1) show ?thesis by blast
qed

text \<open>
  A failed attempt leaves its timeout armed, and it then hits the next attempt: \<open>handleWrite\<close> with a
  socket error does not cancel the timer; if the connector is started again before it fires, both timers
  are registered, and the old one gives the new attempt up.
\<close>

theorem stale_timeout_aborts_next_attempt:
  assumes "Connector_inv E w" and "cn_state (cn w) = Connecting" and "err \<noteq> 0" and "new_conn_ok E cb"
    and "socks (cn_socks w) (ra_tmp r) = None"
    and "timers_live E (cn_tq w) (cn_timeoutId (cn w)) = Some (connector_closure (cn w))"
    and "Connector_handleWrite cb err r w = Inr w1"
    and "connect_args_ok k r1 w1" and "ca_connect k = Inl EINPROGRESS"
  shows "\<exists>w2. Connector_connect cb k r1 w1 = Inr w2 \<and> cn_state (cn w2) = Connecting \<and>
    cn_timeoutId (cn w2) \<noteq> cn_timeoutId (cn w) \<and>
    timers_live E (cn_tq w2) (cn_timeoutId (cn w2)) = Some (connector_closure (cn w1)) \<and>
    timers_live E (cn_tq w2) (cn_timeoutId (cn w)) = Some (connector_closure (cn w)) \<and>
    (\<exists>w3. Connector_handleTimeout r1 w2 = Inr w3 \<and> cn_state (cn w3) = Disconnected)"
proof -
  have w1: "Connector_inv E w1" "cn_state (cn w1) = Disconnected" "cn_tq w1 = cn_tq w"
    using handleWrite_failed [OF assms(1-3,5), of cb] assms(7) by auto
  obtain w2 where w2: "Connector_connect cb k r1 w1 = Inr w2" "Connector_inv E w2" "cn_state (cn w2) = Connecting"
    "timers_live E (cn_tq w1) (cn_timeoutId (cn w2)) = None"
    "timers_live E (cn_tq w2) = (timers_live E (cn_tq w1))(cn_timeoutId (cn w2) \<mapsto> connector_closure (cn w1))"
    "dom (socks (cn_socks w2)) = dom (socks (cn_socks w1))"
    using connect_ok [OF w1(1) _ assms(8,4)] w1(2) assms(9) by auto
  have "ra_tmp r1 \<notin> dom (socks (cn_socks w2))"
    using assms(8) unfolding w2(6) by (simp add: connect_args_ok_def domIff)
  then have tmp: "socks (cn_socks w2) (ra_tmp r1) = None" by (simp add: domIff)
  have "cn_thread w2" using w2(2) by (simp add: Connector_inv_def below_ok_def)
  with give_up_ok [OF w2(2,3) tmp] w2(3)
  have "\<exists>w3. Connector_handleTimeout r1 w2 = Inr w3 \<and> cn_state (cn w3) = Disconnected"
    by (auto simp: Connector_handleTimeout_def EventLoop_assertInLoopThread_def rbind_assoc [symmetric]
        Connector_setState_def)
  moreover have "cn_timeoutId (cn w2) \<noteq> cn_timeoutId (cn w)" using w2(4) w1(3) assms(6) by auto
  ultimately show ?thesis using w2 w1(3) assms(6) by (intro exI [of _ w2]) simp
qed

definition demo_retry_args :: connect_args where
  "demo_retry_args = demo_connect_args\<lparr>ca_socket := Inr 4, ca_channel := 51,
    ca_timer := \<lparr>rq_now = 0, rq_now' = 0, rq_addr = 10, rq_delay = 0\<rparr>\<rparr>"

lemmas connector_eval =
  Connector_connect_def open_sock_def on_socks_def socket_defs assign_temporary_def Socket_setNonBlocking_def
  Socket_valid_def Connector_setState_def on_cn_def reset_channel_def on_cn_channel_def on_cn_poll_def
  Channel_enableWriting_def Channel_set_events_def the_channel_def Channel_update_def Epoller_updateChannel_def
  Poller_hasChannel_def set_channel_def epoll_add_def create_channel_def Channel_new_def loop_add_def
  EventLoop_runAfter_def TimerQueue_addTimer_def TimerQueue_addTimerInLoop_def Timer_new_def connector_closure_def
  TimerQueue_resetTimerFd_def EventLoop_assertInLoopThread_def Connector_handleWrite_def drop_channel_def
  Channel_remove_def Channel_destroy_def Epoller_removeChannel_def epoll_del_def clear_sock_def

lemma demo_retry_ok:
  "case rbind (Connector_connect None demo_connect_args demo_release_args demo_connect_world)
      (Connector_handleWrite None 111 demo_release_args) of
     Inl e \<Rightarrow> False | Inr w1 \<Rightarrow> connect_args_ok demo_retry_args demo_release_args w1"
  by (simp add: connector_eval demo_connect_args_def demo_release_args_def demo_connect_world_def demo_retry_args_def
      Epoller_new_def TimerQueue_new_def sock_state_new_def connect_args_ok_def fresh_timer_def UINTPTR_MAX_def)

theorem stale_timeout_aborts_next_attempt_witness:
  "\<exists>w w1 w2 w3. Connector_connect None demo_connect_args demo_release_args demo_connect_world = Inr w \<and>
    Connector_handleWrite None 111 demo_release_args w = Inr w1 \<and>
    Connector_connect None demo_retry_args demo_release_args w1 = Inr w2 \<and> cn_state (cn w2) = Connecting \<and>
    Connector_handleTimeout demo_release_args w2 = Inr w3 \<and> cn_state (cn w3) = Disconnected"
proof -
  from demo_connecting [OF no_callback_ok] obtain w where
    w: "Connector_connect None demo_connect_args demo_release_args demo_connect_world = Inr w"
    "Connector_inv {} w" "cn_state (cn w) = Connecting"
    "timers_live {} (cn_tq w) (cn_timeoutId (cn w)) = Some (connector_closure (cn w))"
    "release_args_ok demo_release_args w" by blast
  obtain w1 where w1: "Connector_handleWrite None 111 demo_release_args w = Inr w1"
    "connect_args_ok demo_retry_args demo_release_args w1"
    using demo_retry_ok w(1) by (auto split: sum.splits)
  have "socks (cn_socks w) (ra_tmp demo_release_args) = None" "(111 :: errno) \<noteq> 0"
    "ca_connect demo_retry_args = Inl EINPROGRESS"
    using w(5) by (simp_all add: release_args_ok_def demo_retry_args_def demo_connect_args_def)
  from stale_timeout_aborts_next_attempt [OF w(2,3) this(2) no_callback_ok this(1) w(4) w1 this(3)] w(1) w1(1)
  show ?thesis by blast
qed

end
