(* ===== verification/Monitor.thy ===== *)
theory Monitor
  imports Prelude
begin

text \<open>
  The interface of a condition variable (\<open>base/Condition.h\<close> with \<open>base/Mutex.h\<close>, or the standard library's)
  as its users rely on it. The threads in \<open>sleeping s\<close> are inside \<open>wait\<close>; \<open>waits s\<close> is the condition of the
  loop around it, evaluated under the mutex. The users' side of the contract: a thread goes to sleep only
  when the condition says so, and a step that makes the condition false wakes every sleeper. Then no
  wake-up is ever lost. Wake-ups without reason are always allowed.
\<close>

locale monitor =
  fixes step :: "'s \<Rightarrow> 's \<Rightarrow> bool"
    and sleeping :: "'s \<Rightarrow> 't set"
    and waits :: "'s \<Rightarrow> bool"
  assumes falls_asleep: "step s s' \<Longrightarrow> t \<in> sleeping s' \<Longrightarrow> t \<notin> sleeping s \<Longrightarrow> waits s'"
    and stays_asleep: "step s s' \<Longrightarrow> t \<in> sleeping s' \<Longrightarrow> t \<in> sleeping s \<Longrightarrow> waits s \<Longrightarrow> waits s'"
begin

lemma step_no_lost_wakeup:
  assumes "sleeping s \<noteq> {} \<longrightarrow> waits s" and "step s s'"
  shows "sleeping s' \<noteq> {} \<longrightarrow> waits s'"
proof
  assume "sleeping s' \<noteq> {}"
  then obtain t where t: "t \<in> sleeping s'" by blast
  show "waits s'"
  proof (cases "t \<in> sleeping s")
    case True
    with assms(1) stays_asleep [OF assms(2) t] show ?thesis by blast
  next
    case False
    with falls_asleep [OF assms(2) t] show ?thesis .
  qed
qed

lemma no_lost_wakeup:
  assumes "step\<^sup>*\<^sup>* s s'" and "sleeping s = {}" and "t \<in> sleeping s'"
  shows "waits s'"
proof -
  from assms(1,2) have "sleeping s' \<noteq> {} \<longrightarrow> waits s'"
    by (induction rule: rtranclp_induct) (simp, rule step_no_lost_wakeup)
  with assms(3) show ?thesis by blast
qed

end

end
