(* ===== verification/BlockQueue.thy ===== *)
theory BlockQueue
  imports Monitor
begin

text \<open>
  The bounded blocking queue (\<open>base/BlockQueue.h\<close>, \<open>base/BlockQueue.cc\<close>). Its operations run under one mutex;
  a call is a sequence of attempts: each takes the lock, tests the condition of the \<open>while\<close> loop, and either
  sleeps or does its work and leaves. \<open>pcs\<close> tells for every thread where it is. A task is a
  \<open>std::function\<close>, \<open>None\<close> the empty one. \<open>put\<close> and \<open>got\<close> record, for the statements only, the tasks that
  \<open>addTask\<close> stored and that \<open>getTask\<close> took out.
\<close>

section \<open>State and operations\<close>

type_synonym fn = "nat option"
type_synonym tid = nat

datatype bq_pc =
  BqIdle
| Getting | GetAsleep
| Adding fn | AddAsleep fn
| BqReturned fn

record block_queue =
  maxSize :: "64 word"
  taskQueue :: "fn list"
  stopped :: bool
  pcs :: "tid \<Rightarrow> bq_pc"
  put :: "fn list"
  got :: "fn list"

definition BlockQueue_new :: "64 word \<Rightarrow> block_queue" where
  "BlockQueue_new n = \<lparr>maxSize = n, taskQueue = [], stopped = False, pcs = (\<lambda>_. BqIdle), put = [], got = []\<rparr>"

definition set_pc :: "tid \<Rightarrow> bq_pc \<Rightarrow> block_queue \<Rightarrow> block_queue" where
  "set_pc t c s = s\<lparr>pcs := (pcs s)(t := c)\<rparr>"

fun wake_empty :: "bq_pc \<Rightarrow> bq_pc" where
  "wake_empty GetAsleep = Getting"
| "wake_empty c = c"

fun wake_full :: "bq_pc \<Rightarrow> bq_pc" where
  "wake_full (AddAsleep f) = Adding f"
| "wake_full c = c"

definition emptyCond_notifyAll :: "block_queue \<Rightarrow> block_queue" where
  "emptyCond_notifyAll s = s\<lparr>pcs := wake_empty \<circ> pcs s\<rparr>"

definition fullCond_notifyAll :: "block_queue \<Rightarrow> block_queue" where
  "fullCond_notifyAll s = s\<lparr>pcs := wake_full \<circ> pcs s\<rparr>"

definition BlockQueue_getTask :: "tid \<Rightarrow> block_queue \<Rightarrow> block_queue" where
  "BlockQueue_getTask t s =
    (if taskQueue s = [] \<and> \<not> stopped s then set_pc t GetAsleep s
     else if taskQueue s = [] then set_pc t (BqReturned None) s
     else
       (let task = hd (taskQueue s);
            s = s\<lparr>taskQueue := tl (taskQueue s), got := got s @ [task]\<rparr>;
            s = (if length (taskQueue s) = unat (maxSize s - 1) then fullCond_notifyAll s else s)
        in set_pc t (BqReturned task) s))"

definition BlockQueue_addTask :: "tid \<Rightarrow> fn \<Rightarrow> block_queue \<Rightarrow> block_queue" where
  "BlockQueue_addTask t task s =
    (if length (taskQueue s) \<ge> unat (maxSize s) \<and> \<not> stopped s then set_pc t (AddAsleep task) s
     else if stopped s then set_pc t BqIdle s
     else
       (let wasEmpty = (taskQueue s = []);
            s = s\<lparr>taskQueue := taskQueue s @ [task], put := put s @ [task]\<rparr>;
            s = (if wasEmpty then emptyCond_notifyAll s else s)
        in set_pc t BqIdle s))"

definition BlockQueue_stop :: "block_queue \<Rightarrow> block_queue" where
  "BlockQueue_stop s = emptyCond_notifyAll (fullCond_notifyAll (s\<lparr>stopped := True\<rparr>))"

definition BlockQueue_setMaxSize :: "64 word \<Rightarrow> block_queue \<Rightarrow> block_queue" where
  "BlockQueue_setMaxSize n s =
    (let s = s\<lparr>maxSize := n\<rparr> in if length (taskQueue s) < unat n then fullCond_notifyAll s else s)"

inductive bq_step :: "block_queue \<Rightarrow> block_queue \<Rightarrow> bool" where
  call_get: "pcs s t = BqIdle \<Longrightarrow> bq_step s (set_pc t Getting s)"
| call_add: "pcs s t = BqIdle \<Longrightarrow> bq_step s (set_pc t (Adding f) s)"
| get: "pcs s t = Getting \<Longrightarrow> bq_step s (BlockQueue_getTask t s)"
| add: "pcs s t = Adding f \<Longrightarrow> bq_step s (BlockQueue_addTask t f s)"
| returned: "pcs s t = BqReturned f \<Longrightarrow> bq_step s (set_pc t BqIdle s)"
| spurious_get: "pcs s t = GetAsleep \<Longrightarrow> bq_step s (set_pc t Getting s)"
| spurious_add: "pcs s t = AddAsleep f \<Longrightarrow> bq_step s (set_pc t (Adding f) s)"
| stop: "bq_step s (BlockQueue_stop s)"
| resize: "bq_step s (BlockQueue_setMaxSize n s)"

section \<open>No wake-up is lost\<close>

definition get_sleepers :: "block_queue \<Rightarrow> tid set" where
  "get_sleepers s = {t. pcs s t = GetAsleep}"

definition add_sleepers :: "block_queue \<Rightarrow> tid set" where
  "add_sleepers s = {t. \<exists>f. pcs s t = AddAsleep f}"

definition get_waits :: "block_queue \<Rightarrow> bool" where
  "get_waits s \<longleftrightarrow> taskQueue s = [] \<and> \<not> stopped s"

definition add_waits :: "block_queue \<Rightarrow> bool" where
  "add_waits s \<longleftrightarrow> length (taskQueue s) \<ge> unat (maxSize s) \<and> \<not> stopped s"

lemma wake_empty_iff [simp]:
  "wake_empty c \<noteq> GetAsleep" "wake_empty c = AddAsleep f \<longleftrightarrow> c = AddAsleep f"
  by (cases c, simp_all)+

lemma wake_full_iff [simp]:
  "wake_full c \<noteq> AddAsleep f" "wake_full c = GetAsleep \<longleftrightarrow> c = GetAsleep"
  by (cases c, simp_all)+

lemmas bq_defs =
  set_pc_def emptyCond_notifyAll_def fullCond_notifyAll_def BlockQueue_getTask_def BlockQueue_addTask_def
  BlockQueue_stop_def BlockQueue_setMaxSize_def Let_def

interpretation getters: monitor bq_step get_sleepers get_waits
proof
  fix s s' t
  show "bq_step s s' \<Longrightarrow> t \<in> get_sleepers s' \<Longrightarrow> t \<notin> get_sleepers s \<Longrightarrow> get_waits s'"
    by (induction rule: bq_step.induct) (auto simp: get_sleepers_def get_waits_def bq_defs split: if_splits)
  show "bq_step s s' \<Longrightarrow> t \<in> get_sleepers s' \<Longrightarrow> t \<in> get_sleepers s \<Longrightarrow> get_waits s \<Longrightarrow> get_waits s'"
    by (induction rule: bq_step.induct) (auto simp: get_sleepers_def get_waits_def bq_defs split: if_splits)
qed

lemma still_full:
  fixes m :: "64 word"
  assumes "n \<ge> unat m" and "n > 0" and "n - 1 \<noteq> unat (m - 1)"
  shows "n - 1 \<ge> unat m"
proof (cases "m = 0")
  case False
  then have "unat (m - 1) = unat m - 1" by (rule unat_minus_one)
  with assms show ?thesis by simp
qed simp

interpretation adders: monitor bq_step add_sleepers add_waits
proof
  fix s s' t
  show "bq_step s s' \<Longrightarrow> t \<in> add_sleepers s' \<Longrightarrow> t \<notin> add_sleepers s \<Longrightarrow> add_waits s'"
    by (induction rule: bq_step.induct) (auto simp: add_sleepers_def add_waits_def bq_defs split: if_splits)
  show "bq_step s s' \<Longrightarrow> t \<in> add_sleepers s' \<Longrightarrow> t \<in> add_sleepers s \<Longrightarrow> add_waits s \<Longrightarrow> add_waits s'"
  proof (induction rule: bq_step.induct)
    case (get s u)
    then show ?case using still_full [of "maxSize s" "length (taskQueue s)"]
      by (auto simp: add_sleepers_def add_waits_def bq_defs split: if_splits)
  qed (auto simp: add_sleepers_def add_waits_def bq_defs split: if_splits)
qed

section \<open>Order of the tasks\<close>

abbreviation bq_reachable :: "64 word \<Rightarrow> block_queue \<Rightarrow> bool" where
  "bq_reachable n \<equiv> bq_step\<^sup>*\<^sup>* (BlockQueue_new n)"

lemma bq_fifo_step: "bq_step s s' \<Longrightarrow> put s = got s @ taskQueue s \<Longrightarrow> put s' = got s' @ taskQueue s'"
  by (induction rule: bq_step.induct) (auto simp: bq_defs split: if_splits)

lemma bq_fifo: "bq_reachable n s \<Longrightarrow> put s = got s @ taskQueue s"
  by (induction rule: rtranclp_induct) (simp add: BlockQueue_new_def, rule bq_fifo_step)

lemma no_sleepers: "get_sleepers (BlockQueue_new n) = {}" "add_sleepers (BlockQueue_new n) = {}"
  by (simp_all add: get_sleepers_def add_sleepers_def BlockQueue_new_def)

section \<open>Properties\<close>

text \<open>
  C18. The queue is first in, first out and loses no wake-up: whatever the threads do (in any interleaving,
  with wake-ups without reason, bounds changed at any time, and stops), the tasks taken out are the first
  of those put in, in order; a thread sleeps in \<open>getTask\<close> only while the queue is empty and not stopped, and
  in \<open>addTask\<close> only while it is full and not stopped.
\<close>

theorem block_queue_fifo_no_lost_wakeup:
  assumes "bq_reachable n s"
  shows "put s = got s @ taskQueue s \<and>
    (pcs s t = GetAsleep \<longrightarrow> taskQueue s = [] \<and> \<not> stopped s) \<and>
    (pcs s t = AddAsleep f \<longrightarrow> length (taskQueue s) \<ge> unat (maxSize s) \<and> \<not> stopped s)"
  using bq_fifo [OF assms] getters.no_lost_wakeup [OF assms no_sleepers(1), of t]
    adders.no_lost_wakeup [OF assms no_sleepers(2), of t]
  by (auto simp: get_sleepers_def add_sleepers_def get_waits_def add_waits_def)

definition demo_bq :: block_queue where
  "demo_bq = BlockQueue_addTask 1 (Some 7) (set_pc 1 (Adding (Some 7))
    (BlockQueue_getTask 0 (set_pc 0 Getting (BlockQueue_new 2))))"

lemma demo_bq_reachable: "bq_reachable 2 demo_bq"
proof -
  let ?s0 = "BlockQueue_new 2"
  let ?s1 = "set_pc 0 Getting ?s0"
  let ?s2 = "BlockQueue_getTask 0 ?s1"
  let ?s3 = "set_pc 1 (Adding (Some 7)) ?s2"
  have "bq_step ?s0 ?s1" by (rule bq_step.call_get) (simp add: BlockQueue_new_def)
  moreover have "bq_step ?s1 ?s2" by (rule bq_step.get) (simp add: set_pc_def)
  moreover have "bq_step ?s2 ?s3" by (rule bq_step.call_add) (simp add: bq_defs BlockQueue_new_def)
  moreover have "bq_step ?s3 demo_bq" unfolding demo_bq_def by (rule bq_step.add) (simp add: set_pc_def)
  ultimately show ?thesis by (meson rtranclp.rtrancl_into_rtrancl rtranclp.rtrancl_refl)
qed

theorem block_queue_fifo_no_lost_wakeup_witness:
  "put demo_bq = got demo_bq @ taskQueue demo_bq \<and> pcs demo_bq 0 \<noteq> GetAsleep \<and> taskQueue demo_bq = [Some 7]"
proof -
  have "taskQueue demo_bq = [Some 7]" by (simp add: demo_bq_def bq_defs BlockQueue_new_def)
  with block_queue_fifo_no_lost_wakeup [OF demo_bq_reachable, of 0 None] show ?thesis by auto
qed

text \<open>
  A stopped queue releases everybody: after \<open>stop\<close> no thread is asleep, and every pending call returns at
  its next attempt; \<open>getTask\<close> still hands out the tasks that are left, in order, and then the empty function,
  while \<open>addTask\<close> drops its task.
\<close>

theorem block_queue_stop_releases:
  assumes "bq_reachable n s" and "stopped s"
  shows "pcs s t \<noteq> GetAsleep \<and> pcs s t \<noteq> AddAsleep f \<and>
    pcs (BlockQueue_getTask t s) t = BqReturned (if taskQueue s = [] then None else hd (taskQueue s)) \<and>
    taskQueue (BlockQueue_getTask t s) = tl (taskQueue s) \<and>
    pcs (BlockQueue_addTask t f s) t = BqIdle \<and> taskQueue (BlockQueue_addTask t f s) = taskQueue s"
  using getters.no_lost_wakeup [OF assms(1) no_sleepers(1), of t]
    adders.no_lost_wakeup [OF assms(1) no_sleepers(2), of t] assms(2)
  by (auto simp: get_sleepers_def add_sleepers_def get_waits_def add_waits_def bq_defs)

theorem block_queue_stop_releases_witness:
  "pcs (BlockQueue_getTask 0 (BlockQueue_stop demo_bq)) 0 = BqReturned (Some 7)"
proof -
  have "bq_reachable 2 (BlockQueue_stop demo_bq)"
    using demo_bq_reachable bq_step.stop by (rule rtranclp.rtrancl_into_rtrancl)
  moreover have "stopped (BlockQueue_stop demo_bq)" by (simp add: bq_defs)
  ultimately have "pcs (BlockQueue_getTask 0 (BlockQueue_stop demo_bq)) 0 =
      BqReturned (if taskQueue (BlockQueue_stop demo_bq) = [] then None else hd (taskQueue (BlockQueue_stop demo_bq)))"
    using block_queue_stop_releases by blast
  also have "taskQueue (BlockQueue_stop demo_bq) = [Some 7]" by (simp add: demo_bq_def bq_defs BlockQueue_new_def)
  finally show ?thesis by simp
qed

end
