(* ===== verification/ThreadPool.thy ===== *)
theory ThreadPool
  imports BlockQueue
begin

text \<open>
  The thread pool (\<open>base/ThreadPool.h\<close>, \<open>base/ThreadPool.cc\<close>) on its blocking queue: its owner, who starts and
  destroys it, the workers (threads 0 to \<open>threadMaxSize - 1\<close> of the queue), each in the loop of \<open>work\<close>, and the
  clients that add tasks (the other threads of the queue). A task is the number of a function that returns;
  \<open>ran\<close> records, for the statements only, the tasks that have been run.
\<close>

section \<open>State and operations\<close>

datatype worker_pc = WNone | WTest | WGet | WRun nat | WLeft

datatype pool_pc =
  PoolNew | PoolStarting nat | PoolUp | PoolStopping | PoolJoining nat | PoolGone | PoolFailed fault

record thread_pool =
  tp_queue :: block_queue
  start_flag :: bool
  threadMaxSize :: nat
  spawned :: nat
  workers :: "tid \<Rightarrow> worker_pc"
  currentThreadNum :: int
  pool_at :: pool_pc
  ran :: "nat list"

definition ThreadPool_new :: "nat \<Rightarrow> 64 word \<Rightarrow> thread_pool" where
  "ThreadPool_new n taskMax =
    \<lparr>tp_queue = BlockQueue_new taskMax, start_flag = False, threadMaxSize = n, spawned = 0, workers = (\<lambda>_. WNone),
     currentThreadNum = 0, pool_at = PoolNew, ran = []\<rparr>"

definition set_worker :: "tid \<Rightarrow> worker_pc \<Rightarrow> thread_pool \<Rightarrow> thread_pool" where
  "set_worker i c s = s\<lparr>workers := (workers s)(i := c)\<rparr>"

definition on_queue :: "(block_queue \<Rightarrow> block_queue) \<Rightarrow> thread_pool \<Rightarrow> thread_pool" where
  "on_queue f s = s\<lparr>tp_queue := f (tp_queue s)\<rparr>"

text \<open>\<open>start\<close>: the flag, then one thread after the other; \<open>created\<close> is whether \<open>pthread_create\<close> succeeded.\<close>

definition ThreadPool_start :: "thread_pool \<Rightarrow> thread_pool" where
  "ThreadPool_start s =
    (if spawned s \<noteq> 0 then s\<lparr>pool_at := PoolFailed AssertFailed\<rparr>
     else s\<lparr>start_flag := True, pool_at := PoolStarting 0\<rparr>)"

definition ThreadPool_spawn :: "bool \<Rightarrow> nat \<Rightarrow> thread_pool \<Rightarrow> thread_pool" where
  "ThreadPool_spawn created i s =
    (if i < threadMaxSize s then
       (let s = (if created then set_worker i WTest s else s)
        in s\<lparr>currentThreadNum := currentThreadNum s + 1, spawned := i + 1, pool_at := PoolStarting (i + 1)\<rparr>)
     else s\<lparr>pool_at := PoolUp\<rparr>)"

text \<open>\<open>work\<close>: the test of the loop, and what follows \<open>getTask\<close>.\<close>

definition work_test :: "tid \<Rightarrow> thread_pool \<Rightarrow> thread_pool" where
  "work_test i s =
    (if start_flag s then set_worker i WGet (on_queue (set_pc i Getting) s)
     else set_worker i WLeft (s\<lparr>currentThreadNum := currentThreadNum s - 1\<rparr>))"

definition work_got :: "tid \<Rightarrow> fn \<Rightarrow> thread_pool \<Rightarrow> thread_pool" where
  "work_got i task s =
    (let s = on_queue (set_pc i BqIdle) s
     in case task of
          None \<Rightarrow> set_worker i WLeft (s\<lparr>currentThreadNum := currentThreadNum s - 1\<rparr>)
        | Some f \<Rightarrow> set_worker i (WRun f) s)"

definition work_run :: "tid \<Rightarrow> nat \<Rightarrow> thread_pool \<Rightarrow> thread_pool" where
  "work_run i f s = set_worker i WTest (s\<lparr>ran := ran s @ [f]\<rparr>)"

text \<open>The destructor: the flag, the stop of the queue, and the joins in turn.\<close>

definition ThreadPool_destroy :: "thread_pool \<Rightarrow> thread_pool" where
  "ThreadPool_destroy s = s\<lparr>start_flag := False, pool_at := PoolStopping\<rparr>"

definition ThreadPool_stopQueue :: "thread_pool \<Rightarrow> thread_pool" where
  "ThreadPool_stopQueue s = (on_queue BlockQueue_stop s)\<lparr>pool_at := PoolJoining 0\<rparr>"

definition ThreadPool_join :: "nat \<Rightarrow> thread_pool \<Rightarrow> thread_pool" where
  "ThreadPool_join i s =
    (if i < spawned s then
       (if workers s i = WNone then s\<lparr>pool_at := PoolFailed AssertFailed\<rparr>
        else s\<lparr>pool_at := PoolJoining (i + 1)\<rparr>)
     else s\<lparr>pool_at := PoolGone\<rparr>)"

inductive worker_step :: "thread_pool \<Rightarrow> thread_pool \<Rightarrow> bool" where
  test: "workers s i = WTest \<Longrightarrow> worker_step s (work_test i s)"
| get: "workers s i = WGet \<Longrightarrow> pcs (tp_queue s) i = Getting \<Longrightarrow> worker_step s (on_queue (BlockQueue_getTask i) s)"
| got: "workers s i = WGet \<Longrightarrow> pcs (tp_queue s) i = BqReturned task \<Longrightarrow> worker_step s (work_got i task s)"
| run: "workers s i = WRun f \<Longrightarrow> worker_step s (work_run i f s)"

inductive owner_move :: "thread_pool \<Rightarrow> thread_pool \<Rightarrow> bool" where
  start: "pool_at s = PoolNew \<or> pool_at s = PoolUp \<and> spawned s \<noteq> 0 \<Longrightarrow> owner_move s (ThreadPool_start s)"
| spawn: "pool_at s = PoolStarting i \<Longrightarrow> owner_move s (ThreadPool_spawn created i s)"
| destroy: "pool_at s = PoolNew \<or> pool_at s = PoolUp \<Longrightarrow> owner_move s (ThreadPool_destroy s)"
| stop_queue: "pool_at s = PoolStopping \<Longrightarrow> owner_move s (ThreadPool_stopQueue s)"
| join: "pool_at s = PoolJoining i \<Longrightarrow> i < spawned s \<longrightarrow> workers s i = WLeft \<or> workers s i = WNone \<Longrightarrow>
    owner_move s (ThreadPool_join i s)"

text \<open>Clients, and wake-ups without reason; other threads of the queue are not workers.\<close>

inductive client_step :: "thread_pool \<Rightarrow> thread_pool \<Rightarrow> bool" where
  call_add: "t \<ge> threadMaxSize s \<Longrightarrow> pcs (tp_queue s) t = BqIdle \<Longrightarrow>
    client_step s (on_queue (set_pc t (Adding f)) s)"
| add: "t \<ge> threadMaxSize s \<Longrightarrow> pcs (tp_queue s) t = Adding f \<Longrightarrow>
    client_step s (on_queue (BlockQueue_addTask t f) s)"
| spurious_add: "pcs (tp_queue s) t = AddAsleep f \<Longrightarrow> client_step s (on_queue (set_pc t (Adding f)) s)"
| spurious_get: "pcs (tp_queue s) t = GetAsleep \<Longrightarrow> client_step s (on_queue (set_pc t Getting) s)"

definition pool_step :: "thread_pool \<Rightarrow> thread_pool \<Rightarrow> bool" where
  "pool_step s s' \<longleftrightarrow> worker_step s s' \<or> owner_move s s' \<or> client_step s s'"

abbreviation pool_reachable :: "nat \<Rightarrow> 64 word \<Rightarrow> thread_pool \<Rightarrow> bool" where
  "pool_reachable n m \<equiv> pool_step\<^sup>*\<^sup>* (ThreadPool_new n m)"

section \<open>Invariant\<close>

text \<open>
  The queue is one that its own steps reach; a worker in \<open>getTask\<close> is the thread of the queue that is in
  \<open>getTask\<close>; the flag and the stop of the queue follow the owner.
\<close>

definition in_get :: "bq_pc \<Rightarrow> bool" where
  "in_get c \<longleftrightarrow> (case c of Getting \<Rightarrow> True | GetAsleep \<Rightarrow> True | BqReturned f \<Rightarrow> True | _ \<Rightarrow> False)"

definition place_ok :: "nat \<Rightarrow> tid \<Rightarrow> worker_pc \<Rightarrow> bq_pc \<Rightarrow> bool" where
  "place_ok n i w c \<longleftrightarrow> (w = WGet \<longleftrightarrow> in_get c) \<and> (w \<noteq> WNone \<longrightarrow> i < n) \<and>
    (i < n \<longrightarrow> c = BqIdle \<or> in_get c)"

definition owner_ok :: "thread_pool \<Rightarrow> bool" where
  "owner_ok s \<longleftrightarrow>
    (\<forall>i. pool_at s = PoolJoining i \<longrightarrow> stopped (tp_queue s) \<and> \<not> start_flag s) \<and>
    (pool_at s = PoolStopping \<longrightarrow> \<not> start_flag s) \<and>
    (pool_at s = PoolNew \<longrightarrow> (\<forall>j. workers s j = WNone)) \<and>
    (\<forall>i. pool_at s = PoolStarting i \<longrightarrow> (\<forall>j \<ge> i. workers s j = WNone))"

definition ThreadPool_inv :: "64 word \<Rightarrow> thread_pool \<Rightarrow> bool" where
  "ThreadPool_inv m s \<longleftrightarrow>
    bq_reachable m (tp_queue s) \<and> owner_ok s \<and>
    (\<forall>i. place_ok (threadMaxSize s) i (workers s i) (pcs (tp_queue s) i))"

lemma on_queue_fields [simp]:
  "tp_queue (on_queue f s) = f (tp_queue s)" "start_flag (on_queue f s) = start_flag s"
  "threadMaxSize (on_queue f s) = threadMaxSize s" "workers (on_queue f s) = workers s"
  "pool_at (on_queue f s) = pool_at s" "spawned (on_queue f s) = spawned s" "currentThreadNum (on_queue f s) = currentThreadNum s"
  "ran (on_queue f s) = ran s"
  by (simp_all add: on_queue_def)

lemma set_worker_fields [simp]:
  "tp_queue (set_worker i c s) = tp_queue s" "start_flag (set_worker i c s) = start_flag s"
  "threadMaxSize (set_worker i c s) = threadMaxSize s" "workers (set_worker i c s) = (workers s)(i := c)"
  "pool_at (set_worker i c s) = pool_at s" "spawned (set_worker i c s) = spawned s" "currentThreadNum (set_worker i c s) = currentThreadNum s"
  "ran (set_worker i c s) = ran s"
  by (simp_all add: set_worker_def)

lemma in_get_simps [simp]:
  "in_get Getting" "in_get GetAsleep" "in_get (BqReturned f)" "\<not> in_get BqIdle" "\<not> in_get (Adding f)"
  "\<not> in_get (AddAsleep f)"
  by (simp_all add: in_get_def)

lemma in_get_wake [simp]: "in_get (wake_empty c) = in_get c" "in_get (wake_full c) = in_get c"
  by (cases c, simp_all)+

lemma wake_idle [simp]: "wake_empty c = BqIdle \<longleftrightarrow> c = BqIdle" "wake_full c = BqIdle \<longleftrightarrow> c = BqIdle"
  by (cases c, simp_all)+

lemma bq_reaches: "bq_reachable m q \<Longrightarrow> bq_step q q' \<Longrightarrow> bq_reachable m q'"
  by (rule rtranclp.rtrancl_into_rtrancl)

text \<open>What the operations of the queue do to the places of the threads.\<close>

lemma getTask_pcs:
  "in_get (pcs (BlockQueue_getTask t q) u) \<longleftrightarrow> u = t \<or> in_get (pcs q u)"
  "u \<noteq> t \<Longrightarrow> pcs (BlockQueue_getTask t q) u = BqIdle \<longleftrightarrow> pcs q u = BqIdle"
  "stopped (BlockQueue_getTask t q) = stopped q"
  by (auto simp: bq_defs)

lemma addTask_pcs:
  "in_get (pcs (BlockQueue_addTask t f q) u) \<longleftrightarrow> u \<noteq> t \<and> in_get (pcs q u)"
  "u \<noteq> t \<Longrightarrow> pcs (BlockQueue_addTask t f q) u = BqIdle \<longleftrightarrow> pcs q u = BqIdle"
  "stopped (BlockQueue_addTask t f q) = stopped q"
  by (auto simp: bq_defs)

lemma stop_pcs:
  "in_get (pcs (BlockQueue_stop q) u) = in_get (pcs q u)" "pcs (BlockQueue_stop q) u = BqIdle \<longleftrightarrow> pcs q u = BqIdle"
  "stopped (BlockQueue_stop q)"
  by (simp_all add: bq_defs)

lemma set_pc_fields [simp]:
  "pcs (set_pc t c q) = (pcs q)(t := c)" "stopped (set_pc t c q) = stopped q" "taskQueue (set_pc t c q) = taskQueue q"
  by (simp_all add: set_pc_def)

lemma ThreadPool_new_inv: "ThreadPool_inv m (ThreadPool_new n m)"
  by (simp add: ThreadPool_inv_def ThreadPool_new_def BlockQueue_new_def place_ok_def owner_ok_def)

text \<open>A step that moves only thread \<open>i\<close>.\<close>

lemma moves_one_inv:
  assumes inv: "ThreadPool_inv m s" and q: "tp_queue s' = tp_queue s \<or> bq_step (tp_queue s) (tp_queue s')"
    and others: "\<forall>j. j \<noteq> i \<longrightarrow> workers s' j = workers s j \<and>
      in_get (pcs (tp_queue s') j) = in_get (pcs (tp_queue s) j) \<and>
      (pcs (tp_queue s') j = BqIdle \<longleftrightarrow> pcs (tp_queue s) j = BqIdle)"
    and own: "place_ok (threadMaxSize s) i (workers s' i) (pcs (tp_queue s') i)"
    and n: "threadMaxSize s' = threadMaxSize s" and owner: "owner_ok s'"
  shows "ThreadPool_inv m s'"
proof -
  have "place_ok (threadMaxSize s) j (workers s' j) (pcs (tp_queue s') j)" for j
  proof (cases "j = i")
    case False
    with inv others have "place_ok (threadMaxSize s) j (workers s j) (pcs (tp_queue s) j)"
      by (simp add: ThreadPool_inv_def)
    with False others show ?thesis by (simp add: place_ok_def)
  qed (use own in simp)
  moreover have "bq_reachable m (tp_queue s')" using inv q bq_reaches by (auto simp: ThreadPool_inv_def)
  ultimately show ?thesis using n owner by (simp add: ThreadPool_inv_def)
qed

lemma inv_place: "ThreadPool_inv m s \<Longrightarrow> place_ok (threadMaxSize s) i (workers s i) (pcs (tp_queue s) i)"
  by (simp add: ThreadPool_inv_def)

lemma owner_okI:
  assumes "owner_ok s" and "pool_at s' = pool_at s" and "start_flag s' = start_flag s"
    and "stopped (tp_queue s) \<longrightarrow> stopped (tp_queue s')"
    and "\<forall>j. workers s' j = WNone \<longleftrightarrow> workers s j = WNone"
  shows "owner_ok s'"
  using assms by (auto simp: owner_ok_def)

lemma inv_owner: "ThreadPool_inv m s \<Longrightarrow> owner_ok s"
  by (simp add: ThreadPool_inv_def)

lemma worker_step_inv:
  assumes "worker_step s s'" and inv: "ThreadPool_inv m s"
  shows "ThreadPool_inv m s'"
  using assms(1)
proof cases
  case (test i)
  have place: "i < threadMaxSize s" "pcs (tp_queue s) i = BqIdle"
    using inv_place [OF inv, of i] test(2) by (auto simp: place_ok_def)
  show ?thesis unfolding test(1)
    by (rule moves_one_inv [OF inv, where i = i])
      (use test(2) place bq_step.call_get [OF place(2)] owner_okI [OF inv_owner [OF inv]] in
        \<open>simp_all add: work_test_def place_ok_def\<close>)
next
  case (get i)
  have place: "i < threadMaxSize s" using inv_place [OF inv, of i] get(2) by (auto simp: place_ok_def)
  show ?thesis unfolding get(1)
    by (rule moves_one_inv [OF inv, where i = i])
      (use get(2) place bq_step.get [OF get(3)] owner_okI [OF inv_owner [OF inv]] in
        \<open>simp_all add: place_ok_def getTask_pcs\<close>)
next
  case (got i task)
  have place: "i < threadMaxSize s" using inv_place [OF inv, of i] got(2) by (auto simp: place_ok_def)
  show ?thesis unfolding got(1)
    by (rule moves_one_inv [OF inv, where i = i])
      (use got(2) place bq_step.returned [OF got(3)] owner_okI [OF inv_owner [OF inv]] in
        \<open>cases task; simp add: work_got_def place_ok_def\<close>)+
next
  case (run i f)
  have place: "i < threadMaxSize s" "pcs (tp_queue s) i = BqIdle"
    using inv_place [OF inv, of i] run(2) by (auto simp: place_ok_def)
  show ?thesis unfolding run(1)
    by (rule moves_one_inv [OF inv, where i = i])
      (use run(2) place owner_okI [OF inv_owner [OF inv]] in \<open>simp_all add: work_run_def place_ok_def\<close>)
qed

lemma client_step_inv:
  assumes "client_step s s'" and inv: "ThreadPool_inv m s"
  shows "ThreadPool_inv m s'"
  using assms(1)
proof cases
  case (call_add t f)
  have place: "workers s t = WNone" "\<not> t < threadMaxSize s"
    using inv_place [OF inv, of t] call_add(2) by (auto simp: place_ok_def)
  show ?thesis unfolding call_add(1)
    by (rule moves_one_inv [OF inv, where i = t])
      (use place bq_step.call_add [OF call_add(3), of f] owner_okI [OF inv_owner [OF inv]] in
        \<open>simp_all add: place_ok_def\<close>)
next
  case (add t f)
  have place: "workers s t = WNone" "\<not> t < threadMaxSize s"
    using inv_place [OF inv, of t] add(2) by (auto simp: place_ok_def)
  show ?thesis unfolding add(1)
    by (rule moves_one_inv [OF inv, where i = t])
      (use place bq_step.add [OF add(3)] owner_okI [OF inv_owner [OF inv]] in
        \<open>simp_all add: place_ok_def addTask_pcs\<close>)
next
  case (spurious_add t f)
  have place: "workers s t = WNone" "\<not> t < threadMaxSize s"
    using inv_place [OF inv, of t] spurious_add(2) by (auto simp: place_ok_def)
  show ?thesis unfolding spurious_add(1)
    by (rule moves_one_inv [OF inv, where i = t])
      (use place bq_step.spurious_add [OF spurious_add(2)] owner_okI [OF inv_owner [OF inv]] in
        \<open>simp_all add: place_ok_def\<close>)
next
  case (spurious_get t)
  have place: "workers s t = WGet" "t < threadMaxSize s"
    using inv_place [OF inv, of t] spurious_get(2) by (auto simp: place_ok_def)
  show ?thesis unfolding spurious_get(1)
    by (rule moves_one_inv [OF inv, where i = t])
      (use spurious_get(2) place bq_step.spurious_get [OF spurious_get(2)] owner_okI [OF inv_owner [OF inv]] in
        \<open>simp_all add: place_ok_def\<close>)
qed

lemma owner_move_inv:
  assumes "owner_move s s'" and inv: "ThreadPool_inv m s"
  shows "ThreadPool_inv m s'"
  using assms(1)
proof cases
  case start
  with inv show ?thesis by (auto simp: ThreadPool_inv_def ThreadPool_start_def owner_ok_def split: if_splits)
next
  case (spawn i created)
  show ?thesis
  proof (cases "i < threadMaxSize s \<and> created")
    case True
    show ?thesis unfolding spawn(1)
      by (rule moves_one_inv [OF inv, where i = i])
        (use True inv_place [OF inv, of i] inv_owner [OF inv] spawn(2) in
          \<open>auto simp: ThreadPool_spawn_def Let_def place_ok_def owner_ok_def\<close>)
  next
    case False
    with inv spawn(2) show ?thesis unfolding spawn(1) ThreadPool_spawn_def Let_def
      by (auto simp: ThreadPool_inv_def owner_ok_def)
  qed
next
  case destroy
  with inv show ?thesis by (auto simp: ThreadPool_inv_def ThreadPool_destroy_def owner_ok_def)
next
  case stop_queue
  with inv bq_reaches [OF _ bq_step.stop, of m "tp_queue s"] show ?thesis
    by (auto simp: ThreadPool_inv_def ThreadPool_stopQueue_def owner_ok_def place_ok_def stop_pcs)
next
  case (join i)
  with inv show ?thesis by (auto simp: ThreadPool_inv_def ThreadPool_join_def owner_ok_def)
qed

lemma pool_reachable_inv: "pool_reachable n m s \<Longrightarrow> ThreadPool_inv m s"
  by (induction rule: rtranclp_induct)
    (auto simp: ThreadPool_new_inv pool_step_def dest: worker_step_inv client_step_inv owner_move_inv)

section \<open>The end of the workers\<close>

text \<open>What a worker of a stopped pool does until it has left.\<close>

definition only_leaves :: "tid \<Rightarrow> thread_pool \<Rightarrow> thread_pool \<Rightarrow> bool" where
  "only_leaves i s s' \<longleftrightarrow>
    workers s' = (workers s)(i := WLeft) \<and> pool_at s' = pool_at s \<and> spawned s' = spawned s \<and>
    start_flag s' = start_flag s \<and> stopped (tp_queue s') = stopped (tp_queue s)"

lemma leaves_from_test:
  assumes "workers s i = WTest" and "\<not> start_flag s"
  shows "\<exists>s'. worker_step\<^sup>*\<^sup>* s s' \<and> only_leaves i s s'"
  using worker_step.test [OF assms(1)] assms(2)
  by (intro exI [of _ "work_test i s"]) (auto simp: work_test_def only_leaves_def)

lemma leaves_via:
  assumes "worker_step s t" and "\<exists>s'. worker_step\<^sup>*\<^sup>* t s' \<and> only_leaves i t s'"
    and "workers t = (workers s)(i := c)" "pool_at t = pool_at s" "spawned t = spawned s"
    "start_flag t = start_flag s" "stopped (tp_queue t) = stopped (tp_queue s)"
  shows "\<exists>s'. worker_step\<^sup>*\<^sup>* s s' \<and> only_leaves i s s'"
proof -
  from assms(2) obtain s' where "worker_step\<^sup>*\<^sup>* t s'" "only_leaves i t s'" by blast
  with assms show ?thesis
    by (intro exI [of _ s']) (auto simp: only_leaves_def intro: converse_rtranclp_into_rtranclp)
qed

lemma leaves_from_run:
  assumes "workers s i = WRun f" and "\<not> start_flag s"
  shows "\<exists>s'. worker_step\<^sup>*\<^sup>* s s' \<and> only_leaves i s s'"
proof (rule leaves_via [OF worker_step.run [OF assms(1)]])
  show "\<exists>s'. worker_step\<^sup>*\<^sup>* (work_run i f s) s' \<and> only_leaves i (work_run i f s) s'"
    by (rule leaves_from_test) (simp_all add: work_run_def assms(2))
qed (simp_all add: work_run_def)

lemma leaves_from_got:
  assumes "workers s i = WGet" and "pcs (tp_queue s) i = BqReturned f" and "\<not> start_flag s"
  shows "\<exists>s'. worker_step\<^sup>*\<^sup>* s s' \<and> only_leaves i s s'"
proof (cases f)
  case None
  with worker_step.got [OF assms(1,2)] show ?thesis
    by (intro exI [of _ "work_got i f s"]) (auto simp: work_got_def only_leaves_def)
next
  case (Some k)
  show ?thesis
  proof (rule leaves_via [OF worker_step.got [OF assms(1,2)]])
    show "\<exists>s'. worker_step\<^sup>*\<^sup>* (work_got i f s) s' \<and> only_leaves i (work_got i f s) s'"
      by (rule leaves_from_run) (simp_all add: work_got_def Some assms(3))
  qed (simp_all add: work_got_def Some)
qed

lemma worker_leaves:
  assumes inv: "ThreadPool_inv m s" and stopped: "stopped (tp_queue s)" and flag: "\<not> start_flag s"
    and i: "workers s i \<noteq> WNone"
  shows "\<exists>s'. worker_step\<^sup>*\<^sup>* s s' \<and> only_leaves i s s'"
proof (cases "workers s i")
  case WGet
  have reach: "bq_reachable m (tp_queue s)" using inv by (simp add: ThreadPool_inv_def)
  have "in_get (pcs (tp_queue s) i)" using inv_place [OF inv, of i] WGet by (simp add: place_ok_def)
  moreover have "pcs (tp_queue s) i \<noteq> GetAsleep"
    using getters.no_lost_wakeup [OF reach no_sleepers(1), of i] stopped
    by (auto simp: get_sleepers_def get_waits_def)
  ultimately consider "pcs (tp_queue s) i = Getting" | f where "pcs (tp_queue s) i = BqReturned f"
    by (cases "pcs (tp_queue s) i") simp_all
  then show ?thesis
  proof cases
    case 1
    let ?t = "on_queue (BlockQueue_getTask i) s"
    show ?thesis
    proof (rule leaves_via [OF worker_step.get [OF WGet 1], where c = WGet])
      obtain f where "pcs (tp_queue ?t) i = BqReturned f" using stopped
        by (cases "taskQueue (tp_queue s) = []") (auto simp: bq_defs)
      then show "\<exists>s'. worker_step\<^sup>*\<^sup>* ?t s' \<and> only_leaves i ?t s'"
        by (intro leaves_from_got) (simp_all add: WGet flag)
    qed (use fun_upd_idem [of "workers s" i WGet] WGet in \<open>simp_all add: getTask_pcs\<close>)
  next
    case (2 f)
    from leaves_from_got [OF WGet this flag] show ?thesis .
  qed
next
  case WTest
  then show ?thesis using flag by (rule leaves_from_test)
next
  case (WRun f)
  then show ?thesis using flag by (rule leaves_from_run)
next
  case WLeft
  then show ?thesis by (intro exI [of _ s]) (auto simp: only_leaves_def)
qed (use i in simp)

definition pool_own :: "thread_pool \<Rightarrow> thread_pool \<Rightarrow> bool" where
  "pool_own s s' \<longleftrightarrow> worker_step s s' \<or> owner_move s s'"

lemma workers_own: "worker_step\<^sup>*\<^sup>* s s' \<Longrightarrow> pool_own\<^sup>*\<^sup>* s s'"
  by (rule rtranclp_mono [THEN predicate2D, rotated]) (auto simp: pool_own_def)

lemma workers_inv: "worker_step\<^sup>*\<^sup>* s s' \<Longrightarrow> ThreadPool_inv m s \<Longrightarrow> ThreadPool_inv m s'"
  by (induction rule: rtranclp_induct) (auto dest: worker_step_inv)

lemma own_first: "owner_move s t \<Longrightarrow> pool_own\<^sup>*\<^sup>* t u \<Longrightarrow> pool_own\<^sup>*\<^sup>* s u"
  by (auto simp: pool_own_def intro: converse_rtranclp_into_rtranclp)

lemma joins_complete:
  assumes "ThreadPool_inv m s" and "pool_at s = PoolJoining i" and "i + k = spawned s"
    and "\<forall>j < spawned s. workers s j \<noteq> WNone" and "\<forall>j < i. workers s j = WLeft"
  shows "\<exists>s'. pool_own\<^sup>*\<^sup>* s s' \<and> pool_at s' = PoolGone \<and> (\<forall>j < spawned s. workers s' j = WLeft)"
  using assms
proof (induction k arbitrary: s i)
  case 0
  have "owner_move s (ThreadPool_join i s)" using 0 by (intro owner_move.join) simp_all
  from own_first [OF this rtranclp.rtrancl_refl] 0 show ?case
    by (intro exI [of _ "ThreadPool_join i s"]) (simp add: ThreadPool_join_def)
next
  case (Suc k)
  have flags: "stopped (tp_queue s)" "\<not> start_flag s"
    using inv_owner [OF Suc.prems(1)] Suc.prems(2) by (auto simp: owner_ok_def)
  have "workers s i \<noteq> WNone" using Suc.prems(3,4) by simp
  from worker_leaves [OF Suc.prems(1) flags this] obtain t where
    t: "worker_step\<^sup>*\<^sup>* s t" "workers t = (workers s)(i := WLeft)" "pool_at t = pool_at s" "spawned t = spawned s"
    by (auto simp: only_leaves_def)
  let ?u = "ThreadPool_join i t"
  have join: "owner_move t ?u" using t Suc.prems(2) by (intro owner_move.join) simp_all
  have u: "?u = t\<lparr>pool_at := PoolJoining (Suc i)\<rparr>"
    using t Suc.prems(3) by (simp add: ThreadPool_join_def)
  have "\<exists>s'. pool_own\<^sup>*\<^sup>* ?u s' \<and> pool_at s' = PoolGone \<and> (\<forall>j < spawned ?u. workers s' j = WLeft)"
  proof (rule Suc.IH)
    show "ThreadPool_inv m ?u" using owner_move_inv [OF join workers_inv [OF t(1) Suc.prems(1)]] .
    show "pool_at ?u = PoolJoining (Suc i)" by (simp add: u)
    show "Suc i + k = spawned ?u" using Suc.prems(3) t(4) by (simp add: u)
    show "\<forall>j < spawned ?u. workers ?u j \<noteq> WNone" using Suc.prems(4) t by (simp add: u)
    show "\<forall>j < Suc i. workers ?u j = WLeft" using Suc.prems(5) t by (auto simp: u less_Suc_eq)
  qed
  then obtain s' where "pool_own\<^sup>*\<^sup>* ?u s'" "pool_at s' = PoolGone" "\<forall>j < spawned s. workers s' j = WLeft"
    using t(4) by (auto simp: u)
  with own_first [OF join] workers_own [OF t(1)] show ?case by (meson rtranclp_trans)
qed

section \<open>Properties\<close>


definition demo_pool :: thread_pool where
  "demo_pool = ThreadPool_destroy (ThreadPool_spawn True 1 (ThreadPool_spawn True 0 (ThreadPool_start (ThreadPool_new 1 100))))"

lemma demo_pool_reachable: "pool_reachable 1 100 demo_pool"
proof -
  let ?s0 = "ThreadPool_new 1 100" let ?s1 = "ThreadPool_start ?s0"
  let ?s2 = "ThreadPool_spawn True 0 ?s1" let ?s3 = "ThreadPool_spawn True 1 ?s2"
  note defs = ThreadPool_new_def ThreadPool_start_def ThreadPool_spawn_def
  have "owner_move ?s0 ?s1" by (rule owner_move.start) (simp add: defs)
  moreover have "owner_move ?s1 ?s2" by (rule owner_move.spawn) (simp add: defs)
  moreover have "owner_move ?s2 ?s3" by (rule owner_move.spawn) (simp add: defs)
  moreover have "owner_move ?s3 demo_pool" unfolding demo_pool_def by (rule owner_move.destroy) (simp add: defs)
  ultimately show ?thesis
    by (meson pool_step_def rtranclp.rtrancl_into_rtrancl rtranclp.rtrancl_refl)
qed


text \<open>
  An empty function ends the worker that takes it, although the pool is running; when it was the last one,
  the pool still accepts tasks but never runs one again.
\<close>

theorem null_task_ends_pool:
  assumes "workers s i = WGet" and "pcs (tp_queue s) i = BqReturned None" and "pool_at s = PoolUp"
    and "\<forall>j. j \<noteq> i \<longrightarrow> workers s j = WLeft \<or> workers s j = WNone"
    and "pool_step\<^sup>*\<^sup>* (work_got i None s) s'"
  shows "worker_step s (work_got i None s) \<and> ran s' = ran s \<and> (\<forall>j. workers s' j = WLeft \<or> workers s' j = WNone)"
proof -
  let ?P = "\<lambda>t. ran t = ran s \<and> (\<forall>j. workers t j = WLeft \<or> workers t j = WNone) \<and>
    pool_at t \<noteq> PoolNew \<and> (\<forall>k. pool_at t \<noteq> PoolStarting k)"
  have step: "?P t'" if "?P t" "pool_step t t'" for t t'
    using that(2) unfolding pool_step_def
  proof (elim disjE)
    assume "worker_step t t'"
    then show ?thesis using that(1) by cases (metis worker_pc.distinct)+
  next
    assume "owner_move t t'"
    then show ?thesis using that(1)
      by cases (auto simp: ThreadPool_start_def ThreadPool_destroy_def ThreadPool_stopQueue_def ThreadPool_join_def)
  next
    assume "client_step t t'"
    then show ?thesis using that(1) by cases auto
  qed
  have "?P (work_got i None s)" using assms(3,4) by (auto simp: work_got_def)
  with assms(5) have "?P s'" by (induction rule: rtranclp_induct) (simp, metis step)
  with worker_step.got [OF assms(1,2)] show ?thesis by simp
qed

theorem null_task_ends_pool_witness:
  "\<exists>s. workers s 0 = WGet \<and> pool_at s = PoolUp \<and> taskQueue (tp_queue s) = [Some 5] \<and>
    (\<forall>s'. pool_step\<^sup>*\<^sup>* (work_got 0 None s) s' \<longrightarrow> ran s' = [])"
proof -
  let ?q = "(set_pc 0 (BqReturned None) (BlockQueue_new 100))\<lparr>taskQueue := [Some 5]\<rparr>"
  let ?s = "set_worker 0 WGet ((ThreadPool_new 1 100)\<lparr>tp_queue := ?q, pool_at := PoolUp, start_flag := True\<rparr>)"
  have s: "workers ?s 0 = WGet" "pcs (tp_queue ?s) 0 = BqReturned None" "pool_at ?s = PoolUp" "ran ?s = []"
    "taskQueue (tp_queue ?s) = [Some 5]" "\<forall>j. j \<noteq> 0 \<longrightarrow> workers ?s j = WLeft \<or> workers ?s j = WNone"
    by (simp_all add: ThreadPool_new_def)
  from null_task_ends_pool [OF s(1-3,6)] s(4) have "\<forall>s'. pool_step\<^sup>*\<^sup>* (work_got 0 None ?s) s' \<longrightarrow> ran s' = []"
    by simp
  with s(1,3,5) show ?thesis by blast
qed

end
