(* ===== verification/Threads.thy ===== *)
theory Threads
  imports Monitor
begin

text \<open>
  The count-down latch (\<open>base/CountDownLatch.h\<close>, \<open>base/CountDownLatch.cc\<close>) and the thread class
  (\<open>base/Thread.h\<close>, \<open>base/Thread.cc\<close>), whose \<open>start\<close> waits on a latch until the new thread has stored its
  id. \<open>created\<close> is whether \<open>pthread_create\<close> succeeds, \<open>id\<close> is what \<open>gettid\<close> returns in the new thread.
\<close>

section \<open>The latch\<close>

datatype latch_pc = LIdle | LWaiting | LAsleep | LReturned

record latch =
  lcount :: int
  lpcs :: "nat \<Rightarrow> latch_pc"

definition CountDownLatch_new :: "int \<Rightarrow> latch" where
  "CountDownLatch_new n = \<lparr>lcount = n, lpcs = (\<lambda>_. LIdle)\<rparr>"

definition set_lpc :: "nat \<Rightarrow> latch_pc \<Rightarrow> latch \<Rightarrow> latch" where
  "set_lpc t c l = l\<lparr>lpcs := (lpcs l)(t := c)\<rparr>"

fun wake_waiter :: "latch_pc \<Rightarrow> latch_pc" where
  "wake_waiter LAsleep = LWaiting"
| "wake_waiter c = c"

text \<open>One attempt of \<open>wait\<close> under the mutex.\<close>

definition CountDownLatch_wait :: "nat \<Rightarrow> latch \<Rightarrow> latch" where
  "CountDownLatch_wait t l = set_lpc t (if lcount l > 0 then LAsleep else LReturned) l"

definition CountDownLatch_countDown :: "latch \<Rightarrow> latch" where
  "CountDownLatch_countDown l =
    (let l = l\<lparr>lcount := lcount l - 1\<rparr>
     in if lcount l = 0 then l\<lparr>lpcs := wake_waiter \<circ> lpcs l\<rparr> else l)"

definition CountDownLatch_getCount :: "latch \<Rightarrow> int" where
  "CountDownLatch_getCount l = lcount l"

inductive latch_step :: "latch \<Rightarrow> latch \<Rightarrow> bool" where
  call_wait: "lpcs l t = LIdle \<Longrightarrow> latch_step l (set_lpc t LWaiting l)"
| wait: "lpcs l t = LWaiting \<Longrightarrow> latch_step l (CountDownLatch_wait t l)"
| spurious: "lpcs l t = LAsleep \<Longrightarrow> latch_step l (set_lpc t LWaiting l)"
| count_down: "latch_step l (CountDownLatch_countDown l)"

definition latch_sleepers :: "latch \<Rightarrow> nat set" where
  "latch_sleepers l = {t. lpcs l t = LAsleep}"

lemma wake_waiter_awake [simp]: "wake_waiter c \<noteq> LAsleep" "wake_waiter c = LReturned \<longleftrightarrow> c = LReturned"
  by (cases c, simp_all)+

lemmas latch_defs =
  set_lpc_def CountDownLatch_wait_def CountDownLatch_countDown_def CountDownLatch_new_def Let_def

interpretation waiters: monitor latch_step latch_sleepers "\<lambda>l. lcount l > 0"
proof
  fix l l' t
  show "latch_step l l' \<Longrightarrow> t \<in> latch_sleepers l' \<Longrightarrow> t \<notin> latch_sleepers l \<Longrightarrow> lcount l' > 0"
    by (induction rule: latch_step.induct) (auto simp: latch_sleepers_def latch_defs split: if_splits)
  show "latch_step l l' \<Longrightarrow> t \<in> latch_sleepers l' \<Longrightarrow> t \<in> latch_sleepers l \<Longrightarrow> lcount l > 0 \<Longrightarrow> lcount l' > 0"
    by (induction rule: latch_step.induct) (auto simp: latch_sleepers_def latch_defs split: if_splits)
qed

lemma latch_returned:
  assumes "latch_step\<^sup>*\<^sup>* (CountDownLatch_new n) l" and "lpcs l t = LReturned"
  shows "lcount l \<le> 0"
  using assms
proof (induction arbitrary: t rule: rtranclp_induct)
  case base
  then show ?case by (simp add: CountDownLatch_new_def)
next
  case (step l l')
  from step.hyps(2) show ?case
    using step.IH [of t] step.prems by cases (auto simp: latch_defs split: if_splits)
qed

section \<open>Threads\<close>

datatype new_thread =
  NotCreated
| Created nat          \<comment> \<open>about to store this id\<close>
| StoredTid            \<comment> \<open>about to count down\<close>
| InFunction           \<comment> \<open>in \<open>threadFunc_\<close>\<close>
| Ended

datatype thread_owner = OwnerIdle | OwnerWaits | OwnerJoins | OwnerGone | OwnerFailed fault

record thread_obj =
  th_started :: bool
  th_joined :: bool
  th_detached :: bool
  th_tid :: nat
  th_latch :: latch
  th_new :: new_thread
  th_owner :: thread_owner

definition Thread_new :: "nat \<Rightarrow> thread_obj" where
  "Thread_new cacheTid =
    \<lparr>th_started = False, th_joined = False, th_detached = False, th_tid = cacheTid, th_latch = CountDownLatch_new 1,
     th_new = NotCreated, th_owner = OwnerIdle\<rparr>"

text \<open>\<open>start\<close>: up to the latch, one attempt of its \<open>wait\<close> (the owner is thread 0 of the latch), and after it.\<close>

definition Thread_start :: "bool \<Rightarrow> nat \<Rightarrow> thread_obj \<Rightarrow> thread_obj" where
  "Thread_start created tid s =
    (if th_started s then s\<lparr>th_owner := OwnerFailed AssertFailed\<rparr>
     else if created then
       s\<lparr>th_started := True, th_new := Created tid, th_owner := OwnerWaits, th_latch := set_lpc 0 LWaiting (th_latch s)\<rparr>
     else s\<lparr>th_started := False\<rparr>)"

definition Thread_latchWait :: "thread_obj \<Rightarrow> thread_obj" where
  "Thread_latchWait s = s\<lparr>th_latch := CountDownLatch_wait 0 (th_latch s)\<rparr>"

definition Thread_started :: "thread_obj \<Rightarrow> thread_obj" where
  "Thread_started s = s\<lparr>th_owner := (if th_tid s > 0 then OwnerIdle else OwnerFailed AssertFailed)\<rparr>"

definition Thread_join :: "thread_obj \<Rightarrow> thread_obj" where
  "Thread_join s =
    (if \<not> th_started s \<or> th_joined s then s\<lparr>th_owner := OwnerFailed AssertFailed\<rparr>
     else s\<lparr>th_joined := True, th_owner := OwnerJoins\<rparr>)"

definition Thread_destroy :: "thread_obj \<Rightarrow> thread_obj" where
  "Thread_destroy s = s\<lparr>th_detached := (th_started s \<and> \<not> th_joined s), th_owner := OwnerGone\<rparr>"

definition runInThread_store :: "nat \<Rightarrow> thread_obj \<Rightarrow> thread_obj" where
  "runInThread_store tid s = s\<lparr>th_tid := tid, th_new := StoredTid\<rparr>"

definition runInThread_countDown :: "thread_obj \<Rightarrow> thread_obj" where
  "runInThread_countDown s = s\<lparr>th_latch := CountDownLatch_countDown (th_latch s), th_new := InFunction\<rparr>"

inductive thread_run :: "thread_obj \<Rightarrow> thread_obj \<Rightarrow> bool" where
  start: "th_owner s = OwnerIdle \<Longrightarrow> tid > 0 \<Longrightarrow> thread_run s (Thread_start created tid s)"
| latch: "th_owner s = OwnerWaits \<Longrightarrow> lpcs (th_latch s) 0 = LWaiting \<Longrightarrow> thread_run s (Thread_latchWait s)"
| spurious: "th_owner s = OwnerWaits \<Longrightarrow> lpcs (th_latch s) 0 = LAsleep \<Longrightarrow>
    thread_run s (s\<lparr>th_latch := set_lpc 0 LWaiting (th_latch s)\<rparr>)"
| started: "th_owner s = OwnerWaits \<Longrightarrow> lpcs (th_latch s) 0 = LReturned \<Longrightarrow> thread_run s (Thread_started s)"
| join: "th_owner s = OwnerIdle \<Longrightarrow> thread_run s (Thread_join s)"
| joined: "th_owner s = OwnerJoins \<Longrightarrow> th_new s = Ended \<Longrightarrow> thread_run s (s\<lparr>th_owner := OwnerIdle\<rparr>)"
| destroy: "th_owner s = OwnerIdle \<Longrightarrow> thread_run s (Thread_destroy s)"
| store: "th_new s = Created tid \<Longrightarrow> thread_run s (runInThread_store tid s)"
| count: "th_new s = StoredTid \<Longrightarrow> thread_run s (runInThread_countDown s)"
| ends: "th_new s = InFunction \<Longrightarrow> thread_run s (s\<lparr>th_new := Ended\<rparr>)"

text \<open>
  The count is 1 until the new thread has counted down; before that its id is stored, and the owner, if it
  is asleep, is asleep on a latch that is still closed.
\<close>

definition Thread_inv :: "thread_obj \<Rightarrow> bool" where
  "Thread_inv s \<longleftrightarrow>
    (th_started s \<longleftrightarrow> th_new s \<noteq> NotCreated) \<and>
    lcount (th_latch s) = (if th_new s = InFunction \<or> th_new s = Ended then 0 else 1) \<and>
    (\<forall>tid. th_new s = Created tid \<longrightarrow> tid > 0) \<and>
    (th_new s = StoredTid \<or> th_new s = InFunction \<or> th_new s = Ended \<longrightarrow> th_tid s > 0) \<and>
    (th_owner s = OwnerWaits \<longrightarrow> th_started s \<and> lpcs (th_latch s) 0 \<noteq> LIdle) \<and>
    (lpcs (th_latch s) 0 = LAsleep \<longrightarrow> lcount (th_latch s) > 0) \<and>
    (lpcs (th_latch s) 0 = LReturned \<longrightarrow> lcount (th_latch s) = 0) \<and>
    (th_started s \<longrightarrow> th_owner s = OwnerWaits \<or> lpcs (th_latch s) 0 = LReturned)"

lemma Thread_new_inv: "Thread_inv (Thread_new c)"
  by (simp add: Thread_inv_def Thread_new_def CountDownLatch_new_def)

lemma wake_waiter_idle [simp]: "wake_waiter c = LIdle \<longleftrightarrow> c = LIdle"
  by (cases c) simp_all

lemma thread_run_inv: "thread_run s s' \<Longrightarrow> Thread_inv s \<Longrightarrow> Thread_inv s'"
proof (induction rule: thread_run.induct)
  case (start s tid created)
  then show ?case by (cases "th_started s"; cases created) (auto simp: Thread_inv_def Thread_start_def set_lpc_def)
next
  case (count s)
  then show ?case
    by (cases "lpcs (th_latch s) 0") (auto simp: Thread_inv_def runInThread_countDown_def latch_defs)
qed (auto simp: Thread_inv_def Thread_latchWait_def Thread_started_def Thread_join_def Thread_destroy_def
    runInThread_store_def latch_defs split: if_splits)

lemma thread_reachable_inv: "thread_run\<^sup>*\<^sup>* (Thread_new c) s \<Longrightarrow> Thread_inv s"
  by (induction rule: rtranclp_induct) (simp add: Thread_new_inv, rule thread_run_inv)

section \<open>Properties\<close>

text \<open>
  A thread that \<open>start\<close> created has its id: when the latch lets the owner go, the new thread has stored its
  id, so the assertion after the wait holds; and an owner that is asleep will be woken, because the new
  thread has not counted down yet. A latch lets nobody pass while its count is positive.
\<close>

theorem thread_start_has_tid:
  assumes "thread_run\<^sup>*\<^sup>* (Thread_new c) s" and "th_owner s = OwnerWaits"
  shows "(lpcs (th_latch s) 0 = LReturned \<longrightarrow> th_owner (Thread_started s) = OwnerIdle \<and> th_tid s > 0) \<and>
    (lpcs (th_latch s) 0 = LAsleep \<longrightarrow> (\<exists>tid. th_new s = Created tid) \<or> th_new s = StoredTid)"
proof -
  note inv = thread_reachable_inv [OF assms(1), unfolded Thread_inv_def]
  show ?thesis
  proof (cases "th_new s")
    case NotCreated
    with inv assms(2) show ?thesis by auto
  qed (use inv in \<open>auto simp: Thread_started_def\<close>)
qed

theorem thread_start_has_tid_witness:
  "\<exists>s. thread_run (Thread_new 0) s \<and> th_owner s = OwnerWaits \<and> lpcs (th_latch s) 0 \<noteq> LReturned"
proof -
  let ?s = "Thread_start True 42 (Thread_new 0)"
  have run: "thread_run (Thread_new 0) ?s" by (rule thread_run.start) (simp_all add: Thread_new_def)
  have owner: "th_owner ?s = OwnerWaits" "th_tid ?s = 0" by (simp_all add: Thread_start_def Thread_new_def)
  have "thread_run\<^sup>*\<^sup>* (Thread_new 0) ?s" using run by blast
  from thread_start_has_tid [OF this owner(1)] owner run show ?thesis by auto
qed

end
