(* ===== verification/AsyncLogger.thy ===== *)
theory AsyncLogger
  imports Buffer
begin

text \<open>
  The asynchronous logger (\<open>net/Log/AsyncLogger.h\<close>, \<open>net/Log/AsyncLogger.cc\<close>): the front end that appends to
  buffers, the back-end thread that swaps them out and writes them, and the files it writes to.
  \<open>append\<close> and \<open>stop\<close> do not take the mutex, so between the back end's test of its condition and its going
  to sleep (\<open>LogDozing\<close>) they can run, and their notification wakes nobody. A single \<open>append\<close> is one step:
  the callers are taken to exclude each other and the swap, which the code does not make them do.
  \<open>appended\<close> and \<open>written\<close> record, for the statements only, the bytes appended so far and those passed to
  \<open>write\<close>.
\<close>

section \<open>State\<close>

datatype log_pc =
  LogNone
| LogLoop                      \<comment> \<open>about to test \<open>running_\<close>\<close>
| LogPred                      \<comment> \<open>holds the mutex, about to test the condition of the wait\<close>
| LogDozing                    \<comment> \<open>the condition was false, about to sleep\<close>
| LogAsleep
| LogSwap                      \<comment> \<open>holds the mutex, the condition was true\<close>
| LogWriting
| LogRecycle
| LogDone

datatype stop_pc = NotStopping | StopJoining | StopReturned

record async_logger =
  currentBuffer :: "buffer option"
  nextBuffer :: "buffer option"
  buffers :: "buffer list"
  running :: bool
  log_pc :: log_pc
  stop_pc :: stop_pc
  buffA :: "buffer option"
  buffB :: "buffer option"
  buffersToWrite :: "buffer list"
  appended :: string
  written :: string

definition AsyncLogger_new :: async_logger where
  "AsyncLogger_new =
    \<lparr>currentBuffer = Some Buffer_new, nextBuffer = Some Buffer_new, buffers = [], running = False,
     log_pc = LogNone, stop_pc = NotStopping, buffA = None, buffB = None, buffersToWrite = [],
     appended = [], written = []\<rparr>"

section \<open>The front end\<close>

definition log_notify :: "async_logger \<Rightarrow> async_logger" where
  "log_notify s = (if log_pc s = LogAsleep then s\<lparr>log_pc := LogPred\<rparr> else s)"

definition append_current :: "string \<Rightarrow> async_logger \<Rightarrow> async_logger res" where
  "append_current data s =
    (case currentBuffer s of
       None \<Rightarrow> Inl UseAfterFree
     | Some b \<Rightarrow> rbind (Buffer_append data b) (\<lambda>b.
         Inr (s\<lparr>currentBuffer := Some b, appended := appended s @ data\<rparr>)))"

definition AsyncLogger_append :: "string \<Rightarrow> async_logger \<Rightarrow> async_logger res" where
  "AsyncLogger_append data s =
    (case currentBuffer s of
       None \<Rightarrow> Inl UseAfterFree
     | Some b \<Rightarrow>
         if Buffer_writeableBytes b > length data then append_current data s
         else
           (let s = s\<lparr>buffers := buffers s @ [b]\<rparr>;
                s = (case nextBuffer s of
                       Some n \<Rightarrow> s\<lparr>currentBuffer := Some n, nextBuffer := None\<rparr>
                     | None \<Rightarrow> s\<lparr>currentBuffer := Some Buffer_new\<rparr>)
            in rbind (append_current data s) (\<lambda>s. Inr (log_notify s))))"

definition AsyncLogger_start :: "async_logger \<Rightarrow> async_logger" where
  "AsyncLogger_start s =
    (if running s then s
     else s\<lparr>running := True, log_pc := LogLoop, stop_pc := NotStopping,
            buffA := Some Buffer_new, buffB := Some Buffer_new, buffersToWrite := []\<rparr>)"

text \<open>\<open>stop\<close> up to the join.\<close>

definition AsyncLogger_stop :: "async_logger \<Rightarrow> async_logger" where
  "AsyncLogger_stop s = (if \<not> running s then s else log_notify (s\<lparr>running := False, stop_pc := StopJoining\<rparr>))"

section \<open>The back end\<close>

definition threadFunc_loop :: "async_logger \<Rightarrow> async_logger" where
  "threadFunc_loop s = s\<lparr>log_pc := (if running s then LogPred else LogDone)\<rparr>"

definition threadFunc_wait :: "async_logger \<Rightarrow> async_logger" where
  "threadFunc_wait s = s\<lparr>log_pc := (if \<not> running s \<or> buffers s \<noteq> [] then LogSwap else LogDozing)\<rparr>"

definition threadFunc_swap :: "async_logger \<Rightarrow> async_logger res" where
  "threadFunc_swap s =
    (case currentBuffer s of
       None \<Rightarrow> Inl UseAfterFree
     | Some b \<Rightarrow>
         if buffers s \<noteq> [] \<or> Buffer_readableBytes b > 0 then
           (let s = s\<lparr>buffers := buffers s @ [b]\<rparr>;
                s = s\<lparr>currentBuffer := buffA s, buffA := None\<rparr>;
                s = s\<lparr>buffersToWrite := buffers s, buffers := buffersToWrite s\<rparr>;
                s = (if nextBuffer s = None then s\<lparr>nextBuffer := buffB s, buffB := None\<rparr> else s)
            in Inr (s\<lparr>log_pc := LogWriting\<rparr>))
         else if \<not> running s then Inr (s\<lparr>log_pc := LogDone\<rparr>)
         else Inr (s\<lparr>log_pc := LogWriting\<rparr>))"

definition threadFunc_write :: "async_logger \<Rightarrow> async_logger" where
  "threadFunc_write s =
    s\<lparr>written := written s @ concat (map (\<lambda>b. Buffer_bytes (Buffer_readableBytes b) b) (buffersToWrite s)),
      buffersToWrite := map Buffer_retrieveAll (buffersToWrite s), log_pc := LogRecycle\<rparr>"

text \<open>\<open>back()\<close> of an empty vector is undefined.\<close>

definition threadFunc_recycle :: "async_logger \<Rightarrow> async_logger res" where
  "threadFunc_recycle s =
    rbind
      (if buffA s = None then
         (if buffersToWrite s = [] then Inl UseAfterFree
          else Inr (s\<lparr>buffA := Some (last (buffersToWrite s)), buffersToWrite := butlast (buffersToWrite s)\<rparr>))
       else Inr s)
      (\<lambda>s. Inr
        ((if buffB s = None \<and> buffersToWrite s \<noteq> [] then
            s\<lparr>buffB := Some (last (buffersToWrite s)), buffersToWrite := butlast (buffersToWrite s)\<rparr>
          else s)\<lparr>log_pc := LogLoop\<rparr>))"

inductive backend_step :: "async_logger \<Rightarrow> async_logger \<Rightarrow> bool" where
  test: "log_pc s = LogLoop \<Longrightarrow> backend_step s (threadFunc_loop s)"
| wait: "log_pc s = LogPred \<Longrightarrow> backend_step s (threadFunc_wait s)"
| sleep: "log_pc s = LogDozing \<Longrightarrow> backend_step s (s\<lparr>log_pc := LogAsleep\<rparr>)"
| swap: "log_pc s = LogSwap \<Longrightarrow> threadFunc_swap s = Inr s' \<Longrightarrow> backend_step s s'"
| write_out: "log_pc s = LogWriting \<Longrightarrow> backend_step s (threadFunc_write s)"
| recycle: "log_pc s = LogRecycle \<Longrightarrow> threadFunc_recycle s = Inr s' \<Longrightarrow> backend_step s s'"
| joined: "log_pc s = LogDone \<Longrightarrow> stop_pc s = StopJoining \<Longrightarrow> backend_step s (s\<lparr>stop_pc := StopReturned\<rparr>)"

inductive frontend_step :: "async_logger \<Rightarrow> async_logger \<Rightarrow> bool" where
  append: "AsyncLogger_append data s = Inr s' \<Longrightarrow> frontend_step s s'"
| start: "log_pc s = LogNone \<or> log_pc s = LogDone \<and> stop_pc s = StopReturned \<Longrightarrow>
    frontend_step s (AsyncLogger_start s)"
| stop: "log_pc s \<noteq> LogNone \<Longrightarrow> frontend_step s (AsyncLogger_stop s)"
| spurious: "log_pc s = LogAsleep \<Longrightarrow> frontend_step s (s\<lparr>log_pc := LogPred\<rparr>)"

definition log_step :: "async_logger \<Rightarrow> async_logger \<Rightarrow> bool" where
  "log_step s s' \<longleftrightarrow> backend_step s s' \<or> frontend_step s s'"

abbreviation log_reachable :: "async_logger \<Rightarrow> bool" where
  "log_reachable \<equiv> log_step\<^sup>*\<^sup>* AsyncLogger_new"

inductive_cases backend_stepE: "backend_step s s'"

section \<open>Invariant\<close>

text \<open>
  The current buffer is there; spare buffers are empty; the bytes appended are those written, then those
  of the buffers being written, of the filled buffers and of the current one, in this order.
\<close>

definition contents :: "buffer list \<Rightarrow> string" where
  "contents bs = concat (map Buffer_content bs)"

definition spare :: "buffer option \<Rightarrow> bool" where
  "spare b \<longleftrightarrow> (case b of None \<Rightarrow> True | Some b \<Rightarrow> Buffer_inv b \<and> Buffer_content b = [])"

definition AsyncLogger_inv :: "async_logger \<Rightarrow> bool" where
  "AsyncLogger_inv s \<longleftrightarrow>
    currentBuffer s \<noteq> None \<and> Buffer_inv (the (currentBuffer s)) \<and>
    appended s =
      written s @ contents (buffersToWrite s) @ contents (buffers s) @ Buffer_content (the (currentBuffer s)) \<and>
    spare (nextBuffer s) \<and> spare (buffA s) \<and> spare (buffB s) \<and>
    (\<forall>b \<in> set (buffersToWrite s) \<union> set (buffers s). Buffer_inv b) \<and>
    (log_pc s \<noteq> LogWriting \<longrightarrow> contents (buffersToWrite s) = []) \<and>
    (log_pc s \<noteq> LogNone \<and> log_pc s \<noteq> LogDone \<longrightarrow> buffA s \<noteq> None \<or> buffersToWrite s \<noteq> []) \<and>
    (log_pc s = LogLoop \<or> log_pc s = LogPred \<or> log_pc s = LogDozing \<or> log_pc s = LogAsleep \<or> log_pc s = LogSwap \<longrightarrow>
      buffA s \<noteq> None)"

lemma contents_simps [simp]:
  "contents [] = []" "contents (b # bs) = Buffer_content b @ contents bs"
  "contents (bs @ cs) = contents bs @ contents cs"
  by (simp_all add: contents_def)

lemma spare_simps [simp]: "spare None" "spare (Some b) \<longleftrightarrow> Buffer_inv b \<and> Buffer_content b = []"
  by (simp_all add: spare_def)

lemma contents_retrieved [simp]: "contents (map Buffer_retrieveAll bs) = []"
  by (induction bs) (simp_all add: retrieveAll_content)

lemma contents_empty_iff: "contents bs = [] \<longleftrightarrow> (\<forall>b \<in> set bs. Buffer_content b = [])"
  by (induction bs) simp_all

lemma AsyncLogger_new_inv: "AsyncLogger_inv AsyncLogger_new"
  by (simp add: AsyncLogger_inv_def AsyncLogger_new_def)

lemma log_notify_fields [simp]:
  "currentBuffer (log_notify s) = currentBuffer s" "nextBuffer (log_notify s) = nextBuffer s"
  "buffers (log_notify s) = buffers s" "buffA (log_notify s) = buffA s" "buffB (log_notify s) = buffB s"
  "buffersToWrite (log_notify s) = buffersToWrite s" "appended (log_notify s) = appended s"
  "written (log_notify s) = written s" "running (log_notify s) = running s" "stop_pc (log_notify s) = stop_pc s"
  "log_pc (log_notify s) = (if log_pc s = LogAsleep then LogPred else log_pc s)"
  by (simp_all add: log_notify_def)

lemma log_notify_inv: "AsyncLogger_inv s \<Longrightarrow> AsyncLogger_inv (log_notify s)"
  by (cases "log_pc s = LogAsleep") (simp_all add: AsyncLogger_inv_def)

lemma append_current_inv:
  assumes "AsyncLogger_inv s"
  shows "\<exists>s'. append_current data s = Inr s' \<and> AsyncLogger_inv s' \<and> appended s' = appended s @ data"
proof -
  obtain b where b: "currentBuffer s = Some b" "Buffer_inv b"
    "appended s = written s @ contents (buffersToWrite s) @ contents (buffers s) @ Buffer_content b"
    using assms unfolding AsyncLogger_inv_def by force
  obtain b' where b': "Buffer_append data b = Inr b'" "Buffer_inv b'" "Buffer_content b' = Buffer_content b @ data"
    using append_ok [OF b(2)] by blast
  let ?s = "s\<lparr>currentBuffer := Some b', appended := appended s @ data\<rparr>"
  have "AsyncLogger_inv ?s" using assms b b' unfolding AsyncLogger_inv_def by simp
  with b b' show ?thesis by (intro exI [of _ ?s]) (simp add: append_current_def)
qed

lemma AsyncLogger_append_ok:
  assumes inv: "AsyncLogger_inv s"
  shows "\<exists>s'. AsyncLogger_append data s = Inr s' \<and> AsyncLogger_inv s' \<and> appended s' = appended s @ data"
proof -
  obtain b where b: "currentBuffer s = Some b" "Buffer_inv b" using inv unfolding AsyncLogger_inv_def by force
  show ?thesis
  proof (cases "Buffer_writeableBytes b > length data")
    case True
    with b append_current_inv [OF inv, of data] show ?thesis by (simp add: AsyncLogger_append_def)
  next
    case False
    let ?s = "s\<lparr>buffers := buffers s @ [b]\<rparr>"
    let ?t = "case nextBuffer s of
        Some n \<Rightarrow> ?s\<lparr>currentBuffer := Some n, nextBuffer := None\<rparr>
      | None \<Rightarrow> ?s\<lparr>currentBuffer := Some Buffer_new\<rparr>"
    have t: "AsyncLogger_inv ?t"
    proof (cases "nextBuffer s")
      case None
      with inv b show ?thesis unfolding AsyncLogger_inv_def by simp
    next
      case (Some n)
      with inv b show ?thesis unfolding AsyncLogger_inv_def by simp
    qed
    have "appended ?t = appended s" by (auto split: option.split)
    with append_current_inv [OF t, of data] obtain u where
      u: "append_current data ?t = Inr u" "AsyncLogger_inv u" "appended u = appended s @ data" by auto
    have "AsyncLogger_append data s = Inr (log_notify u)"
      using b False u(1) by (simp add: AsyncLogger_append_def)
    with log_notify_inv [OF u(2)] u(3) show ?thesis by simp
  qed
qed

lemma contents_last:
  "bs \<noteq> [] \<Longrightarrow> contents bs = [] \<Longrightarrow> \<forall>b \<in> set bs. Buffer_inv b \<Longrightarrow>
    Buffer_inv (last bs) \<and> Buffer_content (last bs) = [] \<and> contents (butlast bs) = []"
  by (simp add: contents_empty_iff in_set_butlastD)

lemma threadFunc_swap_ok:
  assumes inv: "AsyncLogger_inv s" and pc: "log_pc s = LogSwap"
  shows "\<exists>s'. threadFunc_swap s = Inr s' \<and> AsyncLogger_inv s'"
proof -
  obtain b where b: "currentBuffer s = Some b" "Buffer_inv b"
    "appended s = written s @ contents (buffersToWrite s) @ contents (buffers s) @ Buffer_content b"
    using inv unfolding AsyncLogger_inv_def by force
  obtain a where a: "buffA s = Some a" "Buffer_inv a" "Buffer_content a = []"
    using inv pc unfolding AsyncLogger_inv_def by auto
  have empty: "contents (buffersToWrite s) = []" using inv pc unfolding AsyncLogger_inv_def by simp
  show ?thesis
  proof (cases "buffers s \<noteq> [] \<or> Buffer_readableBytes b > 0")
    case True
    then show ?thesis
      using inv b a empty unfolding AsyncLogger_inv_def threadFunc_swap_def Let_def by (cases "nextBuffer s") auto
  next
    case False
    with b have "Buffer_content b = []" using readable_zero_iff by blast
    then show ?thesis
      using False inv b a empty unfolding AsyncLogger_inv_def threadFunc_swap_def by (cases "running s") auto
  qed
qed

lemma threadFunc_write_inv:
  assumes inv: "AsyncLogger_inv s" and pc: "log_pc s = LogWriting"
  shows "AsyncLogger_inv (threadFunc_write s)"
proof -
  have bytes: "Buffer_bytes (Buffer_readableBytes b) b = Buffer_content b" if "b \<in> set (buffersToWrite s)" for b
  proof -
    have "Buffer_inv b" using inv that unfolding AsyncLogger_inv_def by blast
    then show ?thesis by (simp add: Buffer_bytes_take)
  qed
  have "concat (map (\<lambda>b. Buffer_bytes (Buffer_readableBytes b) b) (buffersToWrite s)) = contents (buffersToWrite s)"
    unfolding contents_def using bytes by (metis (mono_tags, lifting) map_eq_conv)
  then show ?thesis
    using inv pc unfolding AsyncLogger_inv_def threadFunc_write_def
    by (auto simp: retrieveAll_inv split: option.splits)
qed

lemma threadFunc_recycle_ok:
  assumes inv: "AsyncLogger_inv s" and pc: "log_pc s = LogRecycle"
  shows "\<exists>s'. threadFunc_recycle s = Inr s' \<and> AsyncLogger_inv s'"
proof -
  have empty: "contents (buffersToWrite s) = []" and ok: "\<forall>b \<in> set (buffersToWrite s). Buffer_inv b"
    and some: "buffA s \<noteq> None \<or> buffersToWrite s \<noteq> []"
    using inv pc unfolding AsyncLogger_inv_def by auto
  let ?t = "if buffA s = None
    then s\<lparr>buffA := Some (last (buffersToWrite s)), buffersToWrite := butlast (buffersToWrite s)\<rparr> else s"
  let ?u = "(if buffB ?t = None \<and> buffersToWrite ?t \<noteq> [] then
      ?t\<lparr>buffB := Some (last (buffersToWrite ?t)), buffersToWrite := butlast (buffersToWrite ?t)\<rparr> else ?t)"
  have "threadFunc_recycle s = Inr (?u\<lparr>log_pc := LogLoop\<rparr>)"
    using some by (auto simp: threadFunc_recycle_def)
  moreover have t: "AsyncLogger_inv ?t" "buffA ?t \<noteq> None" "log_pc ?t = LogRecycle"
    using inv pc some contents_last [OF _ empty ok] empty unfolding AsyncLogger_inv_def
    by (auto dest: in_set_butlastD)
  have "contents (buffersToWrite ?t) = []" "\<forall>b \<in> set (buffersToWrite ?t). Buffer_inv b"
    using t(1,3) unfolding AsyncLogger_inv_def by auto
  from contents_last [OF _ this] t have "AsyncLogger_inv (?u\<lparr>log_pc := LogLoop\<rparr>)"
    unfolding AsyncLogger_inv_def by (auto dest: in_set_butlastD)
  ultimately show ?thesis by blast
qed

lemma backend_step_inv:
  assumes "backend_step s s'" and inv: "AsyncLogger_inv s"
  shows "AsyncLogger_inv s'"
  using assms(1)
proof cases
  case test
  with inv show ?thesis by (auto simp: AsyncLogger_inv_def threadFunc_loop_def)
next
  case wait
  with inv show ?thesis by (auto simp: AsyncLogger_inv_def threadFunc_wait_def)
next
  case sleep
  with inv show ?thesis by (auto simp: AsyncLogger_inv_def)
next
  case swap
  with threadFunc_swap_ok [OF inv] show ?thesis by auto
next
  case write_out
  with threadFunc_write_inv [OF inv] show ?thesis by simp
next
  case recycle
  with threadFunc_recycle_ok [OF inv] show ?thesis by auto
next
  case joined
  with inv show ?thesis by (auto simp: AsyncLogger_inv_def)
qed

lemma frontend_step_inv:
  assumes "frontend_step s s'" and inv: "AsyncLogger_inv s"
  shows "AsyncLogger_inv s'"
  using assms(1)
proof cases
  case (append data)
  with AsyncLogger_append_ok [OF inv, of data] show ?thesis by auto
next
  case start
  then have "log_pc s \<noteq> LogWriting" by auto
  with start inv show ?thesis by (cases "running s") (simp_all add: AsyncLogger_inv_def AsyncLogger_start_def)
next
  case stop
  have "AsyncLogger_inv (s\<lparr>running := False, stop_pc := StopJoining\<rparr>)" using inv by (simp add: AsyncLogger_inv_def)
  with stop inv show ?thesis by (auto simp: AsyncLogger_stop_def intro: log_notify_inv)
next
  case spurious
  with inv show ?thesis by (auto simp: AsyncLogger_inv_def)
qed

lemma log_reachable_inv: "log_reachable s \<Longrightarrow> AsyncLogger_inv s"
  by (induction rule: rtranclp_induct)
    (auto simp: AsyncLogger_new_inv log_step_def dest: backend_step_inv frontend_step_inv)

section \<open>Properties of the hand-over\<close>



lemma log_first: "log_step s t \<Longrightarrow> log_step\<^sup>*\<^sup>* t u \<Longrightarrow> log_step\<^sup>*\<^sup>* s u"
  by (rule converse_rtranclp_into_rtranclp)

lemma log_backend: "backend_step s t \<Longrightarrow> log_step\<^sup>*\<^sup>* t u \<Longrightarrow> log_step\<^sup>*\<^sup>* s u"
  by (rule log_first [of _ t]) (simp_all add: log_step_def)

lemma log_frontend: "frontend_step s t \<Longrightarrow> log_step\<^sup>*\<^sup>* t u \<Longrightarrow> log_step\<^sup>*\<^sup>* s u"
  by (rule log_first [of _ t]) (simp_all add: log_step_def)

text \<open>
  C37. \<open>stop\<close> can block forever: it clears the flag and notifies without the mutex, so both can fall between the
  back end's test and its going to sleep; then the back end sleeps, the caller is in \<open>join\<close>, and no step of
  the two threads is left.
\<close>

theorem async_log_stop_can_hang:
  "\<exists>s. log_reachable s \<and> stop_pc s = StopJoining \<and> \<not> running s \<and> log_pc s = LogAsleep \<and>
    (\<forall>s'. \<not> backend_step s s')"
proof -
  let ?s1 = "AsyncLogger_start AsyncLogger_new"
  let ?s2 = "threadFunc_loop ?s1"
  let ?s3 = "threadFunc_wait ?s2"
  let ?s4 = "AsyncLogger_stop ?s3"
  let ?s5 = "?s4\<lparr>log_pc := LogAsleep\<rparr>"
  note defs = AsyncLogger_new_def AsyncLogger_start_def threadFunc_loop_def threadFunc_wait_def AsyncLogger_stop_def
  have 1: "frontend_step AsyncLogger_new ?s1" by (rule frontend_step.start) (simp add: defs)
  have 2: "backend_step ?s1 ?s2" by (rule backend_step.test) (simp add: defs)
  have 3: "backend_step ?s2 ?s3" by (rule backend_step.wait) (simp add: defs)
  have 4: "frontend_step ?s3 ?s4" by (rule frontend_step.stop) (simp add: defs)
  have 5: "backend_step ?s4 ?s5" by (rule backend_step.sleep) (simp add: defs)
  have "log_reachable ?s5"
    by (rule log_frontend [OF 1], rule log_backend [OF 2], rule log_backend [OF 3], rule log_frontend [OF 4],
        rule log_backend [OF 5], rule rtranclp.rtrancl_refl)
  moreover have "\<not> backend_step ?s5 s'" for s' by (auto simp: defs elim!: backend_stepE)
  ultimately show ?thesis by (intro exI [of _ ?s5]) (simp add: defs)
qed

text \<open>
  \<open>stop\<close> can lose what was logged before it: when the back end is not in its wait, it leaves its loop without
  writing the buffers, and \<open>stop\<close> returns.
\<close>

theorem async_log_stop_loses_data:
  "\<exists>s. log_reachable s \<and> stop_pc s = StopReturned \<and> log_pc s = LogDone \<and> appended s = data \<and> written s = []"
proof -
  let ?s1 = "AsyncLogger_start AsyncLogger_new"
  note defs = AsyncLogger_new_def AsyncLogger_start_def threadFunc_loop_def AsyncLogger_stop_def
  have 1: "frontend_step AsyncLogger_new ?s1" by (rule frontend_step.start) (simp add: defs)
  have "log_reachable ?s1" by (rule log_frontend [OF 1], rule rtranclp.rtrancl_refl)
  from AsyncLogger_append_ok [OF log_reachable_inv [OF this], of data] obtain s2 where
    s2: "AsyncLogger_append data ?s1 = Inr s2" "appended s2 = data" by (auto simp: defs)
  obtain b where b: "Buffer_append data Buffer_new = Inr b" using append_ok [OF Buffer_new_inv] by blast
  have s2': "log_pc s2 = LogLoop" "running s2" "written s2 = []"
    using s2(1) b by (auto simp: AsyncLogger_append_def append_current_def defs log_notify_def)
  let ?s3 = "AsyncLogger_stop s2"
  let ?s4 = "threadFunc_loop ?s3"
  let ?s5 = "?s4\<lparr>stop_pc := StopReturned\<rparr>"
  have 2: "frontend_step ?s1 s2" using s2(1) by (rule frontend_step.append)
  have 3: "frontend_step s2 ?s3" by (rule frontend_step.stop) (simp add: s2')
  have 4: "backend_step ?s3 ?s4" by (rule backend_step.test) (simp add: AsyncLogger_stop_def s2')
  have 5: "backend_step ?s4 ?s5"
    by (rule backend_step.joined) (simp_all add: AsyncLogger_stop_def threadFunc_loop_def s2')
  have "log_reachable ?s5"
    by (rule log_frontend [OF 1], rule log_frontend [OF 2], rule log_frontend [OF 3], rule log_backend [OF 4],
        rule log_backend [OF 5], rule rtranclp.rtrancl_refl)
  then show ?thesis
    using s2(2) s2' by (intro exI [of _ ?s5]) (simp add: AsyncLogger_stop_def threadFunc_loop_def)
qed

section \<open>The files\<close>

text \<open>
  \<open>files\<close> is the file system, \<open>open_file\<close> the file that \<open>file_\<close> has open. The arguments of \<open>write\<close> are the local
  date, whether a file of a given name can be opened, and whether \<open>stat\<close> succeeds.
\<close>

record log_file =
  files :: "string \<Rightarrow> string option"
  open_file :: "string option"
  lastData :: string
  currentFileName :: string
  sequence :: nat
  hasWritenBytes :: nat
  rollSize :: nat
  logDir :: string
  log_name :: string

definition AsyncLogger_makeFileName :: "string \<Rightarrow> log_file \<Rightarrow> string" where
  "AsyncLogger_makeFileName data f =
    logDir f @ ''/'' @ data @ ''/'' @ log_name f @
    (if sequence f > 0 then ''.'' @ to_string (sequence f) else []) @ ''.log''"

text \<open>\<open>file_.open(name, std::ios::app)\<close> creates the file when there is none.\<close>

definition open_app :: "(string \<Rightarrow> bool) \<Rightarrow> string \<Rightarrow> log_file \<Rightarrow> log_file" where
  "open_app can_open name f =
    (if can_open name then
       f\<lparr>open_file := Some name, files := (case files f name of None \<Rightarrow> (files f)(name \<mapsto> []) | Some _ \<Rightarrow> files f)\<rparr>
     else f\<lparr>open_file := None\<rparr>)"

definition write_out :: "string \<Rightarrow> log_file \<Rightarrow> log_file" where
  "write_out data f =
    (case open_file f of
       None \<Rightarrow> f
     | Some name \<Rightarrow>
         f\<lparr>files := (files f)(name \<mapsto> (case files f name of None \<Rightarrow> [] | Some old \<Rightarrow> old) @ data),
           hasWritenBytes := hasWritenBytes f + length data\<rparr>)"

definition roll_over :: "(string \<Rightarrow> bool) \<Rightarrow> string \<Rightarrow> log_file \<Rightarrow> log_file" where
  "roll_over can_open today f =
    (let f = f\<lparr>open_file := None, sequence := sequence f + 1\<rparr>;
         fileName = AsyncLogger_makeFileName today f;
         f = open_app can_open fileName f
     in if open_file f = None then f else f\<lparr>currentFileName := fileName, hasWritenBytes := 0\<rparr>)"

text \<open>The three parts of \<open>write\<close>: the change of the day, the opening of the file, and the writing.\<close>

definition new_day :: "string \<Rightarrow> log_file \<Rightarrow> log_file" where
  "new_day today f =
    (if today \<noteq> lastData f then f\<lparr>open_file := None, sequence := 0, hasWritenBytes := 0, lastData := today\<rparr>
     else f)"

definition open_log :: "string \<Rightarrow> (string \<Rightarrow> bool) \<Rightarrow> bool \<Rightarrow> nat \<Rightarrow> log_file \<Rightarrow> log_file" where
  "open_log today can_open stat_ok len f =
    (let fileName = AsyncLogger_makeFileName today f;
         f = open_app can_open fileName f
     in if open_file f = None then f
        else
          (let f = f\<lparr>currentFileName := fileName,
                     hasWritenBytes := (if stat_ok then length (the (files f fileName)) else 0)\<rparr>
           in if hasWritenBytes f + len > rollSize f \<and> hasWritenBytes f > 0
              then roll_over can_open today f else f))"

definition AsyncLogger_write ::
  "string \<Rightarrow> (string \<Rightarrow> bool) \<Rightarrow> bool \<Rightarrow> string \<Rightarrow> log_file \<Rightarrow> log_file" where
  "AsyncLogger_write today can_open stat_ok data f =
    (let f = new_day today f
     in if open_file f = None \<or> currentFileName f \<noteq> AsyncLogger_makeFileName today f then
          (let f = open_log today can_open stat_ok (length data) f
           in if open_file f = None then f else write_out data f)
        else write_out data f)"

section \<open>Properties of the files\<close>

lemma open_app_open: "can_open name \<Longrightarrow> open_file (open_app can_open name f) = Some name"
  by (simp add: open_app_def)

lemma open_app_files:
  "can_open name \<Longrightarrow> files (open_app can_open name f) =
    (if files f name = None then (files f)(name \<mapsto> []) else files f)"
  by (simp add: open_app_def split: option.split)

text \<open>What the file system holds under a name, \<open>[]\<close> when there is no such file.\<close>

definition file_bytes :: "log_file \<Rightarrow> string \<Rightarrow> string" where
  "file_bytes f name = (case files f name of None \<Rightarrow> [] | Some c \<Rightarrow> c)"

lemma file_bytes_open_app [simp]: "file_bytes (open_app can_open name f) = file_bytes f"
  by (auto simp: file_bytes_def open_app_def fun_eq_iff split: option.split)

lemma file_bytes_write_out:
  "open_file f = Some name \<Longrightarrow> file_bytes (write_out data f) = (file_bytes f)(name := file_bytes f name @ data)"
  by (auto simp: file_bytes_def write_out_def fun_eq_iff)

lemma file_bytes_frame [simp]:
  "file_bytes (f\<lparr>open_file := x\<rparr>) = file_bytes f" "file_bytes (f\<lparr>sequence := n\<rparr>) = file_bytes f"
  "file_bytes (f\<lparr>hasWritenBytes := n\<rparr>) = file_bytes f" "file_bytes (f\<lparr>lastData := d\<rparr>) = file_bytes f"
  "file_bytes (f\<lparr>currentFileName := d\<rparr>) = file_bytes f"
  by (simp_all add: file_bytes_def fun_eq_iff)

text \<open>While a file is open its name is the current one.\<close>

definition log_file_ok :: "log_file \<Rightarrow> bool" where
  "log_file_ok f \<longleftrightarrow> (\<forall>name. open_file f = Some name \<longrightarrow> name = currentFileName f)"

lemma write_out_fields [simp]:
  "open_file (write_out data f) = open_file f" "currentFileName (write_out data f) = currentFileName f"
  "sequence (write_out data f) = sequence f" "lastData (write_out data f) = lastData f"
  by (simp_all add: write_out_def split: option.split)

lemma roll_over_open:
  assumes "\<forall>name. can_open name"
  shows "\<exists>name. open_file (roll_over can_open today f) = Some name \<and> currentFileName (roll_over can_open today f) = name"
    and "file_bytes (roll_over can_open today f) = file_bytes f"
  using assms by (simp_all add: roll_over_def Let_def open_app_open)

lemma open_log_ok:
  assumes can: "\<forall>name. can_open name"
  shows "\<exists>name. open_file (open_log today can_open stat_ok len f) = Some name \<and>
    currentFileName (open_log today can_open stat_ok len f) = name \<and>
    file_bytes (open_log today can_open stat_ok len f) = file_bytes f"
proof -
  let ?name = "AsyncLogger_makeFileName today f"
  define f1 where "f1 = open_app can_open ?name f"
  define f2 where "f2 = f1\<lparr>currentFileName := ?name, hasWritenBytes := (if stat_ok then length (the (files f1 ?name)) else 0)\<rparr>"
  have f1: "open_file f1 = Some ?name" "file_bytes f1 = file_bytes f" using can by (simp_all add: f1_def open_app_open)
  have f2: "open_file f2 = Some ?name" "currentFileName f2 = ?name" "file_bytes f2 = file_bytes f"
    using f1 by (simp_all add: f2_def)
  have "open_log today can_open stat_ok len f =
      (if hasWritenBytes f2 + len > rollSize f2 \<and> hasWritenBytes f2 > 0 then roll_over can_open today f2 else f2)"
    using f1(1) unfolding open_log_def Let_def f1_def [symmetric] by (simp only: option.distinct if_False f2_def)
  with f2 roll_over_open [OF can, of today f2] show ?thesis by simp
qed

lemma AsyncLogger_write_appends:
  assumes "log_file_ok f" and can: "\<forall>name. can_open name"
  shows "\<exists>name. open_file (AsyncLogger_write today can_open stat_ok data f) = Some name \<and>
    log_file_ok (AsyncLogger_write today can_open stat_ok data f) \<and>
    file_bytes (AsyncLogger_write today can_open stat_ok data f) = (file_bytes f)(name := file_bytes f name @ data)"
proof -
  let ?f = "new_day today f"
  have f: "file_bytes ?f = file_bytes f" "log_file_ok ?f"
    using assms(1) by (simp_all add: new_day_def log_file_ok_def)
  show ?thesis
  proof (cases "open_file ?f = None \<or> currentFileName ?f \<noteq> AsyncLogger_makeFileName today ?f")
    case False
    then have "AsyncLogger_write today can_open stat_ok data f = write_out data ?f"
      by (auto simp: AsyncLogger_write_def Let_def)
    with False f show ?thesis by (auto simp: log_file_ok_def file_bytes_write_out)
  next
    case True
    obtain name where g: "open_file (open_log today can_open stat_ok (length data) ?f) = Some name"
      "currentFileName (open_log today can_open stat_ok (length data) ?f) = name"
      "file_bytes (open_log today can_open stat_ok (length data) ?f) = file_bytes ?f"
      using open_log_ok [OF can] by blast
    with True have "AsyncLogger_write today can_open stat_ok data f =
        write_out data (open_log today can_open stat_ok (length data) ?f)"
      by (auto simp: AsyncLogger_write_def Let_def)
    with f g show ?thesis by (intro exI [of _ name]) (simp add: log_file_ok_def file_bytes_write_out)
  qed
qed

lemma AsyncLogger_write_open:
  assumes "open_file f = Some (AsyncLogger_makeFileName today f)"
    and "currentFileName f = AsyncLogger_makeFileName today f" and "lastData f = today"
  shows "AsyncLogger_write today can_open stat_ok data f = write_out data f"
  using assms by (simp add: AsyncLogger_write_def new_day_def Let_def)

text \<open>
  Writing keeps every byte: if files can be opened, a batch is appended whole to one file and no other file
  changes, and that file stays open. But the size limit is looked at only when a file is opened: as long
  as the day lasts and the file is open, writing appends to it however large it has become.
\<close>

theorem log_write_appends_and_rolls:
  assumes "log_file_ok f" and "\<forall>name. can_open name"
  shows "(\<exists>name. open_file (AsyncLogger_write today can_open stat_ok data f) = Some name \<and>
      log_file_ok (AsyncLogger_write today can_open stat_ok data f) \<and>
      file_bytes (AsyncLogger_write today can_open stat_ok data f) = (file_bytes f)(name := file_bytes f name @ data)) \<and>
    (\<forall>name. open_file f = Some name \<and> name = AsyncLogger_makeFileName today f \<and> lastData f = today \<longrightarrow>
      open_file (AsyncLogger_write today can_open stat_ok data f) = Some name)"
  using AsyncLogger_write_appends [OF assms] AsyncLogger_write_open [of f today can_open stat_ok data] assms(1)
  by (auto simp: log_file_ok_def)

definition demo_log :: log_file where
  "demo_log = \<lparr>files = [''d/t/n.log'' \<mapsto> ''abc''], open_file = Some ''d/t/n.log'', lastData = ''t'',
    currentFileName = ''d/t/n.log'', sequence = 0, hasWritenBytes = 3, rollSize = 2, logDir = ''d'', log_name = ''n''\<rparr>"

theorem log_write_appends_and_rolls_witness:
  "open_file (AsyncLogger_write ''t'' (\<lambda>_. True) True ''xyz'' demo_log) = Some ''d/t/n.log'' \<and> rollSize demo_log = 2"
proof -
  have "log_file_ok demo_log" by (simp add: log_file_ok_def demo_log_def)
  moreover have "open_file demo_log = Some ''d/t/n.log''" "''d/t/n.log'' = AsyncLogger_makeFileName ''t'' demo_log"
    "lastData demo_log = ''t''"
    by (simp_all add: demo_log_def AsyncLogger_makeFileName_def)
  ultimately have "open_file (AsyncLogger_write ''t'' (\<lambda>_. True) True ''xyz'' demo_log) = Some ''d/t/n.log''"
    using log_write_appends_and_rolls [of demo_log "\<lambda>_. True" "''t''" True "''xyz''"] by blast
  then show ?thesis by (simp add: demo_log_def)
qed

end
