(* ===== verification/Logger.thy ===== *)
theory Logger
  imports AsyncLogger
begin

text \<open>
  The logger of one message (\<open>net/Log/Logger.h\<close>, \<open>net/Log/Logger.cc\<close>) and the text forms of time stamps
  (\<open>net/Timestamp.cc\<close>). The local time (as text or broken down), the thread's id and the text of a pointer
  or a floating-point number are arguments. A finished message goes to the asynchronous logger or, when
  there is none, to the standard error stream.
\<close>

section \<open>Streams\<close>

datatype LogLevel = DEBUG | INFO | WARNING | ERRNOR | OTHER

fun level_int :: "LogLevel \<Rightarrow> nat" where
  "level_int DEBUG = 0"
| "level_int INFO = 1"
| "level_int WARNING = 2"
| "level_int ERRNOR = 3"
| "level_int OTHER = 4"

text \<open>Levels are compared as the numbers of the enumeration.\<close>

lemma level_int_inject: "level_int x = level_int y \<longleftrightarrow> x = y"
  by (cases x; cases y) simp_all

instantiation LogLevel :: linorder
begin

definition less_eq_LogLevel :: "LogLevel \<Rightarrow> LogLevel \<Rightarrow> bool" where
  "less_eq_LogLevel x y \<longleftrightarrow> level_int x \<le> level_int y"

definition less_LogLevel :: "LogLevel \<Rightarrow> LogLevel \<Rightarrow> bool" where
  "less_LogLevel x y \<longleftrightarrow> level_int x < level_int y"

instance
  by standard (auto simp: less_eq_LogLevel_def less_LogLevel_def level_int_inject)

end

fun LogLevelToString :: "LogLevel \<Rightarrow> string" where
  "LogLevelToString DEBUG = ''DEBUG''"
| "LogLevelToString INFO = ''INFO''"
| "LogLevelToString WARNING = ''WARNING''"
| "LogLevelToString ERRNOR = ''ERROR''"
| "LogLevelToString OTHER = ''UNKNOW''"

type_synonym log_stream = string

text \<open>\<open>operator<<\<close>, by the type of its argument.\<close>

definition int_to_string :: "int \<Rightarrow> string" where
  "int_to_string v = (if v < 0 then ''-'' @ to_string (nat (- v)) else to_string (nat v))"

definition LogStream_bool :: "bool \<Rightarrow> log_stream \<Rightarrow> log_stream" where
  "LogStream_bool v s = s @ (if v then ''true'' else ''false'')"

definition LogStream_int :: "int \<Rightarrow> log_stream \<Rightarrow> log_stream" where
  "LogStream_int v s = s @ int_to_string v"

definition LogStream_char :: "char \<Rightarrow> log_stream \<Rightarrow> log_stream" where
  "LogStream_char v s = s @ [v]"

definition LogStream_string :: "string \<Rightarrow> log_stream \<Rightarrow> log_stream" where
  "LogStream_string v s = s @ v"

definition LogStream_reset :: "log_stream \<Rightarrow> log_stream" where
  "LogStream_reset s = []"

section \<open>Messages\<close>

record logger =
  lg_enabled :: bool
  lg_stream :: log_stream

text \<open>\<open>fileName_.rfind('/')\<close> and \<open>substr\<close> of the result, which throws when there is no slash.\<close>

fun last_slash :: "string \<Rightarrow> nat option" where
  "last_slash [] = None"
| "last_slash (c # cs) =
    (case last_slash cs of Some i \<Rightarrow> Some (Suc i) | None \<Rightarrow> if c = CHR ''/'' then Some 0 else None)"

definition base_name :: "string \<Rightarrow> string res" where
  "base_name fileName = (case last_slash fileName of None \<Rightarrow> Inl OutOfRange | Some pos \<Rightarrow> Inr (drop pos fileName))"

definition Logger_new ::
  "LogLevel \<Rightarrow> string \<Rightarrow> string \<Rightarrow> LogLevel \<Rightarrow> string \<Rightarrow> nat \<Rightarrow> string \<Rightarrow> logger res" where
  "Logger_new g_logLevel today tid level fileName line func =
    (let enabled = (level \<ge> g_logLevel) in
     if enabled then
       rbind (base_name fileName) (\<lambda>fName. Inr \<lparr>lg_enabled = True, lg_stream =
         ''['' @ today @ '']  thread_id= '' @ tid @ ''  '' @ LogLevelToString level @ '' '' @ fName @ '': '' @
         to_string line @ '' ('' @ func @ '') | ''\<rparr>)
     else Inr \<lparr>lg_enabled = False, lg_stream = []\<rparr>)"

definition Logger_stream :: "(log_stream \<Rightarrow> log_stream) \<Rightarrow> logger \<Rightarrow> logger" where
  "Logger_stream f l = l\<lparr>lg_stream := f (lg_stream l)\<rparr>"

text \<open>The sinks: the asynchronous logger, if one is set, and the standard error stream.\<close>

definition Logger_destroy ::
  "logger \<Rightarrow> async_logger option \<times> string \<Rightarrow> (async_logger option \<times> string) res" where
  "Logger_destroy l s =
    (if \<not> lg_enabled l then Inr s
     else
       (let msg = lg_stream l @ ''\<newline>''
        in case fst s of
             Some a \<Rightarrow> rbind (AsyncLogger_append msg a) (\<lambda>a. Inr (Some a, snd s))
           | None \<Rightarrow> Inr (None, snd s @ msg)))"

text \<open>A whole logging statement: construction, the operators, destruction.\<close>

definition log_statement ::
  "LogLevel \<Rightarrow> string \<Rightarrow> string \<Rightarrow> LogLevel \<Rightarrow> string \<Rightarrow> nat \<Rightarrow> string \<Rightarrow> (log_stream \<Rightarrow> log_stream) \<Rightarrow>
    async_logger option \<times> string \<Rightarrow> (async_logger option \<times> string) res" where
  "log_statement g today tid level fileName line func f s =
    rbind (Logger_new g today tid level fileName line func) (\<lambda>l. Logger_destroy (Logger_stream f l) s)"

section \<open>Time stamps\<close>

text \<open>\<open>localtime_r\<close> is an argument: year, month, day, hour, minute and second as \<open>struct tm\<close> has them.\<close>

record tm =
  tm_year :: nat
  tm_mon :: nat
  tm_mday :: nat
  tm_hour :: nat
  tm_min :: nat
  tm_sec :: nat

definition pad_left :: "char \<Rightarrow> nat \<Rightarrow> string \<Rightarrow> string" where
  "pad_left c n s = replicate (n - length s) c @ s"

definition date_text :: "tm \<Rightarrow> string" where
  "date_text t =
    pad_left (CHR '' '') 4 (to_string (tm_year t + 1900)) @ pad_left (CHR ''0'') 2 (to_string (tm_mon t + 1)) @
    pad_left (CHR ''0'') 2 (to_string (tm_mday t))"

definition time_text :: "tm \<Rightarrow> string" where
  "time_text t =
    pad_left (CHR ''0'') 2 (to_string (tm_hour t)) @ '':'' @ pad_left (CHR ''0'') 2 (to_string (tm_min t)) @ '':'' @
    pad_left (CHR ''0'') 2 (to_string (tm_sec t))"

text \<open>The buffer has 32 bytes, so at most 31 characters come out.\<close>

definition Timestamp_toFormattedString :: "(int \<Rightarrow> tm) \<Rightarrow> int \<Rightarrow> string" where
  "Timestamp_toFormattedString localtime ms =
    (if \<not> ms > 0 then ''Invalid''
     else
       (let second = ms div 1000000; microsecond = ms mod 1000000; t = localtime second
        in take 31 (date_text t @ '' '' @ time_text t @ ''.'' @ pad_left (CHR ''0'') 6 (to_string (nat microsecond)))))"

definition Timestamp_toDateString :: "(int \<Rightarrow> tm) \<Rightarrow> int \<Rightarrow> string" where
  "Timestamp_toDateString localtime ms =
    (if \<not> ms > 0 then ''Invalid'' else take 31 (date_text (localtime (ms div 1000000))))"

section \<open>Lemmas\<close>

lemma last_slash_split:
  "CHR ''/'' \<notin> set name \<Longrightarrow> last_slash (dir @ CHR ''/'' # name) = Some (length dir)"
proof (induction dir)
  case Nil
  then have "last_slash name = None" by (induction name) auto
  then show ?case by simp
next
  case (Cons c dir)
  then show ?case by simp
qed

lemma last_slash_None: "last_slash s = None \<longleftrightarrow> CHR ''/'' \<notin> set s"
  by (induction s) (auto split: option.split)

lemma length_to_string_less: "n < 10 ^ Suc k \<Longrightarrow> length (to_string n) \<le> Suc k"
proof (induction k arbitrary: n)
  case 0
  then show ?case by (simp add: to_string.simps [of n])
next
  case (Suc k)
  show ?case
  proof (cases "n < 10")
    case False
    have "n div 10 < 10 ^ Suc k" using Suc.prems by (simp add: less_mult_imp_div_less)
    with Suc.IH False show ?thesis by (simp add: to_string.simps [of n])
  qed (simp add: to_string.simps [of n])
qed

lemma length_pad_left: "length s \<le> n \<Longrightarrow> length (pad_left c n s) = n"
  by (simp add: pad_left_def)

lemma length_two: "n < 100 \<Longrightarrow> length (pad_left c 2 (to_string n)) = 2"
  using length_to_string_less [of n 1] by (intro length_pad_left) simp

definition tm_ok :: "tm \<Rightarrow> bool" where
  "tm_ok t \<longleftrightarrow> tm_year t + 1900 < 10000 \<and> tm_mon t < 12 \<and> tm_mday t < 32 \<and> tm_hour t < 24 \<and> tm_min t < 60 \<and> tm_sec t < 61"

lemma length_date: "tm_ok t \<Longrightarrow> length (date_text t) = 8"
proof -
  assume t: "tm_ok t"
  have "length (pad_left (CHR '' '') 4 (to_string (tm_year t + 1900))) = 4"
    using t length_to_string_less [of "tm_year t + 1900" 3] by (intro length_pad_left) (simp add: tm_ok_def)
  with t show ?thesis by (simp add: date_text_def length_two tm_ok_def)
qed

lemma length_time: "tm_ok t \<Longrightarrow> length (time_text t) = 8"
  by (simp add: time_text_def length_two tm_ok_def)

text \<open>The line of a statement, and what a statement with an enabled level comes to.\<close>

definition log_line :: "string \<Rightarrow> string \<Rightarrow> LogLevel \<Rightarrow> string \<Rightarrow> nat \<Rightarrow> string \<Rightarrow> string \<Rightarrow> string" where
  "log_line today tid level name line func text =
    ''['' @ today @ '']  thread_id= '' @ tid @ ''  '' @ LogLevelToString level @ '' /'' @ name @ '': '' @
    to_string line @ '' ('' @ func @ '') | '' @ text @ ''\<newline>''"

lemma log_line_end:
  "butlast (log_line today tid level name line func text) @ ''\<newline>'' = log_line today tid level name line func text"
  by (simp add: log_line_def butlast_append)

lemma log_statement_enabled:
  assumes "level \<ge> g" and "CHR ''/'' \<notin> set name"
  shows "log_statement g today tid level (dir @ ''/'' @ name) line func (LogStream_string text) s =
    Logger_destroy \<lparr>lg_enabled = True, lg_stream = butlast (log_line today tid level name line func text)\<rparr> s"
proof -
  have "last_slash (dir @ ''/'' @ name) = Some (length dir)" using last_slash_split [OF assms(2), of dir] by simp
  then have base: "base_name (dir @ ''/'' @ name) = Inr (''/'' @ name)" by (simp add: base_name_def)
  show ?thesis
    using assms(1) unfolding log_statement_def Logger_new_def Let_def base
    by (simp add: Logger_stream_def LogStream_string_def log_line_def butlast_append)
qed

section \<open>Properties\<close>

text \<open>
  A logging statement whose level is enabled appends exactly one line, with the prefix and the streamed text, to
  its sink, the standard error stream or the asynchronous logger; one that is not enabled appends nothing; and one in a file whose name has no directory throws.
\<close>

theorem log_statement_one_line:
  assumes "CHR ''/'' \<notin> set name" and "AsyncLogger_inv a"
  shows "(level < g \<longrightarrow> log_statement g today tid level fileName line func f s = Inr s) \<and>
    (level \<ge> g \<longrightarrow>
      log_statement g today tid level (dir @ ''/'' @ name) line func (LogStream_string text) (None, err) =
        Inr (None, err @ log_line today tid level name line func text) \<and>
      (\<exists>a'. log_statement g today tid level (dir @ ''/'' @ name) line func (LogStream_string text) (Some a, err) =
          Inr (Some a', err) \<and> appended a' = appended a @ log_line today tid level name line func text) \<and>
      log_statement g today tid level name line func f s = Inl OutOfRange)"
proof (intro conjI impI)
  assume on: "level \<ge> g"
  note st = log_statement_enabled [OF on assms(1)]
  show "log_statement g today tid level (dir @ ''/'' @ name) line func (LogStream_string text) (None, err) =
      Inr (None, err @ log_line today tid level name line func text)"
    unfolding st by (simp add: Logger_destroy_def log_line_end)
  show "\<exists>a'. log_statement g today tid level (dir @ ''/'' @ name) line func (LogStream_string text) (Some a, err) =
      Inr (Some a', err) \<and> appended a' = appended a @ log_line today tid level name line func text"
    using AsyncLogger_append_ok [OF assms(2), of "log_line today tid level name line func text"]
    unfolding st by (auto simp: Logger_destroy_def log_line_end)
  have "base_name name = Inl OutOfRange" using assms by (simp add: base_name_def last_slash_None [symmetric])
  with on show "log_statement g today tid level name line func f s = Inl OutOfRange"
    by (simp add: log_statement_def Logger_new_def)
next
  assume "level < g"
  then have "\<not> g \<le> level" by simp
  then show "log_statement g today tid level fileName line func f s = Inr s"
    by (simp add: log_statement_def Logger_new_def Logger_destroy_def Logger_stream_def)
qed

theorem log_statement_one_line_witness:
  "log_statement INFO [] [] DEBUG ''a'' 1 [] (\<lambda>s. s) (None, []) = Inr (None, []) \<and>
   log_statement INFO [] [] WARNING ''a'' 1 [] (\<lambda>s. s) (None, []) = Inl OutOfRange \<and>
   (\<exists>a'. log_statement INFO [] [] WARNING ''d/a'' 1 [] (LogStream_string ''hi'') (Some AsyncLogger_new, []) =
      Inr (Some a', []) \<and> appended a' = log_line [] [] WARNING ''a'' 1 [] ''hi'')"
proof -
  have a: "CHR ''/'' \<notin> set ''a''" by simp
  have l: "DEBUG < INFO" "INFO \<le> WARNING" by (simp_all add: less_LogLevel_def less_eq_LogLevel_def)
  have "appended AsyncLogger_new = []" by (simp add: AsyncLogger_new_def)
  with log_statement_one_line [OF a AsyncLogger_new_inv, of DEBUG INFO "[]" "[]" "''a''" 1 "[]" "\<lambda>s. s" "(None, [])"]
    log_statement_one_line [OF a AsyncLogger_new_inv, of WARNING INFO "[]" "[]" "''a''" 1 "[]" "\<lambda>s. s" "(None, [])"
      "''d''" "''hi''" "[]"] l
  show ?thesis by simp
qed

text \<open>
  The text of a time stamp with a four-digit year is 24 characters long, the date part eight, so neither is cut
  off by the buffer, and the date is the first part of the full text.
\<close>

theorem timestamp_text_fits:
  assumes "ms > 0" and "tm_ok (localtime (ms div 1000000))"
  shows "length (Timestamp_toFormattedString localtime ms) = 24 \<and>
    length (Timestamp_toDateString localtime ms) = 8 \<and>
    take 8 (Timestamp_toFormattedString localtime ms) = Timestamp_toDateString localtime ms"
proof -
  have "nat (ms mod 1000000) < 10 ^ Suc 5" by (simp add: nat_less_iff)
  from length_to_string_less [OF this] have "length (pad_left (CHR ''0'') 6 (to_string (nat (ms mod 1000000)))) = 6"
    by (intro length_pad_left) simp
  with assms length_date [OF assms(2)] length_time [OF assms(2)] show ?thesis
    by (simp add: Timestamp_toFormattedString_def Timestamp_toDateString_def Let_def)
qed

theorem timestamp_text_fits_witness:
  "length (Timestamp_toFormattedString (\<lambda>_. \<lparr>tm_year = 70, tm_mon = 0, tm_mday = 1, tm_hour = 0, tm_min = 0, tm_sec = 1\<rparr>) 1000002) = 24"
  by (rule conjunct1 [OF timestamp_text_fits]) (simp_all add: tm_ok_def)

end
