(* ===== verification/EventLoopThread.thy ===== *)
theory EventLoopThread
  imports EventLoop Monitor
begin

text \<open>
  A thread with an event loop (\<open>net/EventLoopThread.h\<close>, \<open>net/EventLoopThread.cc\<close>): the thread that calls
  \<open>start\<close>, \<open>join\<close> and the destructor (the owner), the thread that runs \<open>threadFunc\<close>, and their handshake over
  \<open>mutex_\<close> and \<open>cond\<close>. The loop is the step relation of theory \<open>EventLoop\<close>, which the threads that know
  the loop take part in. A critical section of the new thread is one step, taken while the owner does not
  hold the mutex; the owner holds it over two steps in the destructor, between setting \<open>quit_\<close> and the
  wake-up.
\<close>

section \<open>State and steps\<close>

datatype thread_pc =
  NoThread
| InitCallback                 \<comment> \<open>the loop is constructed, \<open>callback_\<close> runs\<close>
| Publish                      \<comment> \<open>about to set \<open>loop_\<close> and to notify\<close>
| InLoop
| ClearLoop                    \<comment> \<open>after \<open>loop()\<close>, about to reset \<open>loop_\<close>\<close>
| Finished

datatype owner_pc =
  Idle
| Testing                      \<comment> \<open>in \<open>start\<close>, about to test \<open>loop_\<close> under the mutex\<close>
| Asleep                       \<comment> \<open>in \<open>cond.wait\<close>\<close>
| UserJoin
| DtorLock                     \<comment> \<open>in the destructor, about to lock\<close>
| DtorWake                     \<comment> \<open>holds the mutex, \<open>quit_\<close> is set, about to wake the loop\<close>
| DtorJoin
| Gone
| Failed fault

record event_loop_thread =
  loop_ptr :: bool
  started :: bool
  exiting :: bool
  joined :: bool
  thread :: thread_pc
  owner :: owner_pc
  the_loop :: event_loop

definition EventLoopThread_new :: event_loop_thread where
  "EventLoopThread_new =
    \<lparr>loop_ptr = False, started = False, exiting = False, joined = False, thread = NoThread, owner = Idle,
     the_loop = EventLoop_new\<rparr>"

text \<open>\<open>loop_->quit()\<close> from the owner: the flag, and whether the wake-up is still to come.\<close>

definition request_quit :: "event_loop \<Rightarrow> bool \<times> event_loop" where
  "request_quit l = (if quit l then (False, l) else (True, l\<lparr>quit := True, waking := waking l + 1\<rparr>))"

definition finish_quit :: "event_loop \<Rightarrow> event_loop" where
  "finish_quit l = (EventLoop_weakup l)\<lparr>waking := waking l - 1\<rparr>"

definition EventLoopThread_start :: "event_loop_thread \<Rightarrow> event_loop_thread" where
  "EventLoopThread_start s =
    (if started s then s\<lparr>owner := Failed AssertFailed\<rparr>
     else s\<lparr>started := True, thread := InitCallback, owner := Testing\<rparr>)"

definition EventLoopThread_testLoop :: "event_loop_thread \<Rightarrow> event_loop_thread" where
  "EventLoopThread_testLoop s = s\<lparr>owner := (if loop_ptr s then Idle else Asleep)\<rparr>"

definition EventLoopThread_join :: "event_loop_thread \<Rightarrow> event_loop_thread" where
  "EventLoopThread_join s = (if joined s then s else s\<lparr>owner := UserJoin\<rparr>)"

definition EventLoopThread_destroy :: "event_loop_thread \<Rightarrow> event_loop_thread" where
  "EventLoopThread_destroy s = s\<lparr>exiting := True, owner := (if started s then DtorLock else DtorJoin)\<rparr>"

definition EventLoopThread_dtorQuit :: "event_loop_thread \<Rightarrow> event_loop_thread" where
  "EventLoopThread_dtorQuit s =
    (if loop_ptr s then
       (case request_quit (the_loop s) of
          (to_wake, l) \<Rightarrow> s\<lparr>the_loop := l, owner := (if to_wake then DtorWake else DtorJoin)\<rparr>)
     else s\<lparr>owner := DtorJoin\<rparr>)"

text \<open>\<open>thread_.join()\<close>: \<open>next\<close> is where the owner goes on. It throws when no thread was ever started.\<close>

definition join_thread :: "owner_pc \<Rightarrow> event_loop_thread \<Rightarrow> event_loop_thread" where
  "join_thread next s = s\<lparr>joined := True, owner := next\<rparr>"

text \<open>\<open>threadFunc\<close>, in its three parts outside the loop.\<close>

definition threadFunc_publish :: "event_loop_thread \<Rightarrow> event_loop_thread" where
  "threadFunc_publish s =
    s\<lparr>loop_ptr := True, thread := InLoop, owner := (if owner s = Asleep then Testing else owner s)\<rparr>"

definition threadFunc_clear :: "event_loop_thread \<Rightarrow> event_loop_thread" where
  "threadFunc_clear s = s\<lparr>loop_ptr := False, thread := Finished\<rparr>"

inductive owner_step :: "event_loop_thread \<Rightarrow> event_loop_thread \<Rightarrow> bool" where
  call_start: "owner s = Idle \<Longrightarrow> owner_step s (EventLoopThread_start s)"
| test_loop: "owner s = Testing \<Longrightarrow> owner_step s (EventLoopThread_testLoop s)"
| spurious: "owner s = Asleep \<Longrightarrow> owner_step s (s\<lparr>owner := Testing\<rparr>)"
| call_join: "owner s = Idle \<Longrightarrow> owner_step s (EventLoopThread_join s)"
| join_throws: "owner s = UserJoin \<or> owner s = DtorJoin \<and> \<not> joined s \<Longrightarrow> thread s = NoThread \<Longrightarrow>
    owner_step s (s\<lparr>owner := Failed SystemError\<rparr>)"
| join_returns: "owner s = UserJoin \<Longrightarrow> thread s = Finished \<Longrightarrow> owner_step s (join_thread Idle s)"
| destroy: "owner s = Idle \<Longrightarrow> owner_step s (EventLoopThread_destroy s)"
| dtor_quit: "owner s = DtorLock \<Longrightarrow> owner_step s (EventLoopThread_dtorQuit s)"
| dtor_wake: "owner s = DtorWake \<Longrightarrow>
    owner_step s (s\<lparr>the_loop := finish_quit (the_loop s), owner := DtorJoin\<rparr>)"
| dtor_join: "owner s = DtorJoin \<Longrightarrow> \<not> joined s \<Longrightarrow> thread s = Finished \<Longrightarrow> owner_step s (join_thread Gone s)"
| dtor_joined: "owner s = DtorJoin \<Longrightarrow> joined s \<Longrightarrow> owner_step s (s\<lparr>owner := Gone\<rparr>)"

inductive thread_step :: "(task \<Rightarrow> bool) \<Rightarrow> event_loop_thread \<Rightarrow> event_loop_thread \<Rightarrow> bool" for quits where
  init_done: "thread s = InitCallback \<Longrightarrow> thread_step quits s (s\<lparr>thread := Publish\<rparr>)"
| publish: "thread s = Publish \<Longrightarrow> owner s \<noteq> DtorWake \<Longrightarrow> thread_step quits s (threadFunc_publish s)"
| in_loop: "thread s = InLoop \<Longrightarrow> own_step quits (the_loop s) l \<Longrightarrow> thread_step quits s (s\<lparr>the_loop := l\<rparr>)"
| left_loop: "thread s = InLoop \<Longrightarrow> pc (the_loop s) = Exited \<Longrightarrow> thread_step quits s (s\<lparr>thread := ClearLoop\<rparr>)"
| clear: "thread s = ClearLoop \<Longrightarrow> owner s \<noteq> DtorWake \<Longrightarrow> thread_step quits s (threadFunc_clear s)"

text \<open>
  Others that know the loop while it lives: other threads, ready descriptors and handlers. The wake-up that
  the owner owes is its own.
\<close>

inductive others_step :: "event_loop_thread \<Rightarrow> event_loop_thread \<Rightarrow> bool" where
  others: "thread s = InitCallback \<or> thread s = Publish \<or> thread s = InLoop \<Longrightarrow> env_step (the_loop s) l \<Longrightarrow>
    owner s = DtorWake \<longrightarrow> waking l > 0 \<Longrightarrow> others_step s (s\<lparr>the_loop := l\<rparr>)"

definition elt_step :: "(task \<Rightarrow> bool) \<Rightarrow> event_loop_thread \<Rightarrow> event_loop_thread \<Rightarrow> bool" where
  "elt_step quits s s' \<longleftrightarrow> owner_step s s' \<or> thread_step quits s s' \<or> others_step s s'"

abbreviation elt_reachable :: "(task \<Rightarrow> bool) \<Rightarrow> event_loop_thread \<Rightarrow> bool" where
  "elt_reachable quits \<equiv> (elt_step quits)\<^sup>*\<^sup>* EventLoopThread_new"

inductive_cases owner_stepE: "owner_step s s'"
inductive_cases thread_stepE: "thread_step quits s s'"
inductive_cases others_stepE: "others_step s s'"

section \<open>Invariant\<close>

definition EventLoopThread_inv :: "(task \<Rightarrow> bool) \<Rightarrow> event_loop_thread \<Rightarrow> bool" where
  "EventLoopThread_inv quits s \<longleftrightarrow>
    loop_reachable quits (the_loop s) \<and>
    (loop_ptr s \<longleftrightarrow> thread s = InLoop \<or> thread s = ClearLoop) \<and>
    (started s \<longleftrightarrow> thread s \<noteq> NoThread) \<and>
    (joined s \<longrightarrow> thread s = Finished) \<and>
    (owner s = Testing \<or> owner s = Asleep \<or> owner s = DtorLock \<or> owner s = DtorWake \<longrightarrow> started s) \<and>
    (owner s = DtorWake \<longrightarrow> loop_ptr s \<and> waking (the_loop s) > 0) \<and>
    (owner s = Gone \<longrightarrow> joined s) \<and>
    (owner s = Failed SystemError \<longrightarrow> \<not> started s) \<and>
    (thread s = ClearLoop \<or> thread s = Finished \<longrightarrow> pc (the_loop s) = Exited) \<and>
    (thread s = NoThread \<or> thread s = InitCallback \<or> thread s = Publish \<longrightarrow> pc (the_loop s) = NotStarted)"

lemma EventLoopThread_new_inv: "EventLoopThread_inv quits EventLoopThread_new"
  by (simp add: EventLoopThread_inv_def EventLoopThread_new_def EventLoop_new_def)

lemma request_quit_reachable:
  assumes "loop_reachable quits l" and "request_quit l = (w, l')"
  shows "loop_reachable quits l' \<and> quit l' \<and> (w \<longrightarrow> waking l' > 0) \<and> pc l' = pc l"
proof (cases "quit l")
  case True
  with assms show ?thesis by (simp add: request_quit_def)
next
  case False
  with assms(2) have l': "l' = l\<lparr>quit := True, waking := waking l + 1\<rparr>" by (simp add: request_quit_def)
  have "loop_step quits l l'" unfolding l' loop_step_def by (intro disjI2 env_step.quit_set False)
  with assms(1) l' show ?thesis by (simp add: rtranclp.rtrancl_into_rtrancl)
qed

lemma finish_quit_reachable:
  assumes "loop_reachable quits l" and "waking l > 0"
  shows "loop_reachable quits (finish_quit l)"
proof -
  have "loop_step quits l (finish_quit l)"
    unfolding finish_quit_def loop_step_def by (intro disjI2 env_step.wake assms(2))
  with assms(1) show ?thesis by (rule rtranclp.rtrancl_into_rtrancl)
qed

lemma finish_quit_pc [simp]: "pc (finish_quit l) = pc l"
  by (simp add: finish_quit_def EventLoop_weakup_def)

lemma own_step_reachable: "loop_reachable quits l \<Longrightarrow> own_step quits l l' \<Longrightarrow> loop_reachable quits l'"
  by (auto simp: loop_step_def intro: rtranclp.rtrancl_into_rtrancl)

lemma env_step_reachable: "loop_reachable quits l \<Longrightarrow> env_step l l' \<Longrightarrow> loop_reachable quits l'"
  by (auto simp: loop_step_def intro: rtranclp.rtrancl_into_rtrancl)

lemma env_step_pc: "env_step l l' \<Longrightarrow> pc l \<noteq> Polling \<Longrightarrow> pc l' = pc l"
  by (erule env_stepE) (auto simp: push_pending_def EventLoop_quit_def Let_def)

lemma owner_step_inv: "owner_step s s' \<Longrightarrow> EventLoopThread_inv quits s \<Longrightarrow> EventLoopThread_inv quits s'"
proof (induction rule: owner_step.induct)
  case (dtor_quit s)
  obtain w l where q: "request_quit (the_loop s) = (w, l)" by fastforce
  with dtor_quit request_quit_reachable [of quits "the_loop s" w l] show ?case
    by (auto simp: EventLoopThread_inv_def EventLoopThread_dtorQuit_def)
next
  case (dtor_wake s)
  with finish_quit_reachable [of quits "the_loop s"] show ?case by (auto simp: EventLoopThread_inv_def)
qed (auto simp: EventLoopThread_inv_def EventLoopThread_start_def EventLoopThread_testLoop_def
    EventLoopThread_join_def EventLoopThread_destroy_def join_thread_def)

lemma thread_step_inv: "thread_step quits s s' \<Longrightarrow> EventLoopThread_inv quits s \<Longrightarrow> EventLoopThread_inv quits s'"
proof (induction rule: thread_step.induct)
  case (in_loop s l)
  then show ?case
    using own_step_reachable [of quits "the_loop s" l] own_step_keeps [of quits "the_loop s" l]
    by (auto simp: EventLoopThread_inv_def)
qed (auto simp: EventLoopThread_inv_def threadFunc_publish_def threadFunc_clear_def)

lemma others_step_inv: "others_step s s' \<Longrightarrow> EventLoopThread_inv quits s \<Longrightarrow> EventLoopThread_inv quits s'"
proof (induction rule: others_step.induct)
  case (others s l)
  note inv = others.prems [unfolded EventLoopThread_inv_def]
  have "loop_reachable quits l" using env_step_reachable [OF _ others.hyps(2)] inv by simp
  moreover have "pc l = NotStarted" if "pc (the_loop s) = NotStarted"
    using env_step_pc [OF others.hyps(2)] that by simp
  ultimately show ?case
    using others.hyps(1,3) inv by (elim disjE) (simp_all add: EventLoopThread_inv_def, blast+)
qed

lemma elt_step_inv: "elt_step quits s s' \<Longrightarrow> EventLoopThread_inv quits s \<Longrightarrow> EventLoopThread_inv quits s'"
  by (auto simp: elt_step_def dest: owner_step_inv thread_step_inv others_step_inv)

lemma elt_reachable_inv: "elt_reachable quits s \<Longrightarrow> EventLoopThread_inv quits s"
  by (induction rule: rtranclp_induct) (auto simp: EventLoopThread_new_inv dest: elt_step_inv)

text \<open>The wait in \<open>start\<close> loses no wake-up.\<close>

definition start_sleeper :: "event_loop_thread \<Rightarrow> unit set" where
  "start_sleeper s = (if owner s = Asleep then {()} else {})"

interpretation starter: monitor "elt_step quits" start_sleeper "\<lambda>s. \<not> loop_ptr s"
proof
  fix s s' t
  show "elt_step quits s s' \<Longrightarrow> t \<in> start_sleeper s' \<Longrightarrow> t \<notin> start_sleeper s \<Longrightarrow> \<not> loop_ptr s'"
    unfolding elt_step_def
    by (elim disjE owner_stepE thread_stepE others_stepE)
      (auto simp: start_sleeper_def EventLoopThread_start_def EventLoopThread_testLoop_def EventLoopThread_join_def
        EventLoopThread_destroy_def EventLoopThread_dtorQuit_def join_thread_def threadFunc_publish_def
        threadFunc_clear_def split: if_splits prod.splits)
  show "elt_step quits s s' \<Longrightarrow> t \<in> start_sleeper s' \<Longrightarrow> t \<in> start_sleeper s \<Longrightarrow> \<not> loop_ptr s \<Longrightarrow> \<not> loop_ptr s'"
    unfolding elt_step_def
    by (elim disjE owner_stepE thread_stepE others_stepE)
      (auto simp: start_sleeper_def threadFunc_publish_def threadFunc_clear_def split: if_splits)
qed

section \<open>Runs of the two threads alone\<close>

definition own_elt :: "(task \<Rightarrow> bool) \<Rightarrow> event_loop_thread \<Rightarrow> event_loop_thread \<Rightarrow> bool" where
  "own_elt quits s s' \<longleftrightarrow> owner_step s s' \<or> thread_step quits s s'"

abbreviation own_elts :: "(task \<Rightarrow> bool) \<Rightarrow> event_loop_thread \<Rightarrow> event_loop_thread \<Rightarrow> bool" where
  "own_elts quits \<equiv> (own_elt quits)\<^sup>*\<^sup>*"

lemma by_owner: "owner_step s t \<Longrightarrow> own_elts quits t u \<Longrightarrow> own_elts quits s u"
  by (auto simp: own_elt_def intro: converse_rtranclp_into_rtranclp)

lemma by_thread: "thread_step quits s t \<Longrightarrow> own_elts quits t u \<Longrightarrow> own_elts quits s u"
  by (auto simp: own_elt_def intro: converse_rtranclp_into_rtranclp)

lemma own_elts_steps: "own_elts quits s t \<Longrightarrow> (elt_step quits)\<^sup>*\<^sup>* s t"
  by (rule rtranclp_mono [THEN predicate2D, rotated]) (auto simp: own_elt_def elt_step_def)

text \<open>The loop's steps are steps of its thread.\<close>

lemma loop_runs:
  assumes "own_steps quits l l'" and "thread s = InLoop" and "the_loop s = l"
  shows "own_elts quits s (s\<lparr>the_loop := l'\<rparr>)"
  using assms
proof (induction rule: rtranclp_induct)
  case base
  then have "s\<lparr>the_loop := l\<rparr> = s" by (cases s) auto
  then show ?case by simp
next
  case (step l1 l2)
  let ?t = "s\<lparr>the_loop := l1\<rparr>"
  have "thread_step quits ?t (?t\<lparr>the_loop := l2\<rparr>)" using step by (intro thread_step.in_loop) simp_all
  then have "own_elt quits ?t (s\<lparr>the_loop := l2\<rparr>)" by (simp add: own_elt_def)
  with step show ?case by (meson rtranclp.rtrancl_into_rtrancl)
qed

text \<open>Once \<open>quit_\<close> is set in a running loop, its thread ends and \<open>join\<close> returns.\<close>

lemma join_completes:
  assumes inv: "EventLoop_inv (the_loop s)" and "quit (the_loop s)" "waking (the_loop s) = 0"
    and "pc (the_loop s) \<noteq> NotStarted" and "thread s = InLoop" and "owner s = DtorJoin" and "\<not> joined s"
  shows "\<exists>s'. own_elts quits s s' \<and> owner s' = Gone \<and> thread s' = Finished \<and> \<not> loop_ptr s'"
proof -
  obtain l where l: "own_steps quits (the_loop s) l" "pc l = Exited"
    using exits_all [OF inv assms(2-4)] unfolding exits_def by blast
  let ?s1 = "s\<lparr>the_loop := l\<rparr>"
  let ?s2 = "?s1\<lparr>thread := ClearLoop\<rparr>"
  let ?s3 = "threadFunc_clear ?s2"
  let ?s4 = "join_thread Gone ?s3"
  have 1: "own_elts quits s ?s1" using loop_runs [OF l(1)] assms by simp
  have 2: "thread_step quits ?s1 ?s2" using assms l by (intro thread_step.left_loop) simp_all
  have 3: "thread_step quits ?s2 ?s3" using assms by (intro thread_step.clear) simp_all
  have 4: "owner_step ?s3 ?s4" using assms by (intro owner_step.dtor_join) (simp_all add: threadFunc_clear_def)
  have "own_elts quits ?s1 ?s4"
    by (rule by_thread [OF 2], rule by_thread [OF 3], rule by_owner [OF 4], rule rtranclp.rtrancl_refl)
  with 1 show ?thesis
    by (intro exI [of _ ?s4]) (auto simp: join_thread_def threadFunc_clear_def)
qed

text \<open>A thread that has just published its loop, and the run that leads there.\<close>

definition published :: event_loop_thread where
  "published = EventLoopThread_new\<lparr>started := True, thread := InLoop, loop_ptr := True, owner := Idle\<rparr>"

lemma published_runs: "own_elts quits EventLoopThread_new published"
proof -
  let ?s1 = "EventLoopThread_start EventLoopThread_new"
  let ?s2 = "?s1\<lparr>thread := Publish\<rparr>"
  let ?s3 = "threadFunc_publish ?s2"
  note new = EventLoopThread_new_def EventLoopThread_start_def threadFunc_publish_def
  have 1: "owner_step EventLoopThread_new ?s1" by (intro owner_step.call_start) (simp add: new)
  have 2: "thread_step quits ?s1 ?s2" by (intro thread_step.init_done) (simp add: new)
  have 3: "thread_step quits ?s2 ?s3" by (intro thread_step.publish) (simp_all add: new)
  have 4: "owner_step ?s3 (EventLoopThread_testLoop ?s3)" by (intro owner_step.test_loop) (simp add: new)
  have "EventLoopThread_testLoop ?s3 = published"
    by (simp add: new published_def EventLoopThread_testLoop_def)
  with 1 2 3 4 show ?thesis by (metis by_owner by_thread rtranclp.rtrancl_refl)
qed

text \<open>The owner's part of the destructor.\<close>

lemma destructor_asks:
  assumes "owner s = Idle" and "started s" and "loop_ptr s" and "waking (the_loop s) = 0"
  shows "\<exists>t. own_elts quits (EventLoopThread_destroy s) t \<and> owner t = DtorJoin \<and> joined t = joined s \<and>
    thread t = thread s \<and> the_loop t = EventLoop_quit False (the_loop s) \<and> waking (the_loop t) = 0"
proof -
  let ?d = "EventLoopThread_destroy s"
  let ?q = "EventLoopThread_dtorQuit ?d"
  have d: "owner_step ?d ?q" using assms by (intro owner_step.dtor_quit) (simp add: EventLoopThread_destroy_def)
  show ?thesis
  proof (cases "quit (the_loop s)")
    case True
    with d assms show ?thesis
      by (intro exI [of _ ?q] conjI by_owner [OF d])
        (simp_all add: EventLoopThread_dtorQuit_def EventLoopThread_destroy_def request_quit_def EventLoop_quit_def)
  next
    case False
    let ?w = "?q\<lparr>the_loop := finish_quit (the_loop ?q), owner := DtorJoin\<rparr>"
    have q: "owner ?q = DtorWake" "the_loop ?q = (the_loop s)\<lparr>quit := True, waking := 1\<rparr>"
      using False assms by (simp_all add: EventLoopThread_dtorQuit_def EventLoopThread_destroy_def request_quit_def)
    have w: "owner_step ?q ?w" using q by (intro owner_step.dtor_wake)
    have "the_loop ?w = EventLoop_quit False (the_loop s)"
      using q False assms(4) by (simp add: finish_quit_def EventLoop_quit_def EventLoop_weakup_def)
    moreover have "waking (the_loop ?w) = 0" using q by (simp add: finish_quit_def)
    moreover have "joined ?w = joined s \<and> thread ?w = thread s"
      using False assms by (simp add: EventLoopThread_dtorQuit_def EventLoopThread_destroy_def request_quit_def)
    ultimately show ?thesis
      by (intro exI [of _ ?w] conjI by_owner [OF d] by_owner [OF w]) simp_all
  qed
qed

lemma quit_fields:
  "quit (EventLoop_quit inT l)" "pc (EventLoop_quit inT l) = pc l" "waking (EventLoop_quit inT l) = waking l"
  by (simp_all add: EventLoop_quit_def Let_def)

lemma quit_inv: "EventLoop_inv l \<Longrightarrow> EventLoop_inv (EventLoop_quit False l)"
  by (simp add: EventLoop_inv_def EventLoop_quit_def signalled_def)

section \<open>Properties\<close>

text \<open>
  C20. The destructor of a running loop thread returns: if the loop has been entered, nobody is in the middle
  of a wake-up and the owner has not joined yet, then the owner's and the thread's own steps lead, without
  any event from outside, to the end of the destructor, with the thread finished and \<open>loop_\<close> reset.
\<close>

theorem loop_thread_destructor_returns:
  assumes "elt_reachable quits s" and "owner s = Idle" and "\<not> joined s" and "thread s = InLoop"
    and "pc (the_loop s) \<noteq> NotStarted" and "waking (the_loop s) = 0"
  shows "\<exists>s'. own_elts quits (EventLoopThread_destroy s) s' \<and> owner s' = Gone \<and> thread s' = Finished \<and>
    \<not> loop_ptr s'"
proof -
  note inv = elt_reachable_inv [OF assms(1), unfolded EventLoopThread_inv_def]
  obtain t where t: "own_elts quits (EventLoopThread_destroy s) t" "owner t = DtorJoin" "joined t = joined s"
    "thread t = thread s" "the_loop t = EventLoop_quit False (the_loop s)"
    using destructor_asks [of s quits] inv assms by auto
  have "EventLoop_inv (the_loop t)" unfolding t(5) by (rule quit_inv, rule reachable_inv) (use inv in blast)
  from join_completes [OF this, of quits] t(2-5) assms(3-6)
  obtain s' where "own_elts quits t s'" "owner s' = Gone" "thread s' = Finished" "\<not> loop_ptr s'"
    by (auto simp: quit_fields)
  with t(1) show ?thesis by (meson rtranclp_trans)
qed

definition entered :: event_loop_thread where
  "entered = published\<lparr>the_loop := EventLoop_new\<lparr>looping := True, quit := False, pc := AtTest\<rparr>\<rparr>"

lemma entered_reachable: "elt_reachable quits entered"
proof -
  have "thread_step quits published entered"
    unfolding entered_def
    by (rule thread_step.in_loop, simp add: published_def)
      (use own_step.start [of EventLoop_new quits] in \<open>simp add: published_def EventLoopThread_new_def EventLoop_new_def\<close>)
  with published_runs [of quits] have "own_elts quits EventLoopThread_new entered"
    by (auto simp: own_elt_def intro: rtranclp.rtrancl_into_rtrancl)
  then show ?thesis by (rule own_elts_steps)
qed

theorem loop_thread_destructor_returns_witness:
  "\<exists>s'. own_elts (\<lambda>_. False) (EventLoopThread_destroy entered) s' \<and> owner s' = Gone"
  using loop_thread_destructor_returns [OF entered_reachable, of "\<lambda>_. False"]
  by (simp add: entered_def published_def EventLoopThread_new_def EventLoop_new_def) blast

text \<open>
  C38. The destructor can block forever: \<open>start\<close> returns once \<open>loop_\<close> is set, which is before the new thread
  enters \<open>loop()\<close>; if the destructor runs then, its \<open>quit\<close> is undone by \<open>loop()\<close>, the loop blocks in \<open>poll\<close>
  and the owner in \<open>join\<close>, and neither has a step.
\<close>

theorem loop_thread_destructor_can_hang:
  "\<exists>s. own_elts quits EventLoopThread_new s \<and> owner s = DtorJoin \<and> \<not> joined s \<and> pc (the_loop s) = Polling \<and>
    (\<forall>s'. \<not> own_elt quits s s')"
proof -
  have "\<exists>t. own_elts quits (EventLoopThread_destroy published) t \<and> owner t = DtorJoin \<and> joined t = joined published \<and>
      thread t = thread published \<and> the_loop t = EventLoop_quit False (the_loop published) \<and> waking (the_loop t) = 0"
    by (rule destructor_asks) (simp_all add: published_def EventLoopThread_new_def EventLoop_new_def)
  then obtain t where t: "own_elts quits (EventLoopThread_destroy published) t" "owner t = DtorJoin" "\<not> joined t"
    "thread t = InLoop" "the_loop t = EventLoop_quit False EventLoop_new"
    by (auto simp: published_def EventLoopThread_new_def)
  obtain l where l: "own_steps quits (the_loop t) l" "pc l = Polling" "\<forall>l'. \<not> own_step quits l l'"
    using quit_before_loop_is_lost [of quits] t(5) by auto
  let ?s = "t\<lparr>the_loop := l\<rparr>"
  have destroy: "owner_step published (EventLoopThread_destroy published)"
    by (intro owner_step.destroy) (simp add: published_def)
  have "own_elts quits EventLoopThread_new ?s"
    using published_runs [of quits] by_owner [OF destroy t(1)] loop_runs [OF l(1) t(4) refl]
    by (meson rtranclp_trans)
  moreover have "\<not> own_elt quits ?s s'" for s'
    using t l by (auto simp: own_elt_def elim!: owner_stepE thread_stepE)
  ultimately show ?thesis using t l by (intro exI [of _ ?s]) simp
qed

text \<open>
  The handshake never uses a destroyed loop and never joins twice: \<open>loop_\<close> is set exactly while the
  loop object lives and is published, the owner calls \<open>quit\<close> only on such a loop, \<open>join\<close> returns only after
  the thread has ended, and \<open>join\<close> throws only if \<open>start\<close> was never called (which the destructor of a thread
  that was never started does).
\<close>

theorem loop_thread_handshake:
  assumes "elt_reachable quits s"
  shows "(loop_ptr s \<longleftrightarrow> thread s = InLoop \<or> thread s = ClearLoop) \<and>
    (owner s = DtorWake \<longrightarrow> loop_ptr s) \<and> (owner s = Asleep \<longrightarrow> \<not> loop_ptr s) \<and>
    (owner s = Gone \<longrightarrow> thread s = Finished) \<and> (owner s = Failed SystemError \<longrightarrow> \<not> started s) \<and>
    EventLoop_inv (the_loop s)"
  using elt_reachable_inv [OF assms] reachable_inv [of quits "the_loop s"] starter.no_lost_wakeup [OF assms, of "()"]
  by (auto simp: EventLoopThread_inv_def start_sleeper_def EventLoopThread_new_def)

theorem loop_thread_handshake_witness: "loop_ptr published \<and> EventLoop_inv (the_loop published)"
  using loop_thread_handshake [OF own_elts_steps [OF published_runs]]
  by (auto simp: published_def)

end
