(* ===== verification/EventLoopThreadPool.thy ===== *)
theory EventLoopThreadPool
  imports EventLoopThread
begin

text \<open>
  The pool of loop threads (\<open>net/EventLoopThreadPool.h\<close>, \<open>net/EventLoopThreadPool.cc\<close>). A loop is named by
  its address; \<open>spawn i name\<close> is what \<open>EventLoopThread::start\<close> returned for the \<open>i\<close>-th thread, and
  \<open>hw\<close> the result of \<open>std::thread::hardware_concurrency\<close>. \<open>thread_names\<close> are the names of the threads.
\<close>

section \<open>State and operations\<close>

record loop_pool =
  loops :: "addr list"
  thread_names :: "string list"
  curNum :: nat
  threadNum :: nat
  nextIdx :: nat
  pool_started :: bool
  pool_name :: string

definition EventLoopThreadPool_new :: "nat \<Rightarrow> string \<Rightarrow> nat \<Rightarrow> loop_pool" where
  "EventLoopThreadPool_new hw name maxNum =
    (let n = (if maxNum > 0 then maxNum else hw)
     in \<lparr>loops = [], thread_names = [], curNum = 0, threadNum = (if n = 0 then 1 else n), nextIdx = 0,
         pool_started = False, pool_name = name\<rparr>)"

definition start_thread :: "(nat \<Rightarrow> string \<Rightarrow> addr) \<Rightarrow> string \<Rightarrow> nat \<Rightarrow> loop_pool \<Rightarrow> loop_pool" where
  "start_thread spawn ThreadPoolName i p =
    (let name = ThreadPoolName @ to_string i
     in p\<lparr>thread_names := thread_names p @ [name], loops := loops p @ [spawn i name], curNum := curNum p + 1\<rparr>)"

definition EventLoopThreadPool_start :: "(nat \<Rightarrow> string \<Rightarrow> addr) \<Rightarrow> loop_pool \<Rightarrow> loop_pool" where
  "EventLoopThreadPool_start spawn p =
    (if pool_started p then p
     else
       (let ThreadPoolName = (if pool_name p = [] then ''ClearMoonPool'' else pool_name p);
            p = fold (start_thread spawn ThreadPoolName) [0..<threadNum p] p
        in p\<lparr>pool_started := True\<rparr>))"

definition EventLoopThreadPool_getNextLoop :: "loop_pool \<Rightarrow> (addr \<times> loop_pool) res" where
  "EventLoopThreadPool_getNextLoop p =
    (if loops p = [] then Inl AssertFailed
     else
       (let i = (if nextIdx p \<ge> length (loops p) then 0 else nextIdx p)
        in Inr (loops p ! i, p\<lparr>nextIdx := i + 1\<rparr>)))"

text \<open>A sequence of calls, and the reference: the loops in turn.\<close>

fun next_loops :: "nat \<Rightarrow> loop_pool \<Rightarrow> (addr list \<times> loop_pool) res" where
  "next_loops 0 p = Inr ([], p)"
| "next_loops (Suc k) p =
    rbind (EventLoopThreadPool_getNextLoop p) (\<lambda>(l, p). rbind (next_loops k p) (\<lambda>(ls, p). Inr (l # ls, p)))"

definition in_turn :: "nat \<Rightarrow> addr list \<Rightarrow> nat \<Rightarrow> addr list" where
  "in_turn i ls k = map (\<lambda>j. ls ! ((i + j) mod length ls)) [0..<k]"

definition LoopPool_inv :: "loop_pool \<Rightarrow> bool" where
  "LoopPool_inv p \<longleftrightarrow>
    nextIdx p \<le> length (loops p) \<and> threadNum p > 0 \<and> length (thread_names p) = length (loops p) \<and>
    curNum p = length (loops p) \<and> length (loops p) = (if pool_started p then threadNum p else 0)"

section \<open>Lemmas\<close>

lemma EventLoopThreadPool_new_inv: "LoopPool_inv (EventLoopThreadPool_new hw name maxNum)"
  by (simp add: LoopPool_inv_def EventLoopThreadPool_new_def)

lemma start_threads:
  "let p' = fold (start_thread spawn nm) [0..<n] p in
    loops p' = loops p @ map (\<lambda>i. spawn i (nm @ to_string i)) [0..<n] \<and>
    thread_names p' = thread_names p @ map (\<lambda>i. nm @ to_string i) [0..<n] \<and>
    curNum p' = curNum p + n \<and> nextIdx p' = nextIdx p \<and> threadNum p' = threadNum p \<and>
    pool_started p' = pool_started p \<and> pool_name p' = pool_name p"
  by (induction n) (simp_all add: start_thread_def Let_def)

lemma start_result:
  assumes "LoopPool_inv p" and "\<not> pool_started p"
  shows "loops (EventLoopThreadPool_start spawn p) =
      map (\<lambda>i. spawn i ((if pool_name p = [] then ''ClearMoonPool'' else pool_name p) @ to_string i)) [0..<threadNum p]"
    and "LoopPool_inv (EventLoopThreadPool_start spawn p)"
    and "nextIdx (EventLoopThreadPool_start spawn p) = 0"
    and "pool_name (EventLoopThreadPool_start spawn p) = pool_name p"
  using assms start_threads [of spawn "if pool_name p = [] then ''ClearMoonPool'' else pool_name p" "threadNum p" p]
  by (auto simp: EventLoopThreadPool_start_def LoopPool_inv_def Let_def simp del: upt.simps)

lemma getNextLoop_step:
  assumes "LoopPool_inv p" and "pool_started p"
  shows "\<exists>p'. EventLoopThreadPool_getNextLoop p = Inr (loops p ! (nextIdx p mod length (loops p)), p') \<and>
    LoopPool_inv p' \<and> pool_started p' \<and> loops p' = loops p \<and> nextIdx p' = nextIdx p mod length (loops p) + 1"
  using assms
  by (intro exI [of _ "p\<lparr>nextIdx := nextIdx p mod length (loops p) + 1\<rparr>"])
    (cases "nextIdx p = length (loops p)", auto simp: EventLoopThreadPool_getNextLoop_def LoopPool_inv_def Let_def)

lemma in_turn_Suc:
  assumes "ls \<noteq> []"
  shows "in_turn i ls (Suc k) = ls ! (i mod length ls) # in_turn (i mod length ls + 1) ls k"
proof -
  have "(i + Suc j) mod length ls = (i mod length ls + 1 + j) mod length ls" for j
    by (metis add.assoc mod_add_left_eq plus_1_eq_Suc)
  then show ?thesis
    unfolding in_turn_def upt_conv_Cons [OF zero_less_Suc]
    by (simp add: map_Suc_upt [symmetric] del: upt_Suc)
qed

lemma next_loops_in_turn:
  assumes "LoopPool_inv p" and "pool_started p"
  shows "\<exists>p'. next_loops k p = Inr (in_turn (nextIdx p) (loops p) k, p') \<and> LoopPool_inv p' \<and> loops p' = loops p"
  using assms
proof (induction k arbitrary: p)
  case 0
  then show ?case by (simp add: in_turn_def)
next
  case (Suc k)
  obtain p' where p': "EventLoopThreadPool_getNextLoop p = Inr (loops p ! (nextIdx p mod length (loops p)), p')"
    "LoopPool_inv p'" "pool_started p'" "loops p' = loops p" "nextIdx p' = nextIdx p mod length (loops p) + 1"
    using getNextLoop_step [OF Suc.prems] by blast
  have "loops p \<noteq> []" using Suc.prems by (auto simp: LoopPool_inv_def)
  from in_turn_Suc [OF this] Suc.IH [OF p'(2,3)] p' show ?case by fastforce
qed

text \<open>In a stretch of \<open>n\<close> calls every one of the \<open>n\<close> loops comes once.\<close>

lemma residues_distinct:
  fixes n :: nat
  shows "inj_on (\<lambda>j. (i + j) mod n) {0..<n}"
proof (rule inj_onI)
  fix x y assume xy: "x \<in> {0..<n}" "y \<in> {0..<n}" and eq: "(i + x) mod n = (i + y) mod n"
  from eq obtain q q' where "i + x + n * q = i + y + n * q'" unfolding nat_mod_eq_iff by blast
  then have "x + n * q = y + n * q'" by simp
  then have "(x + n * q) mod n = (y + n * q') mod n" by simp
  with xy show "x = y" by simp
qed

lemma in_turn_permutes:
  assumes "ls \<noteq> []"
  shows "set (in_turn i ls (length ls)) = set ls" and "distinct ls \<Longrightarrow> distinct (in_turn i ls (length ls))"
proof -
  let ?n = "length ls" and ?r = "\<lambda>j. (i + j) mod length ls"
  have "?r ` {0..<?n} \<subseteq> {0..<?n}" using assms by auto
  with residues_distinct have im: "?r ` {0..<?n} = {0..<?n}" by (simp add: endo_inj_surj)
  have "set (in_turn i ls ?n) = (!) ls ` (?r ` {0..<?n})"
    by (simp add: in_turn_def image_image)
  then show "set (in_turn i ls ?n) = set ls"
    unfolding im by (auto simp: set_conv_nth)
  assume "distinct ls"
  then have "inj_on ((!) ls) (?r ` {0..<?n})" unfolding im by (auto simp: inj_on_nth)
  with residues_distinct [of i ?n] have "inj_on ((!) ls \<circ> ?r) {0..<?n}" by (rule comp_inj_on)
  then show "distinct (in_turn i ls ?n)" by (simp add: in_turn_def distinct_map o_def)
qed

section \<open>Properties\<close>

text \<open>
  A started pool hands out its loops in turn: it has as many loops as threads were asked for (at least
  one), no call asserts, the \<open>k\<close>-th call since then gives the loop \<open>k\<close> places further round, and in any
  stretch of as many calls as there are loops every loop comes, once if they are different.
\<close>

theorem pool_round_robin:
  assumes "LoopPool_inv p" and "pool_started p"
  shows "\<exists>p'. next_loops k p = Inr (in_turn (nextIdx p) (loops p) k, p') \<and> LoopPool_inv p' \<and>
    length (loops p) = threadNum p \<and>
    set (in_turn i (loops p) (threadNum p)) = set (loops p) \<and>
    (distinct (loops p) \<longrightarrow> distinct (in_turn i (loops p) (threadNum p)))"
proof -
  have "loops p \<noteq> []" "length (loops p) = threadNum p" using assms by (auto simp: LoopPool_inv_def)
  with next_loops_in_turn [OF assms, of k] in_turn_permutes [of "loops p" i] show ?thesis by auto
qed

theorem pool_round_robin_witness:
  "\<exists>p'. next_loops 4 (EventLoopThreadPool_start (\<lambda>i _. 100 + i) (EventLoopThreadPool_new 8 [] 3)) =
    Inr ([100, 101, 102, 100], p')"
proof -
  let ?p = "EventLoopThreadPool_new 8 [] 3" and ?spawn = "\<lambda>(i :: nat) (_ :: string). 100 + i :: addr"
  let ?s = "EventLoopThreadPool_start ?spawn ?p"
  have p: "\<not> pool_started ?p" "threadNum ?p = 3" "pool_name ?p = []" by (simp_all add: EventLoopThreadPool_new_def)
  note started = start_result [OF EventLoopThreadPool_new_inv p(1), of ?spawn]
  have s: "pool_started ?s" using p by (simp add: EventLoopThreadPool_start_def Let_def)
  have "in_turn (nextIdx ?s) (loops ?s) 4 = [100, 101, 102, 100]"
    unfolding started(1,3) p by (simp add: in_turn_def upt_rec)
  with pool_round_robin [OF started(2) s, of 4] show ?thesis by auto
qed

end
