(* ===== verification/TcpServer.thy ===== *)
theory TcpServer
  imports TcpConnection EventLoopThreadPool "HOL-Library.AList"
begin

text \<open>
  The server (\<open>net/TcpServer.h\<close>, \<open>net/TcpServer.cc\<close>): the table of connections of the base loop, and the
  functions it posts to the loops. A connection is represented by its name, its loop and its state; what it
  does in its loop is the subject of the theories on \<open>TcpConnection\<close>, of which the steps here are the
  outside. Loops are named by addresses, \<open>base\<close> is that of the base loop, and \<open>tasks l\<close> are the functions
  pending in loop \<open>l\<close>, which its thread runs in order. The loops of the pool run in other threads than the
  base loop, so what one posts to the other is always queued. \<open>established\<close> and \<open>destroyed\<close> record, for the
  statements only, the connections on which \<open>connectEstablelished\<close> and \<open>connectDestroyed\<close> have run.
\<close>

section \<open>State\<close>

record server_conn =
  sc_name :: string
  sc_loop :: addr
  sc_state :: conn_state

datatype server_task = Establish addr | ForceClose addr | RemoveInLoop addr | DestroyConn addr

record tcp_server =
  base :: addr
  alive :: bool
  srv_started :: bool
  nextConnId :: nat
  connections :: "(string \<times> addr) list"
  srv_pool :: loop_pool
  objs :: "addr \<Rightarrow> server_conn option"
  tasks :: "addr \<Rightarrow> server_task list"
  established :: "addr list"
  destroyed :: "addr list"

definition threadName :: string where
  "threadName = ''ClearMoon''"

definition TcpServer_new :: "addr \<Rightarrow> nat \<Rightarrow> tcp_server" where
  "TcpServer_new b hw =
    \<lparr>base = b, alive = True, srv_started = False, nextConnId = 1, connections = [],
     srv_pool = EventLoopThreadPool_new hw threadName 0, objs = (\<lambda>_. None), tasks = (\<lambda>_. []),
     established = [], destroyed = []\<rparr>"

definition post :: "addr \<Rightarrow> server_task \<Rightarrow> tcp_server \<Rightarrow> tcp_server" where
  "post l t s = s\<lparr>tasks := (tasks s)(l := tasks s l @ [t])\<rparr>"

definition take_task :: "addr \<Rightarrow> tcp_server \<Rightarrow> tcp_server" where
  "take_task l s = s\<lparr>tasks := (tasks s)(l := tl (tasks s l))\<rparr>"

definition set_state :: "addr \<Rightarrow> conn_state \<Rightarrow> tcp_server \<Rightarrow> tcp_server" where
  "set_state a st s = s\<lparr>objs := (objs s)(a := map_option (\<lambda>c. c\<lparr>sc_state := st\<rparr>) (objs s a))\<rparr>"

definition the_conn :: "addr \<Rightarrow> tcp_server \<Rightarrow> (server_conn \<Rightarrow> 'r res) \<Rightarrow> 'r res" where
  "the_conn a s f = (case objs s a of None \<Rightarrow> Inl UseAfterFree | Some c \<Rightarrow> f c)"

section \<open>Operations\<close>

text \<open>The acceptor's part of \<open>start\<close> and \<open>stop\<close> is in theory \<open>Acceptor\<close>.\<close>

definition TcpServer_start :: "(nat \<Rightarrow> string \<Rightarrow> addr) \<Rightarrow> tcp_server \<Rightarrow> tcp_server" where
  "TcpServer_start spawn s =
    (if srv_started s then s
     else s\<lparr>srv_pool := EventLoopThreadPool_start spawn (srv_pool s), srv_started := True\<rparr>)"

definition TcpServer_newConnection :: "addr \<Rightarrow> tcp_server \<Rightarrow> tcp_server res" where
  "TcpServer_newConnection a s =
    rbind (EventLoopThreadPool_getNextLoop (srv_pool s)) (\<lambda>(ioLoop, pool).
      let name = threadName @ ''#'' @ to_string (nextConnId s);
          s = s\<lparr>srv_pool := pool, nextConnId := nextConnId s + 1,
                objs := (objs s)(a \<mapsto> \<lparr>sc_name = name, sc_loop = ioLoop, sc_state = kConnecting\<rparr>)\<rparr>;
          s = s\<lparr>connections := AList.update name a (connections s)\<rparr>
      in Inr (post ioLoop (Establish a) s))"

definition TcpServer_removeConnection :: "addr \<Rightarrow> tcp_server \<Rightarrow> tcp_server res" where
  "TcpServer_removeConnection a s = Inr (post (base s) (RemoveInLoop a) s)"

definition TcpServer_removeConnectionInLoop :: "addr \<Rightarrow> tcp_server \<Rightarrow> tcp_server res" where
  "TcpServer_removeConnectionInLoop a s =
    (if \<not> alive s then Inl UseAfterFree
     else the_conn a s (\<lambda>c.
       let n = length (filter (\<lambda>kv. fst kv = sc_name c) (connections s));
           s = s\<lparr>connections := AList.delete (sc_name c) (connections s)\<rparr>
       in if n \<noteq> 1 then Inr s else Inr (post (sc_loop c) (DestroyConn a) s)))"

text \<open>\<open>forceClose\<close> from the base loop: the state is set at once, the rest is posted.\<close>

definition server_forceClose :: "addr \<Rightarrow> tcp_server \<Rightarrow> tcp_server res" where
  "server_forceClose a s =
    the_conn a s (\<lambda>c.
      if sc_state c = kConnected \<or> sc_state c = kDisConnecting
      then Inr (post (sc_loop c) (ForceClose a) (set_state a kDisConnecting s))
      else Inr s)"

definition TcpServer_stop :: "tcp_server \<Rightarrow> tcp_server res" where
  "TcpServer_stop s =
    (if \<not> srv_started s then Inr s
     else rfold (\<lambda>kv. server_forceClose (snd kv)) (connections s) (s\<lparr>srv_started := False\<rparr>))"

text \<open>
  The destructor stops the server; then its members go, the table first and the pool last. Destroying the pool
  waits for the threads of its loops, which may still run functions meanwhile; \<open>alive\<close> ends with the members.
\<close>

definition TcpServer_destroy :: "tcp_server \<Rightarrow> tcp_server res" where
  "TcpServer_destroy s = TcpServer_stop s"

definition TcpServer_members :: "tcp_server \<Rightarrow> tcp_server" where
  "TcpServer_members s = s\<lparr>alive := False, connections := []\<rparr>"

text \<open>
  \<open>handleClose\<close> of a connection, with the close callback of the server; and the functions that the loops run.
\<close>

definition server_handleClose :: "addr \<Rightarrow> tcp_server \<Rightarrow> tcp_server res" where
  "server_handleClose a s =
    the_conn a s (\<lambda>c.
      if sc_state c = kDisConnected then Inr s
      else if \<not> (sc_state c = kConnected \<or> sc_state c = kDisConnecting) then Inl AssertFailed
      else TcpServer_removeConnection a (set_state a kDisConnected s))"

fun server_run :: "server_task \<Rightarrow> tcp_server \<Rightarrow> tcp_server res" where
  "server_run (Establish a) s =
    the_conn a s (\<lambda>c.
      if sc_state c \<noteq> kConnecting then Inl AssertFailed
      else Inr ((set_state a kConnected s)\<lparr>established := established s @ [a]\<rparr>))"
| "server_run (ForceClose a) s =
    the_conn a s (\<lambda>c.
      if sc_state c = kConnected \<or> sc_state c = kDisConnecting then server_handleClose a s else Inr s)"
| "server_run (RemoveInLoop a) s = TcpServer_removeConnectionInLoop a s"
| "server_run (DestroyConn a) s =
    the_conn a s (\<lambda>c.
      Inr ((if sc_state c = kConnected then set_state a kDisConnected s else s)\<lparr>destroyed := destroyed s @ [a]\<rparr>))"

text \<open>
  Steps: the acceptor hands over a connection (\<open>a\<close> is the address of the new object), a loop runs its next
  function, the end of a connection is seen in its loop, the server is started or stopped.
\<close>

inductive server_step :: "tcp_server \<Rightarrow> tcp_server \<Rightarrow> bool" where
  accept: "srv_started s \<Longrightarrow> objs s a = None \<Longrightarrow> TcpServer_newConnection a s = Inr s' \<Longrightarrow> server_step s s'"
| run: "tasks s l = t # ts \<Longrightarrow> server_run t (take_task l s) = Inr s' \<Longrightarrow> server_step s s'"
| closes: "objs s a = Some c \<Longrightarrow> sc_state c \<noteq> kConnecting \<Longrightarrow> server_handleClose a s = Inr s' \<Longrightarrow> server_step s s'"
| shuts: "objs s a = Some c \<Longrightarrow> sc_state c = kConnected \<Longrightarrow> server_step s (set_state a kDisConnecting s)"
| start: "base s \<notin> range (\<lambda>i. spawn i (threadName @ to_string i)) \<Longrightarrow> server_step s (TcpServer_start spawn s)"
| stop: "TcpServer_stop s = Inr s' \<Longrightarrow> server_step s s'"

abbreviation server_reachable :: "addr \<Rightarrow> nat \<Rightarrow> tcp_server \<Rightarrow> bool" where
  "server_reachable b hw \<equiv> server_step\<^sup>*\<^sup>* (TcpServer_new b hw)"

section \<open>Invariant\<close>

text \<open>How often a task is pending.\<close>

definition pending :: "addr \<Rightarrow> server_task \<Rightarrow> tcp_server \<Rightarrow> nat" where
  "pending l t s = count_list (tasks s l) t"

text \<open>
  The life of the connection \<open>a\<close>: connecting (its establishment is pending), open, closed (its removal from
  the table is pending), removed (its destruction is pending or has been done).
\<close>

definition conn_life :: "addr \<Rightarrow> server_conn \<Rightarrow> tcp_server \<Rightarrow> bool" where
  "conn_life a c s \<longleftrightarrow>
    sc_loop c \<noteq> base s \<and>
    pending (sc_loop c) (Establish a) s = (if sc_state c = kConnecting then 1 else 0) \<and>
    count_list (established s) a = (if sc_state c = kConnecting then 0 else 1) \<and>
    (if (sc_name c, a) \<in> set (connections s)
     then pending (base s) (RemoveInLoop a) s = (if sc_state c = kDisConnected then 1 else 0) \<and>
       pending (sc_loop c) (DestroyConn a) s = 0 \<and> count_list (destroyed s) a = 0
     else sc_state c = kDisConnected \<and> pending (base s) (RemoveInLoop a) s = 0 \<and>
       pending (sc_loop c) (DestroyConn a) s + count_list (destroyed s) a = 1)"

text \<open>Tasks are posted to the loop they belong to, about connections that exist.\<close>

fun task_ok :: "addr \<Rightarrow> server_task \<Rightarrow> tcp_server \<Rightarrow> bool" where
  "task_ok l (RemoveInLoop a) s \<longleftrightarrow> l = base s \<and> objs s a \<noteq> None"
| "task_ok l (Establish a) s \<longleftrightarrow> map_option sc_loop (objs s a) = Some l"
| "task_ok l (ForceClose a) s \<longleftrightarrow> map_option sc_loop (objs s a) = Some l"
| "task_ok l (DestroyConn a) s \<longleftrightarrow> map_option sc_loop (objs s a) = Some l"

definition tasks_ok :: "tcp_server \<Rightarrow> bool" where
  "tasks_ok s \<longleftrightarrow> (\<forall>l. \<forall>t \<in> set (tasks s l). task_ok l t s) \<and>
    (\<forall>a \<in> set (established s) \<union> set (destroyed s). objs s a \<noteq> None)"

definition conn_name :: "nat \<Rightarrow> string" where
  "conn_name k = threadName @ ''#'' @ to_string k"

definition table_ok :: "tcp_server \<Rightarrow> bool" where
  "table_ok s \<longleftrightarrow>
    distinct (map fst (connections s)) \<and>
    (\<forall>name a. (name, a) \<in> set (connections s) \<longrightarrow> map_option sc_name (objs s a) = Some name) \<and>
    (\<forall>a n. map_option sc_name (objs s a) = Some n \<longrightarrow> (\<exists>k < nextConnId s. n = conn_name k)) \<and>
    (\<forall>a b. objs s a \<noteq> None \<longrightarrow> map_option sc_name (objs s a) = map_option sc_name (objs s b) \<longrightarrow> a = b)"

definition pool_ok :: "tcp_server \<Rightarrow> bool" where
  "pool_ok s \<longleftrightarrow> alive s \<and> LoopPool_inv (srv_pool s) \<and> pool_name (srv_pool s) = threadName \<and>
    base s \<notin> set (loops (srv_pool s)) \<and> (srv_started s \<longrightarrow> pool_started (srv_pool s))"

definition lives_ok :: "tcp_server \<Rightarrow> bool" where
  "lives_ok s \<longleftrightarrow> (\<forall>a c. objs s a = Some c \<longrightarrow> conn_life a c s)"

definition Server_inv :: "tcp_server \<Rightarrow> bool" where
  "Server_inv s \<longleftrightarrow> pool_ok s \<and> table_ok s \<and> lives_ok s \<and> tasks_ok s"

lemma conn_name_inject [simp]: "conn_name j = conn_name k \<longleftrightarrow> j = k"
  by (simp add: conn_name_def to_string_inject)

subsection \<open>Posting, taking and setting\<close>

lemma pending_post [simp]: "pending l t (post l' t' s) = pending l t s + (if l = l' \<and> t = t' then 1 else 0)"
  by (simp add: pending_def post_def)

lemma pending_take:
  "tasks s l' = t' # ts \<Longrightarrow> pending l t s = pending l t (take_task l' s) + (if l = l' \<and> t = t' then 1 else 0)"
  by (simp add: pending_def take_task_def)

lemma pending_cong: "tasks s' = tasks s \<Longrightarrow> pending l t s' = pending l t s"
  by (simp add: pending_def)

lemma post_fields [simp]:
  "base (post l t s) = base s" "alive (post l t s) = alive s" "srv_started (post l t s) = srv_started s"
  "nextConnId (post l t s) = nextConnId s" "connections (post l t s) = connections s"
  "srv_pool (post l t s) = srv_pool s" "objs (post l t s) = objs s" "established (post l t s) = established s"
  "destroyed (post l t s) = destroyed s"
  by (simp_all add: post_def)

lemma take_task_fields [simp]:
  "base (take_task l s) = base s" "alive (take_task l s) = alive s" "srv_started (take_task l s) = srv_started s"
  "nextConnId (take_task l s) = nextConnId s" "connections (take_task l s) = connections s"
  "srv_pool (take_task l s) = srv_pool s" "objs (take_task l s) = objs s"
  "established (take_task l s) = established s" "destroyed (take_task l s) = destroyed s"
  by (simp_all add: take_task_def)

lemma set_state_fields [simp]:
  "base (set_state a st s) = base s" "alive (set_state a st s) = alive s"
  "srv_started (set_state a st s) = srv_started s" "nextConnId (set_state a st s) = nextConnId s"
  "connections (set_state a st s) = connections s" "srv_pool (set_state a st s) = srv_pool s"
  "tasks (set_state a st s) = tasks s" "established (set_state a st s) = established s"
  "destroyed (set_state a st s) = destroyed s" "pending l t (set_state a st s) = pending l t s"
  by (simp_all add: set_state_def pending_def)

lemma objs_set_state:
  "objs (set_state a st s) b = (if b = a then map_option (sc_state_update (\<lambda>_. st)) (objs s b) else objs s b)"
  by (simp add: set_state_def)

lemma set_state_names [simp]:
  "map_option sc_name (objs (set_state a st s) b) = map_option sc_name (objs s b)"
  "map_option sc_loop (objs (set_state a st s) b) = map_option sc_loop (objs s b)"
  "objs (set_state a st s) b = None \<longleftrightarrow> objs s b = None"
  by (auto simp: objs_set_state option.map_comp comp_def cong: map_option_cong)

text \<open>What does not depend on the states of the connections.\<close>

lemma table_ok_simps [simp]:
  "table_ok (post l t s) = table_ok s" "table_ok (take_task l s) = table_ok s"
  "table_ok (set_state a st s) = table_ok s"
  by (simp_all add: table_ok_def)

lemma pool_ok_simps [simp]:
  "pool_ok (post l t s) = pool_ok s" "pool_ok (take_task l s) = pool_ok s" "pool_ok (set_state a st s) = pool_ok s"
  by (simp_all add: pool_ok_def)

lemma task_ok_cong:
  assumes "base s' = base s" and "\<And>a. map_option sc_loop (objs s' a) = map_option sc_loop (objs s a)"
  shows "task_ok l t s' = task_ok l t s"
proof -
  have "objs s' a = None \<longleftrightarrow> objs s a = None" for a using assms(2) [of a] by (metis option.map_disc_iff)
  with assms show ?thesis by (cases t) (simp_all only: task_ok.simps)
qed

lemma task_ok_simps [simp]:
  "task_ok l t (post l' t' s) = task_ok l t s" "task_ok l t (take_task l' s) = task_ok l t s"
  "task_ok l t (set_state a st s) = task_ok l t s"
  by (rule task_ok_cong; simp)+

lemma tasks_ok_post [simp]: "tasks_ok (post l t s) \<longleftrightarrow> tasks_ok s \<and> task_ok l t s"
  by (auto simp: tasks_ok_def) (auto simp: post_def split: if_splits)

lemma in_tl: "x \<in> set (tl xs) \<Longrightarrow> x \<in> set xs"
  by (cases xs) auto

lemma tasks_ok_take: "tasks_ok s \<Longrightarrow> tasks_ok (take_task l s)"
  by (auto simp: tasks_ok_def) (auto simp: take_task_def split: if_splits dest: in_tl)

lemma tasks_ok_set_state [simp]: "tasks_ok (set_state a st s) = tasks_ok s"
  by (auto simp: tasks_ok_def)

lemma conn_life_same:
  assumes "conn_life b c s" and "base s' = base s"
    and "\<And>l t. t \<in> {Establish b, RemoveInLoop b, DestroyConn b} \<Longrightarrow> pending l t s' = pending l t s"
    and "count_list (established s') b = count_list (established s) b"
    and "count_list (destroyed s') b = count_list (destroyed s) b"
    and "(sc_name c, b) \<in> set (connections s') \<longleftrightarrow> (sc_name c, b) \<in> set (connections s)"
  shows "conn_life b c s'"
  using assms by (simp add: conn_life_def)

lemma task_conn: "Server_inv s \<Longrightarrow> tasks s l = t # ts \<Longrightarrow> task_ok l t s"
  unfolding Server_inv_def tasks_ok_def by (metis list.set_intros(1))

lemma pending_pos: "pending l t s > 0 \<longleftrightarrow> t \<in> set (tasks s l)"
  unfolding pending_def neq0_conv [symmetric] count_list_0_iff by simp

text \<open>Only the connection that a step is about changes.\<close>

lemma lives_okI:
  assumes "lives_ok s" and "\<And>d. objs s' a = Some d \<Longrightarrow> conn_life a d s'" and "base s' = base s"
    and "\<And>b. b \<noteq> a \<Longrightarrow> objs s' b = objs s b"
    and "\<And>b l t. b \<noteq> a \<Longrightarrow> t \<in> {Establish b, RemoveInLoop b, DestroyConn b} \<Longrightarrow> pending l t s' = pending l t s"
    and "\<And>b. b \<noteq> a \<Longrightarrow> count_list (established s') b = count_list (established s) b"
    and "\<And>b. b \<noteq> a \<Longrightarrow> count_list (destroyed s') b = count_list (destroyed s) b"
    and "\<And>b c. b \<noteq> a \<Longrightarrow> objs s b = Some c \<Longrightarrow>
      (sc_name c, b) \<in> set (connections s') \<longleftrightarrow> (sc_name c, b) \<in> set (connections s)"
  shows "lives_ok s'"
  unfolding lives_ok_def
proof (intro allI impI)
  fix b d
  assume d: "objs s' b = Some d"
  show "conn_life b d s'"
  proof (cases "b = a")
    case False
    then have o: "objs s b = Some d" using assms(4) d by simp
    then have "conn_life b d s" using assms(1) by (simp add: lives_ok_def)
    then show ?thesis by (rule conn_life_same) (use False assms o in \<open>simp_all only:\<close>)
  qed (use assms(2) d in simp)
qed

subsection \<open>Every step keeps the invariant\<close>

lemma TcpServer_new_inv: "Server_inv (TcpServer_new b hw)"
  by (simp add: Server_inv_def TcpServer_new_def pool_ok_def table_ok_def lives_ok_def tasks_ok_def
      LoopPool_inv_def EventLoopThreadPool_new_def)

lemma run_establish:
  assumes "Server_inv s" and "tasks s l = Establish a # ts"
  shows "\<exists>s'. server_run (Establish a) (take_task l s) = Inr s' \<and> Server_inv s'"
proof -
  have "task_ok l (Establish a) s" by (rule task_conn [OF assms])
  then obtain c where c: "objs s a = Some c" "sc_loop c = l" by auto
  note P = pending_take [OF assms(2)]
  have life: "conn_life a c s" using assms(1) c by (simp add: Server_inv_def lives_ok_def)
  have st: "sc_state c = kConnecting" using life assms(2) c by (auto simp: conn_life_def pending_def split: if_splits)
  let ?s = "(set_state a kConnected (take_task l s))\<lparr>established := established s @ [a]\<rparr>"
  have run: "server_run (Establish a) (take_task l s) = Inr ?s" using c st by (simp add: the_conn_def)
  have pend: "pending l' t' ?s = pending l' t' (take_task l s)" for l' t' by (rule pending_cong) simp
  have "lives_ok s" using assms(1) by (simp add: Server_inv_def)
  then have "lives_ok ?s"
  proof (rule lives_okI [of _ _ a])
    fix d assume "objs ?s a = Some d"
    with c have "d = c\<lparr>sc_state := kConnected\<rparr>" by (simp add: objs_set_state)
    with life st c show "conn_life a d ?s" by (auto simp: conn_life_def pend P split: if_splits)
  qed (auto simp: pend P objs_set_state)
  moreover have "pool_ok ?s \<and> table_ok ?s \<and> tasks_ok ?s"
  proof -
    have "pool_ok (set_state a kConnected (take_task l s)) \<and> table_ok (set_state a kConnected (take_task l s)) \<and>
      tasks_ok (set_state a kConnected (take_task l s))"
      using assms(1) by (simp add: Server_inv_def tasks_ok_take)
    moreover have "task_ok l' t' ?s = task_ok l' t' (set_state a kConnected (take_task l s))" for l' t'
      by (rule task_ok_cong) simp_all
    ultimately show ?thesis using c by (auto simp: pool_ok_def table_ok_def tasks_ok_def)
  qed
  ultimately show ?thesis using run by (simp add: Server_inv_def)
qed

lemma length_filter_key:
  "distinct (map fst xs) \<Longrightarrow> length (filter (\<lambda>kv. fst kv = n) xs) = (if n \<in> fst ` set xs then 1 else 0)"
  by (induction xs) (auto simp: filter_empty_conv image_iff)

lemma in_table_only:
  "table_ok s \<Longrightarrow> objs s a = Some c \<Longrightarrow> (sc_name c, x) \<in> set (connections s) \<Longrightarrow> x = a"
  unfolding table_ok_def by (metis option.map(2) option.simps(3))

lemma in_table_iff:
  assumes "table_ok s" and "objs s a = Some c"
  shows "length (filter (\<lambda>kv. fst kv = sc_name c) (connections s)) = (if (sc_name c, a) \<in> set (connections s) then 1 else 0)"
proof -
  have "sc_name c \<in> fst ` set (connections s) \<longleftrightarrow> (sc_name c, a) \<in> set (connections s)"
  proof
    assume "sc_name c \<in> fst ` set (connections s)"
    then obtain x where "(sc_name c, x) \<in> set (connections s)" by auto
    with in_table_only [OF assms this] show "(sc_name c, a) \<in> set (connections s)" by simp
  qed force
  moreover have "distinct (map fst (connections s))" using assms(1) by (simp add: table_ok_def)
  ultimately show ?thesis by (simp add: length_filter_key)
qed

text \<open>Closing and forced closing need no more than the invariant.\<close>

lemma set_state_inv:
  assumes "Server_inv s" and "objs s a = Some c" and "sc_state c = kConnected \<or> sc_state c = kDisConnecting"
    and "st = kConnected \<or> st = kDisConnecting"
  shows "Server_inv (set_state a st s)"
proof -
  have life: "conn_life a c s" and "lives_ok s" using assms(1,2) by (simp_all add: Server_inv_def lives_ok_def)
  have st: "sc_state c \<noteq> kConnecting \<and> sc_state c \<noteq> kDisConnected \<and> st \<noteq> kConnecting \<and> st \<noteq> kDisConnected"
    using assms(3,4) by auto
  from \<open>lives_ok s\<close> have "lives_ok (set_state a st s)"
  proof (rule lives_okI [of _ _ a])
    fix d assume "objs (set_state a st s) a = Some d"
    with assms(2) have "d = c\<lparr>sc_state := st\<rparr>" by (simp add: objs_set_state)
    with life st show "conn_life a d (set_state a st s)" by (simp add: conn_life_def split: if_split_asm)
  qed (simp_all add: objs_set_state)
  with assms(1) show ?thesis by (simp add: Server_inv_def)
qed

lemma post_force_inv:
  assumes "Server_inv s" and "objs s a = Some c"
  shows "Server_inv (post (sc_loop c) (ForceClose a) s)"
  using assms by (auto simp: Server_inv_def lives_ok_def intro!: conn_life_same [of _ _ s "post l (ForceClose a) s" for l])

lemma take_force_inv:
  assumes "Server_inv s" and "tasks s l = ForceClose a # ts"
  shows "Server_inv (take_task l s)"
proof -
  note P = pending_take [OF assms(2)]
  from assms(1) show ?thesis
    by (auto simp: Server_inv_def lives_ok_def P intro!: conn_life_same [of _ _ s "take_task l s"] tasks_ok_take)
qed

lemma server_forceClose_ok:
  assumes "Server_inv s" and "objs s a \<noteq> None"
  shows "\<exists>s'. server_forceClose a s = Inr s' \<and> Server_inv s' \<and> (\<forall>b. objs s' b = None \<longleftrightarrow> objs s b = None)"
proof -
  from assms(2) obtain c where c: "objs s a = Some c" by auto
  have "Server_inv (post (sc_loop c) (ForceClose a) (set_state a kDisConnecting s))"
    if "sc_state c = kConnected \<or> sc_state c = kDisConnecting"
    using post_force_inv [OF set_state_inv [OF assms(1) c that], of kDisConnecting a "c\<lparr>sc_state := kDisConnecting\<rparr>"] c
    by (simp add: objs_set_state)
  with assms(1) c show ?thesis by (auto simp: server_forceClose_def the_conn_def)
qed

lemma server_handleClose_ok:
  assumes "Server_inv s" and "objs s a = Some c" and "sc_state c \<noteq> kConnecting"
  shows "\<exists>s'. server_handleClose a s = Inr s' \<and> Server_inv s'"
proof (cases "sc_state c = kDisConnected")
  case True
  with assms show ?thesis by (simp add: server_handleClose_def the_conn_def)
next
  case False
  with assms(3) have st: "sc_state c = kConnected \<or> sc_state c = kDisConnecting" by (cases "sc_state c") simp_all
  let ?s = "post (base s) (RemoveInLoop a) (set_state a kDisConnected s)"
  have run: "server_handleClose a s = Inr ?s"
    using assms(2) False st by (auto simp: server_handleClose_def the_conn_def TcpServer_removeConnection_def)
  have life: "conn_life a c s" and "lives_ok s" using assms(1,2) by (simp_all add: Server_inv_def lives_ok_def)
  from \<open>lives_ok s\<close> have "lives_ok ?s"
  proof (rule lives_okI [of _ _ a])
    fix d assume "objs ?s a = Some d"
    with assms(2) have "d = c\<lparr>sc_state := kDisConnected\<rparr>" by (simp add: objs_set_state)
    with life False assms(3) show "conn_life a d ?s" by (simp add: conn_life_def split: if_split_asm)
  qed (auto simp: objs_set_state)
  with run assms(1,2) show ?thesis by (simp add: Server_inv_def)
qed

lemma run_removeInLoop:
  assumes "Server_inv s" and "tasks s l = RemoveInLoop a # ts"
  shows "\<exists>s'. server_run (RemoveInLoop a) (take_task l s) = Inr s' \<and> Server_inv s'"
proof -
  have "task_ok l (RemoveInLoop a) s" by (rule task_conn [OF assms])
  then obtain c where c: "objs s a = Some c" and l: "l = base s" by auto
  note P = pending_take [OF assms(2)]
  have life: "conn_life a c s" and lives: "lives_ok s" and tab: "table_ok s" and al: "alive s"
    using assms(1) c by (simp_all add: Server_inv_def lives_ok_def pool_ok_def)
  have "pending (base s) (RemoveInLoop a) s > 0" using assms(2) l by (simp add: pending_pos)
  then have there: "(sc_name c, a) \<in> set (connections s)" and st: "sc_state c = kDisConnected"
    using life by (auto simp: conn_life_def split: if_splits)
  let ?s = "post (sc_loop c) (DestroyConn a)
    ((take_task l s)\<lparr>connections := AList.delete (sc_name c) (connections s)\<rparr>)"
  have run: "server_run (RemoveInLoop a) (take_task l s) = Inr ?s"
    using c al there in_table_iff [OF tab c]
    by (simp add: TcpServer_removeConnectionInLoop_def the_conn_def Let_def)
  have pend: "pending l' t' (take_task k s\<lparr>connections := cs\<rparr>) = pending l' t' (take_task k s)" for l' t' k cs by (rule pending_cong) simp
  from lives have "lives_ok ?s"
  proof (rule lives_okI [of _ _ a])
    fix d assume "objs ?s a = Some d"
    with c life there st l show "conn_life a d ?s" by (simp add: conn_life_def pend P AList.delete_eq)
  next
    fix b d assume "b \<noteq> a" and "objs s b = Some d"
    then have "sc_name d \<noteq> sc_name c" using tab c by (auto simp: table_ok_def)
    then show "(sc_name d, b) \<in> set (connections ?s) \<longleftrightarrow> (sc_name d, b) \<in> set (connections s)"
      by (auto simp: AList.delete_eq)
  qed (auto simp: pend P)
  moreover have "table_ok ?s"
    using tab by (auto simp: table_ok_def AList.delete_eq intro: distinct_map_filter)
  moreover have "pool_ok ?s" using assms(1) by (simp add: Server_inv_def pool_ok_def)
  moreover have "tasks_ok (take_task l s\<lparr>connections := cs\<rparr>)" for cs
    using assms(1) tasks_ok_take [of s l] task_ok_cong [of "take_task l s\<lparr>connections := cs\<rparr>" "take_task l s"]
    by (simp add: Server_inv_def tasks_ok_def)
  then have "tasks_ok ?s" using c by simp
  ultimately show ?thesis using run by (simp add: Server_inv_def)
qed

lemma run_destroyConn:
  assumes "Server_inv s" and "tasks s l = DestroyConn a # ts"
  shows "\<exists>s'. server_run (DestroyConn a) (take_task l s) = Inr s' \<and> Server_inv s'"
proof -
  have "task_ok l (DestroyConn a) s" by (rule task_conn [OF assms])
  then obtain c where c: "objs s a = Some c" "sc_loop c = l" by auto
  note P = pending_take [OF assms(2)]
  have life: "conn_life a c s" and lives: "lives_ok s" using assms(1) c by (simp_all add: Server_inv_def lives_ok_def)
  have "pending l (DestroyConn a) s > 0" using assms(2) by (simp add: pending_pos)
  then have gone: "(sc_name c, a) \<notin> set (connections s)" and st: "sc_state c = kDisConnected"
    using life c by (auto simp: conn_life_def split: if_splits)
  let ?s = "(take_task l s)\<lparr>destroyed := destroyed s @ [a]\<rparr>"
  have run: "server_run (DestroyConn a) (take_task l s) = Inr ?s" using c st by (simp add: the_conn_def)
  have pend: "pending l' t' ?s = pending l' t' (take_task l s)" for l' t' by (rule pending_cong) simp
  from lives have "lives_ok ?s"
  proof (rule lives_okI [of _ _ a])
    fix d assume "objs ?s a = Some d"
    with c life gone st show "conn_life a d ?s" by (simp add: conn_life_def pend P)
  qed (auto simp: pend P)
  moreover have "table_ok ?s \<and> pool_ok ?s" using assms(1) by (simp add: Server_inv_def table_ok_def pool_ok_def)
  moreover have "tasks_ok ?s"
    using assms(1) c tasks_ok_take [of s l] task_ok_cong [of ?s "take_task l s"]
    by (auto simp: Server_inv_def tasks_ok_def)
  ultimately show ?thesis using run by (simp add: Server_inv_def)
qed

lemma run_ok:
  assumes "Server_inv s" and "tasks s l = t # ts"
  shows "\<exists>s'. server_run t (take_task l s) = Inr s' \<and> Server_inv s'"
proof (cases t)
  case (ForceClose a)
  have inv: "Server_inv (take_task l s)" using assms ForceClose by (simp add: take_force_inv)
  have "task_ok l t s" by (rule task_conn [OF assms])
  then obtain c where c: "objs (take_task l s) a = Some c" using ForceClose by auto
  have "sc_state c \<noteq> kConnecting" if "sc_state c = kConnected \<or> sc_state c = kDisConnecting" using that by auto
  with inv c server_handleClose_ok [OF inv c] ForceClose show ?thesis by (simp add: the_conn_def)
qed (use assms run_establish run_removeInLoop run_destroyConn in auto)

lemma getNextLoop_pool:
  assumes "LoopPool_inv p" and "pool_started p"
  shows "\<exists>l p'. EventLoopThreadPool_getNextLoop p = Inr (l, p') \<and> l \<in> set (loops p) \<and> LoopPool_inv p' \<and>
    pool_started p' \<and> loops p' = loops p \<and> pool_name p' = pool_name p"
proof -
  have "loops p \<noteq> []" using assms by (auto simp: LoopPool_inv_def)
  then have "loops p ! (nextIdx p mod length (loops p)) \<in> set (loops p)" by simp
  with getNextLoop_step [OF assms] show ?thesis
    by (auto simp: EventLoopThreadPool_getNextLoop_def Let_def split: if_splits)
qed

lemma absent_pending:
  assumes "tasks_ok s" and "objs s a = None" and "t \<in> {Establish a, RemoveInLoop a, DestroyConn a, ForceClose a}"
  shows "pending l t s = 0"
proof -
  have "task_ok l t s" if "t \<in> set (tasks s l)" using assms(1) that by (simp add: tasks_ok_def)
  then have "t \<notin> set (tasks s l)" using assms(2,3) by auto
  then show ?thesis using pending_pos [of l t s] by simp
qed

lemma update_absent: "k \<notin> fst ` set xs \<Longrightarrow> AList.update k v xs = xs @ [(k, v)]"
  by (induction xs) auto

lemma accept_ok:
  assumes "Server_inv s" and "srv_started s" and "objs s a = None"
  shows "\<exists>s'. TcpServer_newConnection a s = Inr s' \<and> Server_inv s'"
proof -
  have pool: "pool_ok s" and tab: "table_ok s" and lives: "lives_ok s" and tk: "tasks_ok s"
    using assms(1) by (simp_all add: Server_inv_def)
  then obtain l p' where l: "EventLoopThreadPool_getNextLoop (srv_pool s) = Inr (l, p')"
      "l \<in> set (loops (srv_pool s))" "LoopPool_inv p'" "pool_started p'" "loops p' = loops (srv_pool s)"
      "pool_name p' = pool_name (srv_pool s)"
    using getNextLoop_pool [of "srv_pool s"] assms(2) by (auto simp: pool_ok_def)
  define nm where "nm = conn_name (nextConnId s)"
  have fresh: "map_option sc_name (objs s b) \<noteq> Some nm" for b
    using tab unfolding table_ok_def nm_def by (metis conn_name_inject less_irrefl)
  then have "nm \<notin> fst ` set (connections s)" using tab by (force simp: table_ok_def)
  then have upd: "AList.update nm a (connections s) = connections s @ [(nm, a)]" by (rule update_absent)
  let ?c = "\<lparr>sc_name = nm, sc_loop = l, sc_state = kConnecting\<rparr>"
  define t where "t = s\<lparr>srv_pool := p', nextConnId := nextConnId s + 1, objs := (objs s)(a \<mapsto> ?c),
    connections := connections s @ [(nm, a)]\<rparr>"
  have t: "objs t = (objs s)(a \<mapsto> ?c)" "connections t = connections s @ [(nm, a)]" "base t = base s"
      "nextConnId t = nextConnId s + 1" "srv_pool t = p'" "alive t = alive s" "srv_started t = srv_started s"
      "established t = established s" "destroyed t = destroyed s" "tasks t = tasks s"
    by (simp_all add: t_def)
  then have pend: "pending k x t = pending k x s" for k x by (intro pending_cong)
  have run: "TcpServer_newConnection a s = Inr (post l (Establish a) t)"
    using l(1) upd unfolding TcpServer_newConnection_def t_def nm_def conn_name_def by (simp add: Let_def)
  have "(nm, a) \<notin> set (connections s)" using \<open>nm \<notin> fst ` set (connections s)\<close> by force
  have never: "count_list (established s) a = 0" "count_list (destroyed s) a = 0"
    using tk assms(3) unfolding tasks_ok_def count_list_0_iff by blast+
  have "l \<noteq> base s" using pool l(2) by (auto simp: pool_ok_def)
  from lives have "lives_ok (post l (Establish a) t)"
  proof (rule lives_okI [of _ _ a])
    fix d assume "objs (post l (Establish a) t) a = Some d"
    then have "d = ?c" by (simp add: t)
    then show "conn_life a d (post l (Establish a) t)"
      using absent_pending [OF tk assms(3)] never \<open>l \<noteq> base s\<close> by (simp add: conn_life_def t pend)
  qed (auto simp: t pend)
  moreover have "table_ok (post l (Establish a) t)"
    unfolding table_ok_def
  proof (intro conjI allI impI)
    have "distinct (map fst (connections s))" using tab by (simp add: table_ok_def)
    with \<open>nm \<notin> fst ` set (connections s)\<close> show "distinct (map fst (connections (post l (Establish a) t)))" by (simp add: t)
  next
    fix n b assume "(n, b) \<in> set (connections (post l (Establish a) t))"
    then consider "n = nm" "b = a" | "map_option sc_name (objs s b) = Some n"
      using tab by (auto simp: table_ok_def t)
    then show "map_option sc_name (objs (post l (Establish a) t) b) = Some n"
      using assms(3) by cases (auto simp: t)
  next
    fix b n assume "map_option sc_name (objs (post l (Establish a) t) b) = Some n"
    then have "n = nm \<or> map_option sc_name (objs s b) = Some n" by (simp add: t split: if_splits)
    then have "n = conn_name (nextConnId s) \<or> (\<exists>k < nextConnId s. n = conn_name k)"
      using tab unfolding table_ok_def nm_def by blast
    then show "\<exists>k < nextConnId (post l (Establish a) t). n = conn_name k" by (auto simp: t less_Suc_eq)
  next
    fix b e assume "objs (post l (Establish a) t) b \<noteq> None"
      and "map_option sc_name (objs (post l (Establish a) t) b) = map_option sc_name (objs (post l (Establish a) t) e)"
    then show "b = e"
    proof (cases "b = a \<or> e = a")
      case True
      with \<open>map_option sc_name (objs (post l (Establish a) t) b) = _\<close> show ?thesis
        using fresh [of b] not_sym [OF fresh [of e]]
        by (simp add: t del: map_option_eq_Some split: if_split_asm)
    next
      case False
      with \<open>map_option sc_name (objs (post l (Establish a) t) b) = _\<close> \<open>objs (post l (Establish a) t) b \<noteq> None\<close>
      have "objs s b \<noteq> None" "map_option sc_name (objs s b) = map_option sc_name (objs s e)" by (simp_all add: t)
      then show ?thesis using tab unfolding table_ok_def by blast
    qed
  qed
  moreover have "pool_ok (post l (Establish a) t)" using pool l by (simp add: pool_ok_def t)
  moreover have "tasks_ok (post l (Establish a) t)"
  proof -
    have "task_ok k x t" if "task_ok k x s" for k x using that assms(3) by (cases x) (auto simp: t)
    with tk have "tasks_ok t" by (auto simp: tasks_ok_def t)
    then show ?thesis by (simp add: t)
  qed
  ultimately show ?thesis using run by (simp add: Server_inv_def)
qed

lemma start_ok:
  assumes "Server_inv s" and "base s \<notin> range (\<lambda>i. spawn i (threadName @ to_string i))"
  shows "Server_inv (TcpServer_start spawn s)"
proof -
  have pool: "pool_ok s" using assms(1) by (simp add: Server_inv_def)
  have p: "LoopPool_inv (EventLoopThreadPool_start spawn (srv_pool s)) \<and>
      pool_name (EventLoopThreadPool_start spawn (srv_pool s)) = threadName \<and>
      base s \<notin> set (loops (EventLoopThreadPool_start spawn (srv_pool s))) \<and>
      pool_started (EventLoopThreadPool_start spawn (srv_pool s))"
  proof (cases "pool_started (srv_pool s)")
    case True
    with pool show ?thesis by (simp add: EventLoopThreadPool_start_def pool_ok_def)
  next
    case False
    moreover have "pool_started (EventLoopThreadPool_start spawn (srv_pool s))"
      by (simp add: EventLoopThreadPool_start_def Let_def)
    ultimately show ?thesis
      using start_result [of "srv_pool s" spawn] pool assms(2) by (auto simp: pool_ok_def threadName_def)
  qed
  have "pool_ok (TcpServer_start spawn s)" using pool p by (auto simp: TcpServer_start_def pool_ok_def)
  moreover have "lives_ok (TcpServer_start spawn s)"
    using assms(1) pending_cong [of "TcpServer_start spawn s" s]
    by (auto simp: Server_inv_def lives_ok_def conn_life_def TcpServer_start_def)
  moreover have "tasks_ok (TcpServer_start spawn s)"
    using assms(1) task_ok_cong [of "TcpServer_start spawn s" s]
    by (auto simp: Server_inv_def tasks_ok_def TcpServer_start_def)
  moreover have "table_ok (TcpServer_start spawn s)"
    using assms(1) by (simp add: Server_inv_def table_ok_def TcpServer_start_def)
  ultimately show ?thesis by (simp add: Server_inv_def)
qed

lemma stop_ok:
  assumes "Server_inv s"
  shows "\<exists>s'. TcpServer_stop s = Inr s' \<and> Server_inv s'"
proof -
  have all: "\<exists>s'. rfold (\<lambda>kv. server_forceClose (snd kv)) xs s = Inr s' \<and> Server_inv s'"
    if "Server_inv s" and "\<forall>kv \<in> set xs. objs s (snd kv) \<noteq> None" for xs :: "(string \<times> addr) list" and s
    using that
  proof (induction xs arbitrary: s)
    case (Cons kv xs)
    then obtain t where "server_forceClose (snd kv) s = Inr t" "Server_inv t"
        "\<forall>b. objs t b = None \<longleftrightarrow> objs s b = None"
      using server_forceClose_ok [of s "snd kv"] by auto
    with Cons.IH [of t] Cons.prems show ?case by simp
  qed simp
  have "Server_inv (s\<lparr>srv_started := False\<rparr>)"
    using assms pending_cong [of "s\<lparr>srv_started := False\<rparr>" s] task_ok_cong [of "s\<lparr>srv_started := False\<rparr>" s]
    by (simp add: Server_inv_def pool_ok_def table_ok_def lives_ok_def conn_life_def tasks_ok_def)
  moreover have "\<forall>kv \<in> set (connections s). objs s (snd kv) \<noteq> None"
    using assms unfolding Server_inv_def table_ok_def by (metis option.map_disc_iff option.simps(3) prod.collapse)
  ultimately show ?thesis using assms all [of "s\<lparr>srv_started := False\<rparr>" "connections s"] by (simp add: TcpServer_stop_def)
qed

lemma server_step_inv: "server_step s s' \<Longrightarrow> Server_inv s \<Longrightarrow> Server_inv s'"
proof (induction rule: server_step.induct)
  case (accept s a s')
  then show ?case using accept_ok [of s a] by auto
next
  case (run s l t ts s')
  then show ?case using run_ok [of s l t ts] by auto
next
  case (closes s a c s')
  then show ?case using server_handleClose_ok [of s a c] by auto
next
  case (shuts s a c)
  then show ?case by (simp add: set_state_inv)
next
  case (start s spawn)
  then show ?case by (simp add: start_ok)
next
  case (stop s s')
  then show ?case using stop_ok [of s] by auto
qed

lemma server_reachable_inv: "server_reachable b hw s \<Longrightarrow> Server_inv s"
  by (induction rule: rtranclp_induct) (auto simp: TcpServer_new_inv dest: server_step_inv)

section \<open>Properties\<close>

lemma life_of: "Server_inv s \<Longrightarrow> objs s a = Some c \<Longrightarrow> conn_life a c s"
  by (simp add: Server_inv_def lives_ok_def)

lemma never_there: "Server_inv s \<Longrightarrow> objs s a = None \<Longrightarrow> a \<notin> set (established s) \<and> a \<notin> set (destroyed s)"
  unfolding Server_inv_def tasks_ok_def by blast

lemma at_most_once:
  assumes "Server_inv s"
  shows "count_list (established s) a \<le> 1 \<and> count_list (destroyed s) a \<le> 1"
proof (cases "objs s a")
  case None
  with never_there [OF assms] show ?thesis by (simp add: count_list_0_iff)
next
  case (Some c)
  with life_of [OF assms Some] show ?thesis by (auto simp: conn_life_def split: if_splits)
qed

lemma destroyed_conn:
  assumes "Server_inv s" and "a \<in> set (destroyed s)"
  shows "\<exists>c. objs s a = Some c \<and> sc_state c = kDisConnected \<and> a \<in> set (established s) \<and>
    (sc_name c, a) \<notin> set (connections s)"
proof -
  obtain c where c: "objs s a = Some c" using never_there [OF assms(1)] assms(2) by blast
  have "count_list (destroyed s) a \<noteq> 0" using assms(2) by (simp add: count_list_0_iff)
  with life_of [OF assms(1) c] have "(sc_name c, a) \<notin> set (connections s)" "sc_state c = kDisConnected"
    "count_list (established s) a \<noteq> 0" by (auto simp: conn_life_def split: if_splits)
  with c show ?thesis by (simp add: count_list_0_iff)
qed

lemma quiet_conn:
  assumes "Server_inv s" and "\<forall>l. tasks s l = []" and "objs s a = Some c"
  shows "if sc_state c = kConnected \<or> sc_state c = kDisConnecting
    then (sc_name c, a) \<in> set (connections s) \<and> count_list (destroyed s) a = 0
    else (sc_name c, a) \<notin> set (connections s) \<and> count_list (destroyed s) a = 1"
proof -
  have "pending l t s = 0" for l t using assms(2) by (simp add: pending_def)
  with life_of [OF assms(1,3)] show ?thesis
    by (cases "sc_state c") (simp_all add: conn_life_def split: if_split_asm)
qed

text \<open>What \<open>forceClose\<close> on one connection does to another, for the two theorems on \<open>stop\<close>.\<close>

lemma force_keeps_connecting:
  assumes "server_forceClose b s = Inr s'" and "objs s a = Some c" and "sc_state c = kConnecting"
  shows "objs s' a = Some c \<and> (\<forall>l. pending l (ForceClose a) s' = pending l (ForceClose a) s) \<and>
    srv_started s' = srv_started s"
  using assms by (cases "b = a") (auto simp: server_forceClose_def the_conn_def objs_set_state split: option.splits if_splits)

definition open_at :: "addr \<Rightarrow> addr \<Rightarrow> tcp_server \<Rightarrow> bool" where
  "open_at a l s \<longleftrightarrow> (\<exists>c. objs s a = Some c \<and> sc_loop c = l \<and> (sc_state c = kConnected \<or> sc_state c = kDisConnecting))"

lemma force_open:
  assumes "server_forceClose b s = Inr s'" and "open_at a l s"
  shows "open_at a l s' \<and> (b = a \<or> ForceClose a \<in> set (tasks s l) \<longrightarrow> ForceClose a \<in> set (tasks s' l))"
  using assms
  by (cases "b = a") (auto simp: server_forceClose_def the_conn_def open_at_def objs_set_state post_def
      split: option.splits if_splits)

lemma force_all:
  "rfold (\<lambda>kv. server_forceClose (snd kv)) xs s = Inr s' \<Longrightarrow> open_at a l s \<Longrightarrow>
    open_at a l s' \<and> (a \<in> snd ` set xs \<or> ForceClose a \<in> set (tasks s l) \<longrightarrow> ForceClose a \<in> set (tasks s' l))"
proof (induction xs arbitrary: s)
  case (Cons kv xs)
  from Cons.prems(1) obtain t where t: "server_forceClose (snd kv) s = Inr t"
      "rfold (\<lambda>kv. server_forceClose (snd kv)) xs t = Inr s'" by auto
  from force_open [OF t(1) Cons.prems(2)] Cons.IH [OF t(2)] show ?case by auto
qed simp

text \<open>A run for the witnesses: a server with two loops, a connection that arrives, and its establishment.\<close>

definition demo_started :: tcp_server where
  "demo_started = TcpServer_start (\<lambda>i name. if i = 0 then 1 else 2) (TcpServer_new 100 2)"

definition demo_accepted :: tcp_server where
  "demo_accepted = projr (TcpServer_newConnection 7 demo_started)"

definition demo_open :: tcp_server where
  "demo_open = projr (server_run (Establish 7) (take_task 1 demo_accepted))"

lemma demo_loops: "loops (srv_pool demo_started) = [1, 2]" "nextIdx (srv_pool demo_started) = 0"
  "nextConnId demo_started = 1" "connections demo_started = []" "objs demo_started = (\<lambda>_. None)"
  "tasks demo_started = (\<lambda>_. [])" "srv_started demo_started" "established demo_started = []"
  by (simp_all add: demo_started_def TcpServer_start_def TcpServer_new_def EventLoopThreadPool_new_def
      EventLoopThreadPool_start_def start_thread_def upt_rec numeral_2_eq_2 threadName_def)

lemma demo_accepted_step: "TcpServer_newConnection 7 demo_started = Inr demo_accepted"
  by (simp add: demo_accepted_def TcpServer_newConnection_def EventLoopThreadPool_getNextLoop_def demo_loops Let_def)

lemma demo_accepted_fields:
  "objs demo_accepted 7 = Some \<lparr>sc_name = conn_name 1, sc_loop = 1, sc_state = kConnecting\<rparr>"
  "tasks demo_accepted 1 = [Establish 7]" "connections demo_accepted = [(conn_name 1, 7)]" "srv_started demo_accepted"
  by (simp_all add: demo_accepted_def TcpServer_newConnection_def EventLoopThreadPool_getNextLoop_def demo_loops
      post_def conn_name_def Let_def)

lemma demo_open_step: "server_run (Establish 7) (take_task 1 demo_accepted) = Inr demo_open"
  by (simp add: demo_open_def the_conn_def demo_accepted_fields)

lemma demo_open_fields:
  "objs demo_open 7 = Some \<lparr>sc_name = conn_name 1, sc_loop = 1, sc_state = kConnected\<rparr>"
  "connections demo_open = [(conn_name 1, 7)]" "srv_started demo_open"
  by (simp_all add: demo_open_def the_conn_def demo_accepted_fields objs_set_state)

lemma demo_reachable: "server_reachable 100 2 demo_accepted" "server_reachable 100 2 demo_open"
proof -
  have "server_step (TcpServer_new 100 2) demo_started"
    unfolding demo_started_def
  proof (rule server_step.start)
    show "base (TcpServer_new 100 2) \<notin> range (\<lambda>i. if i = 0 then 1 else 2)"
      by (auto simp: TcpServer_new_def)
  qed
  moreover have "server_step demo_started demo_accepted"
    by (rule server_step.accept [of _ 7]) (simp_all add: demo_loops demo_accepted_step)
  ultimately show a: "server_reachable 100 2 demo_accepted" by simp
  have "server_step demo_accepted demo_open"
    by (rule server_step.run [OF demo_accepted_fields(2) demo_open_step])
  with a show "server_reachable 100 2 demo_open" by simp
qed

text \<open>
  C5. The server keeps track of its connections: whatever connections arrive, close and are closed by \<open>stop\<close>,
  in any interleaving of the loops, every function that is pending runs without a fault; the names in the
  table are unique; a connection is established at most once and destroyed at most once, and destroyed only
  after it was established, is disconnected and has left the table; and when no function is pending the table
  holds exactly the open connections, and the others have been destroyed exactly once.
\<close>

theorem server_connections_tracked:
  assumes "server_reachable b hw s"
  shows "(\<forall>l t ts. tasks s l = t # ts \<longrightarrow> (\<exists>s'. server_run t (take_task l s) = Inr s')) \<and>
    distinct (map fst (connections s)) \<and>
    (\<forall>a. count_list (established s) a \<le> 1 \<and> count_list (destroyed s) a \<le> 1) \<and>
    (\<forall>a \<in> set (destroyed s). \<exists>c. objs s a = Some c \<and> sc_state c = kDisConnected \<and> a \<in> set (established s) \<and>
      (sc_name c, a) \<notin> set (connections s)) \<and>
    ((\<forall>l. tasks s l = []) \<longrightarrow> (\<forall>a c. objs s a = Some c \<longrightarrow>
      (if sc_state c = kConnected \<or> sc_state c = kDisConnecting
       then (sc_name c, a) \<in> set (connections s) \<and> count_list (destroyed s) a = 0
       else (sc_name c, a) \<notin> set (connections s) \<and> count_list (destroyed s) a = 1)))"
proof (intro conjI allI ballI impI)
  note inv = server_reachable_inv [OF assms]
  show "tasks s l = t # ts \<Longrightarrow> \<exists>s'. server_run t (take_task l s) = Inr s'" for l t ts using run_ok [OF inv] by blast
  show "distinct (map fst (connections s))" using inv by (simp add: Server_inv_def table_ok_def)
  show "count_list (established s) a \<le> 1" "count_list (destroyed s) a \<le> 1" for a
    using at_most_once [OF inv] by simp_all
  show "\<exists>c. objs s a = Some c \<and> sc_state c = kDisConnected \<and> a \<in> set (established s) \<and>
      (sc_name c, a) \<notin> set (connections s)" if "a \<in> set (destroyed s)" for a
    using inv that by (rule destroyed_conn)
  show "if sc_state c = kConnected \<or> sc_state c = kDisConnecting
      then (sc_name c, a) \<in> set (connections s) \<and> count_list (destroyed s) a = 0
      else (sc_name c, a) \<notin> set (connections s) \<and> count_list (destroyed s) a = 1"
    if "\<forall>l. tasks s l = []" and "objs s a = Some c" for a c
    using inv that by (rule quiet_conn)
qed

theorem server_connections_tracked_witness:
  "(\<exists>s'. server_run (Establish 7) (take_task 1 demo_accepted) = Inr s') \<and> count_list (established demo_open) 7 \<le> 1"
  using server_connections_tracked [OF demo_reachable(1)] server_connections_tracked [OF demo_reachable(2)]
    demo_accepted_fields(2) by blast

text \<open>
  \<open>stop\<close> misses what is still connecting: a connection whose establishment is pending is not told to close, and
  is established by the stopped server when its loop gets to it.
\<close>

theorem server_stop_misses_connecting:
  assumes "server_reachable b hw s" and "srv_started s" and "objs s a = Some c" and "sc_state c = kConnecting"
  shows "\<exists>s'. TcpServer_stop s = Inr s' \<and> \<not> srv_started s' \<and> objs s' a = Some c \<and>
    (\<forall>l. pending l (ForceClose a) s' = pending l (ForceClose a) s) \<and>
    (\<exists>s''. server_run (Establish a) s' = Inr s'' \<and> map_option sc_state (objs s'' a) = Some kConnected)"
proof -
  from stop_ok [OF server_reachable_inv [OF assms(1)]] obtain s' where s': "TcpServer_stop s = Inr s'" by auto
  let ?P = "\<lambda>t. \<not> srv_started t \<and> objs t a = Some c \<and> (\<forall>l. pending l (ForceClose a) t = pending l (ForceClose a) s)"
  have init: "?P (s\<lparr>srv_started := False\<rparr>)" using assms(3) by (simp add: pending_def)
  have step: "?P t \<Longrightarrow> server_forceClose (snd kv) t = Inr t' \<Longrightarrow> ?P t'" for kv :: "string \<times> addr" and t t'
    using force_keeps_connecting [where a = a and b = "snd kv" and s = t and s' = t', OF _ _ assms(4)] by simp
  have "rfold (\<lambda>kv. server_forceClose (snd kv)) (connections s) (s\<lparr>srv_started := False\<rparr>) = Inr s'"
    using s' assms(2) by (simp add: TcpServer_stop_def)
  from rfold_invariant [of "connections s" ?P, OF step init this] have "?P s'" .
  moreover from this have "\<exists>s''. server_run (Establish a) s' = Inr s'' \<and> map_option sc_state (objs s'' a) = Some kConnected"
    using assms(4) by (simp add: the_conn_def objs_set_state)
  ultimately show ?thesis using s' by blast
qed

theorem server_stop_misses_connecting_witness:
  "\<exists>s'. TcpServer_stop demo_accepted = Inr s' \<and> \<not> srv_started s' \<and>
    (\<exists>s''. server_run (Establish 7) s' = Inr s'' \<and> map_option sc_state (objs s'' 7) = Some kConnected)"
  using server_stop_misses_connecting [OF demo_reachable(1) demo_accepted_fields(4) demo_accepted_fields(1)] by auto

text \<open>
  A server destroyed with open connections is used after it is gone: its destructor asks the connection to
  close, the loop of the connection, which the destructor waits for, hands the removal to the base loop, and
  the base loop runs it on the destroyed server.
\<close>

theorem destroyed_server_is_used:
  assumes "server_reachable b hw s" and "srv_started s" and "(n, a) \<in> set (connections s)"
    and "objs s a = Some c" and "sc_state c = kConnected"
  shows "\<exists>s' s''. TcpServer_destroy s = Inr s' \<and> ForceClose a \<in> set (tasks s' (sc_loop c)) \<and>
    server_run (ForceClose a) s' = Inr s'' \<and> RemoveInLoop a \<in> set (tasks s'' (base s'')) \<and>
    server_run (RemoveInLoop a) (TcpServer_members s'') = Inl UseAfterFree"
proof -
  from stop_ok [OF server_reachable_inv [OF assms(1)]] obtain s' where s': "TcpServer_stop s = Inr s'" by auto
  have "open_at a (sc_loop c) (s\<lparr>srv_started := False\<rparr>)" using assms(4,5) by (simp add: open_at_def)
  with s' assms(2) have "open_at a (sc_loop c) s' \<and>
      (a \<in> snd ` set (connections s) \<longrightarrow> ForceClose a \<in> set (tasks s' (sc_loop c)))"
    using force_all [of "connections s" "s\<lparr>srv_started := False\<rparr>" s' a "sc_loop c"] by (simp add: TcpServer_stop_def)
  then have o: "open_at a (sc_loop c) s'" and "ForceClose a \<in> set (tasks s' (sc_loop c))"
    using assms(3) by force+
  moreover from o have "server_run (ForceClose a) s' = Inr (post (base s') (RemoveInLoop a) (set_state a kDisConnected s'))"
    by (auto simp: open_at_def the_conn_def server_handleClose_def TcpServer_removeConnection_def)
  moreover have "RemoveInLoop a \<in> set (tasks (post (base s') (RemoveInLoop a) t) (base s'))" for t
    by (simp add: post_def)
  ultimately show ?thesis
    using s' by (auto simp: TcpServer_destroy_def TcpServer_members_def TcpServer_removeConnectionInLoop_def)
qed

theorem destroyed_server_is_used_witness:
  "\<exists>s' s''. TcpServer_destroy demo_open = Inr s' \<and> server_run (ForceClose 7) s' = Inr s'' \<and>
    server_run (RemoveInLoop 7) (TcpServer_members s'') = Inl UseAfterFree"
  using destroyed_server_is_used [OF demo_reachable(2) demo_open_fields(3) _ demo_open_fields(1)]
  by (auto simp: demo_open_fields(2))

end
