(* ===== verification/TcpClient.thy ===== *)
theory TcpClient
  imports Connector TcpConnection_Properties
begin

text \<open>
  The client (\<open>net/TcpClient.h\<close>, \<open>net/TcpClient.cc\<close>): a connector and at most one current connection, with the
  reference counts that decide when the connection object dies. \<open>cl_cw\<close> is the connector with the loop's
  poller and timer queue; \<open>cl_conn\<close> is the newest connection object while it lives, \<open>cl_connection\<close> whether
  \<open>connection_\<close> points to it, \<open>cl_users\<close> how many other copies of the pointer the user holds, and \<open>cl_posted\<close>
  the functions of the connection that wait in the loop, each of which holds one too.
\<close>

section \<open>State\<close>

record tcp_client =
  cl_cw :: connect_world
  cl_conn :: "tcp_connection option"
  cl_connection :: bool
  cl_users :: nat
  cl_posted :: "conn_task list"
  cl_connId :: nat
  cl_name :: string
  cl_trace :: "conn_event list"
  cl_accepted :: string

definition TcpClient_new :: "connect_world \<Rightarrow> nat \<Rightarrow> tcp_client" where
  "TcpClient_new cw connId =
    \<lparr>cl_cw = cw, cl_conn = None, cl_connection = False, cl_users = 0, cl_posted = [], cl_connId = connId,
     cl_name = [], cl_trace = [], cl_accepted = []\<rparr>"

text \<open>The connection \<open>k\<close> in its loop, and what an operation on it leaves.\<close>

definition as_world :: "tcp_connection \<Rightarrow> tcp_client \<Rightarrow> world" where
  "as_world k c =
    \<lparr>conn = k, poll_of = cn_poll (cl_cw c), tq = cn_tq (cl_cw c), in_thread = cn_thread (cl_cw c),
     posted = cl_posted c, timer_tasks = [], trace = cl_trace c, accepted = cl_accepted c\<rparr>"

definition of_world :: "world \<Rightarrow> tcp_client \<Rightarrow> tcp_client" where
  "of_world w c =
    c\<lparr>cl_conn := Some (conn w), cl_cw := (cl_cw c)\<lparr>cn_poll := poll_of w, cn_tq := tq w\<rparr>,
      cl_posted := posted w, cl_trace := trace w, cl_accepted := accepted w\<rparr>"

section \<open>Operations\<close>

text \<open>A copy of the pointer goes: with the last one goes the object.\<close>

definition client_release :: "tcp_client \<Rightarrow> tcp_client res" where
  "client_release c =
    (if cl_connection c \<or> cl_users c > 0 \<or> cl_posted c \<noteq> [] then Inr c
     else
       (case cl_conn c of
          None \<Rightarrow> Inr c
        | Some k \<Rightarrow>
            rbind (TcpConnection_destroy (as_world k c)) (\<lambda>w. Inr ((of_world w c)\<lparr>cl_conn := None\<rparr>))))"

text \<open>
  \<open>removeConnection\<close>, the close callback; \<open>current\<close> is whether \<open>connection_\<close> is the connection, and the first
  component of the result whether it still is. \<open>connectDestroyed\<close> runs in the connection's own handler.
\<close>

definition TcpClient_removeConnection :: "bool \<Rightarrow> world \<Rightarrow> (bool \<times> world) res" where
  "TcpClient_removeConnection current w =
    rbind (assert_thread w) (\<lambda>w.
      if current then rbind (TcpConnection_connectDestroyed w) (\<lambda>w. Inr (False, w)) else Inr (current, w))"

definition TcpClient_connected :: "tcp_client \<Rightarrow> bool" where
  "TcpClient_connected c \<longleftrightarrow>
    cl_connection c \<and> (case cl_conn c of Some k \<Rightarrow> tc_state k = kConnected | None \<Rightarrow> False)"

definition client_callbacks :: "conn_callbacks \<Rightarrow> bool \<Rightarrow> conn_callbacks" where
  "client_callbacks uc current =
    uc\<lparr>writeCompleteCallback := None,
       closeCallback := Some (\<lambda>w. rbind (TcpClient_removeConnection current w) (\<lambda>(_, w). Inr w))\<rparr>"

text \<open>
  An operation \<open>f\<close> of the connection whose last act is the close callback, if it makes that call. The pointer
  that the callback was given goes when it returns. (\<open>handleWrite\<close> still reads the connection after a close that
  ends a file transfer; here the object goes only after the whole operation, so what is shown to fail does so in
  the code as well.)
\<close>

definition client_event :: "conn_callbacks \<Rightarrow> (conn_callbacks \<Rightarrow> world \<Rightarrow> world res) \<Rightarrow> tcp_client \<Rightarrow> tcp_client res" where
  "client_event uc f c =
    (case cl_conn c of
       None \<Rightarrow> Inl UseAfterFree
     | Some k \<Rightarrow>
         rbind (f (client_callbacks uc (cl_connection c)) (as_world k c)) (\<lambda>w.
           if CallClose \<in> set (drop (length (cl_trace c)) (trace w))
           then client_release ((of_world w c)\<lparr>cl_connection := False\<rparr>)
           else Inr (of_world w c)))"

text \<open>
  \<open>newConnection\<close> with the descriptor \<open>fd\<close>: \<open>i\<close> and \<open>a\<close> identify the new object and its channel, \<open>r\<close> is the
  request for its idle timer. The pointer to an earlier connection goes.
\<close>

definition TcpClient_newConnection ::
  "conn_callbacks \<Rightarrow> nat \<Rightarrow> addr \<Rightarrow> timer_request \<Rightarrow> int \<Rightarrow> tcp_client \<Rightarrow> tcp_client res" where
  "TcpClient_newConnection uc i a r fd c =
    rbind (EventLoop_assertInLoopThread (cn_thread (cl_cw c)) c) (\<lambda>c.
      let c = c\<lparr>cl_name := ''TcpClient-'' @ to_string (cl_connId c), cl_connId := cl_connId c + 1,
                cl_cw := (cl_cw c)\<lparr>cn_poll := create_channel a fd (cn_poll (cl_cw c))\<rparr>\<rparr>
      in rbind (client_release (c\<lparr>cl_connection := False\<rparr>)) (\<lambda>c.
         client_event uc (\<lambda>cbs. TcpConnection_connectEstablelished cbs r)
           (c\<lparr>cl_conn := Some (TcpConnection_new i a fd), cl_connection := True, cl_users := 0, cl_posted := [],
              cl_trace := [], cl_accepted := []\<rparr>)))"

text \<open>
  An operation \<open>f\<close> of the connector: its new-connection callback moves the socket into the connection, whose
  socket object is \<open>b\<close>, and makes the connection.
\<close>

definition client_connector ::
  "conn_callbacks \<Rightarrow> nat \<Rightarrow> addr \<Rightarrow> timer_request \<Rightarrow> addr \<Rightarrow>
    (new_conn_callback option \<Rightarrow> connect_world \<Rightarrow> connect_world res) \<Rightarrow> tcp_client \<Rightarrow> tcp_client res" where
  "client_connector uc i a r b f c =
    rbind (f (Some (\<lambda>param local. on_socks (Socket_move b param))) (cl_cw c)) (\<lambda>cw.
      let c' = c\<lparr>cl_cw := cw\<rparr>
      in if length (handed cw) > length (handed (cl_cw c))
         then TcpClient_newConnection uc i a r (last (handed cw)) c' else Inr c')"

definition TcpClient_connect ::
  "conn_callbacks \<Rightarrow> nat \<Rightarrow> addr \<Rightarrow> timer_request \<Rightarrow> addr \<Rightarrow> connect_args \<Rightarrow> release_args \<Rightarrow> tcp_client \<Rightarrow> tcp_client res" where
  "TcpClient_connect uc i a r b k ra c = client_connector uc i a r b (\<lambda>cb. Connector_start cb k ra) c"

definition TcpClient_disconnect :: "conn_callbacks \<Rightarrow> release_args \<Rightarrow> tcp_client \<Rightarrow> tcp_client res" where
  "TcpClient_disconnect uc ra c =
    rbind (Connector_stop ra (cl_cw c)) (\<lambda>cw.
      let c = c\<lparr>cl_cw := cw\<rparr>
      in if cl_connection c then
           rbind (client_event uc TcpConnection_shutdown c) (\<lambda>c. client_release (c\<lparr>cl_connection := False\<rparr>))
         else Inr c)"

text \<open>The destructor: the connection is closed without the callback, then the pointers to it and to the connector go.\<close>

definition TcpClient_destroy :: "conn_callbacks \<Rightarrow> tcp_client \<Rightarrow> tcp_client res" where
  "TcpClient_destroy uc c =
    rbind
      (case cl_conn c of
         None \<Rightarrow> Inr c
       | Some k \<Rightarrow>
           if cl_connection c then
             rbind (TcpConnection_forceClose (uc\<lparr>writeCompleteCallback := None, closeCallback := Some Inr\<rparr>) (as_world k c))
               (\<lambda>w. client_release ((of_world w c)\<lparr>cl_connection := False\<rparr>))
           else Inr c)
      (\<lambda>c. if cn_posted (cl_cw c) = []
           then rbind (Connector_destroy (cl_cw c)) (\<lambda>cw. Inr (c\<lparr>cl_cw := cw\<rparr>)) else Inr c)"

text \<open>
  The events of the connection's channel, as \<open>handleEvent\<close> sees them; \<open>sys\<close> is the result of \<open>readv\<close> and \<open>out\<close>
  those of the calls of \<open>handleWrite\<close>.
\<close>

definition client_revents :: "addr \<Rightarrow> tcp_client \<Rightarrow> 32 word option" where
  "client_revents a c = map_option ch_revents (channels (cn_poll (cl_cw c)) a)"

definition client_calls ::
  "conn_callbacks \<Rightarrow> errno + char list \<Rightarrow> (errno + nat) \<times> (errno + nat) \<times> (errno + nat) \<Rightarrow> timestamp \<Rightarrow> timer_request \<Rightarrow>
    ev_call \<Rightarrow> (tcp_client \<Rightarrow> tcp_client res) option" where
  "client_calls uc sys out t r k =
    (case k of
       ErrorCall \<Rightarrow> Some (client_event uc TcpConnection_handleError)
     | ReadCall \<Rightarrow> Some (client_event uc (\<lambda>cbs. TcpConnection_handleRead cbs sys t r))
     | WriteCall \<Rightarrow> Some (client_event uc (\<lambda>cbs. case out of (s1, s2, s3) \<Rightarrow> TcpConnection_handleWrite cbs s1 s2 s3 r)))"

section \<open>Lemmas\<close>

lemma as_world_fields [simp]:
  "conn (as_world k c) = k" "poll_of (as_world k c) = cn_poll (cl_cw c)" "tq (as_world k c) = cn_tq (cl_cw c)"
  "in_thread (as_world k c) = cn_thread (cl_cw c)" "posted (as_world k c) = cl_posted c"
  "trace (as_world k c) = cl_trace c" "accepted (as_world k c) = cl_accepted c"
  by (simp_all add: as_world_def)

lemma of_world_fields [simp]:
  "cl_conn (of_world w c) = Some (conn w)" "cn_poll (cl_cw (of_world w c)) = poll_of w" "cn_tq (cl_cw (of_world w c)) = tq w"
  "cn_thread (cl_cw (of_world w c)) = cn_thread (cl_cw c)" "cl_posted (of_world w c) = posted w"
  "cl_trace (of_world w c) = trace w" "cl_accepted (of_world w c) = accepted w"
  "cl_connection (of_world w c) = cl_connection c" "cl_users (of_world w c) = cl_users c"
  by (simp_all add: of_world_def)

text \<open>The last pointer to a connection that has released everything goes: the object and its channel are gone.\<close>

lemma client_release_released:
  assumes "cl_conn c = Some k" and "conn_inv E (as_world k c)" and "released E (as_world k c)"
    and "\<not> cl_connection c" and "cl_users c = 0" and "cl_posted c = []"
  shows "\<exists>c'. client_release c = Inr c' \<and> cl_conn c' = None \<and> \<not> cl_connection c' \<and>
    channels (cn_poll (cl_cw c')) = (channels (cn_poll (cl_cw c)))(tc_channel k := None) \<and>
    Poller_inv (cn_poll (cl_cw c')) \<and> \<not> registered (tc_channel k) (cn_poll (cl_cw c')) \<and>
    cn_tq (cl_cw c') = cn_tq (cl_cw c) \<and> cl_trace c' = cl_trace c \<and>
    cl_cw c' = (cl_cw c)\<lparr>cn_poll := cn_poll (cl_cw c')\<rparr>"
proof -
  from destroy_released [OF assms(2,3)] obtain p where p:
    "TcpConnection_destroy (as_world k c) = Inr ((as_world k c)\<lparr>poll_of := p\<rparr>)" "Poller_inv p"
    "channels p = (channels (cn_poll (cl_cw c)))(tc_channel k := None)" "\<not> registered (tc_channel k) p" by auto
  let ?c = "(of_world ((as_world k c)\<lparr>poll_of := p\<rparr>) c)\<lparr>cl_conn := None\<rparr>"
  have "client_release c = Inr ?c" using assms(1,4,5,6) p(1) by (simp add: client_release_def)
  with p(2-4) assms(4) show ?thesis by (intro exI [of _ ?c]) (simp add: of_world_def)
qed

text \<open>\<open>handleClose\<close> with the client's close callback.\<close>

lemma close_callback:
  assumes "conn_inv E w" and "released E w"
  shows "\<exists>p. invoke (closeCallback (client_callbacks uc current)) CallClose w = Inr ((emit CallClose w)\<lparr>poll_of := p\<rparr>) \<and>
    conn_inv E ((emit CallClose w)\<lparr>poll_of := p\<rparr>) \<and> released E ((emit CallClose w)\<lparr>poll_of := p\<rparr>)"
proof -
  let ?w = "emit CallClose w"
  have inv: "conn_inv E ?w" using assms(1) by simp
  have rel: "released E ?w" using assms(2) by (simp add: released_cong [of ?w w])
  have thr: "in_thread ?w" by (rule conn_inv_thread [OF inv])
  show ?thesis
  proof (cases current)
    case True
    with connectDestroyed_released [OF inv rel] thr show ?thesis
      by (auto simp: invoke_def client_callbacks_def TcpClient_removeConnection_def)
  next
    case False
    then have "invoke (closeCallback (client_callbacks uc current)) CallClose w = Inr (?w\<lparr>poll_of := poll_of ?w\<rparr>)"
      using thr by (simp add: invoke_def client_callbacks_def TcpClient_removeConnection_def)
    moreover have "?w\<lparr>poll_of := poll_of ?w\<rparr> = ?w" by simp
    ultimately show ?thesis using inv rel by metis
  qed
qed

text \<open>An operation that closes the connection, when the client has the only pointer.\<close>

lemma closing_event:
  assumes c: "cl_conn c = Some k" "cl_users c = 0" "cl_posted c = []"
    and f: "f (client_callbacks uc (cl_connection c)) (as_world k c) =
      invoke (closeCallback (client_callbacks uc (cl_connection c))) CallClose w1"
    and w1: "conn_inv E w1" "released E w1" "trace w1 = cl_trace c @ es" "posted w1 = []"
      "tc_channel (conn w1) = tc_channel k" "in_thread w1 = cn_thread (cl_cw c)"
  shows "\<exists>c'. client_event uc f c = Inr c' \<and> cl_conn c' = None \<and> \<not> cl_connection c' \<and>
    channels (cn_poll (cl_cw c')) (tc_channel k) = None \<and> \<not> registered (tc_channel k) (cn_poll (cl_cw c')) \<and>
    cl_trace c' = cl_trace c @ es @ [CallClose] \<and> cn_tq (cl_cw c') = tq w1"
proof -
  obtain p where p: "invoke (closeCallback (client_callbacks uc (cl_connection c))) CallClose w1 =
      Inr ((emit CallClose w1)\<lparr>poll_of := p\<rparr>)"
    "conn_inv E ((emit CallClose w1)\<lparr>poll_of := p\<rparr>)" "released E ((emit CallClose w1)\<lparr>poll_of := p\<rparr>)"
    using close_callback [OF w1(1,2)] by blast
  let ?w = "(emit CallClose w1)\<lparr>poll_of := p\<rparr>"
  let ?c = "(of_world ?w c)\<lparr>cl_connection := False\<rparr>"
  have thr: "cn_thread (cl_cw c)" "in_thread w1" using conn_inv_thread [OF w1(1)] w1(6) by simp_all
  have "conn_inv E (as_world (conn ?w) ?c)" using p(2) thr by (subst conn_inv_cong [of _ ?w]) simp_all
  moreover have "released E (as_world (conn ?w) ?c)" using p(3) by (subst released_cong [of _ ?w]) simp_all
  ultimately obtain c' where c': "client_release ?c = Inr c'" "cl_conn c' = None" "\<not> cl_connection c'"
    "channels (cn_poll (cl_cw c')) (tc_channel k) = None" "\<not> registered (tc_channel k) (cn_poll (cl_cw c'))"
    "cl_trace c' = trace ?w" "cn_tq (cl_cw c') = tq w1"
    using client_release_released [of ?c "conn ?w" E] c w1(4,5) by (auto simp: emit_def)
  have "CallClose \<in> set (drop (length (cl_trace c)) (trace ?w))" using w1(3) by (simp add: emit_def)
  then have "client_event uc f c = Inr c'" using c(1) f p(1) c'(1) by (simp add: client_event_def)
  with c' w1(3) show ?thesis by (auto simp: emit_def)
qed

text \<open>So the client's pointer goes with such an operation, and with it the object.\<close>

lemma closing_event_gone:
  assumes inv: "conn_inv E (as_world k c)" and c: "cl_conn c = Some k" "cl_users c = 0" "cl_posted c = []"
    and f: "closes_conn E (client_callbacks uc (cl_connection c)) (as_world k c)
      (f (client_callbacks uc (cl_connection c)) (as_world k c))"
  shows "\<exists>c'. client_event uc f c = Inr c' \<and> cl_conn c' = None \<and> client_revents (tc_channel k) c' = None"
proof -
  obtain w1 where w1: "f (client_callbacks uc (cl_connection c)) (as_world k c) =
      invoke (closeCallback (client_callbacks uc (cl_connection c))) CallClose w1" "conn_inv E w1" "released E w1"
      "trace w1 = cl_trace c @ closed_file (as_world k c)" "posted w1 = []" "tc_channel (conn w1) = tc_channel k"
    using f c(3) by (auto simp: closes_conn_def evolves_def)
  have "in_thread w1 = cn_thread (cl_cw c)" using conn_inv_thread [OF w1(2)] conn_inv_thread [OF inv] by simp
  from closing_event [where f = f and uc = uc and c = c and k = k, OF c w1 this] show ?thesis
    by (auto simp: client_revents_def)
qed

text \<open>A connection comes about: the descriptor moves into the connection, and nobody else watches it.\<close>

lemma fd_unwatched:
  assumes "Poller_inv p" and "Poller_inv p'" and "channels p a = Some ch" and "registered a p"
    and "channels p' = (channels p)(a := None)"
  shows "ChannelMap p' (ch_fd ch) = None"
proof (rule ccontr)
  assume "ChannelMap p' (ch_fd ch) \<noteq> None"
  then obtain x where "ChannelMap p' (ch_fd ch) = Some x" by auto
  from Poller_invD(3) [OF assms(2) this] obtain cx where
    x: "channels p' x = Some cx" "ch_fd cx = ch_fd ch" "ch_index cx = kAdded" by blast
  with assms(5) have "x \<noteq> a" "channels p x = Some cx" by (auto split: if_splits)
  then have "ChannelMap p (ch_fd ch) = Some x" using Poller_invD(2) [OF assms(1) _ x(3)] x(2) by metis
  moreover have "ch_index ch = kAdded" using assms(3,4) registered_iff [OF assms(1)] by auto
  then have "ChannelMap p (ch_fd ch) = Some a" using Poller_invD(2) [OF assms(1,3)] by blast
  ultimately show False using \<open>x \<noteq> a\<close> by simp
qed

lemma handed_to_client:
  assumes inv: "Connector_inv E w" and st: "cn_state (cn w) = Connecting"
    and free: "socks (cn_socks w) (ra_param ra) = None" "socks (cn_socks w) b = None" "b \<noteq> ra_param ra"
  shows "\<exists>v fd. Connector_handleWrite (Some (\<lambda>param local. on_socks (Socket_move b param))) 0 ra w = Inr v \<and>
    handed v = handed w @ [fd] \<and> Connector_inv E v \<and> cn_state (cn v) = Connected \<and> ChannelMap (cn_poll v) fd = None \<and>
    socks (cn_socks v) b = Some fd \<and>
    (\<forall>x. channels (cn_poll w) x = None \<longrightarrow> channels (cn_poll v) x = None) \<and>
    timers_live E (cn_tq v) = (timers_live E (cn_tq w))(cn_timeoutId (cn w) := None) \<and>
    (\<forall>r. fresh_timer r (cn_tq w) \<longrightarrow> fresh_timer r (cn_tq v))"
proof -
  obtain a ch where a: "cn_channel (cn w) = Some a" "channels (cn_poll w) a = Some ch" "below_ok E w"
      "socks (cn_socks w) (cn_sock (cn w)) = Some (ch_fd ch)" "registered a (cn_poll w)"
    using connectingE [OF inv st] unfolding attempt_ok_def by (metis option.inject)
  let ?f = "\<lambda>param local. on_socks (Socket_move b param)" and ?fd = "ch_fd ch" and ?p = "ra_param ra" and ?s = "cn_sock (cn w)"
  obtain u where u: "Connector_handleWrite (Some ?f) 0 ra w = hand_over (Some ?f) ra u" "below_ok E u"
      "cn_channel (cn u) = None" "cn_state (cn u) = Connected" "cn_sock (cn u) = cn_sock (cn w)"
      "cn_socks u = cn_socks w" "handed u = handed w"
      "timers_live E (cn_tq u) = (timers_live E (cn_tq w))(cn_timeoutId (cn w) := None)"
      "channels (cn_poll u) = (channels (cn_poll w))(a := None)"
      "\<forall>r. fresh_timer r (cn_tq w) \<longrightarrow> fresh_timer r (cn_tq u)"
    using handleWrite_connected [OF inv st, of "Some ?f" ra] a(1) by blast
  have ne: "?s \<noteq> ?p" "?s \<noteq> b" using a(4) free by auto
  obtain s1 where s1: "Socket_move ?p ?s (cn_socks w) = Inr s1" "Socket_inv s1"
    using Socket_apply_ok [OF below_okD(4) [OF a(3)], of "MoveSocket ?p ?s"] free(1) a(4) by auto
  then have socks1: "socks s1 = (socks (cn_socks w))(?p \<mapsto> ?fd, ?s \<mapsto> -1)"
    using a(4) ne by (auto simp: Socket_move_def the_sock_def set_sock_def)
  obtain s2 where s2: "Socket_move b ?p s1 = Inr s2" "Socket_inv s2"
    using Socket_apply_ok [OF s1(2), of "MoveSocket b ?p"] free(2,3) socks1 ne by auto
  then have socks2: "socks s2 = (socks s1)(b \<mapsto> ?fd, ?p \<mapsto> -1)"
    using socks1 ne free(3) by (auto simp: Socket_move_def the_sock_def set_sock_def)
  obtain s3 where s3: "Socket_destroy ?p s2 = Inr s3" "Socket_inv s3"
    using Socket_apply_ok [OF s2(2), of "DestroySocket ?p"] socks2 by auto
  then have socks3: "socks s3 = (socks s2)(?p := None)"
    by (auto simp: Socket_destroy_def the_sock_def Let_def sys_close_def split: option.splits if_splits)
  let ?v = "u\<lparr>handed := handed w @ [?fd], cn_socks := s3\<rparr>"
  have "Connector_handleWrite (Some ?f) 0 ra w = Inr ?v"
    using u(1,5,6,7) s1(1) s2(1) s3(1) a(4) by (simp add: hand_over_def on_socks_def)
  moreover have "Connector_inv E ?v"
    by (rule idle_inv) (use u s3(2) socks1 socks2 socks3 ne in \<open>simp_all add: below_ok_def\<close>)
  moreover have "ChannelMap (cn_poll u) ?fd = None"
    using fd_unwatched [OF below_okD(2) [OF a(3)] below_okD(2) [OF u(2)] a(2,5) u(9)] .
  moreover have "socks s3 b = Some ?fd" using socks2 socks3 free(3) by simp
  ultimately show ?thesis using u(4,8,9,10) by (intro exI [of _ ?v] exI [of _ ?fd]) simp
qed

lemma client_connected:
  assumes inv: "Connector_inv E (cl_cw c)" and st: "cn_state (cn (cl_cw c)) = Connecting" and none: "cl_conn c = None"
    and free: "socks (cn_socks (cl_cw c)) (ra_param ra) = None" "socks (cn_socks (cl_cw c)) b = None" "b \<noteq> ra_param ra"
    and new: "channels (cn_poll (cl_cw c)) a = None" "fresh_timer r (cn_tq (cl_cw c))"
      "\<forall>j n. timers_live E (cn_tq (cl_cw c)) j \<noteq> Some (Closure i n)"
    and cb: "connectionCallback uc = Some Inr"
  shows "\<exists>c' k fd. client_connector uc i a r b (\<lambda>cb. Connector_handleWrite cb 0 ra) c = Inr c' \<and>
    cl_conn c' = Some k \<and> cl_connection c' \<and> cl_users c' = 0 \<and> cl_posted c' = [] \<and> tc_state k = kConnected \<and>
    tc_channel k = a \<and> tc_fd k = fd \<and> handed (cl_cw c') = handed (cl_cw c) @ [fd] \<and> socks (cn_socks (cl_cw c')) b = Some fd \<and>
    registered a (cn_poll (cl_cw c')) \<and> conn_inv E (as_world k c') \<and> cl_trace c' = [CallConnection] \<and>
    Connector_inv E (cl_cw c') \<and> cn_state (cn (cl_cw c')) = Connected"
proof -
  obtain v fd where v: "Connector_handleWrite (Some (\<lambda>param local. on_socks (Socket_move b param))) 0 ra (cl_cw c) = Inr v"
      "handed v = handed (cl_cw c) @ [fd]" "Connector_inv E v" "cn_state (cn v) = Connected" "ChannelMap (cn_poll v) fd = None"
      "socks (cn_socks v) b = Some fd" "channels (cn_poll v) a = None"
      "timers_live E (cn_tq v) = (timers_live E (cn_tq (cl_cw c)))(cn_timeoutId (cn (cl_cw c)) := None)"
      "fresh_timer r (cn_tq v)"
    using handed_to_client [OF inv st free] new(1,2) by blast
  have below: "below_ok E v" and idle: "cn_channel (cn v) = None" using v(3,4) by (auto simp: Connector_inv_def split: option.splits)
  let ?k = "TcpConnection_new i a fd" and ?w = "new_world i a fd (cn_poll v) (cn_tq v)"
  define c2 where "c2 = c\<lparr>cl_name := ''TcpClient-'' @ to_string (cl_connId c), cl_connId := cl_connId c + 1,
    cl_cw := v\<lparr>cn_poll := create_channel a fd (cn_poll v)\<rparr>, cl_conn := Some ?k,
    cl_connection := True, cl_users := 0, cl_posted := [], cl_trace := [], cl_accepted := []\<rparr>"
  have c2: "cl_conn c2 = Some ?k" "cl_connection c2" "cl_users c2 = 0" "cl_posted c2 = []" "cl_trace c2 = []"
      "cl_cw c2 = v\<lparr>cn_poll := create_channel a fd (cn_poll v)\<rparr>" "cl_accepted c2 = []"
    by (simp_all add: c2_def)
  have w: "as_world ?k c2 = ?w" using below_okD(1) [OF below] c2 by (simp add: as_world_def new_world_def)
  have inv': "conn_inv E ?w"
    using below_okD(2,3) [OF below] v(5,7,8) new(3) by (intro new_world_inv) auto
  have st': "state_of ?w = kConnecting" "fresh_timer r (tq ?w)" "trace ?w = []" "posted ?w = []"
    using v(9) by (simp_all add: new_world_def TcpConnection_new_def)
  from established_result [OF inv' st'(1,2), of "client_callbacks uc True"] obtain w1 where w1:
      "TcpConnection_connectEstablelished (client_callbacks uc True) r ?w = Inr (emit CallConnection w1)"
      "conn_inv E w1" "evolves ?w w1" "state_of w1 = kConnected" "trace w1 = []" "posted w1 = []"
    using cb st'(3,4) by (auto simp: client_callbacks_def invoke_def)
  let ?c' = "of_world (emit CallConnection w1) c2"
  have ev: "client_event uc (\<lambda>cbs. TcpConnection_connectEstablelished cbs r) c2 = Inr ?c'"
    using w1(1,5) c2 by (simp add: client_event_def w emit_def)
  have "TcpClient_newConnection uc i a r fd (c\<lparr>cl_cw := v\<rparr>) =
      client_event uc (\<lambda>cbs. TcpConnection_connectEstablelished cbs r) c2"
    using below_okD(1) [OF below] none unfolding c2_def
    by (simp add: TcpClient_newConnection_def EventLoop_assertInLoopThread_def client_release_def Let_def del: append_Cons append_Nil)
  with v(1,2) ev have run: "client_connector uc i a r b (\<lambda>cb. Connector_handleWrite cb 0 ra) c = Inr ?c'"
    by (simp add: client_connector_def Let_def)
  have thr: "in_thread w1" "cn_thread v" using conn_inv_thread [OF w1(2)] below_okD(1) [OF below] by simp_all
  have "conn_inv E (as_world (conn w1) ?c')"
    using w1(2) thr c2(6) by (subst conn_inv_cong [of _ "emit CallConnection w1"]) simp_all
  moreover have "Connector_inv E (cl_cw ?c')"
    using below idle v(4) w1(2) c2(6)
    by (intro idle_inv) (simp_all add: of_world_def below_ok_def conn_inv_def conn_ok_def)
  moreover have "registered a (poll_of w1) \<and> tc_channel (conn w1) = a \<and> tc_fd (conn w1) = fd"
    using w1(2,3,4) by (auto simp: conn_inv_def conn_flags_def evolves_def new_world_def TcpConnection_new_def)
  ultimately show ?thesis
    using run v(2,4,6) w1(4,5,6) c2
    by (intro exI [of _ ?c'] exI [of _ "conn w1"] exI [of _ fd]) (simp add: of_world_def emit_def)
qed

text \<open>What the poller reports on the channel is no part of the invariant.\<close>

lemma revents_inv:
  assumes inv: "conn_inv E w" and ch: "my_channel w = Some ch"
  shows "conn_inv E (w\<lparr>poll_of := set_channel (tc_channel (conn w)) (ch\<lparr>ch_revents := ev\<rparr>) (poll_of w)\<rparr>)"
proof -
  let ?a = "tc_channel (conn w)" and ?ch = "ch\<lparr>ch_revents := ev\<rparr>"
  let ?w = "w\<lparr>poll_of := set_channel ?a ?ch (poll_of w)\<rparr>"
  have p: "Poller_inv (poll_of w)" using inv by (simp add: conn_inv_def conn_ok_def)
  then have p': "Poller_inv (set_channel ?a ?ch (poll_of w))" by (rule set_channel_inv [OF _ ch]) simp_all
  have reg: "registered ?a (set_channel ?a ?ch (poll_of w)) = registered ?a (poll_of w)"
    using p p' ch by (simp add: registered_iff) (simp add: set_channel_def)
  have asks: "channel_isWriting ?w = channel_isWriting w" "channel_isReading ?w = channel_isReading w"
    using ch by (simp_all add: channel_isWriting_def channel_isReading_def set_channel_def Channel_isWriting_def
        Channel_isReading_def)
  have "conn_ok E ?w" using inv p' ch by (auto simp: conn_inv_def conn_ok_def fd_free_def set_channel_def)
  moreover have "conn_flags ?w = conn_flags w" by (simp add: conn_flags_def asks reg)
  moreover have "conn_stream ?w" "conn_owns E ?w" using inv by (simp_all add: conn_inv_def conn_stream_def conn_owns_def)
  ultimately show ?thesis using inv by (simp add: conn_inv_def)
qed

text \<open>A client whose connection is as in the world \<open>w\<close>.\<close>

definition demo_client :: "world \<Rightarrow> tcp_client" where
  "demo_client w =
    (TcpClient_new (demo_connect_world\<lparr>cn := (cn demo_connect_world)\<lparr>cn_state := Connected\<rparr>,
       cn_poll := poll_of w, cn_tq := tq w\<rparr>) 1)
      \<lparr>cl_conn := Some (conn w), cl_connection := True, cl_trace := trace w, cl_accepted := accepted w\<rparr>"

lemma demo_client_ok:
  assumes "conn_inv {} w"
  shows "conn_inv {} (as_world (conn w) (demo_client w))" "Connector_inv {} (cl_cw (demo_client w))"
    "cn_state (cn (cl_cw (demo_client w))) = Connected" "cl_conn (demo_client w) = Some (conn w)"
    "cl_connection (demo_client w)" "cl_users (demo_client w) = 0" "cl_posted (demo_client w) = []"
proof -
  have thr: "in_thread w" by (rule conn_inv_thread [OF assms])
  then show "conn_inv {} (as_world (conn w) (demo_client w))"
    using assms by (subst conn_inv_cong [of _ w]) (simp_all add: demo_client_def TcpClient_new_def demo_connect_world_def)
  show "Connector_inv {} (cl_cw (demo_client w))"
    using assms demo_connect_world_inv
    by (intro idle_inv) (auto simp: demo_client_def TcpClient_new_def demo_connect_world_def below_ok_def Connector_inv_def
        conn_inv_def conn_ok_def)
qed (simp_all add: demo_client_def TcpClient_new_def demo_connect_world_def)

section \<open>Properties\<close>



text \<open>
  C36. A connection of the client that the peer closes, or that fails, destroys its own channel in the middle of that
  channel's \<open>handleEvent\<close>: \<open>removeConnection\<close> gives up the last pointer, unlike the server, which posts the
  end of the connection to the loop. \<open>handleEvent\<close> then reads the freed channel.
\<close>

theorem client_peer_close_uses_freed_channel:
  assumes "conn_inv E (as_world k c)" and "conn_open (as_world k c)"
    and "cl_conn c = Some k" and "cl_users c = 0" and "cl_posted c = []"
    and "client_revents (tc_channel k) c = Some ev" and "on_error ev \<or> on_read ev"
  shows "Channel_handleEvent (client_revents (tc_channel k)) (client_calls uc (Inr []) out t r) c = Inl UseAfterFree"
proof -
  note gone = closing_event_gone [OF assms(1,3-5)]
  obtain c1 where c1: "client_event uc TcpConnection_handleError c = Inr c1" "client_revents (tc_channel k) c1 = None"
    using gone [of uc TcpConnection_handleError] handleError_closes [OF assms(1,2)] by blast
  obtain c2 where c2: "client_event uc (\<lambda>cbs. TcpConnection_handleRead cbs (Inr []) t r) c = Inr c2"
      "client_revents (tc_channel k) c2 = None"
    using gone [of uc "\<lambda>cbs. TcpConnection_handleRead cbs (Inr []) t r"] handleRead_closes [OF assms(1,2)] by blast
  show ?thesis
  proof (cases "on_error ev")
    case True
    with assms(6) c1 show ?thesis by (simp add: Channel_handleEvent_def event_call_def client_calls_def)
  next
    case False
    with assms(6,7) c2 show ?thesis by (simp add: Channel_handleEvent_def event_call_def client_calls_def)
  qed
qed

theorem client_peer_close_uses_freed_channel_witness:
  "\<exists>c. client_revents 16 c = Some EPOLLIN \<and>
    Channel_handleEvent (client_revents 16) (client_calls no_callbacks (Inr []) (Inr 0, Inr 0, Inr 0) 0 demo_request) c =
      Inl UseAfterFree"
proof -
  let ?v = "demo_world kConnected [] (-1) []"
  have inv: "conn_inv {} ?v" by (rule demo_world_inv) simp_all
  obtain ch where ch: "my_channel ?v = Some ch" by (simp add: demo_world_def)
  let ?w = "?v\<lparr>poll_of := set_channel (tc_channel (conn ?v)) (ch\<lparr>ch_revents := EPOLLIN\<rparr>) (poll_of ?v)\<rparr>"
  let ?c = "demo_client ?w"
  note ok = demo_client_ok [OF revents_inv [OF inv ch, of EPOLLIN]]
  have k: "tc_channel (conn ?w) = 16" "conn_open (as_world (conn ?w) ?c)" by (simp_all add: demo_world_def)
  have ev: "client_revents (tc_channel (conn ?w)) ?c = Some EPOLLIN"
    by (simp add: client_revents_def demo_client_def TcpClient_new_def set_channel_def)
  have "on_error EPOLLIN \<or> on_read EPOLLIN" by (simp add: on_read_def epoll_masks)
  from client_peer_close_uses_freed_channel [OF ok(1) k(2) ok(4,6,7) ev this] ev k(1) show ?thesis by metis
qed

text \<open>
  The client's destructor, with the only pointers and in the loop's thread, closes an open connection without
  calling back the client: the connection object, its registration and all its timers are gone.
\<close>

theorem client_destructor_closes:
  assumes "conn_inv E (as_world k c)" and "conn_open (as_world k c)" and "Connector_inv E (cl_cw c)"
    and "cn_state (cn (cl_cw c)) \<noteq> Connecting"
    and "cl_conn c = Some k" and "cl_connection c" and "cl_users c = 0" and "cl_posted c = []"
  shows "\<exists>c'. TcpClient_destroy uc c = Inr c' \<and> cl_conn c' = None \<and> channels (cn_poll (cl_cw c')) (tc_channel k) = None \<and>
    \<not> registered (tc_channel k) (cn_poll (cl_cw c')) \<and>
    (\<forall>i f. timers_live E (cn_tq (cl_cw c')) i = Some f \<longrightarrow> \<not> my_closure k f)"
proof -
  let ?uc = "uc\<lparr>writeCompleteCallback := None, closeCallback := Some Inr\<rparr>"
  obtain w1 where w1: "TcpConnection_forceClose ?uc (as_world k c) = Inr (emit CallClose w1)" "conn_inv E w1"
      "released E w1" "posted w1 = []" "tc_channel (conn w1) = tc_channel k" "tc_id (conn w1) = tc_id k"
    using forceClose_closes [OF assms(1,2), of ?uc] assms(8) by (auto simp: closes_conn_def invoke_def evolves_def)
  let ?c = "(of_world (emit CallClose w1) c)\<lparr>cl_connection := False\<rparr>"
  have thr: "cn_thread (cl_cw c)" using conn_inv_thread [OF assms(1)] by simp
  have "conn_inv E (as_world (conn w1) ?c)"
    using w1(2) thr conn_inv_thread [OF w1(2)] by (subst conn_inv_cong [of _ "emit CallClose w1"]) simp_all
  moreover have "released E (as_world (conn w1) ?c)" using w1(3) by (subst released_cong [of _ w1]) simp_all
  ultimately obtain c1 where c1: "client_release ?c = Inr c1" "cl_conn c1 = None"
      "channels (cn_poll (cl_cw c1)) (tc_channel k) = None" "\<not> registered (tc_channel k) (cn_poll (cl_cw c1))"
      "cn_tq (cl_cw c1) = tq w1" "cl_cw c1 = (cl_cw ?c)\<lparr>cn_poll := cn_poll (cl_cw c1)\<rparr>"
    using client_release_released [of ?c "conn w1" E] assms(7) w1(4,5) by auto
  have idle: "cn_channel (cn (cl_cw c1)) = None" "cn_sock (cn (cl_cw c1)) = cn_sock (cn (cl_cw c))"
      "cn_socks (cl_cw c1) = cn_socks (cl_cw c)"
    using assms(3,4) by (subst c1(6), simp add: of_world_def Connector_inv_def split: option.splits)+
  obtain s where "Socket_destroy (cn_sock (cn (cl_cw c))) (cn_socks (cl_cw c)) = Inr s"
    using Socket_apply_ok [of "cn_socks (cl_cw c)" "DestroySocket (cn_sock (cn (cl_cw c)))"] assms(3)
    by (auto simp: Connector_inv_def below_ok_def)
  with idle have "Connector_destroy (cl_cw c1) = Inr ((cl_cw c1)\<lparr>cn_socks := s\<rparr>)"
    by (simp add: Connector_destroy_def on_socks_def reset_channel_def)
  moreover have "\<forall>i f. timers_live E (tq w1) i = Some f \<longrightarrow> \<not> my_closure k f"
    using w1(3) my_closure_cong [OF w1(6)] by (simp add: released_def)
  ultimately show ?thesis
    using assms(5,6) w1(1) c1 by (simp add: TcpClient_destroy_def)
qed

theorem client_destructor_closes_witness:
  "\<exists>c'. TcpClient_destroy no_callbacks (demo_client (demo_world kConnected ''tail'' 3 [])) = Inr c' \<and> cl_conn c' = None \<and>
    \<not> registered 16 (cn_poll (cl_cw c'))"
proof -
  let ?w = "demo_world kConnected ''tail'' 3 []"
  have "conn_inv {} ?w" by (rule demo_world_inv) simp_all
  note ok = demo_client_ok [OF this]
  have k: "tc_channel (conn ?w) = 16" "conn_open (as_world (conn ?w) (demo_client ?w))" by (simp_all add: demo_world_def)
  have "cn_state (cn (cl_cw (demo_client ?w))) \<noteq> Connecting" using ok(3) by simp
  from client_destructor_closes [OF ok(1) k(2) ok(2) this ok(4-7), of no_callbacks] k(1) show ?thesis by auto
qed

text \<open>
  A client that is destroyed while an attempt to connect is in progress aborts: nothing stops the connector, whose
  destructor then finds its channel still asking for events.
\<close>

theorem client_destroyed_while_connecting:
  assumes "Connector_inv E (cl_cw c)" and "cn_state (cn (cl_cw c)) = Connecting" and "cl_conn c = None"
    and "cn_posted (cl_cw c) = []"
  shows "TcpClient_destroy uc c = Inl AssertFailed"
proof -
  obtain a where "cn_channel (cn (cl_cw c)) = Some a" "attempt_ok E a (cl_cw c)"
    using connectingE [OF assms(1,2)] by blast
  then show ?thesis
    using assms(3,4)
    by (auto simp: TcpClient_destroy_def Connector_destroy_def attempt_ok_def Channel_isNonEvent_def EPOLLOUT_def)
qed

theorem client_destroyed_while_connecting_witness:
  "\<exists>w. Connector_connect None demo_connect_args demo_release_args demo_connect_world = Inr w \<and>
    TcpClient_destroy no_callbacks (TcpClient_new (w\<lparr>cn_posted := []\<rparr>) 1) = Inl AssertFailed"
proof -
  from demo_connecting [OF no_callback_ok] obtain w where
    w: "Connector_connect None demo_connect_args demo_release_args demo_connect_world = Inr w"
    "Connector_inv {} w" "cn_state (cn w) = Connecting" by blast
  have "Connector_inv {} (w\<lparr>cn_posted := []\<rparr>)" 
    using w(2) by (auto simp: Connector_inv_def below_ok_def attempt_ok_def connector_closure_def split: option.splits)
  with w client_destroyed_while_connecting [of "{}" "TcpClient_new (w\<lparr>cn_posted := []\<rparr>) 1" no_callbacks]
  show ?thesis by (auto simp: TcpClient_new_def)
qed

text \<open>
  \<open>disconnect\<close> with bytes still to be written aborts: \<open>shutdown\<close> leaves the connection in \<open>kDisConnecting\<close> until
  the bytes are gone, but \<open>disconnect\<close> drops the last pointer at once, and the destructor asserts that the
  connection is closed.
\<close>

theorem client_disconnect_with_pending_bytes:
  assumes "conn_inv E (as_world k c)" and "tc_state k = kConnected" and "Buffer_content (writeBuffer k) \<noteq> []"
    and "Connector_inv E (cl_cw c)" and "cn_state (cn (cl_cw c)) = Connected"
    and "cl_conn c = Some k" and "cl_connection c" and "cl_users c = 0" and "cl_posted c = []"
  shows "TcpClient_disconnect uc ra c = Inl AssertFailed"
proof -
  have thr: "cn_thread (cl_cw c)" using conn_inv_thread [OF assms(1)] by simp
  have writing: "channel_isWriting (as_world k c)"
    using assms(1-3) by (simp add: conn_inv_def conn_flags_def)
  obtain q i where q: "Connector_stop ra (cl_cw c) = Inr (on_cn (\<lambda>c. c\<lparr>cn_timeoutId := i\<rparr>) ((cl_cw c)\<lparr>cn_tq := q\<rparr>))"
    using cancel_timeout_ok [of E "cl_cw c"] assms(4,5) thr
    by (auto simp: Connector_stop_def Connector_stopInLoop_def Connector_inv_def)
  let ?c = "c\<lparr>cl_cw := on_cn (\<lambda>c. c\<lparr>cn_timeoutId := i\<rparr>) ((cl_cw c)\<lparr>cn_tq := q\<rparr>)\<rparr>"
  let ?w = "emit ShutdownWrite (setState kDisConnecting (as_world k ?c))"
  have writing': "channel_isWriting (setState kDisConnecting (as_world k ?c))"
    using writing by (simp add: channel_isWriting_def setState_def)
  have "TcpConnection_shutdown (client_callbacks uc True) (as_world k ?c) = Inr ?w"
    using assms(2) thr writing'
    by (simp add: TcpConnection_shutdown_def run_or_post_def TcpConnection_shutdownInLoop_def setState_def)
  then have "client_event uc TcpConnection_shutdown ?c = Inr (of_world ?w ?c)"
    using assms(6,7) by (simp add: client_event_def emit_def setState_def)
  moreover have "client_release ((of_world ?w ?c)\<lparr>cl_connection := False\<rparr>) = Inl AssertFailed"
    using assms(8,9) by (simp add: client_release_def TcpConnection_destroy_def emit_def setState_def)
  ultimately show ?thesis using q assms(7) by (simp add: TcpClient_disconnect_def Let_def)
qed

theorem client_disconnect_with_pending_bytes_witness:
  "TcpClient_disconnect no_callbacks demo_release_args (demo_client (demo_world kConnected ''tail'' (-1) [])) =
    Inl AssertFailed"
proof -
  let ?w = "demo_world kConnected ''tail'' (-1) []"
  have "conn_inv {} ?w" by (rule demo_world_inv) simp_all
  note ok = demo_client_ok [OF this]
  have "tc_state (conn ?w) = kConnected" "Buffer_content (writeBuffer (conn ?w)) \<noteq> []" by (simp_all add: demo_world_def)
  from client_disconnect_with_pending_bytes [OF ok(1) this ok(2-7)] show ?thesis .
qed

end
