(* ===== verification/LoopLifetime.thy ===== *)
theory LoopLifetime
  imports EventLoop
begin

text \<open>
  Construction and destruction of an event loop (\<open>net/EventLoop.cc\<close>) with its timer queue (\<open>net/TimerQueue.cc\<close>): the
  channel \<open>aw\<close> of the eventfd \<open>fw\<close> and the channel \<open>tc\<close> of the timerfd \<open>ft\<close> in the loop's own poller. The members of
  the loop are destroyed after the body of the destructor, the timer queue before the poller.
\<close>

section \<open>Operations\<close>

definition TimerQueue_construct :: "addr \<Rightarrow> int \<Rightarrow> poller \<Rightarrow> poller res" where
  "TimerQueue_construct a fd p = Channel_enableReading True a (create_channel a fd p)"

definition delete_timer :: "addr \<Rightarrow> timer_queue \<Rightarrow> timer_queue res" where
  "delete_timer a q =
    (case theap q a of None \<Rightarrow> Inl UseAfterFree | Some _ \<Rightarrow> Inr (q\<lparr>theap := (theap q)(a := None)\<rparr>))"

definition TimerQueue_destroy :: "bool \<Rightarrow> addr \<Rightarrow> poller \<Rightarrow> timer_queue \<Rightarrow> (poller \<times> timer_queue) res" where
  "TimerQueue_destroy inT a p q =
    rbind (Channel_disableAll inT a p) (\<lambda>p.
    rbind (Channel_remove inT a p) (\<lambda>p.
    rbind (rfold (\<lambda>entry. delete_timer (snd entry)) (timers q) q) (\<lambda>q.
    let q = q\<lparr>timers := [], activeTimers := {}\<rparr>
    in rbind (Channel_destroy inT a p) (\<lambda>p. Inr (p, q)))))"

definition EventLoop_construct :: "addr \<Rightarrow> int \<Rightarrow> addr \<Rightarrow> int \<Rightarrow> poller res" where
  "EventLoop_construct aw fw tc ft =
    rbind (TimerQueue_construct tc ft (create_channel aw fw Epoller_new)) (Channel_enableReading True aw)"

definition EventLoop_destroy ::
  "bool \<Rightarrow> addr \<Rightarrow> addr \<Rightarrow> event_loop \<Rightarrow> poller \<Rightarrow> timer_queue \<Rightarrow> (event_loop \<times> poller \<times> timer_queue) res" where
  "EventLoop_destroy inT aw tc s p q =
    (let s = EventLoop_quit inT s
     in rbind (Channel_remove inT aw p) (\<lambda>p.
        rbind (Channel_destroy inT aw p) (\<lambda>p.
        rbind (TimerQueue_destroy inT tc p q) (\<lambda>(p, q). Inr (s, p, q)))))"

section \<open>Lemmas\<close>

text \<open>Every timer is deleted once.\<close>

lemma delete_all:
  assumes "distinct as" and "\<forall>a \<in> set as. theap q a \<noteq> None"
  shows "rfold delete_timer as q = Inr (q\<lparr>theap := (\<lambda>a. if a \<in> set as then None else theap q a)\<rparr>)"
  using assms
proof (induction as arbitrary: q)
  case (Cons a as)
  let ?q = "q\<lparr>theap := (theap q)(a := None)\<rparr>"
  have "delete_timer a q = Inr ?q" using Cons.prems(2) by (auto simp: delete_timer_def)
  moreover have "rfold delete_timer as ?q = Inr (?q\<lparr>theap := (\<lambda>x. if x \<in> set as then None else theap ?q x)\<rparr>)"
    using Cons.prems by (intro Cons.IH) auto
  ultimately show ?case by (auto simp: fun_eq_iff intro!: timer_queue.equality)
qed (auto intro!: timer_queue.equality)

lemma timers_distinct:
  assumes "TimerQueue_inv {} q"
  shows "distinct (map snd (timers q))" and "set (map snd (timers q)) = dom (theap q)"
proof -
  have entries: "(e, a) \<in> set (timers q) \<longleftrightarrow> map_option texpiration (theap q a) = Some e" for e a
    using assms by (simp add: TimerQueue_inv_def)
  have "sorted_wrt (<) (timers q)" using assms by (simp add: TimerQueue_inv_def)
  then have "distinct (timers q)" by (simp add: strict_sorted_iff)
  moreover have "inj_on snd (set (timers q))" by (intro inj_onI) (auto simp: entries)
  ultimately show "distinct (map snd (timers q))" by (simp add: distinct_map)
  show "set (map snd (timers q)) = dom (theap q)"
  proof (intro set_eqI iffI)
    fix a assume "a \<in> dom (theap q)"
    then obtain t where "theap q a = Some t" by auto
    then have "(texpiration t, a) \<in> set (timers q)" by (simp add: entries)
    then show "a \<in> set (map snd (timers q))" by force
  qed (auto simp: entries)
qed

lemma delete_timers:
  assumes "TimerQueue_inv {} q"
  shows "rfold (\<lambda>entry. delete_timer (snd entry)) (timers q) q = Inr (q\<lparr>theap := (\<lambda>_. None)\<rparr>)"
proof -
  note d = timers_distinct [OF assms]
  have "rfold (\<lambda>entry. delete_timer (snd entry)) xs v = rfold delete_timer (map snd xs) v"
    for xs :: "(timestamp \<times> addr) list" and v
    by (induction xs arbitrary: v) (auto intro!: arg_cong2 [where f = rbind])
  moreover have "\<forall>a \<in> set (map snd (timers q)). theap q a \<noteq> None" unfolding d(2) by auto
  moreover have "(\<lambda>a. if a \<in> set (map snd (timers q)) then None else theap q a) = (\<lambda>_. None)" unfolding d(2) by auto
  ultimately show ?thesis using delete_all [OF d(1), of q] by simp
qed

lemma registered_fd_free:
  assumes "Poller_inv p" and "registered a p"
  obtains c where "channels p a = Some c" and "fd_free a p"
proof -
  from assms obtain c where c: "channels p a = Some c" "ch_index c = kAdded" by (auto simp: registered_iff)
  with Poller_invD(2) [OF assms(1) c] have "fd_free a p" by (simp add: fd_free_def)
  with c(1) show ?thesis by (rule that)
qed

lemma TimerQueue_destroy_ok:
  assumes inv: "Poller_inv p" and reg: "registered a p" and q: "TimerQueue_inv {} q"
  shows "\<exists>p'. TimerQueue_destroy True a p q = Inr (p', q\<lparr>theap := (\<lambda>_. None), timers := [], activeTimers := {}\<rparr>) \<and>
    Poller_inv p' \<and> channels p' = (channels p)(a := None) \<and> \<not> registered a p' \<and>
    (\<forall>b. b \<noteq> a \<longrightarrow> registered b p' = registered b p)"
proof -
  obtain c where c: "channels p a = Some c" "fd_free a p" by (rule registered_fd_free [OF inv reg])
  obtain p1 where p1: "Channel_disableAll True a p = Inr p1" "Poller_inv p1" "channels p1 = (channels p)(a \<mapsto> updated c 0)"
    by (rule set_events_ok [OF inv c, of "\<lambda>_. 0"]) (rule that, simp_all add: Channel_disableAll_def)
  have reg1: "registered b p1 = registered b p" if "b \<noteq> a" for b
    using that by (simp add: registered_iff [OF inv] registered_iff [OF p1(2)] p1(3))
  have a1: "channels p1 a = Some (updated c 0)" by (simp add: p1(3))
  obtain p2 c2 where p2: "Channel_remove True a p1 = Inr p2" "Poller_inv p2" "channels p2 = (channels p1)(a \<mapsto> c2)"
    "\<forall>b. b \<noteq> a \<longrightarrow> registered b p2 = registered b p1"
    using remove_ok [OF p1(2) a1, of True] by (metis (no_types))
  have a2: "channels p2 a = Some c2" by (simp add: p2(3))
  obtain p3 where p3: "Channel_destroy True a p2 = Inr p3" "Poller_inv p3" "\<not> registered a p3"
    "channels p3 = (channels p2)(a := None)" "\<forall>b. b \<noteq> a \<longrightarrow> registered b p3 = registered b p2"
    using destroy_ok [OF p2(2) a2, of True] by (metis (no_types))
  have "TimerQueue_destroy True a p q = Inr (p3, q\<lparr>theap := (\<lambda>_. None), timers := [], activeTimers := {}\<rparr>)"
    by (simp add: TimerQueue_destroy_def p1(1) p2(1) p3(1) delete_timers [OF q])
  moreover have "channels p3 = (channels p)(a := None)" by (simp add: p3(4) p2(3) p1(3))
  ultimately show ?thesis using p3(2,3,5) p2(4) reg1 by auto
qed

lemma EventLoop_construct_ok:
  assumes "aw \<noteq> tc" and "fw \<noteq> ft"
  shows "\<exists>p. EventLoop_construct aw fw tc ft = Inr p \<and> Poller_inv p \<and> registered aw p \<and> registered tc p"
proof -
  let ?p0 = "create_channel tc ft (create_channel aw fw Epoller_new)"
  have inv0: "Poller_inv ?p0"
    using assms(1) by (intro create_channel_inv Epoller_new_inv) (simp_all add: create_channel_def Epoller_new_def)
  have c: "channels ?p0 tc = Some (Channel_new ft)" "channels ?p0 aw = Some (Channel_new fw)"
    "fd_free tc ?p0" using assms by (simp_all add: create_channel_def fd_free_def Epoller_new_def)
  obtain p1 where p1: "Channel_enableReading True tc ?p0 = Inr p1" "Poller_inv p1"
    "channels p1 = (channels ?p0)(tc \<mapsto> updated (Channel_new ft) (0 OR EPOLLIN))"
    by (rule set_events_ok [OF inv0 c(1,3), of "\<lambda>ev. ev OR EPOLLIN"]) (rule that, simp_all add: Channel_new_def Channel_enableReading_def)
  have aw1: "channels p1 aw = Some (Channel_new fw)" using c(2) assms(1) by (simp add: p1(3))
  have "fd_free aw p1"
    using aw1 assms p1(3) by (simp add: fd_free_iff [OF p1(2) aw1]) (auto simp: updated_def Channel_new_def
      create_channel_def Epoller_new_def split: if_splits)
  then obtain p2 where p2: "Channel_enableReading True aw p1 = Inr p2" "Poller_inv p2"
    "channels p2 = (channels p1)(aw \<mapsto> updated (Channel_new fw) (0 OR EPOLLIN))"
    unfolding Channel_enableReading_def
    using set_events_ok [OF p1(2) aw1, of "\<lambda>ev. ev OR EPOLLIN"] by (auto simp: Channel_new_def)
  have "registered aw p2" "registered tc p2"
    using assms(1) by (simp_all add: registered_iff [OF p2(2)] p2(3) p1(3) updated_def Channel_new_def)
  with p1(1) p2(1,2) show ?thesis by (simp add: EventLoop_construct_def TimerQueue_construct_def)
qed

lemma EventLoop_destroy_ok:
  assumes "aw \<noteq> tc" and "Poller_inv p" and "registered aw p" and "registered tc p" and "TimerQueue_inv {} q"
  shows "\<exists>s' p' q'. EventLoop_destroy True aw tc s p q = Inr (s', p', q') \<and> quit s' \<and> Poller_inv p' \<and>
    channels p' = (channels p)(aw := None, tc := None) \<and> \<not> registered aw p' \<and> \<not> registered tc p' \<and>
    (\<forall>b. b \<noteq> aw \<and> b \<noteq> tc \<longrightarrow> registered b p' = registered b p) \<and> theap q' = (\<lambda>_. None)"
proof -
  obtain c where c: "channels p aw = Some c" by (rule registered_fd_free [OF assms(2,3)]) (rule that)
  obtain p1 c1 where p1: "Channel_remove True aw p = Inr p1" "Poller_inv p1" "channels p1 = (channels p)(aw \<mapsto> c1)"
    "\<forall>b. b \<noteq> aw \<longrightarrow> registered b p1 = registered b p"
    using remove_ok [OF assms(2) c, of True] by (metis (no_types))
  have aw1: "channels p1 aw = Some c1" by (simp add: p1(3))
  obtain p2 where p2: "Channel_destroy True aw p1 = Inr p2" "Poller_inv p2" "\<not> registered aw p2"
    "channels p2 = (channels p1)(aw := None)" "\<forall>b. b \<noteq> aw \<longrightarrow> registered b p2 = registered b p1"
    using destroy_ok [OF p1(2) aw1, of True] by (metis (no_types))
  have "registered tc p2" "TimerQueue_inv {} q" using assms(1,4,5) p1(4) p2(5) by auto
  from TimerQueue_destroy_ok [OF p2(2) this] obtain p3 where p3:
    "TimerQueue_destroy True tc p2 q = Inr (p3, q\<lparr>theap := (\<lambda>_. None), timers := [], activeTimers := {}\<rparr>)"
    "Poller_inv p3" "channels p3 = (channels p2)(tc := None)" "\<not> registered tc p3"
    "\<forall>b. b \<noteq> tc \<longrightarrow> registered b p3 = registered b p2" by blast
  have "EventLoop_destroy True aw tc s p q =
      Inr (EventLoop_quit True s, p3, q\<lparr>theap := (\<lambda>_. None), timers := [], activeTimers := {}\<rparr>)"
    by (simp add: EventLoop_destroy_def p1(1) p2(1) p3(1))
  moreover have "quit (EventLoop_quit True s)" by (simp add: EventLoop_quit_def Let_def)
  moreover have "channels p3 = (channels p)(aw := None, tc := None)" by (simp add: p3(3) p2(4) p1(3))
  moreover have "\<not> registered aw p3" using p3(5) p2(3) assms(1) by blast
  moreover have "\<forall>b. b \<noteq> aw \<and> b \<noteq> tc \<longrightarrow> registered b p3 = registered b p" using p1(4) p2(5) p3(5) by blast
  ultimately show ?thesis using p3(2,4) by (intro exI) auto
qed

lemma EventLoop_destroy_elsewhere:
  assumes "Poller_inv p" and "registered aw p"
  shows "EventLoop_destroy False aw tc s p q = Inl Aborted"
proof -
  obtain c where "channels p aw = Some c" "ch_index c = kAdded" using assms by (auto simp: registered_iff)
  with Poller_invD(2) [OF assms(1) this] show ?thesis
    by (simp add: EventLoop_destroy_def Channel_remove_def the_channel_def kAdded_def)
qed

section \<open>Properties\<close>

text \<open>
  C30. A loop is born with its two channels registered, and dies cleanly in its own thread: whatever channels have come and
  gone in between, the destructor returns, both channels are unregistered and destroyed, the registrations of other
  channels are untouched, and every timer has been deleted, each once. In another thread the destructor aborts.
\<close>

theorem loop_lifetime:
  assumes "aw \<noteq> tc" and "fw \<noteq> ft"
  shows "(\<exists>p. EventLoop_construct aw fw tc ft = Inr p \<and> Poller_inv p \<and> registered aw p \<and> registered tc p) \<and>
    (\<forall>s p q. Poller_inv p \<and> registered aw p \<and> registered tc p \<and> TimerQueue_inv {} q \<longrightarrow>
      (\<exists>s' p' q'. EventLoop_destroy True aw tc s p q = Inr (s', p', q') \<and> quit s' \<and> Poller_inv p' \<and>
        channels p' = (channels p)(aw := None, tc := None) \<and> \<not> registered aw p' \<and> \<not> registered tc p' \<and>
        (\<forall>b. b \<noteq> aw \<and> b \<noteq> tc \<longrightarrow> registered b p' = registered b p) \<and> theap q' = (\<lambda>_. None)) \<and>
      EventLoop_destroy False aw tc s p q = Inl Aborted)"
  using EventLoop_construct_ok [OF assms] EventLoop_destroy_ok [OF assms(1)] EventLoop_destroy_elsewhere by simp

theorem loop_lifetime_witness:
  "\<exists>p s' p' q'. EventLoop_construct 1 10 2 11 = Inr p \<and> registered 1 p \<and>
    EventLoop_destroy True 1 2 EventLoop_new p TimerQueue_new = Inr (s', p', q') \<and> \<not> registered 1 p'"
proof -
  have "(1 :: addr) \<noteq> 2" "(10 :: int) \<noteq> 11" by simp_all
  note life = loop_lifetime [OF this]
  obtain p where "EventLoop_construct 1 10 2 11 = Inr p" "Poller_inv p" "registered 1 p" "registered 2 p"
    using life by (elim conjE exE)
  moreover have "TimerQueue_inv {} TimerQueue_new" by (rule TimerQueue_new_inv)
  ultimately show ?thesis using life by blast
qed

end
