(* ===== verification/Mutex.thy ===== *)
theory Mutex
  imports Prelude
begin

text \<open>
  The mutex and its guard, the condition variable's \<open>wait\<close>, and the cached thread id (\<open>base/Mutex.h\<close>,
  \<open>base/Condition.h\<close>, \<open>base/CurrentThread.h\<close>, \<open>base/CurrentThread.cc\<close>). Threads are numbers; \<open>gettid\<close> is what the
  kernel answers them. The pthread objects enter by what POSIX documents: \<open>pthread_mutex_lock\<close> returns when no thread
  owns the mutex and makes the caller its owner, \<open>pthread_mutex_unlock\<close> ends that, and \<open>pthread_cond_wait\<close> does both
  in turn. Every read and write of a member between them is a step of its own. \<open>shared\<close> is the data that the mutex
  protects and \<open>local\<close> what each thread knows; \<open>act t\<close> is one step of thread \<open>t\<close> between lock and unlock, \<open>idle t\<close>
  one outside, and \<open>fin\<close> says where a section may end.

  The other theories take a critical section as one step of the whole system. That is justified here: however
  the small steps of the threads interleave, the system is where whole sections, one after the other, lead it.
\<close>

section \<open>The cached thread id\<close>

record current =
  t_cacheTid :: int
  t_tidString :: string
  t_tidStringLength :: nat

definition current_new :: current where
  "current_new = \<lparr>t_cacheTid = 0, t_tidString = [], t_tidStringLength = 6\<rparr>"

text \<open>\<open>%5d \<close> of a thread id, which is positive; \<open>snprintf\<close> keeps at most 31 characters and answers the whole length.\<close>

definition tid_text :: "int \<Rightarrow> string" where
  "tid_text i = (let ds = to_string (nat i) in replicate (5 - length ds) CHR '' '' @ ds @ '' '')"

definition Current_cacheTid :: "int \<Rightarrow> current \<Rightarrow> current" where
  "Current_cacheTid gettid c =
    (if t_cacheTid c = 0
     then c\<lparr>t_cacheTid := gettid, t_tidString := take 31 (tid_text gettid), t_tidStringLength := length (tid_text gettid)\<rparr>
     else c)"

definition Current_tid :: "int \<Rightarrow> current \<Rightarrow> int \<times> current" where
  "Current_tid gettid c =
    (let c = (if t_cacheTid c = 0 then Current_cacheTid gettid c else c) in (t_cacheTid c, c))"

section \<open>The mutex\<close>

datatype mutex_pc = Outside | Locked | Inside | Woken | Unassigned | Waiting

record ('l, 'd) mutex_world =
  holder :: int
  owner :: "nat option"
  current_of :: "nat \<Rightarrow> current"
  pc_of :: "nat \<Rightarrow> mutex_pc"
  local :: "nat \<Rightarrow> 'l"
  shared :: 'd

definition Mutex_new :: "(nat \<Rightarrow> 'l) \<Rightarrow> 'd \<Rightarrow> ('l, 'd) mutex_world" where
  "Mutex_new l d =
    \<lparr>holder = 0, owner = None, current_of = (\<lambda>_. current_new), pc_of = (\<lambda>_. Outside), local = l, shared = d\<rparr>"

definition Mutex_destroy :: "('l, 'd) mutex_world \<Rightarrow> unit res" where
  "Mutex_destroy w = check (holder w = 0) AssertFailed ()"

definition Mutex_assign :: "(nat \<Rightarrow> int) \<Rightarrow> nat \<Rightarrow> ('l, 'd) mutex_world \<Rightarrow> ('l, 'd) mutex_world" where
  "Mutex_assign gettid t w =
    (let (i, c) = Current_tid (gettid t) (current_of w t) in w\<lparr>holder := i, current_of := (current_of w)(t := c)\<rparr>)"

definition Mutex_unassign :: "('l, 'd) mutex_world \<Rightarrow> ('l, 'd) mutex_world" where
  "Mutex_unassign w = w\<lparr>holder := 0\<rparr>"

definition at_pc :: "nat \<Rightarrow> mutex_pc \<Rightarrow> ('l, 'd) mutex_world \<Rightarrow> ('l, 'd) mutex_world" where
  "at_pc t p w = w\<lparr>pc_of := (pc_of w)(t := p)\<rparr>"

definition set_owner :: "nat option \<Rightarrow> ('l, 'd) mutex_world \<Rightarrow> ('l, 'd) mutex_world" where
  "set_owner x w = w\<lparr>owner := x\<rparr>"

text \<open>
  \<open>lock\<close> is \<open>pthread_mutex_lock\<close> and then \<open>assign\<close>, \<open>unlock\<close> is \<open>unassign\<close> and then \<open>pthread_mutex_unlock\<close>; the guard
  calls them in its constructor and destructor. \<open>Condition::wait\<close> only calls \<open>pthread_cond_wait\<close>, and so leaves
  \<open>holder_\<close> as it is when it gives the mutex up and when it has it again.
\<close>

inductive mutex_step ::
  "(nat \<Rightarrow> int) \<Rightarrow> (nat \<Rightarrow> 'l \<times> 'd \<Rightarrow> 'l \<times> 'd \<Rightarrow> bool) \<Rightarrow> (nat \<Rightarrow> 'l \<Rightarrow> 'l \<Rightarrow> bool) \<Rightarrow> ('l \<Rightarrow> bool) \<Rightarrow>
    ('l, 'd) mutex_world \<Rightarrow> ('l, 'd) mutex_world \<Rightarrow> bool" for gettid act idle fin where
  Idle: "pc_of w t = Outside \<Longrightarrow> idle t (local w t) l \<Longrightarrow>
    mutex_step gettid act idle fin w (w\<lparr>local := (local w)(t := l)\<rparr>)"
| LockReturns: "pc_of w t = Outside \<Longrightarrow> owner w = None \<Longrightarrow>
    mutex_step gettid act idle fin w (at_pc t Locked (set_owner (Some t) w))"
| Assign: "pc_of w t = Locked \<Longrightarrow> mutex_step gettid act idle fin w (at_pc t Inside (Mutex_assign gettid t w))"
| Act: "pc_of w t \<in> {Inside, Woken} \<Longrightarrow> act t (local w t, shared w) (l, d) \<Longrightarrow>
    mutex_step gettid act idle fin w (w\<lparr>local := (local w)(t := l), shared := d\<rparr>)"
| Unassign: "pc_of w t \<in> {Inside, Woken} \<Longrightarrow> fin (local w t) \<Longrightarrow>
    mutex_step gettid act idle fin w (at_pc t Unassigned (Mutex_unassign w))"
| Unlock: "pc_of w t = Unassigned \<Longrightarrow> mutex_step gettid act idle fin w (at_pc t Outside (set_owner None w))"
| WaitReleases: "pc_of w t \<in> {Inside, Woken} \<Longrightarrow> fin (local w t) \<Longrightarrow>
    mutex_step gettid act idle fin w (at_pc t Waiting (set_owner None w))"
| WaitReturns: "pc_of w t = Waiting \<Longrightarrow> owner w = None \<Longrightarrow>
    mutex_step gettid act idle fin w (at_pc t Woken (set_owner (Some t) w))"

abbreviation mutex_reach where
  "mutex_reach gettid act idle fin \<equiv> (mutex_step gettid act idle fin)\<^sup>*\<^sup>*"

section \<open>Mutual exclusion and the holder\<close>

definition owns_pc :: "mutex_pc \<Rightarrow> bool" where
  "owns_pc p \<longleftrightarrow> p \<in> {Locked, Inside, Woken, Unassigned}"

definition Mutex_inv :: "(nat \<Rightarrow> int) \<Rightarrow> ('l, 'd) mutex_world \<Rightarrow> bool" where
  "Mutex_inv gettid w \<longleftrightarrow>
    (\<forall>t. owns_pc (pc_of w t) = (owner w = Some t)) \<and>
    (\<forall>t. t_cacheTid (current_of w t) \<in> {0, gettid t}) \<and>
    (\<forall>t. pc_of w t = Inside \<longrightarrow> holder w = gettid t) \<and>
    (\<forall>t. pc_of w t = Unassigned \<longrightarrow> holder w = 0) \<and>
    (owner w = None \<and> (\<forall>t. pc_of w t \<noteq> Waiting) \<longrightarrow> holder w = 0)"

lemma at_pc_fields [simp]:
  "pc_of (at_pc t p w) = (pc_of w)(t := p)" "owner (at_pc t p w) = owner w" "holder (at_pc t p w) = holder w"
  "current_of (at_pc t p w) = current_of w" "local (at_pc t p w) = local w" "shared (at_pc t p w) = shared w"
  by (simp_all add: at_pc_def)

lemma set_owner_fields [simp]:
  "pc_of (set_owner x w) = pc_of w" "owner (set_owner x w) = x" "holder (set_owner x w) = holder w"
  "current_of (set_owner x w) = current_of w" "local (set_owner x w) = local w" "shared (set_owner x w) = shared w"
  by (simp_all add: set_owner_def)

lemma unassign_fields [simp]:
  "pc_of (Mutex_unassign w) = pc_of w" "owner (Mutex_unassign w) = owner w" "holder (Mutex_unassign w) = 0"
  "current_of (Mutex_unassign w) = current_of w" "local (Mutex_unassign w) = local w"
  "shared (Mutex_unassign w) = shared w"
  by (simp_all add: Mutex_unassign_def)

text \<open>The cache is filled once and then holds the kernel's answer.\<close>

lemma Current_tid_value: "t_cacheTid c \<in> {0, i} \<Longrightarrow> fst (Current_tid i c) = i \<and> t_cacheTid (snd (Current_tid i c)) = i"
  by (auto simp: Current_tid_def Current_cacheTid_def Let_def)

lemma assign_fields:
  "pc_of (Mutex_assign g t w) = pc_of w" "owner (Mutex_assign g t w) = owner w"
  "local (Mutex_assign g t w) = local w" "shared (Mutex_assign g t w) = shared w"
  by (simp_all add: Mutex_assign_def split: prod.split)

lemma assign_holder:
  assumes "t_cacheTid (current_of w t) \<in> {0, g t}"
  shows "holder (Mutex_assign g t w) = g t"
    and "t_cacheTid (current_of (Mutex_assign g t w) u) = (if u = t then g t else t_cacheTid (current_of w u))"
  using Current_tid_value [OF assms] by (simp_all add: Mutex_assign_def case_prod_beta)

lemma Mutex_new_inv: "Mutex_inv gettid (Mutex_new l d)"
  by (simp add: Mutex_inv_def Mutex_new_def owns_pc_def current_new_def)

lemma owns_pc_simps [simp]:
  "owns_pc Locked" "owns_pc Inside" "owns_pc Woken" "owns_pc Unassigned" "\<not> owns_pc Outside" "\<not> owns_pc Waiting"
  by (simp_all add: owns_pc_def)

lemma Mutex_invD:
  assumes "Mutex_inv gettid w"
  shows "owns_pc (pc_of w t) = (owner w = Some t)" and "t_cacheTid (current_of w t) \<in> {0, gettid t}"
    and "pc_of w t = Inside \<Longrightarrow> holder w = gettid t" and "pc_of w t = Unassigned \<Longrightarrow> holder w = 0"
    and "owner w = None \<Longrightarrow> \<forall>t. pc_of w t \<noteq> Waiting \<Longrightarrow> holder w = 0"
  using assms unfolding Mutex_inv_def by blast+

text \<open>What a step of \<open>t\<close> has to show of the thread itself; the others do not own the mutex when \<open>t\<close> owns it.\<close>

lemma Mutex_inv_moved:
  assumes inv: "Mutex_inv gettid w" and pc: "pc_of w' = (pc_of w)(t := p)"
    and own: "owner w' = (if owns_pc p then Some t else if owns_pc (pc_of w t) then None else owner w)"
    and may: "owns_pc p \<Longrightarrow> owner w = None \<or> owner w = Some t"
    and cache: "\<And>u. t_cacheTid (current_of w' u) \<in> {0, gettid u}"
    and holder: "p = Inside \<Longrightarrow> holder w' = gettid t" "p = Unassigned \<Longrightarrow> holder w' = 0"
      "p = Outside \<Longrightarrow> holder w' = 0" "p \<notin> {Inside, Unassigned} \<Longrightarrow> holder w' = holder w"
  shows "Mutex_inv gettid w'"
proof -
  note D = Mutex_invD [OF inv]
  have others: "\<not> owns_pc (pc_of w u)" if "u \<noteq> t" "owns_pc p \<or> owns_pc (pc_of w t)" for u
    using D(1) [of u] D(1) [of t] may that by auto
  have "owns_pc (pc_of w' u) = (owner w' = Some u)" for u
    using D(1) [of u] others [of u] D(1) [of t] by (auto simp: pc own)
  moreover have "holder w' = gettid u" if u: "pc_of w' u = Inside" for u
  proof (cases "u = t")
    case False
    with u have "pc_of w u = Inside" by (simp add: pc)
    with False others [of u] have "\<not> owns_pc p" by auto
    then have "holder w' = holder w" by (intro holder(4)) auto
    with D(3) [OF \<open>pc_of w u = Inside\<close>] show ?thesis by simp
  qed (use u holder(1) pc in simp)
  moreover have "holder w' = 0" if u: "pc_of w' u = Unassigned" for u
  proof (cases "u = t")
    case False
    with u have "pc_of w u = Unassigned" by (simp add: pc)
    with False others [of u] have "\<not> owns_pc p" by auto
    then have "holder w' = holder w" by (intro holder(4)) auto
    with D(4) [OF \<open>pc_of w u = Unassigned\<close>] show ?thesis by simp
  qed (use u holder(2) pc in simp)
  moreover have "holder w' = 0" if "owner w' = None" "\<forall>u. pc_of w' u \<noteq> Waiting"
  proof -
    have "pc_of w' t \<noteq> Waiting" using that(2) by blast
    then have "p \<noteq> Waiting" by (simp add: pc)
    with that(1) have "p = Outside" by (cases p) (auto simp: own)
    then show ?thesis by (rule holder(3))
  qed
  ultimately show ?thesis using cache by (simp add: Mutex_inv_def)
qed

lemma mutex_step_inv:
  assumes "mutex_step gettid act idle fin w w'" and inv: "Mutex_inv gettid w"
  shows "Mutex_inv gettid w'"
proof -
  note D = Mutex_invD [OF inv]
  have own: "owner w = Some t" if "owns_pc (pc_of w t)" for t using D(1) [of t] that by simp
  from assms(1) show ?thesis
  proof cases
    case (LockReturns t)
    then show ?thesis by (intro Mutex_inv_moved [OF inv, of w' t Locked]) (use D(2) in simp_all)
  next
    case (Assign t)
    note new = assign_holder [of w t gettid, OF D(2)]
    from Assign own [of t] show ?thesis
      by (intro Mutex_inv_moved [OF inv, of w' t Inside]) (use D(2) new in \<open>simp_all add: assign_fields\<close>)
  next
    case (Unassign t)
    with own [of t] show ?thesis
      by (intro Mutex_inv_moved [OF inv, of w' t Unassigned]) (use D(2) in auto)
  next
    case (Unlock t)
    with own [of t] D(4) [of t] show ?thesis
      by (intro Mutex_inv_moved [OF inv, of w' t Outside]) (use D(2) in simp_all)
  next
    case (WaitReleases t)
    with own [of t] show ?thesis
      by (intro Mutex_inv_moved [OF inv, of w' t Waiting]) (use D(2) in auto)
  next
    case (WaitReturns t)
    then show ?thesis by (intro Mutex_inv_moved [OF inv, of w' t Woken]) (use D(2) in simp_all)
  qed (use inv in \<open>simp_all add: Mutex_inv_def\<close>)
qed

lemma mutex_reach_inv: "mutex_reach gettid act idle fin (Mutex_new l d) w \<Longrightarrow> Mutex_inv gettid w"
  by (induction rule: rtranclp_induct) (auto intro: Mutex_new_inv mutex_step_inv)

section \<open>Sections are atomic\<close>

text \<open>The abstract system: a thread idles, or runs a whole section.\<close>

inductive atomic_step ::
  "(nat \<Rightarrow> 'l \<times> 'd \<Rightarrow> 'l \<times> 'd \<Rightarrow> bool) \<Rightarrow> (nat \<Rightarrow> 'l \<Rightarrow> 'l \<Rightarrow> bool) \<Rightarrow> ('l \<Rightarrow> bool) \<Rightarrow>
    (nat \<Rightarrow> 'l) \<times> 'd \<Rightarrow> (nat \<Rightarrow> 'l) \<times> 'd \<Rightarrow> bool" for act idle fin where
  Rest: "idle t (ls t) l \<Longrightarrow> atomic_step act idle fin (ls, d) (ls(t := l), d)"
| Section: "(act t)\<^sup>*\<^sup>* (ls t, d) (l, d') \<Longrightarrow> fin l \<Longrightarrow> atomic_step act idle fin (ls, d) (ls(t := l), d')"

text \<open>The owner is on its way through a section that the abstract system has not begun.\<close>

definition halfway ::
  "(nat \<Rightarrow> 'l \<times> 'd \<Rightarrow> 'l \<times> 'd \<Rightarrow> bool) \<Rightarrow> ('l \<Rightarrow> bool) \<Rightarrow> (nat \<Rightarrow> 'l) \<times> 'd \<Rightarrow> ('l, 'd) mutex_world \<Rightarrow> bool" where
  "halfway act fin a w \<longleftrightarrow>
    (\<forall>u. owner w \<noteq> Some u \<longrightarrow> fst a u = local w u) \<and>
    (case owner w of
       None \<Rightarrow> snd a = shared w
     | Some t \<Rightarrow> (act t)\<^sup>*\<^sup>* (fst a t, snd a) (local w t, shared w) \<and> (pc_of w t = Unassigned \<longrightarrow> fin (local w t)))"

lemma halfway_new: "halfway act fin (l, d) (Mutex_new l d)"
  by (simp add: halfway_def Mutex_new_def)

text \<open>Giving the mutex up completes the section.\<close>

lemma halfway_released:
  assumes "halfway act fin a w" and "owner w = Some t" and "fin (local w t)"
    and "owner w' = None" and "local w' = local w" and "shared w' = shared w"
  shows "\<exists>b. atomic_step act idle fin a b \<and> halfway act fin b w'"
proof -
  let ?b = "((fst a)(t := local w t), shared w)"
  have "(act t)\<^sup>*\<^sup>* (fst a t, snd a) (local w t, shared w)" using assms(1,2) by (simp add: halfway_def)
  with assms(3) have "atomic_step act idle fin (fst a, snd a) ?b" by (intro Section)
  then have "atomic_step act idle fin a ?b" by simp
  moreover have "halfway act fin ?b w'" using assms by (auto simp: halfway_def)
  ultimately show ?thesis by blast
qed

text \<open>A step of the threads is no step of the abstract system, or one.\<close>

lemma step_refines:
  assumes "mutex_step gettid act idle fin w w'" and "Mutex_inv gettid w" and "halfway act fin a w"
  shows "\<exists>b. (atomic_step act idle fin)\<^sup>*\<^sup>* a b \<and> halfway act fin b w'"
proof -
  have own: "owner w = Some t" if "owns_pc (pc_of w t)" for t using assms(2) that by (auto simp: Mutex_inv_def)
  have out: "owner w \<noteq> Some t" if "\<not> owns_pc (pc_of w t)" for t using assms(2) that by (auto simp: Mutex_inv_def)
  have same: ?thesis if "halfway act fin a w'" using that by blast
  have ends: ?thesis if "owner w = Some t" "fin (local w t)" "owner w' = None" "local w' = local w" "shared w' = shared w"
    for t using halfway_released [OF assms(3) that(1,2), of w' idle] that(3-5) by blast
  from assms(1) show ?thesis
  proof cases
    case (Idle t l)
    have t: "owner w \<noteq> Some t" using out [of t] Idle(2) by (simp add: owns_pc_def)
    then have "fst a t = local w t" using assms(3) by (simp add: halfway_def)
    then have "atomic_step act idle fin a ((fst a)(t := l), snd a)"
      using Rest [of idle t "fst a" l act fin "snd a"] Idle(3) by simp
    moreover have "halfway act fin ((fst a)(t := l), snd a) w'"
      using assms(3) t Idle(1) by (auto simp: halfway_def split: option.splits)
    ultimately show ?thesis by blast
  next
    case (LockReturns t)
    with assms(3) show ?thesis by (intro same) (auto simp: halfway_def)
  next
    case (Assign t)
    have "owner w = Some t" by (rule own) (simp add: Assign(2) owns_pc_def)
    with Assign assms(3) show ?thesis by (intro same) (auto simp: halfway_def assign_fields)
  next
    case (Act t l d)
    have t: "owner w = Some t" by (rule own) (use Act(2) in \<open>auto simp: owns_pc_def\<close>)
    have "(act t)\<^sup>*\<^sup>* (fst a t, snd a) (l, d)"
      using assms(3) t Act(3) by (auto simp: halfway_def intro: rtranclp.rtrancl_into_rtrancl)
    with Act(1,2) t assms(3) show ?thesis by (intro same) (auto simp: halfway_def)
  next
    case (Unassign t)
    have t: "owner w = Some t" by (rule own) (use Unassign(2) in \<open>auto simp: owns_pc_def\<close>)
    with Unassign assms(3) show ?thesis by (intro same) (auto simp: halfway_def)
  next
    case (Unlock t)
    have t: "owner w = Some t" by (rule own) (simp add: Unlock(2) owns_pc_def)
    with assms(3) Unlock(2) have "fin (local w t)" by (simp add: halfway_def)
    with t Unlock(1) show ?thesis by (intro ends) simp_all
  next
    case (WaitReleases t)
    have "owner w = Some t" by (rule own) (use WaitReleases(2) in \<open>auto simp: owns_pc_def\<close>)
    with WaitReleases(1,3) show ?thesis by (intro ends) simp_all
  next
    case (WaitReturns t)
    with assms(3) show ?thesis by (intro same) (auto simp: halfway_def)
  qed
qed

lemma reach_refines:
  "mutex_reach gettid act idle fin (Mutex_new l d) w \<Longrightarrow>
    \<exists>b. (atomic_step act idle fin)\<^sup>*\<^sup>* (l, d) b \<and> halfway act fin b w"
proof (induction rule: rtranclp_induct)
  case base
  show ?case by (intro exI [of _ "(l, d)"] conjI rtranclp.rtrancl_refl halfway_new)
next
  case (step w w')
  obtain b where b: "(atomic_step act idle fin)\<^sup>*\<^sup>* (l, d) b" "halfway act fin b w"
    using step.IH by blast
  obtain c where c: "(atomic_step act idle fin)\<^sup>*\<^sup>* b c" "halfway act fin c w'"
    using step_refines [OF step.hyps(2) mutex_reach_inv [OF step.hyps(1)] b(2)] by blast
  show ?case using rtranclp_trans [OF b(1) c(1)] c(2) by blast
qed

section \<open>Properties\<close>

text \<open>
  C8. Critical sections are atomic: whatever the threads do in whatever order, whenever no thread owns the mutex the
  local states and the shared data are those of a run in which every section, up to its unlock or its wait, is one
  step; and while a thread owns it, they are those of such a run and of the owner's steps since it has the mutex.
\<close>

theorem mutex_sections_atomic:
  assumes "mutex_reach gettid act idle fin (Mutex_new l d) w"
  shows "case owner w of
      None \<Rightarrow> (atomic_step act idle fin)\<^sup>*\<^sup>* (l, d) (local w, shared w)
    | Some t \<Rightarrow> \<exists>ls e. (atomic_step act idle fin)\<^sup>*\<^sup>* (l, d) (ls, e) \<and> (\<forall>u. u \<noteq> t \<longrightarrow> ls u = local w u) \<and>
        (act t)\<^sup>*\<^sup>* (ls t, e) (local w t, shared w)"
proof -
  obtain ls e where b: "(atomic_step act idle fin)\<^sup>*\<^sup>* (l, d) (ls, e)" "halfway act fin (ls, e) w"
    using reach_refines [OF assms] by (metis surj_pair)
  show ?thesis
  proof (cases "owner w")
    case None
    with b(2) have "ls = local w" "e = shared w" by (auto simp: halfway_def)
    with b(1) None show ?thesis by simp
  next
    case (Some t)
    with b(2) have "\<forall>u. u \<noteq> t \<longrightarrow> ls u = local w u" "(act t)\<^sup>*\<^sup>* (ls t, e) (local w t, shared w)"
      by (auto simp: halfway_def)
    with b(1) Some show ?thesis by auto
  qed
qed

text \<open>Two threads that each read a counter and then write it back one higher: no increment is lost.\<close>

definition demo_act :: "nat \<Rightarrow> nat option \<times> nat \<Rightarrow> nat option \<times> nat \<Rightarrow> bool" where
  "demo_act t a b \<longleftrightarrow>
    (case a of (None, d) \<Rightarrow> b = (Some d, d) | (Some x, d) \<Rightarrow> b = (None, Suc x))"

definition demo_mutex :: "(nat option, nat) mutex_world" where
  "demo_mutex = Mutex_new (\<lambda>_. None) 0"

definition demo_fin :: "nat option \<Rightarrow> bool" where
  "demo_fin l \<longleftrightarrow> l = None"

definition demo_locked :: "(nat option, nat) mutex_world" where
  "demo_locked = at_pc 1 Inside (Mutex_assign int 1 (at_pc 1 Locked (set_owner (Some 1) demo_mutex)))"

abbreviation demo_step where
  "demo_step \<equiv> mutex_step int demo_act (\<lambda>_ _ _. False) demo_fin"

lemma demo_locked_fields:
  "pc_of demo_locked = (\<lambda>_. Outside)(1 := Inside)" "owner demo_locked = Some 1" "holder demo_locked = 1"
  "local demo_locked = (\<lambda>_. None)" "shared demo_locked = 0"
  using assign_holder(1) [of "at_pc 1 Locked (set_owner (Some 1) demo_mutex)" 1 int]
  by (simp_all add: demo_locked_def demo_mutex_def Mutex_new_def assign_fields current_new_def)

lemma demo_locked_reach: "demo_step\<^sup>*\<^sup>* demo_mutex demo_locked"
proof -
  have "demo_step demo_mutex (at_pc 1 Locked (set_owner (Some 1) demo_mutex))"
    by (rule LockReturns) (simp_all add: demo_mutex_def Mutex_new_def)
  moreover have "demo_step (at_pc 1 Locked (set_owner (Some 1) demo_mutex)) demo_locked"
    unfolding demo_locked_def by (rule Assign) simp
  ultimately show ?thesis by (meson rtranclp.rtrancl_into_rtrancl rtranclp.rtrancl_refl)
qed

theorem mutex_sections_atomic_witness:
  "\<exists>(w :: (nat option, nat) mutex_world) ls e. owner w = Some 1 \<and> shared w = 0 \<and> local w 1 = Some 0 \<and>
    (atomic_step demo_act (\<lambda>_ _ _. False) demo_fin)\<^sup>*\<^sup>* (\<lambda>_. None, 0) (ls, e) \<and>
    (demo_act 1)\<^sup>*\<^sup>* (ls 1, e) (Some 0, 0)"
proof -
  define w where "w = demo_locked\<lparr>local := (local demo_locked)(1 := Some 0), shared := 0\<rparr>"
  have "demo_step demo_locked w"
    unfolding w_def by (rule Act) (simp_all add: demo_act_def demo_locked_fields)
  with demo_locked_reach have "demo_step\<^sup>*\<^sup>* (Mutex_new (\<lambda>_. None) 0) w"
    by (simp add: demo_mutex_def rtranclp.rtrancl_into_rtrancl)
  note at = mutex_sections_atomic [OF this]
  have "owner w = Some 1" "shared w = 0" "local w 1 = Some 0" by (simp_all add: w_def demo_locked_fields)
  with at show ?thesis by (intro exI [of _ w]) auto
qed

text \<open>
  At most one thread is between lock and unlock; \<open>holder_\<close> is its kernel id from \<open>assign\<close> until it unlocks or first
  waits; and the destructor's assertion holds whenever no thread owns the mutex or waits.
\<close>

theorem mutex_holder:
  assumes "mutex_reach gettid act idle fin (Mutex_new l d) w"
  shows "(owns_pc (pc_of w t) \<longrightarrow> owns_pc (pc_of w u) \<longrightarrow> t = u) \<and> (pc_of w t = Inside \<longrightarrow> holder w = gettid t) \<and>
    (owner w = None \<and> (\<forall>t. pc_of w t \<noteq> Waiting) \<longrightarrow> Mutex_destroy w = Inr ())"
  using mutex_reach_inv [OF assms] by (auto simp: Mutex_inv_def Mutex_destroy_def)

theorem mutex_holder_witness: "demo_step\<^sup>*\<^sup>* demo_mutex demo_locked \<and> holder demo_locked = 1"
proof -
  have "demo_step\<^sup>*\<^sup>* (Mutex_new (\<lambda>_. None) 0) demo_locked" using demo_locked_reach by (simp add: demo_mutex_def)
  from mutex_holder [OF this, of 1 1] demo_locked_reach show ?thesis by (simp add: demo_locked_fields(1))
qed

text \<open>
  After a wait \<open>holder_\<close> is wrong: \<open>UnassignMutex\<close>, made to clear it around a wait, is not used by \<open>Condition::wait\<close>,
  so \<open>holder_\<close> names the sleeping thread while nobody owns the mutex, and is 0 in a thread that owns it again after
  another thread has had it.
\<close>

theorem holder_wrong_after_wait:
  assumes "pc_of w t = Inside" and "owner w = Some t" and "holder w = gettid t" and "fin (local w t)"
    and "pc_of w u = Outside" and "t \<noteq> u" and "fin (local w u)"
  shows "\<exists>v v'. mutex_reach gettid act idle fin w v \<and> owner v = None \<and> holder v = gettid t \<and>
    mutex_reach gettid act idle fin v v' \<and> owner v' = Some t \<and> pc_of v' t = Woken \<and> holder v' = 0"
proof -
  let ?R = "mutex_step gettid act idle fin"
  define v where "v = at_pc t Waiting (set_owner None w)"
  define v1 where "v1 = at_pc u Locked (set_owner (Some u) v)"
  define v2 where "v2 = at_pc u Inside (Mutex_assign gettid u v1)"
  define v3 where "v3 = at_pc u Unassigned (Mutex_unassign v2)"
  define v4 where "v4 = at_pc u Outside (set_owner None v3)"
  define v5 where "v5 = at_pc t Woken (set_owner (Some t) v4)"
  have "?R w v" unfolding v_def by (rule WaitReleases) (simp_all add: assms)
  then have w: "?R\<^sup>*\<^sup>* w v" by blast
  have 1: "?R v v1" unfolding v1_def by (rule LockReturns) (use assms in \<open>simp_all add: v_def\<close>)
  have 2: "?R v1 v2" unfolding v2_def by (rule Assign) (simp add: v1_def)
  have 3: "?R v2 v3" unfolding v3_def by (rule Unassign) (simp_all add: v2_def v1_def v_def assign_fields assms)
  have 4: "?R v3 v4" unfolding v4_def by (rule Unlock) (simp add: v3_def)
  have 5: "?R v4 v5" unfolding v5_def
    by (rule WaitReturns) (use assms in \<open>simp_all add: v4_def v3_def v2_def v1_def v_def assign_fields\<close>)
  note before = converse_rtranclp_into_rtranclp [where r = ?R]
  have v: "?R\<^sup>*\<^sup>* v v5"
    by (rule before, rule 1, rule before, rule 2, rule before, rule 3, rule before, rule 4, rule r_into_rtranclp, rule 5)
  have "owner v = None" "holder v = gettid t" by (simp_all add: v_def assms(3))
  moreover have "owner v5 = Some t" "pc_of v5 t = Woken" "holder v5 = 0" by (simp_all add: v5_def v4_def v3_def)
  ultimately show ?thesis using w v by blast
qed

theorem holder_wrong_after_wait_witness:
  "\<exists>v'. demo_step\<^sup>*\<^sup>* demo_locked v' \<and> owner v' = Some 1 \<and> pc_of v' 1 = Woken \<and> holder v' = 0"
proof -
  have "pc_of demo_locked 1 = Inside" "owner demo_locked = Some 1" "holder demo_locked = int 1"
    "demo_fin (local demo_locked 1)" "pc_of demo_locked 2 = Outside" "(1::nat) \<noteq> 2" "demo_fin (local demo_locked 2)"
    by (simp_all add: demo_locked_fields demo_fin_def)
  from holder_wrong_after_wait [where gettid = int and act = demo_act and idle = "\<lambda>_ _ _. False", OF this] obtain v v'
    where "demo_step\<^sup>*\<^sup>* demo_locked v" "demo_step\<^sup>*\<^sup>* v v'" "owner v' = Some 1" "pc_of v' 1 = Woken" "holder v' = 0"
    by blast
  with rtranclp_trans [of demo_step demo_locked v v'] show ?thesis by blast
qed

end
