(* ===== verification/HttpConnection.thy ===== *)
theory HttpConnection
  imports HttpServer TcpConnection_Properties
begin

text \<open>
  The HTTP server over a TCP connection: \<open>HttpServer\<close>'s \<open>onMessage\<close> (\<open>net/Http/HttpServer.cc\<close>) as the message
  callback of the connection (\<open>net/TcpConnection.cc\<close>). The calls that \<open>onMessage\<close> makes are carried out on the
  connection: from the bytes that \<open>readv\<close> delivers to the bytes that \<open>write\<close> takes. \<open>io\<close> holds what the kernel
  answers on the way.
\<close>

record http_io =
  io_write :: "errno + nat"
  io_open :: "int option"
  io_fstat :: "nat option"

fun conn_do :: "conn_callbacks \<Rightarrow> http_io \<Rightarrow> conn_call \<Rightarrow> world \<Rightarrow> world res" where
  "conn_do cbs io (ConnSend data) w = TcpConnection_send cbs (io_write io) data w"
| "conn_do cbs io (ConnSendFile path) w = TcpConnection_sendFile cbs (io_open io) (io_fstat io) path w"
| "conn_do cbs io ConnForceClose w = TcpConnection_forceClose cbs w"

text \<open>\<open>onMessage\<close> on the connection called \<open>name\<close>; it consumes from the connection's read buffer.\<close>

definition http_onMessage ::
  "conn_callbacks \<Rightarrow> http_io \<Rightarrow> string \<Rightarrow> http_server \<Rightarrow> world \<Rightarrow> (http_server \<times> world) res" where
  "http_onMessage cbs io name srv w =
    rbind (HttpServer_onMessage name (readBuffer (conn w)) srv) (\<lambda>(srv, buf, calls).
    rbind (rfold (conn_do cbs io) calls (on_conn (\<lambda>c. c\<lparr>readBuffer := buf\<rparr>) w)) (\<lambda>w. Inr (srv, w)))"

definition http_callbacks :: "conn_callbacks \<Rightarrow> http_io \<Rightarrow> string \<Rightarrow> http_server \<Rightarrow> conn_callbacks" where
  "http_callbacks cbs io name srv =
    cbs\<lparr>messageCallback := Some (\<lambda>t w. rbind (http_onMessage cbs io name srv w) (\<lambda>(_, w). Inr w))\<rparr>"

section \<open>Sending on an idle connection\<close>

definition taken :: "errno + nat \<Rightarrow> nat" where
  "taken sys = (case sys of Inr n \<Rightarrow> n | Inl _ \<Rightarrow> 0)"

text \<open>Nothing is on its way to the peer, neither bytes nor a file.\<close>

definition write_idle :: "world \<Rightarrow> bool" where
  "write_idle w \<longleftrightarrow> state_of w = kConnected \<and> unsent w = [] \<and> \<not> sendingFile (conn w)"

lemma write_idle_not_writing:
  assumes "conn_inv E w" and "write_idle w"
  shows "\<not> channel_isWriting w" and "Buffer_readableBytes (writeBuffer (conn w)) = 0" and "in_thread w"
proof -
  have ok: "conn_ok E w" using assms(1) by (simp add: conn_inv_def)
  show "\<not> channel_isWriting w" using assms by (simp add: conn_inv_def conn_flags_def write_idle_def)
  show "Buffer_readableBytes (writeBuffer (conn w)) = 0" using readable_iff [OF ok] assms(2) by (simp add: write_idle_def)
  show "in_thread w" by (rule conn_inv_thread [OF assms(1)])
qed

text \<open>The kernel takes a part of the data at once, and the rest waits in the buffer.\<close>

lemma send_idle:
  assumes cbs: "callbacks_ok E cbs" and none: "writeCompleteCallback cbs = None" and inv: "conn_inv E w"
    and idle: "write_idle w" and sys: "took sys (length data)"
  shows "\<exists>w'. TcpConnection_send cbs sys data w = Inr w' \<and> conn_inv E w' \<and> state_of w' = kConnected \<and>
    sys_bytes (trace w') = sys_bytes (trace w) @ take (taken sys) data \<and> unsent w' = drop (taken sys) data \<and>
    \<not> sendingFile (conn w') \<and> readBuffer (conn w') = readBuffer (conn w) \<and> closed_file w' = [] \<and> tq w' = tq w"
proof -
  note free = write_idle_not_writing [OF inv idle]
  have st: "state_of w = kConnected" "unsent w = []" "\<not> sendingFile (conn w)" using idle by (simp_all add: write_idle_def)
  have nofile: "\<not> fileFd (conn w) \<ge> 0" using inv st(3) by (simp add: conn_inv_def conn_flags_def)
  let ?run = "TcpConnection_sendInLoop cbs sys data w"
  have eq: "TcpConnection_send cbs sys data w = ?run"
    using st(1) free(3) by (simp add: TcpConnection_send_def run_or_post_def)
  from sendInLoop_ok [OF cbs inv, of sys data] st(1) sys have ok: "\<exists>w'. ?run = Inr w' \<and> conn_inv E w'"
    by (auto simp: goes_ok_def took_def)
  define w1 where "w1 = (case sys of Inr n \<Rightarrow> emit (SysWrite (take n data)) | Inl _ \<Rightarrow> id) (w\<lparr>accepted := accepted w @ data\<rparr>)"
  have w1: "conn w1 = conn w" "poll_of w1 = poll_of w" "tq w1 = tq w" "in_thread w1 = in_thread w"
    "sys_bytes (trace w1) = sys_bytes (trace w) @ take (taken sys) data"
    by (simp_all add: w1_def taken_def emit_def split: sum.split)
  show ?thesis
  proof (cases "taken sys < length data")
    case False
    with sys have whole: "sys = Inr (length data)" if "data \<noteq> []"
      using that by (cases sys) (auto simp: taken_def took_def)
    have "?run = Inr w1"
      using False sys free st none
      by (cases sys) (auto simp: TcpConnection_sendInLoop_def w1_def taken_def took_def emit_def Let_def)
    with ok eq w1 False st nofile show ?thesis by (auto simp: closed_file_def)
  next
    case True
    have okw: "conn_ok E w1" using inv w1 by (simp add: conn_inv_def conn_ok_def)
    then have "Buffer_inv (writeBuffer (conn w1))" by (simp add: conn_ok_def)
    from append_ok [OF this, of "drop (taken sys) data"] obtain b where
      b: "Buffer_append (drop (taken sys) data) (writeBuffer (conn w1)) = Inr b" "Buffer_inv b"
      "Buffer_content b = drop (taken sys) data" using st(2) w1(1) by auto
    let ?v = "on_conn (\<lambda>c. c\<lparr>writeBuffer := b\<rparr>) w1"
    have "conn_ok E ?v" using okw b(2) by (simp add: conn_ok_def)
    from enableWriting_ok [OF this] obtain p where p: "on_channel Channel_enableWriting ?v = Inr (?v\<lparr>poll_of := p\<rparr>)"
      by blast
    have nw: "\<not> channel_isWriting ?v" using free(1) w1 by (simp add: channel_isWriting_def)
    have "?run = Inr (?v\<lparr>poll_of := p\<rparr>)"
      using True sys free st b(1) p nw
      by (cases sys) (auto simp: TcpConnection_sendInLoop_def w1_def taken_def Let_def)
    with ok eq w1 b(3) st nofile show ?thesis by (auto simp: closed_file_def)
  qed
qed

section \<open>From a request to the response\<close>

definition response_bytes :: "http_response \<Rightarrow> string" where
  "response_bytes resp = response_head (with_length resp) @ resp_body resp"

lemma http_message:
  assumes "wf_head r" and "wf_body r" and "conn_inv E w" and "ordered (context_map srv)"
    and "mget (context_map srv) name = Some kExpectRequestLine"
    and "Buffer_content (readBuffer (conn w)) = request_head r @ req_body r @ rest"
  obtains buf where "Buffer_content buf = rest" "conn_inv E (on_conn (\<lambda>c. c\<lparr>readBuffer := buf\<rparr>) w)"
    and "http_onMessage cbs io name srv w =
      rbind (rfold (conn_do cbs io) (response_calls (run_callback (cb srv) r keep_alive_response))
        (on_conn (\<lambda>c. c\<lparr>readBuffer := buf\<rparr>) w))
      (\<lambda>w. Inr (srv\<lparr>context_map := mput name kExpectRequestLine (context_map srv)\<rparr>, w))"
proof -
  have "Buffer_inv (readBuffer (conn w))" using assms(3) by (simp add: conn_inv_def conn_ok_def)
  from whole_request [OF assms(1,2) this assms(4,5,6)] obtain buf where
    b: "HttpServer_onMessage name (readBuffer (conn w)) srv =
      Inr (srv\<lparr>context_map := mput name kExpectRequestLine (context_map srv)\<rparr>, buf,
        response_calls (run_callback (cb srv) r keep_alive_response))" "Buffer_inv buf" "Buffer_content buf = rest" by blast
  show ?thesis by (rule that [OF b(3) conn_inv_read [OF assms(3) b(2)]]) (simp add: http_onMessage_def b(1))
qed

text \<open>A read event that completes a request runs the calls on the connection whose read buffer is what is left.\<close>

lemma http_read:
  assumes "wf_head r" and "wf_body r" and "conn_inv E w" and "write_idle w" and "fresh_timer rq (tq w)" and "data \<noteq> []"
    and "ordered (context_map srv)" and "mget (context_map srv) name = Some kExpectRequestLine"
    and "Buffer_content (readBuffer (conn w)) @ data = request_head r @ req_body r @ rest"
  obtains v where "TcpConnection_handleRead (http_callbacks cbs io name srv) (Inr data) t rq w =
      rfold (conn_do cbs io) (response_calls (run_callback (cb srv) r keep_alive_response)) v"
    and "conn_inv E v" and "write_idle v" and "sys_bytes (trace v) = sys_bytes (trace w)"
    and "Buffer_content (readBuffer (conn v)) = rest"
proof -
  from read_delivers [OF assms(3,5,6), of "http_callbacks cbs io name srv" t] obtain w1 where w1:
    "TcpConnection_handleRead (http_callbacks cbs io name srv) (Inr data) t rq w =
      rbind (http_onMessage cbs io name srv (emit CallMessage w1)) (\<lambda>(_, w). Inr w)"
    "conn_inv E w1" "Buffer_content (readBuffer (conn w1)) = Buffer_content (readBuffer (conn w)) @ data"
    "state_of w1 = state_of w" "trace w1 = trace w" "writeBuffer (conn w1) = writeBuffer (conn w)"
    "sendingFile (conn w1) = sendingFile (conn w)" by (auto simp: http_callbacks_def invoke_def)
  let ?w = "emit CallMessage w1"
  have inv: "conn_inv E ?w" using w1(2) by simp
  have content: "Buffer_content (readBuffer (conn ?w)) = request_head r @ req_body r @ rest"
    using w1(3) assms(9) by simp
  obtain buf where b: "Buffer_content buf = rest" "conn_inv E (on_conn (\<lambda>c. c\<lparr>readBuffer := buf\<rparr>) ?w)"
    "http_onMessage cbs io name srv ?w =
      rbind (rfold (conn_do cbs io) (response_calls (run_callback (cb srv) r keep_alive_response))
        (on_conn (\<lambda>c. c\<lparr>readBuffer := buf\<rparr>) ?w))
      (\<lambda>w. Inr (srv\<lparr>context_map := mput name kExpectRequestLine (context_map srv)\<rparr>, w))"
    by (rule http_message [OF assms(1,2) inv assms(7,8) content]) (rule that)
  have "rbind (rbind m (\<lambda>w. Inr (s, w))) (\<lambda>(_, w). Inr w) = m" for m :: "world res" and s :: http_server
    by (cases m) simp_all
  with w1(1) b(3) have run: "TcpConnection_handleRead (http_callbacks cbs io name srv) (Inr data) t rq w =
      rfold (conn_do cbs io) (response_calls (run_callback (cb srv) r keep_alive_response))
        (on_conn (\<lambda>c. c\<lparr>readBuffer := buf\<rparr>) ?w)" by simp
  show ?thesis by (rule that [OF run b(2)]) (use b(1) w1(4-7) assms(4) in \<open>simp_all add: write_idle_def emit_def\<close>)
qed

section \<open>Properties\<close>


definition demo_io :: http_io where
  "demo_io = \<lparr>io_write = Inr 10, io_open = None, io_fstat = None\<rparr>"

lemma demo_idle:
  "conn_inv {} (demo_world kConnected [] (-1) [])" "write_idle (demo_world kConnected [] (-1) [])"
  "fresh_timer demo_request (tq (demo_world kConnected [] (-1) []))"
  "Buffer_content (readBuffer (conn (demo_world kConnected [] (-1) []))) = []"
  "trace (demo_world kConnected [] (-1) []) = []"
proof -
  show "conn_inv {} (demo_world kConnected [] (-1) [])" by (rule demo_world_inv) simp_all
  show "fresh_timer demo_request (tq (demo_world kConnected [] (-1) []))"
    using demo_request_fresh by (simp add: demo_world_def)
qed (simp_all add: demo_world_def write_idle_def)

lemma get_hello_wf: "wf_head get_hello" "wf_body get_hello" "req_body get_hello = []" "request_head get_hello \<noteq> []"
  by (simp_all add: wf_head_def wf_body_def wf_header_def get_hello_def request_url_def is_blank_def
      expects_body_def request_head_def crlf_def)


text \<open>
  C40. A response that asks to close the connection is cut off: \<open>onMessage\<close> calls \<open>forceClose\<close> right after \<open>send\<close>, so
  only the bytes that the kernel takes in the first \<open>write\<close> reach the peer. Everything the connection holds is then
  released, and the close callback runs on a disconnected connection, from which nothing is written any more.
\<close>

theorem http_closing_response_truncated:
  assumes "callbacks_ok E cbs" and "writeCompleteCallback cbs = None" and "conn_inv E w" and "write_idle w"
    and "fresh_timer rq (tq w)" and "data \<noteq> []"
    and "wf_head r" and "wf_body r" and "ordered (context_map srv)" and "mget (context_map srv) name = Some kExpectRequestLine"
    and "Buffer_content (readBuffer (conn w)) @ data = request_head r @ req_body r @ rest"
    and "run_callback (cb srv) r keep_alive_response = resp" and "\<not> fileMode resp" and "closeConnection resp"
    and "took (io_write io) (length (response_bytes resp))"
  shows "\<exists>w'. TcpConnection_handleRead (http_callbacks cbs io name srv) (Inr data) t rq w =
      invoke (closeCallback cbs) CallClose w' \<and> conn_inv E w' \<and> released E w' \<and>
    sys_bytes (trace w') = sys_bytes (trace w) @ take (taken (io_write io)) (response_bytes resp)"
proof -
  obtain v where v: "TcpConnection_handleRead (http_callbacks cbs io name srv) (Inr data) t rq w =
      rfold (conn_do cbs io) (response_calls resp) v"
    "conn_inv E v" "write_idle v" "sys_bytes (trace v) = sys_bytes (trace w)"
    using http_read [OF assms(7,8,3,4,5,6,9,10,11), of cbs io t] assms(12) by metis
  from send_idle [OF assms(1,2) v(2,3) assms(15)] obtain w1 where w1:
    "TcpConnection_send cbs (io_write io) (response_bytes resp) v = Inr w1" "conn_inv E w1" "state_of w1 = kConnected"
    "sys_bytes (trace w1) = sys_bytes (trace v) @ take (taken (io_write io)) (response_bytes resp)" "closed_file w1 = []"
    by blast
  have "conn_open w1" using w1(3) by simp
  from forceClose_closes [OF w1(2) this, of cbs] w1(5) obtain w' where w':
    "TcpConnection_forceClose cbs w1 = invoke (closeCallback cbs) CallClose w'" "conn_inv E w'" "released E w'"
    "trace w' = trace w1" by (auto simp: closes_conn_def)
  have "response_calls resp = [ConnSend (response_bytes resp), ConnForceClose]"
    using assms(13,14) by (simp add: response_calls_def response_bytes_def)
  moreover have "rbind m (rfold (conn_do cbs io) []) = m" for m :: "world res" by (cases m) simp_all
  ultimately have "TcpConnection_handleRead (http_callbacks cbs io name srv) (Inr data) t rq w =
      invoke (closeCallback cbs) CallClose w'" using v(1) w1(1) w'(1) by simp
  with w' w1(4) v(4) show ?thesis by (intro exI [of _ w']) simp
qed

definition closing_server :: http_server where
  "closing_server =
    HttpServer_onConnection True ''c1''
      (HttpServer_new (Some (\<lambda>req resp. (req, resp\<lparr>statusCode := k200Ok, resp_body := ''Goodbye'', closeConnection := True\<rparr>))))"

lemma closing_server_context:
  "mget (context_map closing_server) ''c1'' = Some kExpectRequestLine" "ordered (context_map closing_server)"
  "cb closing_server = Some (\<lambda>req resp. (req, resp\<lparr>statusCode := k200Ok, resp_body := ''Goodbye'', closeConnection := True\<rparr>))"
  by (simp_all add: closing_server_def HttpServer_onConnection_def HttpServer_new_def)

theorem http_closing_response_truncated_witness:
  "\<exists>w'. TcpConnection_handleRead (http_callbacks no_callbacks demo_io ''c1'' closing_server) (Inr (request_head get_hello)) 0
      demo_request (demo_world kConnected [] (-1) []) = Inr w' \<and> sys_bytes (trace w') = ''HTTP/1.1 2''"
proof -
  let ?resp = "run_callback (cb closing_server) get_hello keep_alive_response"
  have resp: "take 10 (response_bytes ?resp) = ''HTTP/1.1 2'' \<and> 10 \<le> length (response_bytes ?resp)"
    unfolding closing_server_context by code_simp
  have "\<not> fileMode ?resp" "closeConnection ?resp" unfolding closing_server_context by code_simp+
  moreover have "took (io_write demo_io) (length (response_bytes ?resp))" using resp by (simp add: took_def demo_io_def)
  moreover have "Buffer_content (readBuffer (conn (demo_world kConnected [] (-1) []))) @ request_head get_hello =
      request_head get_hello @ req_body get_hello @ []" by (simp add: demo_idle(4) get_hello_wf(3))
  moreover have "writeCompleteCallback no_callbacks = None" "closeCallback no_callbacks = None"
    by (simp_all add: no_callbacks_def)
  moreover have "taken (io_write demo_io) = 10" by (simp add: taken_def demo_io_def)
  ultimately show ?thesis
    using http_closing_response_truncated [OF no_callbacks_ok _ demo_idle(1-3) get_hello_wf(4,1,2)
        closing_server_context(2,1) _ refl, of "[]" demo_io 0] resp demo_idle(5) by auto
qed

text \<open>
  A file is announced and then transferred: in file mode the head of the response is sent like any response, and the
  connection is left with the file of the right size to send from its start, and with write interest.
\<close>

theorem http_file_response_begins:
  assumes "callbacks_ok E cbs" and "writeCompleteCallback cbs = None" and "conn_inv E w" and "write_idle w"
    and "fresh_timer rq (tq w)" and "data \<noteq> []"
    and "wf_head r" and "wf_body r" and "ordered (context_map srv)" and "mget (context_map srv) name = Some kExpectRequestLine"
    and "Buffer_content (readBuffer (conn w)) @ data = request_head r @ req_body r @ rest"
    and "run_callback (cb srv) r keep_alive_response = resp" and "fileMode resp" and "\<not> closeConnection resp"
    and "took (io_write io) (length (response_head resp))" and "io_open io = Some fd" and "fd \<ge> 0"
    and "io_fstat io = Some n"
  shows "\<exists>w'. TcpConnection_handleRead (http_callbacks cbs io name srv) (Inr data) t rq w = Inr w' \<and> conn_inv E w' \<and>
    state_of w' = kConnected \<and> Buffer_content (readBuffer (conn w')) = rest \<and>
    sys_bytes (trace w') @ unsent w' = sys_bytes (trace w) @ response_head resp \<and> channel_isWriting w' \<and>
    sendingFile (conn w') \<and> fileFd (conn w') = fd \<and> fileSentOffset (conn w') = 0 \<and> fileTotalSize (conn w') = n"
proof -
  obtain v where v: "TcpConnection_handleRead (http_callbacks cbs io name srv) (Inr data) t rq w =
      rfold (conn_do cbs io) (response_calls resp) v"
    "conn_inv E v" "write_idle v" "sys_bytes (trace v) = sys_bytes (trace w)" "Buffer_content (readBuffer (conn v)) = rest"
    using http_read [OF assms(7,8,3,4,5,6,9,10,11), of cbs io t] assms(12) by metis
  from send_idle [OF assms(1,2) v(2,3) assms(15)] obtain w1 where w1:
    "TcpConnection_send cbs (io_write io) (response_head resp) v = Inr w1" "conn_inv E w1" "state_of w1 = kConnected"
    "sys_bytes (trace w1) = sys_bytes (trace v) @ take (taken (io_write io)) (response_head resp)"
    "unsent w1 = drop (taken (io_write io)) (response_head resp)" "readBuffer (conn w1) = readBuffer (conn v)" by blast
  let ?v = "on_conn (\<lambda>c. c\<lparr>fileFd := fd, fileSentOffset := 0, fileTotalSize := n, sendingFile := True\<rparr>) w1"
  have "conn_ok E ?v" using w1(2) by (simp add: conn_inv_def conn_ok_def)
  from enableWriting_ok [OF this] obtain p where p: "on_channel Channel_enableWriting ?v = Inr (?v\<lparr>poll_of := p\<rparr>)"
    "channel_isWriting (?v\<lparr>poll_of := p\<rparr>)" by blast
  let ?w = "?v\<lparr>poll_of := p\<rparr>"
  have filed: "TcpConnection_sendFile cbs (io_open io) (io_fstat io) (filePath resp) w1 = Inr ?w"
    using w1(3) conn_inv_thread [OF w1(2)] assms(16,18) p(1)
    by (simp add: TcpConnection_sendFile_def run_or_post_def TcpConnection_sendFileInLoop_def)
  have "conn_inv E ?w"
    using sendFile_ok [OF assms(1) w1(2), of "io_open io" "io_fstat io" "filePath resp"] assms(16,17) filed
    by (auto simp: goes_ok_def)
  moreover have "response_calls resp = [ConnSend (response_head resp), ConnSendFile (filePath resp)]"
    using assms(13,14) by (simp add: response_calls_def)
  then have "TcpConnection_handleRead (http_callbacks cbs io name srv) (Inr data) t rq w = Inr ?w"
    using v(1) w1(1) filed by simp
  ultimately show ?thesis using p(2) w1(3-6) v(4,5) by (intro exI [of _ ?w]) simp
qed

definition file_server :: http_server where
  "file_server =
    HttpServer_onConnection True ''c1''
      (HttpServer_new (Some (httpCallback ''/srv'' (\<lambda>_. None) (\<lambda>_. Some 1000))))"

lemma file_server_context:
  "mget (context_map file_server) ''c1'' = Some kExpectRequestLine" "ordered (context_map file_server)"
  "cb file_server = Some (httpCallback ''/srv'' (\<lambda>_. None) (\<lambda>_. Some 1000))"
  by (simp_all add: file_server_def HttpServer_onConnection_def HttpServer_new_def)

definition get_video :: http_request where
  "get_video = get_hello\<lparr>req_path := ''/video.mp4''\<rparr>"

lemma get_video_wf: "wf_head get_video" "wf_body get_video" "req_body get_video = []" "request_head get_video \<noteq> []"
  by (simp_all add: wf_head_def wf_body_def wf_header_def get_video_def get_hello_def request_url_def is_blank_def
      expects_body_def request_head_def crlf_def)

theorem http_file_response_begins_witness:
  "\<exists>w'. TcpConnection_handleRead (http_callbacks no_callbacks (demo_io\<lparr>io_open := Some 9, io_fstat := Some 1000\<rparr>) ''c1'' file_server)
      (Inr (request_head get_video)) 0 demo_request (demo_world kConnected [] (-1) []) = Inr w' \<and>
    fileFd (conn w') = 9 \<and> fileTotalSize (conn w') = 1000"
proof -
  let ?resp = "run_callback (cb file_server) get_video keep_alive_response"
  let ?io = "demo_io\<lparr>io_open := Some 9, io_fstat := Some 1000\<rparr>"
  have "10 \<le> length (response_head ?resp)" unfolding file_server_context by code_simp
  then have "took (io_write ?io) (length (response_head ?resp))" by (simp add: took_def demo_io_def)
  moreover have "fileMode ?resp" "\<not> closeConnection ?resp" unfolding file_server_context by code_simp+
  moreover have "Buffer_content (readBuffer (conn (demo_world kConnected [] (-1) []))) @ request_head get_video =
      request_head get_video @ req_body get_video @ []" by (simp add: demo_idle(4) get_video_wf(3))
  moreover have "writeCompleteCallback no_callbacks = None" "io_open ?io = Some 9" "(9 :: int) \<ge> 0" "io_fstat ?io = Some 1000"
    by (simp_all add: no_callbacks_def)
  ultimately show ?thesis
    using http_file_response_begins [OF no_callbacks_ok _ demo_idle(1-3) get_video_wf(4,1,2)
        file_server_context(2,1) _ refl, of "[]" ?io 9 1000 0] by auto
qed

end
