(* ===== verification/EchoServer.thy ===== *)
theory EchoServer
  imports TcpConnection_Properties
begin

text \<open>
  The echo server of the integration test (\<open>test/integration_test.cc\<close>): a message callback that takes all that has been
  read and sends it back. A run is a list of read and write events of one connection, with what the kernel
  answers to each; the peer never closes and no call fails for good.
\<close>

definition echo_server :: "conn_callbacks \<Rightarrow> errno + nat \<Rightarrow> conn_callbacks" where
  "echo_server cbs sys =
    cbs\<lparr>messageCallback := Some (\<lambda>t w.
      rbind (Buffer_readAllAsString (readBuffer (conn w))) (\<lambda>(msg, b).
        TcpConnection_send cbs sys msg (on_conn (\<lambda>c. c\<lparr>readBuffer := b\<rparr>) w)))\<rparr>"

datatype echo_op =
  EchoRead string timer_request "errno + nat"
| EchoWrite "errno + nat" "errno + nat" "errno + nat" timer_request

fun echo_do :: "conn_callbacks \<Rightarrow> echo_op \<Rightarrow> world \<Rightarrow> world res" where
  "echo_do cbs (EchoRead data r sys) w = TcpConnection_handleRead (echo_server cbs sys) (Inr data) 0 r w"
| "echo_do cbs (EchoWrite sys sysf sys' r) w = TcpConnection_handleWrite cbs sys sysf sys' r w"

text \<open>The kernel takes at most what it is given, and reports a writable socket only while write events are asked for.\<close>

fun echo_may :: "echo_op \<Rightarrow> world \<Rightarrow> bool" where
  "echo_may (EchoRead data r sys) w \<longleftrightarrow> data \<noteq> [] \<and> fresh_timer r (tq w) \<and> took sys (length data)"
| "echo_may (EchoWrite sys sysf sys' r) w \<longleftrightarrow> fresh_timer r (tq w) \<and> channel_isWriting w \<and>
    (case sys of Inl e \<Rightarrow> e = EAGAIN | Inr k \<Rightarrow> 0 < k \<and> k \<le> length (unsent w))"

fun echo_legal :: "conn_callbacks \<Rightarrow> echo_op list \<Rightarrow> world \<Rightarrow> bool" where
  "echo_legal cbs [] w = True"
| "echo_legal cbs (x # xs) w \<longleftrightarrow> echo_may x w \<and> (case echo_do cbs x w of Inl _ \<Rightarrow> True | Inr w' \<Rightarrow> echo_legal cbs xs w')"

fun received :: "echo_op list \<Rightarrow> string" where
  "received [] = []"
| "received (EchoRead data r sys # xs) = data @ received xs"
| "received (EchoWrite sys sysf sys' r # xs) = received xs"

section \<open>Lemmas\<close>

text \<open>An established connection that transfers no file and has nothing left to read.\<close>

definition echo_ready :: "addr set \<Rightarrow> world \<Rightarrow> bool" where
  "echo_ready E w \<longleftrightarrow>
    conn_inv E w \<and> state_of w = kConnected \<and> \<not> sendingFile (conn w) \<and> Buffer_content (readBuffer (conn w)) = []"

lemma drain_frame:
  assumes "handleWrite_drain cbs sys w = Inr (ret, w')" and "writeCompleteCallback cbs = None"
    and "case sys of Inl e \<Rightarrow> e = EAGAIN | Inr k \<Rightarrow> 0 < k"
  shows "state_of w' = state_of w \<and> sendingFile (conn w') = sendingFile (conn w) \<and>
    readBuffer (conn w') = readBuffer (conn w) \<and> accepted w' = accepted w"
proof (cases sys)
  case (Inl e)
  with assms show ?thesis by (auto simp: handleWrite_drain_def Buffer_WriteFd_def Let_def split: if_splits)
next
  case (Inr k)
  with assms show ?thesis
    by (cases "Buffer_retrieve k (writeBuffer (conn w))")
      (auto simp: handleWrite_drain_def Buffer_WriteFd_def Let_def rbind_eq_Inr dest!: disableWriting_frame split: if_splits)
qed

lemma echo_read_ok:
  assumes cbs: "callbacks_ok E cbs" "writeCompleteCallback cbs = None" and w: "echo_ready E w"
    and may: "data \<noteq> []" "fresh_timer r (tq w)" "took sys (length data)"
  shows "\<exists>w'. TcpConnection_handleRead (echo_server cbs sys) (Inr data) 0 r w = Inr w' \<and> echo_ready E w' \<and>
    accepted w' = accepted w @ data"
proof -
  have inv: "conn_inv E w" and st: "state_of w = kConnected" "\<not> sendingFile (conn w)"
    "Buffer_content (readBuffer (conn w)) = []" using w by (simp_all add: echo_ready_def)
  from read_delivers [OF inv may(2,1), of "echo_server cbs sys" 0] obtain w1 where w1:
    "TcpConnection_handleRead (echo_server cbs sys) (Inr data) 0 r w =
      invoke (map_option (\<lambda>f. f 0) (messageCallback (echo_server cbs sys))) CallMessage w1" "conn_inv E w1"
    "Buffer_content (readBuffer (conn w1)) = data" "state_of w1 = kConnected" "\<not> sendingFile (conn w1)"
    "trace w1 = trace w" "writeBuffer (conn w1) = writeBuffer (conn w)"
    using st by auto
  have acc: "accepted w1 = accepted w" using inv w1(2,6,7) by (simp add: conn_inv_def conn_stream_def)
  have "Buffer_inv (readBuffer (conn w1))" using w1(2) by (simp add: conn_inv_def conn_ok_def)
  from readAll_ok [OF this] w1(3) obtain b where b: "Buffer_readAllAsString (readBuffer (conn w1)) = Inr (data, b)"
    "Buffer_inv b" "Buffer_content b = []" by auto
  let ?v = "on_conn (\<lambda>c. c\<lparr>readBuffer := b\<rparr>) (emit CallMessage w1)"
  have v: "conn_inv E ?v" by (rule conn_inv_read) (use w1(2) b(2) in simp_all)
  have "\<And>n. sys = Inr n \<Longrightarrow> n \<le> length data" using may(3) by (simp add: took_def)
  from send_ok [OF cbs(1) v this] obtain w' where w': "TcpConnection_send cbs sys data ?v = Inr w'" "conn_inv E w'"
    by (auto simp: goes_ok_def)
  have "TcpConnection_handleRead (echo_server cbs sys) (Inr data) 0 r w = Inr w'"
    using w1(1) b(1) w'(1) by (simp add: echo_server_def invoke_def)
  with w'(2) send_frame [OF w'(1) _ conn_inv_thread [OF v] cbs(2)] w1(4,5) b(3) acc show ?thesis
    by (auto simp: echo_ready_def)
qed

lemma echo_write_ok:
  assumes cbs: "callbacks_ok E cbs" "writeCompleteCallback cbs = None" and w: "echo_ready E w"
    and may: "echo_may (EchoWrite sys sysf sys' r) w"
  shows "\<exists>w'. TcpConnection_handleWrite cbs sys sysf sys' r w = Inr w' \<and> echo_ready E w' \<and> accepted w' = accepted w"
proof -
  have inv: "conn_inv E w" and st: "state_of w = kConnected" "\<not> sendingFile (conn w)"
    "Buffer_content (readBuffer (conn w)) = []" using w by (simp_all add: echo_ready_def)
  have fresh: "fresh_timer r (tq w)" and wr: "channel_isWriting w"
    and sys: "case sys of Inl e \<Rightarrow> e = EAGAIN | Inr k \<Rightarrow> 0 < k" "\<And>k. sys = Inr k \<Longrightarrow> k \<le> length (unsent w)"
    using may by (simp_all split: sum.splits)
  have "conn_open w" using st(1) by simp
  from handleWrite_phases [OF cbs(1) inv this wr fresh, of sys sysf sys'] sys(2) obtain w1 ret w2 where w2:
    "TcpConnection_resetIdleTimer r w = Inr w1" "handleWrite_drain cbs sys w1 = Inr (ret, w2)" "conn_inv E w2"
    "TcpConnection_handleWrite cbs sys sysf sys' r w =
      (if unsent w2 = [] \<and> sendingFile (conn w2) then handleWrite_file cbs sysf w2 else Inr w2)" by blast
  from resetIdle_ok [OF inv fresh] w2(1) obtain q j where
    w1: "w1 = w\<lparr>tq := q, conn := (conn w)\<lparr>idleTimerId := j\<rparr>\<rparr>" by auto
  from drain_frame [OF w2(2) cbs(2) sys(1)] w1 st w2(3,4) show ?thesis
    by (intro exI [of _ w2]) (simp add: echo_ready_def)
qed

lemma echo_run_ok:
  assumes "callbacks_ok E cbs" and "writeCompleteCallback cbs = None" and "echo_ready E w" and "echo_legal cbs ops w"
  shows "\<exists>w'. rfold (echo_do cbs) ops w = Inr w' \<and> echo_ready E w' \<and> accepted w' = accepted w @ received ops"
  using assms(3,4)
proof (induction ops arbitrary: w)
  case (Cons x xs)
  have "\<exists>w1. echo_do cbs x w = Inr w1 \<and> echo_ready E w1 \<and> accepted w1 @ received xs = accepted w @ received (x # xs)"
  proof (cases x)
    case (EchoRead data r sys)
    with echo_read_ok [OF assms(1,2) Cons.prems(1), of data r sys] Cons.prems(2) show ?thesis by auto
  next
    case (EchoWrite sys sysf sys' r)
    with echo_write_ok [OF assms(1,2) Cons.prems(1), of sys sysf sys' r] Cons.prems(2) show ?thesis by auto
  qed
  then obtain w1 where w1: "echo_do cbs x w = Inr w1" "echo_ready E w1"
    "accepted w1 @ received xs = accepted w @ received (x # xs)" by blast
  with Cons.prems(2) have "echo_legal cbs xs w1" by simp
  from Cons.IH [OF w1(2) this] w1 show ?case by auto
qed simp

section \<open>Properties\<close>

text \<open>
  C12. The echo server sends back what it reads: in every run of read and write events, whatever pieces the bytes arrive
  in and however many of them the kernel takes at a time, the bytes written to the socket and those still buffered are
  the bytes read, in order; the connection stays established, nothing is left unread, and while bytes are left the
  connection waits for write events.
\<close>

theorem echo_returns_what_it_reads:
  assumes "callbacks_ok E cbs" and "writeCompleteCallback cbs = None" and "conn_inv E w" and "state_of w = kConnected"
    and "\<not> sendingFile (conn w)" and "Buffer_content (readBuffer (conn w)) = []" and "accepted w = []"
    and "echo_legal cbs ops w"
  shows "\<exists>w'. rfold (echo_do cbs) ops w = Inr w' \<and> conn_inv E w' \<and> state_of w' = kConnected \<and>
    sys_bytes (trace w') @ unsent w' = received ops \<and> Buffer_content (readBuffer (conn w')) = [] \<and>
    channel_isWriting w' = (unsent w' \<noteq> [])"
proof -
  have "echo_ready E w" using assms(3-6) by (simp add: echo_ready_def)
  from echo_run_ok [OF assms(1,2) this assms(8)] assms(7) obtain w' where
    "rfold (echo_do cbs) ops w = Inr w'" "echo_ready E w'" "accepted w' = received ops" by auto
  then show ?thesis
    by (intro exI [of _ w']) (auto simp: echo_ready_def conn_inv_def conn_stream_def conn_flags_def)
qed

theorem echo_returns_what_it_reads_witness:
  "\<exists>w'. rfold (echo_do no_callbacks) [EchoRead ''hello'' demo_request (Inr 2)] (demo_world kConnected [] (-1) []) = Inr w' \<and>
    sys_bytes (trace w') @ unsent w' = ''hello''"
proof -
  let ?w = "demo_world kConnected [] (-1) []"
  have "conn_inv {} ?w" by (rule demo_world_inv) simp_all
  moreover have "state_of ?w = kConnected" "\<not> sendingFile (conn ?w)" "Buffer_content (readBuffer (conn ?w)) = []"
    "accepted ?w = []" by (simp_all add: demo_world_def)
  moreover have "writeCompleteCallback no_callbacks = None" by (simp add: no_callbacks_def)
  moreover have "echo_legal no_callbacks [EchoRead ''hello'' demo_request (Inr 2)] ?w"
    using demo_request_fresh by (simp add: took_def demo_world_def split: sum.split)
  ultimately show ?thesis using echo_returns_what_it_reads [OF no_callbacks_ok] by fastforce
qed

end
