(* ===== verification/TcpConnection_Threads.thy ===== *)
theory TcpConnection_Threads
  imports TcpConnection_Properties
begin

text \<open>
  A connection that other threads use as well. Their calls of \<open>send\<close>, \<open>sendFile\<close>, \<open>sendWithRetransmit\<close>,
  \<open>ackReceived\<close>, \<open>shutdown\<close> and \<open>forceClose\<close> (\<open>net/TcpConnection.cc\<close>) read and change the state of the connection and
  hand a function to the loop; \<open>run_conn_task\<close> is what the loop runs then. The functions wait in the loop's queue, in the
  order of the calls; a call, a handler and a function are one step each. The connection object is taken to live as
  long as functions wait for it, which the code does not ensure for those that capture only \<open>this\<close>.
\<close>

section \<open>Calls from other threads, and their functions\<close>

text \<open>What the kernel, the clock and the random numbers answer to a function when it runs.\<close>

record task_answers =
  ta_write :: "errno + nat"
  ta_open :: "int option"
  ta_fstat :: "nat option"
  ta_draw :: "nat \<Rightarrow> nat"
  ta_timer :: timer_request

definition run_conn_task :: "conn_callbacks \<Rightarrow> task_answers \<Rightarrow> conn_task \<Rightarrow> world \<Rightarrow> world res" where
  "run_conn_task cbs a t w =
    (case t of
       SendTask data \<Rightarrow> TcpConnection_sendInLoop cbs (ta_write a) data w
     | SendFileTask path \<Rightarrow> TcpConnection_sendFileInLoop cbs (ta_open a) (ta_fstat a) w
     | RetransmitTask data seq \<Rightarrow> TcpConnection_SendFunc cbs (ta_write a) (ta_draw a) (ta_timer a) data seq w
     | AckTask seq \<Rightarrow> TcpConnection_ackInLoop seq w
     | ShutdownTask \<Rightarrow> TcpConnection_shutdownInLoop cbs w
     | ForceCloseTask \<Rightarrow> TcpConnection_forceCloseInLoop cbs w)"

datatype conn_request =
  AskSend string | AskSendFile string | AskReliable string nat | AskAck nat | AskShutdown | AskForceClose

text \<open>
  A call from another thread: the state after it, and what it posts. No system call is made, so the answers
  that the operations take do not matter.
\<close>

definition conn_ask :: "conn_callbacks \<Rightarrow> task_answers \<Rightarrow> conn_request \<Rightarrow> world \<Rightarrow> (world \<times> conn_task list) res" where
  "conn_ask cbs a x w =
    rbind
      ((case x of
          AskSend data \<Rightarrow> TcpConnection_send cbs (ta_write a) data
        | AskSendFile path \<Rightarrow> TcpConnection_sendFile cbs (ta_open a) (ta_fstat a) path
        | AskReliable data seq \<Rightarrow> TcpConnection_sendWithRetransmit cbs (ta_write a) (ta_draw a) (ta_timer a) data seq
        | AskAck seq \<Rightarrow> TcpConnection_ackReceived seq
        | AskShutdown \<Rightarrow> TcpConnection_shutdown cbs
        | AskForceClose \<Rightarrow> TcpConnection_forceClose cbs) (w\<lparr>in_thread := False, posted := []\<rparr>))
      (\<lambda>v. Inr (v\<lparr>in_thread := in_thread w, posted := posted w\<rparr>, posted v))"

section \<open>The connection and its waiting functions\<close>

text \<open>What a function may expect when it runs: as for the step of the loop's own thread that does the same.\<close>

definition task_may :: "addr set \<Rightarrow> conn_callbacks \<Rightarrow> task_answers \<Rightarrow> conn_task \<Rightarrow> world \<Rightarrow> bool" where
  "task_may E cbs a t w \<longleftrightarrow>
    (case t of
       SendTask data \<Rightarrow> took (ta_write a) (length data)
     | SendFileTask path \<Rightarrow> (\<forall>fd. ta_open a = Some fd \<longrightarrow> fd \<ge> 0)
     | RetransmitTask data seq \<Rightarrow> took (ta_write a) (length data) \<and>
         (\<forall>w'. TcpConnection_send cbs (ta_write a) data w = Inr w' \<longrightarrow>
           mget (pendingRetrans (conn w')) seq = None \<and> fresh_timer (ta_timer a) (tq w'))
     | _ \<Rightarrow> True)"

inductive shared_step ::
  "addr set \<Rightarrow> conn_callbacks \<Rightarrow> world \<times> conn_task list \<Rightarrow> (world \<times> conn_task list) res \<Rightarrow> bool" for E cbs where
  OwnStep: "conn_step E cbs w m \<Longrightarrow> shared_step E cbs (w, q) (rbind m (\<lambda>w. Inr (w, q)))"
| OtherCall: "shared_step E cbs (w, q) (rbind (conn_ask cbs a x w) (\<lambda>(w, ts). Inr (w, q @ ts)))"
| RunTask: "task_may E cbs a t w \<Longrightarrow>
    shared_step E cbs (w, t # q) (rbind (run_conn_task cbs a t w) (\<lambda>w. Inr (w, q)))"

inductive shared_reach ::
  "addr set \<Rightarrow> conn_callbacks \<Rightarrow> world \<times> conn_task list \<Rightarrow> world \<times> conn_task list \<Rightarrow> bool" for E cbs where
  SharedStart: "shared_reach E cbs s s"
| SharedStep: "shared_reach E cbs s s' \<Longrightarrow> shared_step E cbs s' (Inr s'') \<Longrightarrow> shared_reach E cbs s s''"

text \<open>Functions that only an established connection posts find it established, or closed since.\<close>

definition after_established :: "conn_task \<Rightarrow> bool" where
  "after_established t \<longleftrightarrow> (case t of SendTask _ \<Rightarrow> True | SendFileTask _ \<Rightarrow> True | ShutdownTask \<Rightarrow> True | _ \<Rightarrow> False)"

definition shared_inv :: "addr set \<Rightarrow> world \<times> conn_task list \<Rightarrow> bool" where
  "shared_inv E s \<longleftrightarrow>
    conn_inv E (fst s) \<and> ((\<exists>t \<in> set (snd s). after_established t) \<longrightarrow> state_of (fst s) \<noteq> kConnecting)"

section \<open>Lemmas\<close>

lemma not_connecting_evolves: "evolves w w' \<Longrightarrow> state_of w \<noteq> kConnecting \<Longrightarrow> state_of w' \<noteq> kConnecting"
  by (cases "state_of w"; cases "state_of w'") (simp_all add: evolves_def)

text \<open>A call changes at most the state, from established to disconnecting.\<close>

lemma conn_ask_ok:
  assumes inv: "conn_inv E w"
  shows "\<exists>w' ts. conn_ask cbs a x w = Inr (w', ts) \<and> conn_inv E w' \<and> evolves w w' \<and> accepted w' = accepted w \<and>
    trace w' = trace w \<and> ((\<exists>t \<in> set ts. after_established t) \<longrightarrow> state_of w \<noteq> kConnecting)"
proof -
  have closing: "conn_inv E (setState kDisConnecting w)" if "conn_open w"
  proof (cases "state_of w = kConnected")
    case True
    with inv show ?thesis by (rule closing_state_inv)
  next
    case False
    with that have "setState kDisConnecting w = w" by (simp add: setState_def on_conn_def)
    with inv show ?thesis by simp
  qed
  have ev: "evolves w (setState kDisConnecting w)" if "conn_open w"
    using that by (auto simp: evolves_def setState_def on_conn_def)
  have thr: "in_thread w" by (rule conn_inv_thread [OF inv])
  then have same: "w\<lparr>in_thread := True\<rparr> = w" "w\<lparr>conn := c, in_thread := True\<rparr> = w\<lparr>conn := c\<rparr>" for c
    by (cases w; simp)+
  show ?thesis
    using inv closing ev thr
    by (cases x) (auto simp: same conn_ask_def TcpConnection_send_def TcpConnection_sendFile_def
        TcpConnection_sendWithRetransmit_def TcpConnection_ackReceived_def TcpConnection_shutdown_def
        TcpConnection_forceClose_def run_or_post_def after_established_def setState_def on_conn_def evolves_def)
qed

lemma run_conn_task_ok:
  assumes cbs: "callbacks_ok E cbs" and inv: "conn_inv E w" and may: "task_may E cbs a t w"
    and st: "after_established t \<Longrightarrow> state_of w \<noteq> kConnecting"
  shows "goes_ok E w (run_conn_task cbs a t w)"
proof (cases t)
  case (SendTask data)
  with sendInLoop_ok [OF cbs inv, of "ta_write a" data] st may show ?thesis
    by (simp add: run_conn_task_def task_may_def after_established_def took_def)
next
  case (SendFileTask path)
  with sendFileInLoop_ok [OF cbs inv, of "ta_open a" "ta_fstat a"] st may show ?thesis
    by (simp add: run_conn_task_def task_may_def after_established_def)
next
  case (RetransmitTask data seq)
  with SendFunc_ok [OF cbs inv, of "ta_write a" data seq "ta_timer a" "ta_draw a"] may show ?thesis
    by (simp add: run_conn_task_def task_may_def took_def)
next
  case (AckTask seq)
  with ackInLoop_ok [OF inv, of seq] show ?thesis
    by (auto simp: run_conn_task_def goes_ok_def evolves_def)
next
  case ShutdownTask
  with shutdownInLoop_ok [OF cbs inv] st show ?thesis by (simp add: run_conn_task_def after_established_def)
next
  case ForceCloseTask
  with forceCloseInLoop_ok [OF cbs inv] show ?thesis by (simp add: run_conn_task_def)
qed

lemma shared_step_ok:
  assumes cbs: "callbacks_ok E cbs" and inv: "shared_inv E s" and step: "shared_step E cbs s m"
  shows "\<exists>s'. m = Inr s' \<and> shared_inv E s'"
  using step
proof cases
  case (OwnStep w m' q)
  from inv OwnStep(1) have w: "conn_inv E w" by (simp add: shared_inv_def)
  from conn_step_ok [OF cbs w OwnStep(3)] obtain w' where "m' = Inr w'" "conn_inv E w'" "evolves w w'"
    by (auto simp: goes_ok_def)
  with OwnStep(1,2) inv not_connecting_evolves [of w w'] show ?thesis by (auto simp: shared_inv_def)
next
  case (OtherCall w q a x)
  from inv OtherCall(1) have w: "conn_inv E w" by (simp add: shared_inv_def)
  from conn_ask_ok [OF w, of cbs a x] obtain w' ts where "conn_ask cbs a x w = Inr (w', ts)" "conn_inv E w'"
    "evolves w w'" "(\<exists>t \<in> set ts. after_established t) \<longrightarrow> state_of w \<noteq> kConnecting" by blast
  with OtherCall(1,2) inv not_connecting_evolves [of w w'] show ?thesis by (auto simp: shared_inv_def)
next
  case (RunTask a t w q)
  from inv RunTask(1) have w: "conn_inv E w" "after_established t \<Longrightarrow> state_of w \<noteq> kConnecting"
    by (auto simp: shared_inv_def)
  from run_conn_task_ok [OF cbs w(1) RunTask(3) w(2)] obtain w' where "run_conn_task cbs a t w = Inr w'"
    "conn_inv E w'" "evolves w w'" by (auto simp: goes_ok_def)
  with RunTask(1,2) inv not_connecting_evolves [of w w'] show ?thesis by (auto simp: shared_inv_def)
qed

lemma shared_reach_ok: "shared_reach E cbs s s' \<Longrightarrow> callbacks_ok E cbs \<Longrightarrow> shared_inv E s \<Longrightarrow> shared_inv E s'"
proof (induction rule: shared_reach.induct)
  case (SharedStep s s' s'')
  then have "shared_inv E s'" by simp
  from shared_step_ok [OF SharedStep.prems(1) this SharedStep.hyps(2)] show ?case by simp
qed

text \<open>Sends from another thread and the functions they post, on an established connection.\<close>

lemma ask_send:
  assumes "conn_inv E w" and "state_of w = kConnected"
  shows "conn_ask cbs a (AskSend data) w = Inr (w, [SendTask data])"
proof -
  have "w\<lparr>in_thread := in_thread w\<rparr> = w" by (cases w) simp
  with assms(2) show ?thesis by (simp add: conn_ask_def TcpConnection_send_def run_or_post_def)
qed

section \<open>Properties\<close>


definition demo_answers :: task_answers where
  "demo_answers = \<lparr>ta_write = Inr 2, ta_open = None, ta_fstat = None, ta_draw = id, ta_timer = demo_request\<rparr>"

lemma shared_own:
  assumes "conn_reach E cbs w w'"
  shows "shared_reach E cbs (w, q) (w', q)"
  using assms
proof (induction rule: conn_reach.induct)
  case (Step w w' w'')
  have "shared_step E cbs (w', q) (Inr (w'', q))" using OwnStep [OF Step.hyps(2), of q] by simp
  with Step.IH show ?case by (rule SharedStep)
qed (rule SharedStart)


text \<open>
  C25. Sends from other threads arrive in order: on an established connection the calls change nothing and post one function
  each, in the order of the calls; when the loop has run them, whatever the kernel took of each, the bytes of all
  calls have been accepted in that order behind what was accepted before, each written or waiting in the buffer.
\<close>

theorem cross_thread_sends_arrive:
  assumes "callbacks_ok E cbs" and "writeCompleteCallback cbs = None" and "conn_inv E w" and "state_of w = kConnected"
    and "\<forall>(data, a) \<in> set xs. took (ta_write a) (length data)"
  shows "rfold (\<lambda>(data, a) (w, q). rbind (conn_ask cbs a (AskSend data) w) (\<lambda>(w, ts). Inr (w, q @ ts))) xs (w, []) =
      Inr (w, map (SendTask \<circ> fst) xs) \<and>
    (\<exists>w'. rfold (\<lambda>(t, a). run_conn_task cbs a t) (zip (map (SendTask \<circ> fst) xs) (map snd xs)) w = Inr w' \<and>
      conn_inv E w' \<and> state_of w' = kConnected \<and>
      sys_bytes (trace w') @ unsent w' = sys_bytes (trace w) @ unsent w @ concat (map fst xs))"
proof
  have "rfold (\<lambda>(data, a) (w, q). rbind (conn_ask cbs a (AskSend data) w) (\<lambda>(w, ts). Inr (w, q @ ts))) xs (w, q) =
      Inr (w, q @ map (SendTask \<circ> fst) xs)" for q
    by (induction xs arbitrary: q) (auto simp: ask_send [OF assms(3,4)])
  from this [of "[]"] show "rfold (\<lambda>(data, a) (w, q). rbind (conn_ask cbs a (AskSend data) w) (\<lambda>(w, ts). Inr (w, q @ ts))) xs (w, []) =
      Inr (w, map (SendTask \<circ> fst) xs)" by simp
  let ?sends = "map (\<lambda>(data, a). (data, ta_write a)) xs"
  have eq: "rfold (\<lambda>(t, a). run_conn_task cbs a t) (zip (map (SendTask \<circ> fst) xs) (map snd xs)) v =
      rfold (\<lambda>x. TcpConnection_sendInLoop cbs (snd x) (fst x)) ?sends v" for v
    by (induction xs arbitrary: v) (auto simp: run_conn_task_def intro!: arg_cong2 [where f = rbind])
  have "send_ready E cbs w" "\<forall>x \<in> set ?sends. took (snd x) (length (fst x))"
    using assms by (auto simp: send_ready_def)
  from sends.put_all [OF this] have "\<exists>w'. rfold (\<lambda>(t, a). run_conn_task cbs a t) (zip (map (SendTask \<circ> fst) xs) (map snd xs)) w = Inr w' \<and>
      conn_inv E w' \<and> state_of w' = kConnected \<and> accepted w' = accepted w @ concat (map fst xs)"
    unfolding eq by (auto simp: send_ready_def comp_def case_prod_beta)
  then show "\<exists>w'. rfold (\<lambda>(t, a). run_conn_task cbs a t) (zip (map (SendTask \<circ> fst) xs) (map snd xs)) w = Inr w' \<and>
      conn_inv E w' \<and> state_of w' = kConnected \<and>
      sys_bytes (trace w') @ unsent w' = sys_bytes (trace w) @ unsent w @ concat (map fst xs)"
    using assms(3) by (auto simp: conn_inv_def conn_stream_def)
qed

theorem cross_thread_sends_arrive_witness:
  "\<exists>w'. rfold (\<lambda>(t, a). run_conn_task no_callbacks a t) [(SendTask ''hello'', demo_answers), (SendTask ''moon'', demo_answers)]
      (demo_world kConnected [] (-1) []) = Inr w' \<and> sys_bytes (trace w') @ unsent w' = ''hellomoon''"
proof -
  let ?w = "demo_world kConnected [] (-1) []" and ?xs = "[(''hello'', demo_answers), (''moon'', demo_answers)]"
  have "conn_inv {} ?w" by (rule demo_world_inv) simp_all
  moreover have "state_of ?w = kConnected" "trace ?w = []" "unsent ?w = []" by (simp_all add: demo_world_def)
  moreover have "\<forall>(data, a) \<in> set ?xs. took (ta_write a) (length data)" by (simp add: took_def demo_answers_def)
  moreover have "writeCompleteCallback no_callbacks = None" by (simp add: no_callbacks_def)
  ultimately show ?thesis using cross_thread_sends_arrive [OF no_callbacks_ok, of "{}" ?w ?xs] by auto
qed

end
