(* ===== verification/TcpConnection_Guarantee.thy ===== *)
theory TcpConnection_Guarantee
  imports TcpConnection_Threads
begin

text \<open>
  What the operations of a connection (\<open>net/TcpConnection.cc\<close>) change, whatever state they start from. A relation that
  holds of the changes they are made of - a recorded call, a private field, an operation of the own channel, a timer, a
  change of the state - and is reflexive and transitive holds of every operation; this is proved once, in the locale
  \<open>conn_guarantee\<close>, by going through the operations. Two relations are of this kind: what the other users of the loop
  see of a step (\<open>peer_change\<close>), and the balance of the calls of the close callback (\<open>close_balance\<close>). From the first
  follows that the steps of one connection are steps of the environment for the others of its loop.
\<close>

section \<open>Relations that all operations keep\<close>

definition own_channel_ops :: "(bool \<Rightarrow> addr \<Rightarrow> poller \<Rightarrow> poller res) set" where
  "own_channel_ops = {Channel_enableReading, Channel_enableWriting, Channel_disableWriting, Channel_remove}"

locale conn_guarantee =
  fixes R :: "world \<Rightarrow> world \<Rightarrow> bool"
  assumes same: "R w w"
    and trans: "R u v \<Longrightarrow> R v w \<Longrightarrow> R u w"
    and recorded: "ev \<noteq> CallClose \<Longrightarrow> R w (emit ev w)"
    and own_field: "tc_id c = tc_id (conn w) \<Longrightarrow> tc_channel c = tc_channel (conn w) \<Longrightarrow> tc_state c = state_of w \<Longrightarrow>
      R w (w\<lparr>conn := c\<rparr>)"
    and accepts: "R w (w\<lparr>accepted := s\<rparr>)"
    and posts: "R w (w\<lparr>posted := ts\<rparr>)"
    and threads: "R w (w\<lparr>in_thread := t\<rparr>)"
    and channel: "f \<in> own_channel_ops \<Longrightarrow> on_channel f w = Inr w' \<Longrightarrow> R w w'"
    and cancels: "conn_cancel i w = Inr w' \<Longrightarrow> R w w'"
    and arms: "my_closure (conn w) fn \<Longrightarrow> conn_runAfter r fn w = Inr (i, w') \<Longrightarrow> R w w'"
    and opens: "state_of w = kConnecting \<Longrightarrow> R w (setState kConnected w)"
    and disconnecting: "conn_open w \<Longrightarrow> R w (setState kDisConnecting w)"
    and closes: "conn_open w \<Longrightarrow> R (setState kDisConnected w) w' \<Longrightarrow> R w (emit CallClose w')"
begin

text \<open>Of the outcome of an operation: if it is a state, it is related to the one before.\<close>

definition keeps :: "world \<Rightarrow> world res \<Rightarrow> bool" where
  "keeps w m \<longleftrightarrow> (\<forall>w'. m = Inr w' \<longrightarrow> R w w')"

lemma keeps_Inl [simp]: "keeps w (Inl e)"
  by (simp add: keeps_def)

lemma keeps_same [simp]: "keeps w (Inr w)"
  by (simp add: keeps_def same)

lemma keeps_Inr: "R w w' \<Longrightarrow> keeps w (Inr w')"
  by (simp add: keeps_def)

lemma keeps_bind: "keeps w m \<Longrightarrow> (\<And>v. m = Inr v \<Longrightarrow> keeps v (g v)) \<Longrightarrow> keeps w (rbind m g)"
  unfolding keeps_def by (meson rbind_InrE trans)

lemma keeps_if: "(b \<Longrightarrow> keeps w m) \<Longrightarrow> (\<not> b \<Longrightarrow> keeps w m') \<Longrightarrow> keeps w (if b then m else m')"
  by simp

lemma keeps_read: "(\<And>x. m = Inr x \<Longrightarrow> keeps w (g x)) \<Longrightarrow> keeps w (rbind m g)"
  unfolding keeps_def by (meson rbind_InrE)

lemma keeps_after: "R w v \<Longrightarrow> keeps v m \<Longrightarrow> keeps w m"
  unfolding keeps_def using trans by blast

lemma keeps_field: "tc_id (g (conn w)) = tc_id (conn w) \<Longrightarrow> tc_channel (g (conn w)) = tc_channel (conn w) \<Longrightarrow>
    tc_state (g (conn w)) = state_of w \<Longrightarrow> keeps (on_conn g w) m \<Longrightarrow> keeps w m"
  unfolding on_conn_def by (rule keeps_after [OF own_field])

lemma keeps_emit: "ev \<noteq> CallClose \<Longrightarrow> keeps (emit ev w) m \<Longrightarrow> keeps w m"
  by (rule keeps_after [OF recorded])

lemma keeps_assert: "keeps w (f w) \<Longrightarrow> keeps w (rbind (assert_thread w) f)"
  by (cases "in_thread w") (simp_all add: assert_thread_def EventLoop_assertInLoopThread_def)

lemma keeps_channel: "f \<in> own_channel_ops \<Longrightarrow> keeps w (on_channel f w)"
  unfolding keeps_def using channel by blast

lemma keeps_cancel: "keeps w (conn_cancel i w)"
  unfolding keeps_def using cancels by blast

lemma keeps_arm: "my_closure (conn w) f \<Longrightarrow> (\<And>i v. keeps v (g (i, v))) \<Longrightarrow> keeps w (rbind (conn_runAfter r f w) g)"
  unfolding keeps_def by (auto simp: rbind_eq_Inr dest!: arms intro: trans)

text \<open>Callbacks of the same kind, in any state.\<close>

definition keeping :: "(world \<Rightarrow> world res) option \<Rightarrow> bool" where
  "keeping cb \<longleftrightarrow> (\<forall>f w. cb = Some f \<longrightarrow> keeps w (f w))"

definition keeping_callbacks :: "conn_callbacks \<Rightarrow> bool" where
  "keeping_callbacks cbs \<longleftrightarrow>
    keeping (connectionCallback cbs) \<and> keeping (writeCompleteCallback cbs) \<and>
    (\<forall>t. keeping (map_option (\<lambda>f. f t) (messageCallback cbs))) \<and>
    (\<exists>f. closeCallback cbs = Some f) \<and> keeping (closeCallback cbs)"

lemma keeps_invoke: "keeping cb \<Longrightarrow> ev \<noteq> CallClose \<Longrightarrow> keeps w (invoke cb ev w)"
  by (auto simp: invoke_def keeping_def intro: keeps_emit split: option.splits)

lemma keeps_set: "tc_id (g (conn w)) = tc_id (conn w) \<Longrightarrow> tc_channel (g (conn w)) = tc_channel (conn w) \<Longrightarrow>
    tc_state (g (conn w)) = state_of w \<Longrightarrow> keeps w (Inr (on_conn g w))"
  unfolding on_conn_def by (rule keeps_Inr [OF own_field])

subsection \<open>Timers\<close>

lemma cancelIdle_keeps: "keeps w (TcpConnection_cancelIdle w)"
  unfolding TcpConnection_cancelIdle_def by (auto intro!: keeps_bind [OF keeps_cancel] keeps_set)

lemma resetIdleTimer_keeps: "keeps w (TcpConnection_resetIdleTimer r w)"
  unfolding TcpConnection_resetIdleTimer_def
  by (rule keeps_bind [OF cancelIdle_keeps]) (auto intro!: keeps_arm keeps_set simp: my_closure_def idle_closure_def)

lemma rfold_keeps: "(\<And>x w. keeps w (f x w)) \<Longrightarrow> keeps w (rfold f xs w)"
  by (induction xs arbitrary: w) (auto intro!: keeps_bind)

lemma cancelPending_keeps: "keeps w (TcpConnection_cancelPending w)"
  unfolding TcpConnection_cancelPending_def
  by (intro keeps_bind rfold_keeps keeps_set) (auto intro: keeps_cancel)

lemma resetRetransmitTimer_keeps: "keeps w (TcpConnection_resetRetransmitTimer draw r seq w)"
proof (cases "mget (pendingRetrans (conn w)) seq")
  case (Some entry)
  have "keeps v (rbind (conn_runAfter r' (retransmit_closure (conn v) n) v) (\<lambda>(i, v). Inr (set_entry seq (e i) v)))"
    for r' n e v
    by (rule keeps_arm) (auto simp: my_closure_def retransmit_closure_def set_entry_def intro: keeps_set)
  moreover have "keeps w (if TimerId_valid (re_timerId entry)
      then rbind (conn_cancel (re_timerId entry) w) (\<lambda>w. Inr (set_entry seq e w)) else Inr w)" for e
    by (auto simp: set_entry_def intro!: keeps_bind [OF keeps_cancel] keeps_set)
  ultimately show ?thesis
    unfolding TcpConnection_resetRetransmitTimer_def Some option.case Let_def by (intro keeps_bind)
qed (simp add: TcpConnection_resetRetransmitTimer_def)

lemma ackInLoop_keeps: "keeps w (TcpConnection_ackInLoop seq w)"
  unfolding TcpConnection_ackInLoop_def
  by (auto split: option.split intro!: keeps_bind keeps_cancel keeps_set)

subsection \<open>Closing\<close>

lemma handleClose_keeps:
  assumes "keeping_callbacks cbs"
  shows "keeps w (TcpConnection_handleClose cbs w)"
proof (cases "conn_open w \<and> in_thread w")
  case True
  let ?v = "setState kDisConnected w"
  obtain f where f: "closeCallback cbs = Some f" "keeping (Some f)" using assms by (auto simp: keeping_callbacks_def)
  define closed where "closed v = (if fileFd (conn v) \<ge> 0
      then on_conn (\<lambda>c. c\<lparr>fileFd := -1\<rparr>) (emit (CloseFile (fileFd (conn v))) v) else v)" for v
  define clean where "clean v = on_conn (\<lambda>c. c\<lparr>fileSentOffset := 0, fileTotalSize := 0, sendingFile := False\<rparr>) (closed v)"
    for v
  have "keeps v (Inr (closed v))" for v
  proof (cases "fileFd (conn v) \<ge> 0")
    case True
    then show ?thesis
      using keeps_emit [of "CloseFile (fileFd (conn v))" v, OF _ keeps_set] by (simp add: closed_def)
  qed (simp add: closed_def)
  then have "keeps v (Inr (clean v))" for v
    unfolding clean_def keeps_def using trans [OF _ own_field] by (auto simp: on_conn_def)
  define body where "body = rbind (on_channel Channel_remove ?v) (\<lambda>v. rbind (Inr (clean v)) (\<lambda>v.
    rbind (TcpConnection_cancelIdle v) TcpConnection_cancelPending))"
  have "keeps ?v body"
    unfolding body_def
    by (intro keeps_bind \<open>\<And>v. keeps v (Inr (clean v))\<close> cancelIdle_keeps cancelPending_keeps keeps_channel) (simp_all add: own_channel_ops_def)
  moreover have "invoke (Some f) CallClose = (\<lambda>v. f (emit CallClose v))" by (simp add: fun_eq_iff invoke_def)
  then have "TcpConnection_handleClose cbs w = rbind body (\<lambda>v. f (emit CallClose v))"
    using True f(1)
    by (auto simp: TcpConnection_handleClose_def body_def clean_def closed_def Let_def rbind_assoc)
  moreover have "R w w'" if "body = Inr v" and "f (emit CallClose v) = Inr w'" for v w'
  proof -
    have "R w (emit CallClose v)" using calculation(1) that(1) True by (auto simp: keeps_def intro: closes)
    moreover have "R (emit CallClose v) w'" using f(2) that(2) by (simp add: keeping_def keeps_def)
    ultimately show ?thesis by (rule trans)
  qed
  ultimately show ?thesis by (auto simp: keeps_def rbind_eq_Inr)
next
  case False
  then show ?thesis
    by (cases "in_thread w") (auto simp: TcpConnection_handleClose_def assert_thread_def EventLoop_assertInLoopThread_def)
qed

lemma handleError_keeps: "keeping_callbacks cbs \<Longrightarrow> keeps w (TcpConnection_handleError cbs w)"
  unfolding TcpConnection_handleError_def by (rule handleClose_keeps)

lemma shutdownInLoop_keeps: "keeping_callbacks cbs \<Longrightarrow> keeps w (TcpConnection_shutdownInLoop cbs w)"
  unfolding TcpConnection_shutdownInLoop_def
  by (auto intro!: keeps_assert keeps_emit [of ShutdownWrite w] handleClose_keeps)

lemma forceCloseInLoop_keeps: "keeping_callbacks cbs \<Longrightarrow> keeps w (TcpConnection_forceCloseInLoop cbs w)"
  unfolding TcpConnection_forceCloseInLoop_def by (auto intro!: keeps_assert handleClose_keeps)

lemma onIdleTimeout_keeps: "keeping_callbacks cbs \<Longrightarrow> keeps w (TcpConnection_onIdleTimeout cbs w)"
  unfolding TcpConnection_onIdleTimeout_def by (intro keeps_assert forceCloseInLoop_keeps)

lemma run_or_post_keeps: "keeps w (f w) \<Longrightarrow> keeps w (run_or_post t f w)"
  unfolding run_or_post_def by (simp add: keeps_Inr posts)

lemma shutdown_keeps:
  assumes "keeping_callbacks cbs"
  shows "keeps w (TcpConnection_shutdown cbs w)"
  unfolding TcpConnection_shutdown_def using assms
  by (auto intro!: keeps_after [OF disconnecting] run_or_post_keeps shutdownInLoop_keeps)

lemma forceClose_keeps:
  assumes "keeping_callbacks cbs"
  shows "keeps w (TcpConnection_forceClose cbs w)"
  unfolding TcpConnection_forceClose_def using assms
  by (auto intro!: keeps_after [OF disconnecting] run_or_post_keeps forceCloseInLoop_keeps)

subsection \<open>Opening and destruction\<close>

lemma connectEstablelished_keeps:
  assumes "keeping_callbacks cbs"
  shows "keeps w (TcpConnection_connectEstablelished cbs r w)"
proof -
  have inv: "keeps v (invoke (connectionCallback cbs) CallConnection v)" for v
    using assms by (intro keeps_invoke) (auto simp: keeping_callbacks_def)
  have "keeps v (rbind (TcpConnection_resetIdleTimer r (setState kConnected v)) (invoke (connectionCallback cbs) CallConnection))"
    if "state_of v = kConnecting" for v
    by (rule keeps_after [OF opens [OF that]]) (intro keeps_bind resetIdleTimer_keeps inv)
  moreover have "state_of v = state_of w" if "on_channel f w = Inr v" for f v
    using that by (auto simp: on_channel_def rbind_eq_Inr)
  ultimately show ?thesis
    unfolding TcpConnection_connectEstablelished_def
    by (auto intro!: keeps_assert keeps_bind [OF keeps_channel] simp: own_channel_ops_def)
qed

text \<open>After a close, \<open>connectDestroyed\<close> leaves the state as it is.\<close>

lemma connectDestroyed_keeps:
  assumes "state_of w \<noteq> kConnected"
  shows "keeps w (TcpConnection_connectDestroyed w)"
  using assms unfolding TcpConnection_connectDestroyed_def Let_def
  by (auto intro!: keeps_assert keeps_bind cancelIdle_keeps cancelPending_keeps keeps_channel simp: own_channel_ops_def)

subsection \<open>Sending\<close>

lemma sendInLoop_keeps:
  assumes cbs: "keeping_callbacks cbs"
  shows "keeps w (TcpConnection_sendInLoop cbs sys data w)"
proof -
  have inv: "keeps v (invoke (writeCompleteCallback cbs) CallWriteComplete v)" for v
    using cbs by (intro keeps_invoke) (auto simp: keeping_callbacks_def)
  have shut: "keeps v (if state_of v = kDisConnecting \<and> Buffer_readableBytes (writeBuffer (conn v)) = 0
      then TcpConnection_shutdownInLoop cbs v else Inr v)" for v
    using cbs by (simp add: shutdownInLoop_keeps)
  have accept: "R w (if b then emit (SysWrite cs) (w\<lparr>accepted := s\<rparr>) else w\<lparr>accepted := s\<rparr>)" for b cs s
    by (auto intro: accepts trans [OF accepts recorded])
  have rest: "keeps v (if n < length data then
       rbind (Buffer_append (drop n data) (writeBuffer (conn v))) (\<lambda>b.
         let w = on_conn (\<lambda>c. c\<lparr>writeBuffer := b\<rparr>) v
         in if \<not> channel_isWriting w then on_channel Channel_enableWriting w else Inr w)
     else Inr v)" for v n
  proof -
    have "keeps v (on_channel Channel_enableWriting (on_conn (\<lambda>c. c\<lparr>writeBuffer := b\<rparr>) v))" for b
      by (rule keeps_field [of "\<lambda>c. c\<lparr>writeBuffer := b\<rparr>" v])
        (auto simp: own_channel_ops_def intro: keeps_channel)
    then show ?thesis by (auto simp: Let_def intro!: keeps_read keeps_set)
  qed
  show ?thesis
    unfolding TcpConnection_sendInLoop_def Let_def
    by (intro keeps_assert keeps_if keeps_same keeps_after [OF accept inv]
        keeps_after [OF accept keeps_bind [OF rest [unfolded Let_def] shut]])
qed

lemma send_keeps: "keeping_callbacks cbs \<Longrightarrow> keeps w (TcpConnection_send cbs sys data w)"
  unfolding TcpConnection_send_def by (simp add: run_or_post_keeps sendInLoop_keeps)

lemma sendFileInLoop_keeps:
  assumes "keeping_callbacks cbs"
  shows "keeps w (TcpConnection_sendFileInLoop cbs opened fstat w)"
proof -
  have filed: "keeps w (on_channel Channel_enableWriting (on_conn (\<lambda>c. c\<lparr>fileFd := fd, fileSentOffset := 0,
      fileTotalSize := n, sendingFile := True\<rparr>) w))" for fd n
    by (rule keeps_field [of "\<lambda>c. c\<lparr>fileFd := fd, fileSentOffset := 0, fileTotalSize := n, sendingFile := True\<rparr>" w])
      (auto simp: own_channel_ops_def intro: keeps_channel)
  have "keeps w (TcpConnection_forceCloseInLoop cbs (emit (CloseFile fd) w))" for fd
    by (rule keeps_emit [of "CloseFile fd" w]) (simp_all add: assms forceCloseInLoop_keeps)
  with assms filed show ?thesis
    unfolding TcpConnection_sendFileInLoop_def
    by (auto intro!: keeps_assert forceCloseInLoop_keeps split: option.split)
qed

lemma sendFile_keeps: "keeping_callbacks cbs \<Longrightarrow> keeps w (TcpConnection_sendFile cbs opened fstat path w)"
  unfolding TcpConnection_sendFile_def by (simp add: run_or_post_keeps sendFileInLoop_keeps)

lemma SendFunc_keeps: "keeping_callbacks cbs \<Longrightarrow> keeps w (TcpConnection_SendFunc cbs sys draw r data seq w)"
  unfolding TcpConnection_SendFunc_def set_entry_def
  by (rule keeps_bind [OF send_keeps]) (assumption, rule keeps_field [OF _ _ _ resetRetransmitTimer_keeps], simp_all)

lemma onRetransmitTimeout_keeps:
  assumes "keeping_callbacks cbs"
  shows "keeps w (TcpConnection_onRetransmitTimeout cbs sys draw r seq w)"
proof -
  have drop: "keeps w (TcpConnection_forceCloseInLoop cbs (on_conn (\<lambda>c. c\<lparr>pendingRetrans := mdel seq (pendingRetrans c)\<rparr>) w))"
    by (rule keeps_field [OF _ _ _ forceCloseInLoop_keeps]) (simp_all add: assms)
  have again: "keeps v (TcpConnection_resetRetransmitTimer draw r seq (set_entry seq e v))" for v e
    unfolding set_entry_def by (rule keeps_field [OF _ _ _ resetRetransmitTimer_keeps]) simp_all
  show ?thesis
    unfolding TcpConnection_onRetransmitTimeout_def
    by (auto intro!: keeps_assert keeps_bind sendInLoop_keeps assms drop again split: option.split)
qed

subsection \<open>Events\<close>

lemma handleRead_keeps:
  assumes cbs: "keeping_callbacks cbs"
  shows "keeps w (TcpConnection_handleRead cbs sys t r w)"
proof -
  have inv: "keeps v (invoke (map_option (\<lambda>f. f t) (messageCallback cbs)) CallMessage v)" for v
    using cbs by (intro keeps_invoke) (auto simp: keeping_callbacks_def)
  have "keeps v (case n of
        Inr k \<Rightarrow>
          if k > 0 then
            rbind (TcpConnection_resetIdleTimer r v) (\<lambda>w.
              invoke (map_option (\<lambda>f. f t) (messageCallback cbs)) CallMessage w)
          else TcpConnection_handleClose cbs v
      | Inl savedErrno \<Rightarrow>
          if savedErrno \<noteq> EAGAIN then TcpConnection_handleError cbs v else Inr v)" for v and n :: "errno + nat"
    using cbs by (auto intro!: keeps_bind resetIdleTimer_keeps inv handleClose_keeps handleError_keeps split: sum.split)
  note body = keeps_field [OF _ _ _ this]
  show ?thesis
    unfolding TcpConnection_handleRead_def Let_def
    by (intro keeps_assert keeps_read) (auto intro!: body split: prod.split)
qed

lemma disable_keeps: "ev \<noteq> CallClose \<Longrightarrow> keeps w (if b then on_channel Channel_disableWriting (emit ev w) else Inr (emit ev w))"
  by (rule keeps_emit [of ev w]) (auto simp: own_channel_ops_def intro: keeps_channel)

lemma completed_keeps: "keeping_callbacks cbs \<Longrightarrow> keeps w (invoke (writeCompleteCallback cbs) CallWriteComplete w)"
  by (intro keeps_invoke) (auto simp: keeping_callbacks_def)

text \<open>What follows a call of \<open>write\<close>, in both phases that make one.\<close>

lemma written_keeps:
  assumes "keeping_callbacks cbs" and "\<And>v. keeps v (g v)"
  shows "keeps w (case n of
       Inr k \<Rightarrow>
         if k > 0 then rbind (if b then on_channel Channel_disableWriting (emit (SysWrite bytes) w)
             else Inr (emit (SysWrite bytes) w)) g
         else TcpConnection_handleError cbs w
     | Inl savedErrno \<Rightarrow> if savedErrno \<noteq> EAGAIN then TcpConnection_handleError cbs w else Inr w)"
proof (cases n)
  case (Inl e)
  then show ?thesis using assms(1) by (simp add: handleError_keeps)
next
  case (Inr k)
  have "keeps w (rbind (if b then on_channel Channel_disableWriting (emit (SysWrite bytes) w)
      else Inr (emit (SysWrite bytes) w)) g)"
    by (rule keeps_bind [OF disable_keeps assms(2)]) simp
  with Inr assms(1) show ?thesis by (simp only: sum.case if_split handleError_keeps simp_thms)
qed

lemmas written_keeps_field = keeps_field [of "\<lambda>c. c\<lparr>writeBuffer := b\<rparr>" for b, OF _ _ _ written_keeps]

lemma handleWrite_drain_keeps:
  assumes cbs: "keeping_callbacks cbs" and next_keeps: "\<And>x v. keeps v (g (x, v))"
  shows "keeps w (rbind (handleWrite_drain cbs sys w) g)"
proof (cases "Buffer_readableBytes (writeBuffer (conn w)) > 0")
  case True
  show ?thesis
  proof (cases "Buffer_WriteFd sys (writeBuffer (conn w))")
    case (Inr nb)
    obtain n b where nb: "nb = (n, b)" by (cases nb)
    note after = keeps_bind [OF written_keeps_field [OF _ _ _ cbs completed_keeps [OF cbs]]]
    show ?thesis
      unfolding handleWrite_drain_def if_P [OF True] Inr nb rbind_simps prod.case Let_def rbind_assoc
      by (rule after) (simp_all add: next_keeps)
  qed (simp add: handleWrite_drain_def True)
qed (simp add: handleWrite_drain_def next_keeps)

lemma handleWrite_rest_keeps:
  assumes cbs: "keeping_callbacks cbs"
  shows "keeps w (handleWrite_rest cbs sys w)"
proof (cases "Buffer_readableBytes (writeBuffer (conn w)) > 0")
  case True
  have shut: "keeps v (rbind (invoke (writeCompleteCallback cbs) CallWriteComplete v)
      (\<lambda>w. if state_of w = kDisConnecting then TcpConnection_shutdownInLoop cbs w else Inr w))" for v
    using cbs by (intro keeps_bind completed_keeps) (simp_all add: shutdownInLoop_keeps)
  show ?thesis
  proof (cases "Buffer_WriteFd sys (writeBuffer (conn w))")
    case (Inr nb)
    obtain n b where nb: "nb = (n, b)" by (cases nb)
    show ?thesis
      unfolding handleWrite_rest_def if_P [OF True] Inr nb rbind_simps prod.case Let_def
      by (rule written_keeps_field [OF _ _ _ cbs shut]) simp_all
  qed (simp add: handleWrite_rest_def True)
qed (simp add: handleWrite_rest_def)

lemma handleWrite_file_keeps:
  assumes cbs: "keeping_callbacks cbs"
  shows "keeps w (handleWrite_file cbs sys w)"
proof -
  have over: "keeps v (rbind (on_channel Channel_disableWriting (on_conn (\<lambda>c. c\<lparr>fileFd := -1, sendingFile := False\<rparr>)
      (emit (CloseFile (fileFd (conn v))) v))) g)" if "\<And>v. keeps v (g v)" for v g
    by (rule keeps_emit [of "CloseFile (fileFd (conn v))" v, OF _ keeps_field [OF _ _ _ keeps_bind [OF keeps_channel that]]])
      (simp_all add: own_channel_ops_def)
  show ?thesis
  proof (cases sys)
    case (Inl err)
    have "keeps w (rbind (on_channel Channel_disableWriting (on_conn (\<lambda>c. c\<lparr>fileFd := -1, sendingFile := False\<rparr>)
        (emit (CloseFile (fileFd (conn w))) w))) (TcpConnection_handleError cbs))"
      by (rule over [OF handleError_keeps [OF cbs]])
    then show ?thesis unfolding handleWrite_file_def Inl sum.case by (simp only: keeps_same if_split simp_thms)
  next
    case (Inr sent)
    have "keeps w (let w = emit (SendFile (fileSentOffset (conn w)) sent) w;
        w = on_conn (\<lambda>c. c\<lparr>fileSentOffset := fileSentOffset c + sent\<rparr>) w
      in if fileSentOffset (conn w) \<ge> fileTotalSize (conn w) then
           rbind (on_channel Channel_disableWriting (on_conn (\<lambda>c. c\<lparr>fileFd := -1, sendingFile := False\<rparr>)
             (emit (CloseFile (fileFd (conn w))) w))) (invoke (writeCompleteCallback cbs) CallWriteComplete)
         else Inr w)"
      unfolding Let_def
      by (rule keeps_emit [of "SendFile (fileSentOffset (conn w)) sent" w, OF _ keeps_field [OF _ _ _ keeps_if
          [OF over [OF completed_keeps [OF cbs]] keeps_same]]]) simp_all
    then show ?thesis unfolding handleWrite_file_def Inr sum.case by (simp only: keeps_same if_split simp_thms)
  qed
qed

lemma handleWrite_keeps:
  assumes cbs: "keeping_callbacks cbs"
  shows "keeps w (TcpConnection_handleWrite cbs sys sysf sys' r w)"
  unfolding TcpConnection_handleWrite_def
  by (intro keeps_assert keeps_if keeps_same keeps_bind [OF resetIdleTimer_keeps] handleWrite_drain_keeps [OF cbs])
    (simp add: handleWrite_file_keeps [OF cbs] handleWrite_rest_keeps [OF cbs])

subsection \<open>Every operation\<close>

lemma sendWithRetransmit_keeps: "keeping_callbacks cbs \<Longrightarrow> keeps w (TcpConnection_sendWithRetransmit cbs sys draw r data seq w)"
  unfolding TcpConnection_sendWithRetransmit_def by (intro run_or_post_keeps SendFunc_keeps)

lemma ackReceived_keeps: "keeps w (TcpConnection_ackReceived seq w)"
  unfolding TcpConnection_ackReceived_def by (intro run_or_post_keeps ackInLoop_keeps)

lemmas operations_keep = connectEstablelished_keeps handleRead_keeps handleWrite_keeps handleError_keeps send_keeps
  sendFile_keeps shutdown_keeps forceClose_keeps onIdleTimeout_keeps sendWithRetransmit_keeps onRetransmitTimeout_keeps
  ackReceived_keeps

lemma conn_act_keeps: "keeping_callbacks cbs \<Longrightarrow> conn_act E cbs w m \<Longrightarrow> keeps w m"
  by (erule conn_act.cases) (simp_all add: operations_keep)

lemma run_conn_task_keeps: "keeping_callbacks cbs \<Longrightarrow> keeps w (run_conn_task cbs a t w)"
  by (cases t) (simp_all add: run_conn_task_def sendInLoop_keeps sendFileInLoop_keeps SendFunc_keeps ackInLoop_keeps
      shutdownInLoop_keeps forceCloseInLoop_keeps)

lemma conn_ask_keeps:
  assumes "keeping_callbacks cbs" and "conn_ask cbs a x w = Inr (w', ts)"
  shows "R w w'"
proof -
  let ?w = "w\<lparr>in_thread := False, posted := []\<rparr>"
  from assms(2) obtain v where v: "w' = v\<lparr>in_thread := in_thread w, posted := posted w\<rparr>" and
    op: "(case x of
          AskSend data \<Rightarrow> TcpConnection_send cbs (ta_write a) data
        | AskSendFile path \<Rightarrow> TcpConnection_sendFile cbs (ta_open a) (ta_fstat a) path
        | AskReliable data seq \<Rightarrow> TcpConnection_sendWithRetransmit cbs (ta_write a) (ta_draw a) (ta_timer a) data seq
        | AskAck seq \<Rightarrow> TcpConnection_ackReceived seq
        | AskShutdown \<Rightarrow> TcpConnection_shutdown cbs
        | AskForceClose \<Rightarrow> TcpConnection_forceClose cbs) ?w = Inr v"
    by (auto simp: conn_ask_def rbind_eq_Inr)
  have "R ?w v"
    using op assms(1) operations_keep unfolding keeps_def by (cases x) auto
  then have "R (w\<lparr>in_thread := False\<rparr>) v" by (rule trans [OF posts])
  then have "R w v" by (rule trans [OF threads])
  then have "R w (v\<lparr>in_thread := in_thread w\<rparr>)" by (rule trans [OF _ threads])
  then show ?thesis unfolding v by (rule trans [OF _ posts])
qed

end

section \<open>The balance of the close callback\<close>

definition closings :: "world \<Rightarrow> nat" where
  "closings w = count_list (trace w) CallClose"

definition close_balance :: "world \<Rightarrow> world \<Rightarrow> bool" where
  "close_balance w w' \<longleftrightarrow> conn_rank (state_of w) \<le> conn_rank (state_of w') \<and>
    closings w' = closings w + (if state_of w' = kDisConnected \<and> state_of w \<noteq> kDisConnected then 1 else 0)"

lemma close_balance_quiet: "state_of w' = state_of w \<Longrightarrow> trace w' = trace w \<Longrightarrow> close_balance w w'"
  by (simp add: close_balance_def closings_def)

lemma on_channel_same: "on_channel f w = Inr w' \<Longrightarrow> conn w' = conn w \<and> trace w' = trace w \<and> tq w' = tq w"
  by (auto simp: on_channel_def rbind_eq_Inr)

lemma conn_cancel_same: "conn_cancel i w = Inr w' \<Longrightarrow> conn w' = conn w \<and> trace w' = trace w \<and> poll_of w' = poll_of w"
  by (auto simp: conn_cancel_def rbind_eq_Inr)

lemma conn_runAfter_same:
  "conn_runAfter r fn w = Inr (i, w') \<Longrightarrow> conn w' = conn w \<and> trace w' = trace w \<and> poll_of w' = poll_of w"
  by (auto simp: conn_runAfter_def rbind_eq_Inr)

lemma rank_closed: "3 \<le> conn_rank st \<longleftrightarrow> st = kDisConnected" "conn_rank st = 3 \<longleftrightarrow> st = kDisConnected"
  by (cases st; simp)+

interpretation balance: conn_guarantee close_balance
proof (unfold_locales, goal_cases)
  case (2 u v w)
  then show ?case by (auto simp: close_balance_def rank_closed split: if_splits)
next
  case (3 ev w)
  then show ?case by (simp add: close_balance_def closings_def emit_def)
next
  case (8 f w w')
  then show ?case using on_channel_same [of f w w'] by (simp add: close_balance_quiet)
next
  case (9 i w w')
  then show ?case using conn_cancel_same [of i w w'] by (simp add: close_balance_quiet)
next
  case (10 w fn r i w')
  then show ?case using conn_runAfter_same [of r fn w i w'] by (simp add: close_balance_quiet)
next
  case (11 w)
  then show ?case by (simp add: close_balance_def closings_def setState_def on_conn_def)
next
  case (12 w)
  then show ?case by (auto simp: close_balance_def closings_def setState_def on_conn_def)
next
  case (13 w w')
  then show ?case by (auto simp: close_balance_def closings_def setState_def on_conn_def emit_def rank_closed)
qed (simp_all add: close_balance_def closings_def)

section \<open>What the neighbours see\<close>

text \<open>
  A step leaves the channels of others alone, and whatever timer is registered after it was registered before or is the
  connection's own.
\<close>

definition peer_change :: "addr set \<Rightarrow> world \<Rightarrow> world \<Rightarrow> bool" where
  "peer_change E w w' \<longleftrightarrow>
    tc_id (conn w') = tc_id (conn w) \<and> tc_channel (conn w') = tc_channel (conn w) \<and>
    (\<forall>b. b \<noteq> tc_channel (conn w) \<longrightarrow> channels (poll_of w') b = channels (poll_of w) b) \<and>
    (\<forall>i f. live_timers E w' i = Some f \<longrightarrow> \<not> my_closure (conn w) f \<longrightarrow> live_timers E w i = Some f)"

lemma removeChannel_others: "Epoller_removeChannel t a p = Inr p' \<Longrightarrow> b \<noteq> a \<Longrightarrow> channels p' b = channels p b"
  by (auto simp: Epoller_removeChannel_def the_channel_def set_channel_def epoll_del_def Let_def
      split: option.splits if_splits)

lemma updateChannel_others: "Epoller_updateChannel t a p = Inr p' \<Longrightarrow> b \<noteq> a \<Longrightarrow> channels p' b = channels p b"
  by (auto simp: Epoller_updateChannel_def the_channel_def set_channel_def epoll_add_def epoll_mod_def rbind_eq_Inr
      Let_def removeChannel_others split: option.splits if_splits)

lemma set_events_others: "Channel_set_events f t a p = Inr p' \<Longrightarrow> b \<noteq> a \<Longrightarrow> channels p' b = channels p b"
  by (auto simp: Channel_set_events_def Channel_update_def the_channel_def set_channel_def rbind_eq_Inr
      split: option.splits if_splits dest!: updateChannel_others)

lemma remove_others: "Channel_remove t a p = Inr p' \<Longrightarrow> b \<noteq> a \<Longrightarrow> channels p' b = channels p b"
  by (auto simp: Channel_remove_def the_channel_def set_channel_def Let_def split: option.splits if_splits
      dest!: removeChannel_others)

lemma own_channel_others:
  "f \<in> own_channel_ops \<Longrightarrow> on_channel f w = Inr w' \<Longrightarrow> b \<noteq> tc_channel (conn w) \<Longrightarrow>
    channels (poll_of w') b = channels (poll_of w) b"
  by (auto simp: own_channel_ops_def on_channel_def rbind_eq_Inr Channel_enableReading_def Channel_enableWriting_def
      Channel_disableWriting_def set_events_others remove_others)

lemma cancel_live:
  "conn_cancel i w = Inr w' \<Longrightarrow> live_timers E w' j = Some f \<Longrightarrow> live_timers E w j = Some f"
  by (auto simp: conn_cancel_def rbind_eq_Inr EventLoop_cancel_def TimerQueue_cancel_def TimerQueue_cancelInLoop_def
      Let_def timers_live_def split: if_splits option.splits)

lemma runAfter_live:
  assumes "conn_runAfter r fn w = Inr (i, w')" and "live_timers E w' j = Some f" and "f \<noteq> fn"
  shows "live_timers E w j = Some f"
proof -
  have "theap (tq w') = (theap (tq w))(rq_addr r := Some (Timer_new fn (rq_now r + to_micro (rq_delay r)) 0 (numCreated (tq w))))"
    using assms(1)
    by (auto simp: conn_runAfter_def rbind_eq_Inr EventLoop_runAfter_def TimerQueue_addTimer_def
        TimerQueue_addTimerInLoop_def TimerQueue_resetTimerFd_def Let_def split: if_splits)
  with assms(2,3) show ?thesis by (auto simp: timers_live_def Timer_new_def split: if_splits)
qed

interpretation peers: conn_guarantee "peer_change E" for E
proof (unfold_locales, goal_cases)
  case (2 u v w)
  then show ?case using my_closure_cong [of "conn v" "conn u"] by (simp add: peer_change_def)
next
  case (8 f w w')
  then show ?case using own_channel_others [of f w w'] on_channel_same [of f w w'] by (simp add: peer_change_def)
next
  case (9 i w w')
  then show ?case using conn_cancel_same [of i w w'] cancel_live [of i w w' E] by (auto simp: peer_change_def)
next
  case (10 w fn r i w')
  then show ?case
    using conn_runAfter_same [of r fn w i w'] runAfter_live [of r fn w i w' E] by (auto simp: peer_change_def)
next
  case (13 w w')
  then show ?case
    using my_closure_cong [of "conn (setState kDisConnected w)" "conn w"]
    by (simp add: peer_change_def setState_def on_conn_def)
qed (simp_all add: peer_change_def setState_def on_conn_def)

section \<open>Connections that share a loop\<close>

text \<open>Two connections of one loop: the same poller and timer queue, different objects, channels and descriptors.\<close>

definition neighbours :: "world \<Rightarrow> world \<Rightarrow> bool" where
  "neighbours w v \<longleftrightarrow> poll_of v = poll_of w \<and> tq v = tq w \<and> tc_id (conn v) \<noteq> tc_id (conn w) \<and>
    tc_channel (conn v) \<noteq> tc_channel (conn w) \<and> tc_fd (conn v) \<noteq> tc_fd (conn w)"

lemma peer_env:
  assumes "neighbours w v" and "conn_inv E w" and "conn_inv E v" and "conn_inv E w'" and "evolves w w'" and "peer_change E w w'"
  shows "env_change E v (poll_of w') (tq w')"
proof -
  let ?a = "tc_channel (conn w)" and ?b = "tc_channel (conn v)"
  have chan: "channels (poll_of w') b = channels (poll_of w) b" if "b \<noteq> ?a" for b
    using assms(6) that by (simp add: peer_change_def)
  have b: "?b \<noteq> ?a" "tc_fd (conn v) \<noteq> tc_fd (conn w)" "poll_of v = poll_of w" "tq v = tq w"
    using assms(1) by (simp_all add: neighbours_def)
  have p: "Poller_inv (poll_of w)" "Poller_inv (poll_of w')" "TimerQueue_inv E (tq w')"
    using assms(2,4) by (simp_all add: conn_inv_def conn_ok_def)
  obtain c where c: "channels (poll_of w) ?b = Some c" "ch_fd c = tc_fd (conn v)" and free: "fd_free ?b (poll_of w)"
    using assms(3) b by (auto simp: conn_inv_def conn_ok_def)
  obtain d where d: "channels (poll_of w') ?a = Some d" "ch_fd d = tc_fd (conn w)"
    using assms(4,5) by (auto simp: conn_inv_def conn_ok_def evolves_def)
  have "channels (poll_of w') ?b = Some c" using chan [OF b(1)] c(1) by simp
  then have "fd_free ?b (poll_of w')"
    using free c d b chan unfolding fd_free_iff [OF p(1) c(1)] by (subst fd_free_iff [OF p(2)]) (auto, metis option.inject)
  moreover have "live_timers E v i = Some f" if "timers_live E (tq w') i = Some f" "my_closure (conn v) f" for i f
  proof -
    have "\<not> my_closure (conn w) f" using that(2) assms(1) by (simp add: neighbours_def my_closure_def split: closure.splits)
    with that(1) assms(6) b show ?thesis by (auto simp: peer_change_def)
  qed
  ultimately show ?thesis using p chan [OF b(1)] b by (simp add: env_change_def)
qed

lemma neighbours_after:
  assumes "neighbours w v" and "evolves w w'"
  shows "neighbours w' (v\<lparr>poll_of := poll_of w', tq := tq w'\<rparr>)"
  using assms by (simp add: neighbours_def evolves_def)

text \<open>A channel that is created for another descriptor changes nothing for a connection.\<close>

lemma create_loop_change:
  assumes inv: "conn_inv E w" and p: "channels (poll_of w) ch = None" and fd: "fd \<noteq> tc_fd (conn w)"
  shows "loop_change E E w (create_channel ch fd (poll_of w)) (tq w)"
proof -
  have ok: "Poller_inv (poll_of w)" "fd_free (tc_channel (conn w)) (poll_of w)" "TimerQueue_inv E (tq w)"
    using inv by (simp_all add: conn_inv_def conn_ok_def)
  obtain c where c: "my_channel w = Some c" "ch_fd c = tc_fd (conn w)" using inv by (auto simp: conn_inv_def conn_ok_def)
  have inv': "Poller_inv (create_channel ch fd (poll_of w))" by (rule create_channel_inv [OF ok(1) p])
  have same: "channels (create_channel ch fd (poll_of w)) (tc_channel (conn w)) = Some c" using c p by (auto simp: create_channel_def)
  have "fd_free (tc_channel (conn w)) (create_channel ch fd (poll_of w))"
    using ok(2) p unfolding fd_free_iff [OF ok(1) c(1)] fd_free_iff [OF inv' same]
    by (auto simp: create_channel_def Channel_new_def kNew_def kAdded_def)
  with ok inv' same c show ?thesis by (simp add: loop_change_def)
qed


definition quiet_callbacks :: conn_callbacks where
  "quiet_callbacks = no_callbacks\<lparr>closeCallback := Some Inr\<rparr>"

lemma quiet_callbacks_ok: "callbacks_ok E quiet_callbacks" "peers.keeping_callbacks E quiet_callbacks"
  "balance.keeping_callbacks quiet_callbacks"
  by (auto simp: callbacks_ok_def cb_ok_def quiet_callbacks_def no_callbacks_def goes_ok_def peers.keeping_callbacks_def
      peers.keeping_def balance.keeping_callbacks_def balance.keeping_def)


end
