(* ===== verification/ServedConnections.thy ===== *)
theory ServedConnections
  imports TcpServer TcpConnection_Guarantee
begin

text \<open>
  The server (\<open>net/TcpServer.cc\<close>) with its real connections (\<open>net/TcpConnection.cc\<close>): where \<open>TcpServer\<close> keeps only the
  state of a connection, here each has its buffers, its channel and its timers, in the poller and the timer queue
  of its loop, which it shares with the other connections of that loop. Each operation of the connection runs on the view
  that the loop gives it; the close callback of the server is \<open>TcpServer_removeConnection\<close>, run once for each
  \<open>CallClose\<close> that an operation adds to the trace. The object \<open>a\<close> of the server has the connection \<open>tc_id = a\<close>.
\<close>

section \<open>State\<close>

record served =
  srv :: tcp_server
  polls :: "addr \<Rightarrow> poller"
  tqs :: "addr \<Rightarrow> timer_queue"
  rounds :: "addr \<Rightarrow> addr set"
  worlds :: "addr \<Rightarrow> world option"
  waiting :: "addr \<Rightarrow> conn_task list"

definition served_new :: "addr \<Rightarrow> nat \<Rightarrow> served" where
  "served_new b hw =
    \<lparr>srv = TcpServer_new b hw, polls = (\<lambda>_. Epoller_new), tqs = (\<lambda>_. TimerQueue_new), rounds = (\<lambda>_. {}),
     worlds = (\<lambda>_. None), waiting = (\<lambda>_. [])\<rparr>"

text \<open>A connection as it is in its loop \<open>l\<close>.\<close>

definition view :: "addr \<Rightarrow> served \<Rightarrow> world \<Rightarrow> world" where
  "view l h w = w\<lparr>poll_of := polls h l, tq := tqs h l\<rparr>"

text \<open>The callbacks of a connection of the server: those of the user, and the server's close callback.\<close>

definition serving :: "conn_callbacks \<Rightarrow> conn_callbacks" where
  "serving cbs = cbs\<lparr>closeCallback := Some Inr\<rparr>"

section \<open>Operations\<close>

text \<open>What an operation of the connection \<open>a\<close>, from \<open>v\<close> to \<open>w\<close>, leaves behind.\<close>

definition settle :: "addr \<Rightarrow> addr \<Rightarrow> world \<Rightarrow> world \<Rightarrow> served \<Rightarrow> served res" where
  "settle a l v w h =
    rbind (rfold TcpServer_removeConnection (replicate (closings w - closings v) a) (set_state a (state_of w) (srv h)))
      (\<lambda>s. Inr (h\<lparr>srv := s, worlds := (worlds h)(a \<mapsto> w), polls := (polls h)(l := poll_of w), tqs := (tqs h)(l := tq w)\<rparr>))"

definition on_served :: "addr \<Rightarrow> (world \<Rightarrow> world res) \<Rightarrow> served \<Rightarrow> served res" where
  "on_served a f h =
    the_conn a (srv h) (\<lambda>c.
      case worlds h a of
        None \<Rightarrow> Inl UseAfterFree
      | Some w \<Rightarrow>
          (let l = sc_loop c; v = view l h w in rbind (f v) (\<lambda>w. settle a l v w h)))"

definition served_newConnection :: "addr \<Rightarrow> addr \<Rightarrow> int \<Rightarrow> served \<Rightarrow> served res" where
  "served_newConnection a ch fd h =
    rbind (TcpServer_newConnection a (srv h)) (\<lambda>s.
      the_conn a s (\<lambda>c.
        let l = sc_loop c; w = new_world a ch fd (polls h l) (tqs h l)
        in Inr (h\<lparr>srv := s, worlds := (worlds h)(a \<mapsto> w), polls := (polls h)(l := poll_of w)\<rparr>)))"

definition served_ask :: "conn_callbacks \<Rightarrow> task_answers \<Rightarrow> conn_request \<Rightarrow> addr \<Rightarrow> served \<Rightarrow> (conn_task list \<times> served) res" where
  "served_ask cbs x q a h =
    the_conn a (srv h) (\<lambda>c.
      case worlds h a of
        None \<Rightarrow> Inl UseAfterFree
      | Some w \<Rightarrow>
          (let l = sc_loop c; v = view l h w
           in rbind (conn_ask (serving cbs) x q v) (\<lambda>(w, ts). rbind (settle a l v w h) (\<lambda>h. Inr (ts, h)))))"

text \<open>\<open>stop\<close> runs in the base loop, whose thread is none of the connections'.\<close>

definition served_forceClose :: "conn_callbacks \<Rightarrow> task_answers \<Rightarrow> addr \<Rightarrow> served \<Rightarrow> served res" where
  "served_forceClose cbs x a h =
    the_conn a (srv h) (\<lambda>c.
      rbind (served_ask cbs x AskForceClose a h) (\<lambda>(ts, h).
        Inr (h\<lparr>srv := fold (\<lambda>_. post (sc_loop c) (ForceClose a)) ts (srv h)\<rparr>)))"

definition served_stop :: "conn_callbacks \<Rightarrow> task_answers \<Rightarrow> served \<Rightarrow> served res" where
  "served_stop cbs x h =
    (if \<not> srv_started (srv h) then Inr h
     else rfold (\<lambda>kv. served_forceClose cbs x (snd kv)) (connections (srv h)) (h\<lparr>srv := (srv h)\<lparr>srv_started := False\<rparr>\<rparr>))"

fun served_run :: "conn_callbacks \<Rightarrow> timer_request \<Rightarrow> server_task \<Rightarrow> served \<Rightarrow> served res" where
  "served_run cbs r (Establish a) h =
    rbind (on_served a (TcpConnection_connectEstablelished (serving cbs) r) h) (\<lambda>h.
      Inr (h\<lparr>srv := (srv h)\<lparr>established := established (srv h) @ [a]\<rparr>\<rparr>))"
| "served_run cbs r (ForceClose a) h = on_served a (TcpConnection_forceCloseInLoop (serving cbs)) h"
| "served_run cbs r (RemoveInLoop a) h =
    rbind (TcpServer_removeConnectionInLoop a (srv h)) (\<lambda>s. Inr (h\<lparr>srv := s\<rparr>))"
| "served_run cbs r (DestroyConn a) h =
    rbind (on_served a TcpConnection_connectDestroyed h) (\<lambda>h.
      Inr (h\<lparr>srv := (srv h)\<lparr>destroyed := destroyed (srv h) @ [a]\<rparr>\<rparr>))"

section \<open>The system\<close>

text \<open>
  The steps: the acceptor hands over a descriptor, and the new object and its channel have addresses that are not in use;
  a loop runs its next function; a connection that has been established acts in its loop, is called by another thread, or runs a function posted by
  such a call; the server is started or stopped; and the rest of a loop goes on.
\<close>

inductive served_step :: "conn_callbacks \<Rightarrow> served \<Rightarrow> served res \<Rightarrow> bool" for cbs where
  Accepted: "srv_started (srv h) \<Longrightarrow> objs (srv h) a = None \<Longrightarrow>
    (\<And>b w. worlds h b = Some w \<Longrightarrow> tc_channel (conn w) \<noteq> ch \<and> tc_fd (conn w) \<noteq> fd) \<Longrightarrow>
    (\<And>l. channels (polls h l) ch = None \<and> ChannelMap (polls h l) fd = None) \<Longrightarrow>
    (\<And>l j k. timers_live (rounds h l) (tqs h l) j \<noteq> Some (Closure a k)) \<Longrightarrow>
    served_step cbs h (served_newConnection a ch fd h)"
| Runs: "tasks (srv h) l = t # ts \<Longrightarrow> fresh_timer r (tqs h l) \<Longrightarrow>
    served_step cbs h (served_run cbs r t (h\<lparr>srv := take_task l (srv h)\<rparr>))"
| ConnActs: "objs (srv h) a = Some c \<Longrightarrow> worlds h a = Some w \<Longrightarrow> state_of w \<noteq> kConnecting \<Longrightarrow>
    conn_act (rounds h (sc_loop c)) (serving cbs) (view (sc_loop c) h w) m \<Longrightarrow>
    served_step cbs h (rbind m (\<lambda>w'. settle a (sc_loop c) (view (sc_loop c) h w) w' h))"
| Asked: "objs (srv h) a = Some c \<Longrightarrow> worlds h a = Some w \<Longrightarrow> state_of w \<noteq> kConnecting \<Longrightarrow>
    served_step cbs h (rbind (served_ask cbs x q a h) (\<lambda>(ts, h). Inr (h\<lparr>waiting := (waiting h)(a := waiting h a @ ts)\<rparr>)))"
| Posted: "objs (srv h) a = Some c \<Longrightarrow> worlds h a = Some w \<Longrightarrow> waiting h a = t # ts \<Longrightarrow>
    task_may (rounds h (sc_loop c)) (serving cbs) x t (view (sc_loop c) h w) \<Longrightarrow>
    served_step cbs h (on_served a (run_conn_task (serving cbs) x t) (h\<lparr>waiting := (waiting h)(a := ts)\<rparr>))"
| Started: "base (srv h) \<notin> range (\<lambda>i. spawn i (threadName @ to_string i)) \<Longrightarrow>
    served_step cbs h (Inr (h\<lparr>srv := TcpServer_start spawn (srv h)\<rparr>))"
| Stopped: "served_step cbs h (served_stop cbs x h)"
| LoopGoesOn: "Poller_inv p \<Longrightarrow> TimerQueue_inv E q \<Longrightarrow>
    (\<And>a c w. objs (srv h) a = Some c \<Longrightarrow> sc_loop c = l \<Longrightarrow> worlds h a = Some w \<Longrightarrow>
      loop_change (rounds h l) E (view l h w) p q) \<Longrightarrow>
    served_step cbs h (Inr (h\<lparr>polls := (polls h)(l := p), tqs := (tqs h)(l := q), rounds := (rounds h)(l := E)\<rparr>))"

inductive served_reach :: "conn_callbacks \<Rightarrow> served \<Rightarrow> served \<Rightarrow> bool" for cbs where
  ServedStart: "served_reach cbs h h"
| ServedStep: "served_reach cbs h h' \<Longrightarrow> served_step cbs h' (Inr h'') \<Longrightarrow> served_reach cbs h h''"

section \<open>Invariant\<close>

text \<open>One connection: its own invariant in its loop, and the state, the name and the closes that the server knows of.\<close>

definition served_conn :: "served \<Rightarrow> addr \<Rightarrow> server_conn \<Rightarrow> world \<Rightarrow> bool" where
  "served_conn h a c w \<longleftrightarrow>
    conn_inv (rounds h (sc_loop c)) (view (sc_loop c) h w) \<and> state_of w = sc_state c \<and> tc_id (conn w) = a \<and>
    closings w = (if state_of w = kDisConnected then 1 else 0) \<and>
    (state_of w = kConnecting \<longrightarrow> waiting h a = [])"

definition served_inv :: "served \<Rightarrow> bool" where
  "served_inv h \<longleftrightarrow>
    (\<forall>l. Poller_inv (polls h l) \<and> TimerQueue_inv (rounds h l) (tqs h l)) \<and>
    (\<forall>a. (worlds h a = None \<longleftrightarrow> objs (srv h) a = None) \<and> (worlds h a = None \<longrightarrow> waiting h a = [])) \<and>
    (\<forall>a c w. objs (srv h) a = Some c \<longrightarrow> worlds h a = Some w \<longrightarrow> served_conn h a c w) \<and>
    (\<forall>a b v w. worlds h a = Some v \<longrightarrow> worlds h b = Some w \<longrightarrow> a \<noteq> b \<longrightarrow>
      tc_channel (conn v) \<noteq> tc_channel (conn w) \<and> tc_fd (conn v) \<noteq> tc_fd (conn w))"

text \<open>Callbacks that are well behaved on every connection, and touch only their own.\<close>

definition serving_ok :: "conn_callbacks \<Rightarrow> bool" where
  "serving_ok cbs \<longleftrightarrow>
    (\<forall>E. callbacks_ok E (serving cbs) \<and> peers.keeping_callbacks E (serving cbs)) \<and> balance.keeping_callbacks (serving cbs)"

subsection \<open>The outcome of an operation of a connection\<close>

definition settles :: "addr set \<Rightarrow> world \<Rightarrow> world \<Rightarrow> bool" where
  "settles E v w \<longleftrightarrow> conn_inv E w \<and> evolves v w \<and> peer_change E v w \<and> close_balance v w"

lemma view_fields [simp]:
  "conn (view l h w) = conn w" "poll_of (view l h w) = polls h l" "tq (view l h w) = tqs h l"
  "trace (view l h w) = trace w" "accepted (view l h w) = accepted w" "closings (view l h w) = closings w"
  by (simp_all add: view_def closings_def)

lemma view_same: "poll_of w = polls h l \<Longrightarrow> tq w = tqs h l \<Longrightarrow> view l h w = w"
  by (cases w) (simp add: view_def)

lemma closings_settle: "close_balance v w \<Longrightarrow>
    closings w - closings v = (if state_of w = kDisConnected \<and> state_of v \<noteq> kDisConnected then 1 else 0)"
  by (simp add: close_balance_def)

text \<open>The server's side: the state is set, and a connection that has closed is reported once.\<close>

definition synced :: "addr \<Rightarrow> conn_state \<Rightarrow> conn_state \<Rightarrow> tcp_server \<Rightarrow> tcp_server" where
  "synced a st st' s = (if st' = kDisConnected \<and> st \<noteq> kDisConnected
    then post (base s) (RemoveInLoop a) (set_state a st' s) else set_state a st' s)"

definition settled :: "addr \<Rightarrow> addr \<Rightarrow> world \<Rightarrow> world \<Rightarrow> served \<Rightarrow> served" where
  "settled a l v w h = h\<lparr>srv := synced a (state_of v) (state_of w) (srv h), worlds := (worlds h)(a \<mapsto> w),
    polls := (polls h)(l := poll_of w), tqs := (tqs h)(l := tq w)\<rparr>"

lemma settle_result: "close_balance v w \<Longrightarrow> settle a l v w h = Inr (settled a l v w h)"
  using closings_settle [of v w] by (simp add: settle_def settled_def synced_def TcpServer_removeConnection_def)

lemma settled_fields [simp]:
  "worlds (settled a l v w h) = (worlds h)(a \<mapsto> w)" "waiting (settled a l v w h) = waiting h"
  "rounds (settled a l v w h) = rounds h" "polls (settled a l v w h) = (polls h)(l := poll_of w)"
  "tqs (settled a l v w h) = (tqs h)(l := tq w)" "view l (settled a l v w h) w = w"
  "srv (settled a l v w h) = synced a (state_of v) (state_of w) (srv h)"
  by (simp_all add: settled_def view_def)

lemma synced_fields [simp]:
  "objs (synced a st st' s) = objs (set_state a st' s)" "base (synced a st st' s) = base s"
  by (simp_all add: synced_def)

lemma served_connD:
  assumes "served_inv h" and "objs (srv h) a = Some c" and "worlds h a = Some w"
  shows "served_conn h a c w" and "conn_inv (rounds h (sc_loop c)) (view (sc_loop c) h w)" and "state_of w = sc_state c"
  using assms by (auto simp: served_inv_def served_conn_def)

text \<open>The other connections of the loop are neighbours, and those of other loops are not concerned.\<close>

lemma settled_other:
  assumes inv: "served_inv h" and c: "objs (srv h) a = Some c" and w: "worlds h a = Some w"
    and op: "settles (rounds h (sc_loop c)) (view (sc_loop c) h w) w'"
    and b: "b \<noteq> a" "objs (srv h) b = Some d" "worlds h b = Some u"
  shows "served_conn (settled a (sc_loop c) v w' h) b d u"
proof (cases "sc_loop d = sc_loop c")
  case True
  let ?l = "sc_loop c" and ?E = "rounds h (sc_loop c)"
  note me = served_connD [OF inv c w] and other = served_connD [OF inv b(2,3)]
  have u: "conn_inv ?E (view ?l h u)" using other(2) True by simp
  have "tc_channel (conn u) \<noteq> tc_channel (conn w)" "tc_fd (conn u) \<noteq> tc_fd (conn w)"
    using inv b(1,3) w by (simp_all add: served_inv_def)
  then have "neighbours (view ?l h w) (view ?l h u)"
    using me(1) other(1) b(1) by (simp add: neighbours_def served_conn_def)
  then have "env_change ?E (view ?l h u) (poll_of w') (tq w')"
    using me(2) u op by (intro peer_env) (auto simp: settles_def)
  then have "conn_inv ?E ((view ?l h u)\<lparr>poll_of := poll_of w', tq := tq w'\<rparr>)" by (rule env_change_ok [OF u])
  then show ?thesis using True other(1) by (simp add: view_def served_conn_def)
next
  case False
  then show ?thesis using served_connD(1) [OF inv b(2,3)] by (simp add: served_conn_def view_def)
qed

lemma settled_mine:
  assumes inv: "served_inv h" and c: "objs (srv h) a = Some c" and w: "worlds h a = Some w"
    and op: "settles (rounds h (sc_loop c)) (view (sc_loop c) h w) w'"
  shows "served_conn (settled a (sc_loop c) v w' h) a (c\<lparr>sc_state := state_of w'\<rparr>) w'"
proof -
  note me = served_connD(1) [OF inv c w]
  have o: "conn_inv (rounds h (sc_loop c)) w'" "evolves (view (sc_loop c) h w) w'" "close_balance (view (sc_loop c) h w) w'"
    using op by (simp_all add: settles_def)
  have "closings w' = (if state_of w' = kDisConnected then 1 else 0)"
    using o(3) me rank_closed by (auto simp: close_balance_def served_conn_def split: if_splits)
  moreover have "state_of w \<noteq> kConnecting \<Longrightarrow> state_of w' \<noteq> kConnecting" using not_connecting_evolves [OF o(2)] by simp
  ultimately show ?thesis using o(1,2) me by (auto simp: served_conn_def evolves_def)
qed

lemma settled_inv:
  assumes inv: "served_inv h" and c: "objs (srv h) a = Some c" and w: "worlds h a = Some w"
    and op: "settles (rounds h (sc_loop c)) (view (sc_loop c) h w) w'"
  shows "served_inv (settled a (sc_loop c) (view (sc_loop c) h w) w' h)"
  unfolding served_inv_def
proof (intro conjI)
  let ?h = "settled a (sc_loop c) (view (sc_loop c) h w) w' h"
  have objs': "objs (srv ?h) b = (if b = a then Some (c\<lparr>sc_state := state_of w'\<rparr>) else objs (srv h) b)" for b
    using c by (simp add: objs_set_state)
  show "\<forall>l. Poller_inv (polls ?h l) \<and> TimerQueue_inv (rounds ?h l) (tqs ?h l)"
    using inv op by (simp add: served_inv_def settles_def conn_inv_def conn_ok_def)
  show "\<forall>b. (worlds ?h b = None \<longleftrightarrow> objs (srv ?h) b = None) \<and> (worlds ?h b = None \<longrightarrow> waiting ?h b = [])"
    using inv c by (auto simp: served_inv_def)
  show "\<forall>b d u. objs (srv ?h) b = Some d \<longrightarrow> worlds ?h b = Some u \<longrightarrow> served_conn ?h b d u"
    using settled_mine [OF inv c w op] settled_other [OF inv c w op] by (auto simp: objs' simp del: settled_fields(2-))
  have "tc_channel (conn w') = tc_channel (conn w)" "tc_fd (conn w') = tc_fd (conn w)"
    using op by (simp_all add: settles_def evolves_def)
  then show "\<forall>b d u v. worlds ?h b = Some u \<longrightarrow> worlds ?h d = Some v \<longrightarrow> b \<noteq> d \<longrightarrow>
      tc_channel (conn u) \<noteq> tc_channel (conn v) \<and> tc_fd (conn u) \<noteq> tc_fd (conn v)"
    using inv w by (auto simp: served_inv_def)
qed

subsection \<open>Every operation of a connection settles\<close>

lemma goes_settles:
  assumes "goes_ok E v m" and "peers.keeps E v m" and "balance.keeps v m"
  shows "\<exists>w. m = Inr w \<and> settles E v w"
  using assms by (auto simp: goes_ok_def settles_def peers.keeps_def balance.keeps_def)

lemma servingD:
  assumes "serving_ok cbs"
  shows "callbacks_ok E (serving cbs)" and "peers.keeping_callbacks E (serving cbs)" and "balance.keeping_callbacks (serving cbs)"
  using assms by (simp_all add: serving_ok_def)

lemma act_settles:
  assumes "serving_ok cbs" and "conn_inv E v" and "conn_act E (serving cbs) v m"
  shows "\<exists>w. m = Inr w \<and> settles E v w"
  using conn_act_ok [OF servingD(1) assms(2,3)] peers.conn_act_keeps [OF servingD(2) assms(3)]
    balance.conn_act_keeps [OF servingD(3) assms(3)] assms(1) by (intro goes_settles)

lemma task_settles:
  assumes "serving_ok cbs" and "conn_inv E v" and "task_may E (serving cbs) x t v"
    and "after_established t \<Longrightarrow> state_of v \<noteq> kConnecting"
  shows "\<exists>w. run_conn_task (serving cbs) x t v = Inr w \<and> settles E v w"
  using run_conn_task_ok [OF servingD(1) assms(2-4)] peers.run_conn_task_keeps [OF servingD(2)]
    balance.run_conn_task_keeps [OF servingD(3)] assms(1) by (intro goes_settles)

lemma ask_settles:
  assumes "serving_ok cbs" and "conn_inv E v"
  shows "\<exists>w ts. conn_ask (serving cbs) x q v = Inr (w, ts) \<and> settles E v w \<and>
    ((\<exists>t \<in> set ts. after_established t) \<longrightarrow> state_of v \<noteq> kConnecting)"
proof -
  obtain w ts where w: "conn_ask (serving cbs) x q v = Inr (w, ts)" "conn_inv E w" "evolves v w"
    "(\<exists>t \<in> set ts. after_established t) \<longrightarrow> state_of v \<noteq> kConnecting"
    using conn_ask_ok [OF assms(2), of "serving cbs" x q] by blast
  with peers.conn_ask_keeps [OF servingD(2) w(1)] balance.conn_ask_keeps [OF servingD(3) w(1)] assms(1)
  show ?thesis by (auto simp: settles_def)
qed

lemma establish_settles:
  assumes "serving_ok cbs" and "conn_inv E v" and "state_of v = kConnecting" and "fresh_timer r (tq v)"
  shows "\<exists>w. TcpConnection_connectEstablelished (serving cbs) r v = Inr w \<and> settles E v w \<and> state_of w \<noteq> kConnecting"
proof -
  obtain w where w: "TcpConnection_connectEstablelished (serving cbs) r v = Inr w" "settles E v w"
    using act_settles [OF assms(1,2) conn_act.Established [OF assms(3,4)]] by blast
  obtain v1 where v1: "TcpConnection_connectEstablelished (serving cbs) r v = invoke (connectionCallback (serving cbs)) CallConnection v1"
    "conn_inv E v1" "state_of v1 = kConnected" using established_result [OF assms(2-4), of "serving cbs"] by blast
  have "cb_ok E (connectionCallback (serving cbs))" using servingD(1) [OF assms(1)] by (simp add: callbacks_ok_def)
  from invoke_ok [OF this v1(2), of CallConnection] v1 w(1) not_connecting_evolves [of v1 w] w show ?thesis
    by (auto simp: goes_ok_def)
qed

lemma forceClose_settles:
  assumes "serving_ok cbs" and "conn_inv E v"
  shows "\<exists>w. TcpConnection_forceCloseInLoop (serving cbs) v = Inr w \<and> settles E v w \<and>
    state_of w = (if conn_open v then kDisConnected else state_of v)"
proof -
  obtain w where w: "TcpConnection_forceCloseInLoop (serving cbs) v = Inr w" "settles E v w"
    using goes_settles [OF forceCloseInLoop_ok [OF servingD(1) assms(2)] peers.forceCloseInLoop_keeps [OF servingD(2)]
        balance.forceCloseInLoop_keeps [OF servingD(3)]] assms(1) by blast
  have thr: "in_thread v" by (rule conn_inv_thread [OF assms(2)])
  show ?thesis
  proof (cases "conn_open v")
    case True
    then obtain v1 where "TcpConnection_forceCloseInLoop (serving cbs) v = invoke (Some Inr) CallClose v1" "released E v1"
      using handleClose_result [OF assms(2) True, of "serving cbs"] thr
      by (auto simp: TcpConnection_forceCloseInLoop_def serving_def)
    with w True show ?thesis by (auto simp: invoke_def released_def)
  qed (use w thr in \<open>auto simp: TcpConnection_forceCloseInLoop_def\<close>)
qed

text \<open>A closed connection is destroyed, whatever timers it has armed since.\<close>

lemma closed_cleared:
  assumes "conn_inv E v" and "state_of v = kDisConnected"
  obtains w where "rbind (TcpConnection_cancelIdle v) TcpConnection_cancelPending = Inr w" and "conn_inv E w" and "released E w"
    and "conn w = (conn v)\<lparr>idleTimerId := idleTimerId (conn w), pendingRetrans := []\<rparr>"
proof -
  have thr: "in_thread v" "TimerQueue_inv E (tq v)" "conn_owns E v" "conn_ok E v" "conn_stream v" "conn_flags v"
    using assms(1) by (simp_all add: conn_inv_def conn_ok_def)
  obtain q j where q: "rbind (TcpConnection_cancelIdle v) TcpConnection_cancelPending =
      Inr (v\<lparr>tq := q, conn := (conn v)\<lparr>idleTimerId := j, pendingRetrans := []\<rparr>\<rparr>)"
    "TimerQueue_inv E q" "\<not> TimerId_valid j" "\<forall>i f. timers_live E q i = Some f \<longrightarrow> \<not> my_closure (conn v) f"
    using cancel_all_ok [OF thr(3,1,2)] by blast
  let ?w = "v\<lparr>tq := q, conn := (conn v)\<lparr>idleTimerId := j, pendingRetrans := []\<rparr>\<rparr>"
  have rel: "released E ?w"
    using q thr(6) assms(2) my_closure_cong [of "conn ?w" "conn v"] by (auto simp: released_def conn_flags_def)
  moreover have "conn_inv E ?w"
    using thr q(2) assms(2) rel by (intro conn_inv_released) (auto simp: conn_ok_def conn_stream_def conn_flags_def)
  ultimately show ?thesis using q(1) by (intro that [of ?w]) simp_all
qed

lemma destroyed_settles:
  assumes "conn_inv E v" and "state_of v = kDisConnected"
  shows "\<exists>w. TcpConnection_connectDestroyed v = Inr w \<and> settles E v w \<and> state_of w = kDisConnected"
proof -
  obtain w where w: "rbind (TcpConnection_cancelIdle v) TcpConnection_cancelPending = Inr w" "conn_inv E w" "released E w"
    "conn w = (conn v)\<lparr>idleTimerId := idleTimerId (conn w), pendingRetrans := []\<rparr>" by (rule closed_cleared [OF assms])
  have thr: "in_thread v" "in_thread w" using assms(1) w(2) by simp_all
  have "TcpConnection_connectDestroyed v = rbind (rbind (TcpConnection_cancelIdle v) TcpConnection_cancelPending) (on_channel Channel_remove)"
    using thr assms(2) by (simp add: TcpConnection_connectDestroyed_def Let_def rbind_assoc)
  also have "\<dots> = on_channel Channel_remove w" using w(1) by simp
  also have "on_channel Channel_remove w = TcpConnection_connectDestroyed w"
    using thr w(3) cancel_released [OF thr(2) w(3)] by (simp add: TcpConnection_connectDestroyed_def released_def Let_def)
  finally have eq: "TcpConnection_connectDestroyed v = TcpConnection_connectDestroyed w" .
  obtain p where p: "TcpConnection_connectDestroyed w = Inr (w\<lparr>poll_of := p\<rparr>)" "conn_inv E (w\<lparr>poll_of := p\<rparr>)"
    using connectDestroyed_released [OF w(2,3)] by blast
  have same: "tc_id (conn w) = tc_id (conn v) \<and> tc_channel (conn w) = tc_channel (conn v) \<and> tc_fd (conn w) = tc_fd (conn v) \<and>
    state_of w = state_of v" by (subst (1 2 3 4) w(4)) simp
  then have "goes_ok E v (TcpConnection_connectDestroyed v)" using p eq by (auto simp: goes_ok_def evolves_def)
  moreover have "state_of v \<noteq> kConnected" using assms(2) by simp
  ultimately have "\<exists>u. TcpConnection_connectDestroyed v = Inr u \<and> settles E v u"
    using peers.connectDestroyed_keeps balance.connectDestroyed_keeps by (intro goes_settles)
  with p eq same assms(2) show ?thesis by auto
qed

text \<open>The destructor that follows does not fail.\<close>

lemma closed_destructs:
  assumes "conn_inv E v" and "state_of v = kDisConnected"
  shows "\<exists>w. TcpConnection_destroy v = Inr w"
proof -
  obtain w where w: "rbind (TcpConnection_cancelIdle v) TcpConnection_cancelPending = Inr w" "conn_inv E w" "released E w"
    by (rule closed_cleared [OF assms])
  have "TcpConnection_destroy v = rbind (rbind (TcpConnection_cancelIdle v) TcpConnection_cancelPending) (on_channel Channel_destroy)"
    using assms(2) by (simp add: TcpConnection_destroy_def rbind_assoc)
  also have "\<dots> = TcpConnection_destroy w"
    using w(1,3) cancel_released [OF conn_inv_thread [OF w(2)] w(3)] by (simp add: TcpConnection_destroy_def released_def)
  finally show ?thesis using destroy_released [OF w(2,3)] by auto
qed

subsection \<open>The server's side of an operation\<close>

lemma set_state_same: "objs s a = Some c \<Longrightarrow> sc_state c = st \<Longrightarrow> set_state a st s = s"
  by (cases s; cases c) (auto simp: set_state_def fun_eq_iff)

lemma set_state_twice: "set_state a st (set_state a st' s) = set_state a st s"
  by (simp add: set_state_def option.map_comp comp_def)

lemma synced_steps:
  assumes "objs s a = Some c" and "sc_state c \<noteq> kConnecting" and "conn_rank (sc_state c) \<le> conn_rank st"
  shows "server_step\<^sup>*\<^sup>* s (synced a (sc_state c) st s)"
proof (cases "sc_state c = st")
  case True
  then show ?thesis using set_state_same [OF assms(1)] by (simp add: synced_def)
next
  case False
  show ?thesis
  proof (cases "st = kDisConnected")
    case True
    have "server_handleClose a s = Inr (synced a (sc_state c) st s)"
      using assms(1,2) False True
      by (cases "sc_state c") (simp_all add: server_handleClose_def the_conn_def TcpServer_removeConnection_def synced_def)
    with assms(1,2) show ?thesis by (blast intro: server_step.closes)
  next
    case disc: False
    with False assms(2,3) have "sc_state c = kConnected" "st = kDisConnecting" by (cases "sc_state c"; cases st; simp)+
    with server_step.shuts [OF assms(1)] show ?thesis by (simp add: synced_def)
  qed
qed

lemma served_inv_srv: "objs s = objs (srv h) \<Longrightarrow> served_inv (h\<lparr>srv := s\<rparr>) = served_inv h"
  by (simp add: served_inv_def served_conn_def view_def)

lemma served_inv_waiting:
  assumes "served_inv h" and "worlds h a = Some w" and "state_of w = kConnecting \<longrightarrow> ts = []"
  shows "served_inv (h\<lparr>waiting := (waiting h)(a := ts)\<rparr>)"
proof -
  have "objs (srv h) a \<noteq> None" using assms(1,2) unfolding served_inv_def by (metis option.distinct(1))
  with assms show ?thesis by (auto simp: served_inv_def served_conn_def view_def)
qed

lemma served_inv_settle:
  assumes inv: "served_inv h" and c: "objs (srv h) a = Some c" and w: "worlds h a = Some w"
    and op: "settles (rounds h (sc_loop c)) (view (sc_loop c) h w) w'"
  obtains h' where "settle a (sc_loop c) (view (sc_loop c) h w) w' h = Inr h'" and "served_inv h'"
    and "srv h' = synced a (sc_state c) (state_of w') (srv h)" and "worlds h' = (worlds h)(a \<mapsto> w')" and "waiting h' = waiting h"
    and "conn_rank (sc_state c) \<le> conn_rank (state_of w')" and "tqs h' = (tqs h)(sc_loop c := tq w')"
proof -
  have "close_balance (view (sc_loop c) h w) w'" "conn_rank (state_of w) \<le> conn_rank (state_of w')"
    using op by (simp_all add: settles_def close_balance_def)
  with settled_inv [OF inv c w op] settle_result served_connD(3) [OF inv c w] show ?thesis
    by (intro that [of "settled a (sc_loop c) (view (sc_loop c) h w) w' h"]) simp_all
qed

lemma on_served_ok:
  assumes inv: "served_inv h" and c: "objs (srv h) a = Some c" and w: "worlds h a = Some w"
    and f: "f (view (sc_loop c) h w) = Inr w'" and op: "settles (rounds h (sc_loop c)) (view (sc_loop c) h w) w'"
  obtains h' where "on_served a f h = Inr h'" and "served_inv h'" and "srv h' = synced a (sc_state c) (state_of w') (srv h)"
    and "conn_rank (sc_state c) \<le> conn_rank (state_of w')"
proof -
  have "on_served a f h = settle a (sc_loop c) (view (sc_loop c) h w) w' h"
    using c w f by (simp add: on_served_def the_conn_def Let_def)
  then show ?thesis using that by (metis served_inv_settle [OF inv c w op])
qed

subsection \<open>Every step keeps the invariant, and is a step of the server\<close>

text \<open>\<open>simulates h m\<close>: the step from \<open>h\<close> returns, keeps the invariant, and the server has made steps of its own.\<close>

definition simulates :: "served \<Rightarrow> served res \<Rightarrow> bool" where
  "simulates h m \<longleftrightarrow> (\<exists>h'. m = Inr h' \<and> served_inv h' \<and> server_step\<^sup>*\<^sup>* (srv h) (srv h'))"

lemma present:
  assumes "served_inv h" and "objs (srv h) a = Some c"
  obtains w where "worlds h a = Some w"
  using assms unfolding served_inv_def by (metis not_None_eq)

lemma run_task_conn:
  assumes "Server_inv s" and "tasks s l = t # ts" and "t \<in> {Establish a, ForceClose a, DestroyConn a}"
  obtains c where "objs s a = Some c" and "sc_loop c = l" and "t = Establish a \<Longrightarrow> sc_state c = kConnecting"
    and "t = DestroyConn a \<Longrightarrow> sc_state c = kDisConnected"
proof -
  have "task_ok l t s" by (rule task_conn [OF assms(1,2)])
  then obtain c where c: "objs s a = Some c" "sc_loop c = l" using assms(3) by auto
  have "pending l t s > 0" using assms(2) by (simp add: pending_pos)
  with life_of [OF assms(1) c(1)] c show ?thesis
    by (intro that [of c]) (auto simp: conn_life_def split: if_splits)
qed

lemma synced_established:
  assumes "st \<noteq> kConnecting"
  shows "synced a kConnected st ((set_state a kConnected s)\<lparr>established := es\<rparr>) = (synced a kConnecting st s)\<lparr>established := es\<rparr>"
  using assms by (simp add: synced_def post_def set_state_def option.map_comp comp_def)

lemma established_synced [simp]: "established (synced a st st' s) = established s" "destroyed (synced a st st' s) = destroyed s"
  by (simp_all add: synced_def)

lemma establish_simulates:
  assumes cbs: "serving_ok cbs" and inv: "served_inv h" and srv: "Server_inv (srv h)"
    and t: "tasks (srv h) l = Establish a # ts" and r: "fresh_timer r (tqs h l)"
  shows "simulates h (served_run cbs r (Establish a) (h\<lparr>srv := take_task l (srv h)\<rparr>))"
proof -
  let ?s = "take_task l (srv h)" and ?h = "h\<lparr>srv := take_task l (srv h)\<rparr>"
  obtain c where c: "objs (srv h) a = Some c" "sc_loop c = l" "sc_state c = kConnecting"
    using run_task_conn [OF srv t] by auto
  have inv': "served_inv ?h" using inv by (simp add: served_inv_srv)
  have c': "objs (srv ?h) a = Some c" using c(1) by simp
  obtain w where w: "worlds ?h a = Some w" by (rule present [OF inv' c'])
  have v: "conn_inv (rounds ?h (sc_loop c)) (view (sc_loop c) ?h w)" "state_of (view (sc_loop c) ?h w) = kConnecting"
    "fresh_timer r (tq (view (sc_loop c) ?h w))"
    using served_connD [OF inv' c' w] c r by (simp_all add: view_def)
  obtain w' where w': "TcpConnection_connectEstablelished (serving cbs) r (view (sc_loop c) ?h w) = Inr w'"
    "settles (rounds ?h (sc_loop c)) (view (sc_loop c) ?h w) w'" "state_of w' \<noteq> kConnecting"
    using establish_settles [OF cbs v] by blast
  obtain h' where h': "on_served a (TcpConnection_connectEstablelished (serving cbs) r) ?h = Inr h'" "served_inv h'"
    "srv h' = synced a kConnecting (state_of w') ?s"
    using on_served_ok [where f = "TcpConnection_connectEstablelished (serving cbs) r", OF inv' c' w w'(1,2)] c(3) by auto
  let ?t = "(set_state a kConnected ?s)\<lparr>established := established ?s @ [a]\<rparr>"
  have "server_run (Establish a) ?s = Inr ?t" using c by (simp add: the_conn_def)
  then have "server_step (srv h) ?t" by (rule server_step.run [OF t])
  moreover have "server_step\<^sup>*\<^sup>* ?t (synced a kConnected (state_of w') ?t)"
    using synced_steps [of ?t a "c\<lparr>sc_state := kConnected\<rparr>" "state_of w'"] c w'(3)
    by (cases "state_of w'") (simp_all add: objs_set_state)
  ultimately show ?thesis
    using h' w'(3) by (simp add: simulates_def synced_established served_inv_srv)
qed

text \<open>A function of the loop that keeps an established connection's state, or closes it, on the server's side.\<close>

lemma forced_simulates:
  assumes cbs: "serving_ok cbs" and inv: "served_inv h" and srv: "Server_inv (srv h)"
    and t: "tasks (srv h) l = ForceClose a # ts"
  shows "simulates h (served_run cbs r (ForceClose a) (h\<lparr>srv := take_task l (srv h)\<rparr>))"
proof -
  let ?s = "take_task l (srv h)" and ?h = "h\<lparr>srv := take_task l (srv h)\<rparr>"
  obtain c where c: "objs (srv h) a = Some c" "sc_loop c = l" using run_task_conn [OF srv t] by auto
  have inv': "served_inv ?h" using inv by (simp add: served_inv_srv)
  have c': "objs (srv ?h) a = Some c" using c(1) by simp
  obtain w where w: "worlds ?h a = Some w" by (rule present [OF inv' c'])
  have st: "state_of w = sc_state c" by (rule served_connD [OF inv' c' w])
  obtain w' where w': "TcpConnection_forceCloseInLoop (serving cbs) (view (sc_loop c) ?h w) = Inr w'"
    "settles (rounds ?h (sc_loop c)) (view (sc_loop c) ?h w) w'"
    "state_of w' = (if conn_open w then kDisConnected else state_of w)"
    using forceClose_settles [OF cbs served_connD(2) [OF inv' c' w]] by auto
  obtain h' where h': "on_served a (TcpConnection_forceCloseInLoop (serving cbs)) ?h = Inr h'" "served_inv h'"
    "srv h' = synced a (sc_state c) (state_of w') ?s"
    using on_served_ok [where f = "TcpConnection_forceCloseInLoop (serving cbs)", OF inv' c' w w'(1,2)] by auto
  have "server_run (ForceClose a) ?s = Inr (synced a (sc_state c) (state_of w') ?s)"
    using c w'(3) st set_state_same [of ?s a c]
    by (auto simp: the_conn_def server_handleClose_def TcpServer_removeConnection_def synced_def)
  from server_step.run [OF t this] h' show ?thesis by (simp add: simulates_def r_into_rtranclp)
qed

lemma destroyed_simulates:
  assumes inv: "served_inv h" and srv: "Server_inv (srv h)" and t: "tasks (srv h) l = DestroyConn a # ts"
  shows "simulates h (served_run cbs r (DestroyConn a) (h\<lparr>srv := take_task l (srv h)\<rparr>))"
proof -
  let ?s = "take_task l (srv h)" and ?h = "h\<lparr>srv := take_task l (srv h)\<rparr>"
  obtain c where c: "objs (srv h) a = Some c" "sc_state c = kDisConnected" using run_task_conn [OF srv t, of a] by auto
  have inv': "served_inv ?h" using inv by (simp add: served_inv_srv)
  have c': "objs (srv ?h) a = Some c" using c(1) by simp
  obtain w where w: "worlds ?h a = Some w" by (rule present [OF inv' c'])
  have st: "state_of (view (sc_loop c) ?h w) = kDisConnected" using served_connD(3) [OF inv' c' w] c(2) by simp
  obtain w' where w': "TcpConnection_connectDestroyed (view (sc_loop c) ?h w) = Inr w'"
    "settles (rounds ?h (sc_loop c)) (view (sc_loop c) ?h w) w'" "state_of w' = kDisConnected"
    using destroyed_settles [OF served_connD(2) [OF inv' c' w] st] by blast
  obtain h' where h': "on_served a TcpConnection_connectDestroyed ?h = Inr h'" "served_inv h'" "srv h' = ?s"
    using on_served_ok [where f = TcpConnection_connectDestroyed, OF inv' c' w w'(1,2)] w'(3) c
      set_state_same [of ?s a c] by (auto simp: synced_def)
  have "server_run (DestroyConn a) ?s = Inr (?s\<lparr>destroyed := destroyed ?s @ [a]\<rparr>)"
    using c by (simp add: the_conn_def)
  from server_step.run [OF t this] h' show ?thesis by (simp add: simulates_def r_into_rtranclp served_inv_srv)
qed

lemma removed_simulates:
  assumes inv: "served_inv h" and srv: "Server_inv (srv h)" and t: "tasks (srv h) l = RemoveInLoop a # ts"
  shows "simulates h (served_run cbs r (RemoveInLoop a) (h\<lparr>srv := take_task l (srv h)\<rparr>))"
proof -
  obtain s where s: "TcpServer_removeConnectionInLoop a (take_task l (srv h)) = Inr s"
    using run_ok [OF srv t] by auto
  then have "objs s = objs (srv h)"
    by (auto simp: TcpServer_removeConnectionInLoop_def the_conn_def Let_def split: if_splits option.splits)
  with inv have "served_inv (h\<lparr>srv := s\<rparr>)" by (simp add: served_inv_srv)
  moreover have "server_step (srv h) s" using server_step.run [OF t] s by simp
  ultimately show ?thesis using s by (simp add: simulates_def r_into_rtranclp)
qed

lemma run_simulates:
  assumes "serving_ok cbs" and "served_inv h" and "Server_inv (srv h)" and "tasks (srv h) l = t # ts" and "fresh_timer r (tqs h l)"
  shows "simulates h (served_run cbs r t (h\<lparr>srv := take_task l (srv h)\<rparr>))"
  using assms by (cases t) (blast intro: establish_simulates forced_simulates destroyed_simulates removed_simulates)+

text \<open>Acts of an established connection, calls from other threads, and the functions of these.\<close>

lemma settle_simulates:
  assumes inv: "served_inv h" and c: "objs (srv h) a = Some c" and w: "worlds h a = Some w" and st: "state_of w \<noteq> kConnecting"
    and op: "settles (rounds h (sc_loop c)) (view (sc_loop c) h w) w'"
  obtains h' where "settle a (sc_loop c) (view (sc_loop c) h w) w' h = Inr h'" and "served_inv h'"
    and "server_step\<^sup>*\<^sup>* (srv h) (srv h')" and "worlds h' a = Some w'" and "waiting h' = waiting h"
    and "state_of w' \<noteq> kConnecting" and "srv h' = synced a (sc_state c) (state_of w') (srv h)"
proof -
  obtain h' where h': "settle a (sc_loop c) (view (sc_loop c) h w) w' h = Inr h'" "served_inv h'"
    "srv h' = synced a (sc_state c) (state_of w') (srv h)" "worlds h' = (worlds h)(a \<mapsto> w')" "waiting h' = waiting h"
    "conn_rank (sc_state c) \<le> conn_rank (state_of w')" by (rule served_inv_settle [OF inv c w op])
  have "sc_state c \<noteq> kConnecting" using st served_connD(3) [OF inv c w] by simp
  with synced_steps [OF c _ h'(6)] h' show ?thesis
    by (intro that [of h']) (cases "sc_state c"; cases "state_of w'"; simp)+
qed

lemma acts_simulates:
  assumes "serving_ok cbs" and inv: "served_inv h" and c: "objs (srv h) a = Some c" and w: "worlds h a = Some w"
    and st: "state_of w \<noteq> kConnecting" and m: "conn_act (rounds h (sc_loop c)) (serving cbs) (view (sc_loop c) h w) m"
  shows "simulates h (rbind m (\<lambda>w'. settle a (sc_loop c) (view (sc_loop c) h w) w' h))"
proof -
  obtain w' where w': "m = Inr w'" "settles (rounds h (sc_loop c)) (view (sc_loop c) h w) w'"
    using act_settles [OF assms(1) served_connD(2) [OF inv c w] m] by blast
  obtain h' where "settle a (sc_loop c) (view (sc_loop c) h w) w' h = Inr h'" "served_inv h'" "server_step\<^sup>*\<^sup>* (srv h) (srv h')"
    by (rule settle_simulates [OF inv c w st w'(2)])
  with w'(1) show ?thesis by (simp add: simulates_def)
qed

text \<open>A call from another thread, with what the server notes of it.\<close>

lemma served_ask_ok:
  assumes "serving_ok cbs" and inv: "served_inv h" and c: "objs (srv h) a = Some c" and w: "worlds h a = Some w"
    and st: "state_of w \<noteq> kConnecting"
  obtains w' ts h' where "conn_ask (serving cbs) x q (view (sc_loop c) h w) = Inr (w', ts)"
    and "served_ask cbs x q a h = Inr (ts, h')" and "served_inv h'" and "server_step\<^sup>*\<^sup>* (srv h) (srv h')"
    and "worlds h' a = Some w'" and "waiting h' = waiting h" and "state_of w' \<noteq> kConnecting"
    and "srv h' = synced a (sc_state c) (state_of w') (srv h)"
proof -
  obtain w' ts where w': "conn_ask (serving cbs) x q (view (sc_loop c) h w) = Inr (w', ts)"
    "settles (rounds h (sc_loop c)) (view (sc_loop c) h w) w'"
    using ask_settles [OF assms(1) served_connD(2) [OF inv c w], of x q] by blast
  obtain h' where h': "settle a (sc_loop c) (view (sc_loop c) h w) w' h = Inr h'" "served_inv h'"
    "server_step\<^sup>*\<^sup>* (srv h) (srv h')" "worlds h' a = Some w'" "waiting h' = waiting h" "state_of w' \<noteq> kConnecting"
    "srv h' = synced a (sc_state c) (state_of w') (srv h)" by (rule settle_simulates [OF inv c w st w'(2)])
  then have "served_ask cbs x q a h = Inr (ts, h')" using c w w'(1) by (simp add: served_ask_def the_conn_def Let_def)
  with w'(1) h' show ?thesis by (intro that)
qed

lemma asked_simulates:
  assumes "serving_ok cbs" and "served_inv h" and "objs (srv h) a = Some c" and "worlds h a = Some w" and "state_of w \<noteq> kConnecting"
  shows "simulates h (rbind (served_ask cbs x q a h) (\<lambda>(ts, h). Inr (h\<lparr>waiting := (waiting h)(a := waiting h a @ ts)\<rparr>)))"
proof -
  obtain w' ts h' where h': "served_ask cbs x q a h = Inr (ts, h')" "served_inv h'" "server_step\<^sup>*\<^sup>* (srv h) (srv h')"
    "worlds h' a = Some w'" "state_of w' \<noteq> kConnecting"
    using served_ask_ok [OF assms, of x q] by metis
  then show ?thesis using served_inv_waiting [OF h'(2,4)] by (simp add: simulates_def)
qed

lemma posted_simulates:
  assumes cbs: "serving_ok cbs" and inv: "served_inv h" and c: "objs (srv h) a = Some c" and w: "worlds h a = Some w"
    and q: "waiting h a = t # ts" and may: "task_may (rounds h (sc_loop c)) (serving cbs) x t (view (sc_loop c) h w)"
  shows "simulates h (on_served a (run_conn_task (serving cbs) x t) (h\<lparr>waiting := (waiting h)(a := ts)\<rparr>))"
proof -
  let ?h = "h\<lparr>waiting := (waiting h)(a := ts)\<rparr>" and ?v = "view (sc_loop c) h w"
  have st: "state_of w \<noteq> kConnecting" using served_connD(1) [OF inv c w] q by (auto simp: served_conn_def)
  have inv': "served_inv ?h" using st by (intro served_inv_waiting [OF inv w]) simp
  have v: "view (sc_loop c) ?h w = ?v" by (simp add: view_def)
  obtain w' where w': "run_conn_task (serving cbs) x t ?v = Inr w'" "settles (rounds h (sc_loop c)) ?v w'"
    using task_settles [OF cbs served_connD(2) [OF inv c w] may] st by auto
  have "objs (srv ?h) a = Some c" "worlds ?h a = Some w" "settles (rounds ?h (sc_loop c)) (view (sc_loop c) ?h w) w'"
    using c w w'(2) by (simp_all add: v)
  from settle_simulates [OF inv' this(1,2) st this(3)] obtain h' where
    "settle a (sc_loop c) (view (sc_loop c) ?h w) w' ?h = Inr h'" "served_inv h'" "server_step\<^sup>*\<^sup>* (srv ?h) (srv h')" by metis
  then show ?thesis using c w w'(1) v by (simp add: simulates_def on_served_def the_conn_def Let_def)
qed

text \<open>Start and stop.\<close>

lemma started_simulates:
  assumes "served_inv h" and "base (srv h) \<notin> range (\<lambda>i. spawn i (threadName @ to_string i))"
  shows "simulates h (Inr (h\<lparr>srv := TcpServer_start spawn (srv h)\<rparr>))"
proof -
  have "objs (TcpServer_start spawn (srv h)) = objs (srv h)" by (simp add: TcpServer_start_def)
  with assms(1) server_step.start [where spawn = spawn, OF assms(2)] show ?thesis by (simp add: simulates_def served_inv_srv r_into_rtranclp)
qed

lemma forceClose_mirrors:
  assumes cbs: "serving_ok cbs" and inv: "served_inv h" and c: "objs (srv h) a \<noteq> None"
  shows "\<exists>h'. served_forceClose cbs x a h = Inr h' \<and> served_inv h' \<and> server_forceClose a (srv h) = Inr (srv h')"
proof -
  obtain c where c: "objs (srv h) a = Some c" using c by auto
  obtain w where w: "worlds h a = Some w" by (rule present [OF inv c])
  let ?v = "view (sc_loop c) h w"
  have st: "state_of w = sc_state c" and ok: "conn_inv (rounds h (sc_loop c)) ?v" by (rule served_connD [OF inv c w])+
  obtain w' ts where w': "conn_ask (serving cbs) x AskForceClose ?v = Inr (w', ts)"
    "settles (rounds h (sc_loop c)) ?v w'" using ask_settles [OF cbs ok, of x AskForceClose] by blast
  have out: "state_of w' = (if conn_open w then kDisConnecting else state_of w) \<and> length ts = (if conn_open w then 1 else 0)"
    using w'(1) by (auto simp: conn_ask_def TcpConnection_forceClose_def run_or_post_def setState_def on_conn_def split: if_splits)
  obtain h' where h': "settle a (sc_loop c) ?v w' h = Inr h'" "served_inv h'" "srv h' = synced a (sc_state c) (state_of w') (srv h)"
    by (rule served_inv_settle [OF inv c w w'(2)])
  have srv: "srv h' = (if conn_open w then set_state a kDisConnecting (srv h) else srv h)"
    using h'(3) out st set_state_same [OF c] by (auto simp: synced_def)
  have "served_forceClose cbs x a h = Inr (h'\<lparr>srv := fold (\<lambda>_. post (sc_loop c) (ForceClose a)) ts (srv h')\<rparr>)"
    using c w w'(1) h'(1) by (simp add: served_forceClose_def served_ask_def the_conn_def Let_def)
  moreover have "objs (fold (\<lambda>_. post (sc_loop c) (ForceClose a)) ts s) = objs s" for s
    by (induction ts arbitrary: s) simp_all
  then have "served_inv (h'\<lparr>srv := fold (\<lambda>_. post (sc_loop c) (ForceClose a)) ts (srv h')\<rparr>)"
    using h'(2) by (simp add: served_inv_srv)
  moreover have "server_forceClose a (srv h) = Inr (fold (\<lambda>_. post (sc_loop c) (ForceClose a)) ts (srv h'))"
    using c st out srv by (auto simp: server_forceClose_def the_conn_def length_Suc_conv)
  ultimately show ?thesis by simp
qed

lemma forceClose_objs: "server_forceClose a s = Inr s' \<Longrightarrow> objs s' b = None \<longleftrightarrow> objs s b = None"
  by (auto simp: server_forceClose_def the_conn_def split: option.splits if_splits)

lemma forceClose_all_mirrors:
  assumes "serving_ok cbs" and "served_inv h" and "\<forall>kv \<in> set xs. objs (srv h) (snd kv) \<noteq> None"
  shows "\<exists>h'. rfold (\<lambda>kv. served_forceClose cbs x (snd kv)) xs h = Inr h' \<and> served_inv h' \<and>
    rfold (\<lambda>kv. server_forceClose (snd kv)) xs (srv h) = Inr (srv h')"
  using assms(2,3)
proof (induction xs arbitrary: h)
  case (Cons kv xs)
  obtain h1 where h1: "served_forceClose cbs x (snd kv) h = Inr h1" "served_inv h1"
    "server_forceClose (snd kv) (srv h) = Inr (srv h1)"
    using forceClose_mirrors [OF assms(1) Cons.prems(1), of "snd kv" x] Cons.prems(2) by auto
  have "\<forall>kv \<in> set xs. objs (srv h1) (snd kv) \<noteq> None" using forceClose_objs [OF h1(3)] Cons.prems(2) by simp
  with Cons.IH [OF h1(2)] h1 show ?case by simp
qed simp

lemma stopped_simulates:
  assumes "serving_ok cbs" and "served_inv h" and srv: "Server_inv (srv h)"
  shows "simulates h (served_stop cbs x h)"
proof (cases "srv_started (srv h)")
  case True
  let ?h = "h\<lparr>srv := (srv h)\<lparr>srv_started := False\<rparr>\<rparr>"
  have "\<forall>kv \<in> set (connections (srv h)). objs (srv h) (snd kv) \<noteq> None"
    using srv unfolding Server_inv_def table_ok_def by (metis option.map_disc_iff option.simps(3) prod.collapse)
  with forceClose_all_mirrors [of cbs ?h "connections (srv h)" x] assms obtain h' where
    h': "rfold (\<lambda>kv. served_forceClose cbs x (snd kv)) (connections (srv h)) ?h = Inr h'" "served_inv h'"
    "rfold (\<lambda>kv. server_forceClose (snd kv)) (connections (srv h)) (srv ?h) = Inr (srv h')"
    by (auto simp: served_inv_srv)
  then have "TcpServer_stop (srv h) = Inr (srv h')" using True by (simp add: TcpServer_stop_def)
  with h' True server_step.stop show ?thesis by (auto simp: simulates_def served_stop_def)
qed (use assms in \<open>simp add: simulates_def served_stop_def\<close>)

text \<open>The rest of a loop.\<close>

lemma served_conn_frame:
  assumes "served_conn h b d u" and "sc_loop d \<noteq> l"
  shows "served_conn (h\<lparr>polls := (polls h)(l := p), tqs := (tqs h)(l := q), rounds := (rounds h)(l := E)\<rparr>) b d u"
  using assms by (simp add: served_conn_def view_def)

lemma loop_simulates:
  assumes inv: "served_inv h" and p: "Poller_inv p" "TimerQueue_inv E q"
    and env: "\<And>a c w. objs (srv h) a = Some c \<Longrightarrow> sc_loop c = l \<Longrightarrow> worlds h a = Some w \<Longrightarrow>
      loop_change (rounds h l) E (view l h w) p q"
  shows "simulates h (Inr (h\<lparr>polls := (polls h)(l := p), tqs := (tqs h)(l := q), rounds := (rounds h)(l := E)\<rparr>))"
proof -
  let ?h = "h\<lparr>polls := (polls h)(l := p), tqs := (tqs h)(l := q), rounds := (rounds h)(l := E)\<rparr>"
  have "served_conn ?h b d u" if b: "objs (srv h) b = Some d" "worlds h b = Some u" for b d u
  proof (cases "sc_loop d = l")
    case True
    then have "conn_inv (rounds h l) (view l h u)" using served_connD(2) [OF inv b] by simp
    from loop_change_ok [OF this env [OF b(1) True b(2)]] True served_connD(1) [OF inv b] show ?thesis
      by (simp add: served_conn_def view_def)
  qed (use served_conn_frame served_connD(1) [OF inv b] in blast)
  then have "served_inv ?h" using inv p by (simp add: served_inv_def)
  then show ?thesis by (simp add: simulates_def)
qed

text \<open>A new connection.\<close>

lemma newConnection_objs:
  assumes "TcpServer_newConnection a s = Inr s'"
  obtains l where "objs s' = (objs s)(a \<mapsto> \<lparr>sc_name = conn_name (nextConnId s), sc_loop = l, sc_state = kConnecting\<rparr>)"
proof -
  from assms obtain l p where "EventLoopThreadPool_getNextLoop (srv_pool s) = Inr (l, p)" unfolding TcpServer_newConnection_def
    by (auto simp: rbind_eq_Inr)
  with assms show ?thesis by (intro that [of l]) (auto simp: TcpServer_newConnection_def conn_name_def Let_def)
qed

lemma accepted_inv:
  assumes inv: "served_inv h" and a: "objs (srv h) a = None" and c: "sc_state c = kConnecting"
    and ids: "\<And>b w. worlds h b = Some w \<Longrightarrow> tc_channel (conn w) \<noteq> ch \<and> tc_fd (conn w) \<noteq> fd"
    and free: "\<And>l. channels (polls h l) ch = None \<and> ChannelMap (polls h l) fd = None"
    and timers: "\<And>l j k. timers_live (rounds h l) (tqs h l) j \<noteq> Some (Closure a k)"
    and w: "w = new_world a ch fd (polls h (sc_loop c)) (tqs h (sc_loop c))"
    and s': "objs s' = (objs (srv h))(a \<mapsto> c)"
  shows "served_inv (h\<lparr>srv := s', worlds := (worlds h)(a \<mapsto> w), polls := (polls h)(sc_loop c := poll_of w)\<rparr>)" (is "served_inv ?h")
proof -
  let ?l = "sc_loop c"
  have loop: "Poller_inv (polls h k)" "TimerQueue_inv (rounds h k) (tqs h k)" for k using inv by (simp_all add: served_inv_def)
  have new: "conn_inv (rounds h ?l) w" unfolding w using loop free timers by (intro new_world_inv) auto
  have wf: "poll_of w = create_channel ch fd (polls h ?l)" "tq w = tqs h ?l" "state_of w = kConnecting" "tc_id (conn w) = a"
    "tc_channel (conn w) = ch" "tc_fd (conn w) = fd" "closings w = 0"
    by (simp_all add: w new_world_def TcpConnection_new_def closings_def)
  have none: "worlds h a = None" "waiting h a = []" using inv a by (simp_all add: served_inv_def)
  then have mine: "served_conn ?h a c w" using new wf c view_same [of w ?h ?l] by (simp add: served_conn_def)
  have other: "served_conn ?h b d u" if b: "objs (srv h) b = Some d" "worlds h b = Some u" for b d u
  proof (cases "sc_loop d = ?l")
    case True
    then have u: "conn_inv (rounds h ?l) (view ?l h u)" using served_connD(2) [OF inv b] by simp
    have "loop_change (rounds h ?l) (rounds h ?l) (view ?l h u) (create_channel ch fd (polls h ?l)) (tqs h ?l)"
      using create_loop_change [OF u, of ch fd] free ids [OF b(2)] by simp
    from loop_change_ok [OF u this] True wf(1) served_connD(1) [OF inv b] show ?thesis
      by (simp add: served_conn_def view_def)
  qed (use served_connD(1) [OF inv b] in \<open>simp add: served_conn_def view_def\<close>)
  show ?thesis
    unfolding served_inv_def
  proof (intro conjI)
    show "\<forall>l. Poller_inv (polls ?h l) \<and> TimerQueue_inv (rounds ?h l) (tqs ?h l)"
      using loop new by (simp add: conn_inv_def conn_ok_def)
    show "\<forall>b. (worlds ?h b = None \<longleftrightarrow> objs (srv ?h) b = None) \<and> (worlds ?h b = None \<longrightarrow> waiting ?h b = [])"
      using inv by (simp add: s' served_inv_def)
    show "\<forall>b d u. objs (srv ?h) b = Some d \<longrightarrow> worlds ?h b = Some u \<longrightarrow> served_conn ?h b d u"
      using mine other by (simp add: s')
    show "\<forall>b d u v. worlds ?h b = Some u \<longrightarrow> worlds ?h d = Some v \<longrightarrow> b \<noteq> d \<longrightarrow>
        tc_channel (conn u) \<noteq> tc_channel (conn v) \<and> tc_fd (conn u) \<noteq> tc_fd (conn v)"
      using inv ids by (auto simp: wf served_inv_def)
  qed
qed

lemma accepted_simulates:
  assumes inv: "served_inv h" and srv: "Server_inv (srv h)" and st: "srv_started (srv h)" and a: "objs (srv h) a = None"
    and ids: "\<And>b w. worlds h b = Some w \<Longrightarrow> tc_channel (conn w) \<noteq> ch \<and> tc_fd (conn w) \<noteq> fd"
    and free: "\<And>l. channels (polls h l) ch = None \<and> ChannelMap (polls h l) fd = None"
    and timers: "\<And>l j k. timers_live (rounds h l) (tqs h l) j \<noteq> Some (Closure a k)"
  shows "simulates h (served_newConnection a ch fd h)"
proof -
  obtain s' where s': "TcpServer_newConnection a (srv h) = Inr s'" using accept_ok [OF srv st a] by blast
  obtain l where l: "objs s' = (objs (srv h))(a \<mapsto> \<lparr>sc_name = conn_name (nextConnId (srv h)), sc_loop = l, sc_state = kConnecting\<rparr>)"
    by (rule newConnection_objs [OF s'])
  define w where "w = new_world a ch fd (polls h l) (tqs h l)"
  let ?h = "h\<lparr>srv := s', worlds := (worlds h)(a \<mapsto> w), polls := (polls h)(l := poll_of w)\<rparr>"
  have "served_newConnection a ch fd h = Inr ?h"
    using s' l by (simp add: served_newConnection_def the_conn_def w_def Let_def)
  moreover have "served_inv ?h" using accepted_inv [OF inv a _ ids free timers _ l] by (simp add: w_def)
  moreover have "server_step (srv h) s'" by (rule server_step.accept [OF st a s'])
  ultimately show ?thesis by (simp add: simulates_def r_into_rtranclp)
qed

lemma served_step_simulates:
  assumes "serving_ok cbs" and "served_inv h" and "Server_inv (srv h)" and "served_step cbs h m"
  shows "simulates h m"
  using assms(4)
proof cases
  case (Accepted a ch fd)
  with assms(2,3) show ?thesis using accepted_simulates by blast
next
  case (Runs l t ts r)
  with assms run_simulates show ?thesis by blast
next
  case (ConnActs a c w m)
  with assms acts_simulates show ?thesis by blast
next
  case (Asked a c w x q)
  with assms asked_simulates show ?thesis by blast
next
  case (Posted a c w t ts x)
  with assms posted_simulates show ?thesis by blast
next
  case (Started spawn)
  with assms(2) started_simulates show ?thesis by blast
next
  case (Stopped x)
  with assms stopped_simulates show ?thesis by blast
next
  case (LoopGoesOn p E q l)
  then show ?thesis using loop_simulates [OF assms(2)] by simp
qed

lemma served_new_inv: "served_inv (served_new b hw)"
  by (simp add: served_inv_def served_new_def TcpServer_new_def Epoller_new_inv TimerQueue_new_inv)

lemma served_reach_inv:
  "served_reach cbs h h' \<Longrightarrow> serving_ok cbs \<Longrightarrow> served_inv h \<Longrightarrow> Server_inv (srv h) \<Longrightarrow>
    served_inv h' \<and> Server_inv (srv h') \<and> server_step\<^sup>*\<^sup>* (srv h) (srv h')"
proof (induction rule: served_reach.induct)
  case (ServedStep h h' h'')
  then have h': "served_inv h'" "Server_inv (srv h')" "server_step\<^sup>*\<^sup>* (srv h) (srv h')" by simp_all
  from served_step_simulates [OF ServedStep.prems(1) h'(1,2) ServedStep.hyps(2)]
  have h'': "served_inv h''" "server_step\<^sup>*\<^sup>* (srv h') (srv h'')" by (simp_all add: simulates_def)
  from h''(2) h'(2) have "Server_inv (srv h'')" by (induction rule: rtranclp_induct) (auto dest: server_step_inv)
  with h' h'' show ?case by (meson rtranclp_trans)
qed simp

section \<open>Properties\<close>


text \<open>A server that sends every message back, on a kernel that takes no bytes at once; it has accepted a connection.\<close>

definition served_echo :: conn_callbacks where
  "served_echo = no_callbacks\<lparr>messageCallback := Some (\<lambda>t w. TcpConnection_send (serving no_callbacks) (Inl EAGAIN)
     (Buffer_content (readBuffer (conn w))) w)\<rparr>"

lemma serving_no_callbacks: "serving no_callbacks = quiet_callbacks"
  by (simp add: serving_def quiet_callbacks_def)

lemmas serving_quiet = quiet_callbacks_ok [folded serving_no_callbacks]

lemma served_echo_ok: "serving_ok served_echo"
proof -
  have "callbacks_ok E (serving served_echo)" for E
    using send_ok [OF serving_quiet(1), of E _ "Inl EAGAIN"]
    by (auto simp: callbacks_ok_def cb_ok_def serving_def served_echo_def no_callbacks_def goes_ok_def)
  moreover have "peers.keeping_callbacks E (serving served_echo)" for E
    using peers.send_keeps [OF serving_quiet(2)]
    by (auto simp: serving_def served_echo_def no_callbacks_def peers.keeping_callbacks_def peers.keeping_def)
  moreover have "balance.keeping_callbacks (serving served_echo)"
    using balance.send_keeps [OF serving_quiet(3)]
    by (auto simp: serving_def served_echo_def no_callbacks_def balance.keeping_callbacks_def balance.keeping_def)
  ultimately show ?thesis by (simp add: serving_ok_def)
qed

definition demo_served :: served where
  "demo_served = projr (served_newConnection 7 16 9 ((served_new 100 2)\<lparr>srv := demo_started\<rparr>))"

lemma demo_served_reach: "served_reach served_echo (served_new 100 2) demo_served" "srv demo_served = demo_accepted"
  "tqs demo_served 1 = TimerQueue_new"
proof -
  let ?h = "(served_new 100 2)\<lparr>srv := demo_started\<rparr>"
  have "served_step served_echo (served_new 100 2) (Inr ?h)"
  proof -
    have "base (srv (served_new 100 2)) \<notin> range (\<lambda>i. if i = 0 then 1 else 2)"
      by (auto simp: served_new_def TcpServer_new_def)
    from Started [where spawn = "\<lambda>i name. if i = 0 then 1 else 2", OF this] show ?thesis
      by (simp add: demo_started_def served_new_def)
  qed
  then have start: "served_reach served_echo (served_new 100 2) ?h" by (rule ServedStep [OF ServedStart])
  have run: "served_newConnection 7 16 9 ?h = Inr demo_served"
    by (simp add: demo_served_def served_newConnection_def demo_accepted_step demo_accepted_fields the_conn_def Let_def)
  have "served_step served_echo ?h (served_newConnection 7 16 9 ?h)"
    by (rule Accepted)
      (simp_all add: demo_loops served_new_def Epoller_new_def timers_live_def TimerQueue_new_def)
  then show "served_reach served_echo (served_new 100 2) demo_served" using start run by (metis ServedStep)
  show "srv demo_served = demo_accepted" "tqs demo_served 1 = TimerQueue_new"
    by (simp_all add: demo_served_def served_newConnection_def demo_accepted_step demo_accepted_fields the_conn_def Let_def
        served_new_def)
qed


end
