(* ===== verification/ConnectionEvents.thy ===== *)
theory ConnectionEvents
  imports TcpConnection_Guarantee
begin

text \<open>
  The events of a connection, from \<open>revents_\<close> to its handlers: the constructor (\<open>net/TcpConnection.cc\<close>) sets the callbacks of
  the channel, and \<open>Channel::handleEvent\<close> (\<open>net/Channel.cc\<close>) calls them one after the other, without asking whether the
  first has closed the connection. So a handler may run on a connection that is closed: it arms an idle timer again, it may
  put the channel back into the poller, and it may call the message callback. Such a connection does not satisfy
  \<open>conn_inv\<close> any more; \<open>conn_dead\<close> is what it still satisfies, and it is enough for the connection to be taken down.
\<close>

section \<open>Dispatch\<close>

text \<open>What the handlers of one dispatch get from the kernel, the clock and the allocator.\<close>

record event_answers =
  ev_read :: "errno + char list"
  ev_time :: timestamp
  ev_read_timer :: timer_request
  ev_write :: "errno + nat"
  ev_file :: "errno + nat"
  ev_rest :: "errno + nat"
  ev_write_timer :: timer_request

definition conn_revents :: "world \<Rightarrow> 32 word option" where
  "conn_revents w = map_option ch_revents (my_channel w)"

text \<open>The callbacks of the channel, as the constructor sets them.\<close>

definition conn_calls :: "conn_callbacks \<Rightarrow> event_answers \<Rightarrow> ev_call \<Rightarrow> (world \<Rightarrow> world res) option" where
  "conn_calls cbs x k =
    (case k of
       ErrorCall \<Rightarrow> Some (TcpConnection_handleError cbs)
     | ReadCall \<Rightarrow> Some (TcpConnection_handleRead cbs (ev_read x) (ev_time x) (ev_read_timer x))
     | WriteCall \<Rightarrow> Some (TcpConnection_handleWrite cbs (ev_write x) (ev_file x) (ev_rest x) (ev_write_timer x)))"

text \<open>The poller has stored \<open>r\<close> in the channel.\<close>

definition polled :: "32 word \<Rightarrow> world \<Rightarrow> world" where
  "polled r w =
    (case my_channel w of
       None \<Rightarrow> w
     | Some c \<Rightarrow> w\<lparr>poll_of := set_channel (tc_channel (conn w)) (c\<lparr>ch_revents := r\<rparr>) (poll_of w)\<rparr>)"

definition conn_handleEvent :: "conn_callbacks \<Rightarrow> event_answers \<Rightarrow> world \<Rightarrow> world res" where
  "conn_handleEvent cbs x = Channel_handleEvent conn_revents (conn_calls cbs x)"

definition conn_dispatch :: "conn_callbacks \<Rightarrow> 32 word \<Rightarrow> event_answers \<Rightarrow> world \<Rightarrow> world res" where
  "conn_dispatch cbs r x w = conn_handleEvent cbs x (polled r w)"

text \<open>What is asked of the answers, along the run: new timers get unused addresses, and the kernel takes no more than it is given.\<close>

fun call_may :: "event_answers \<Rightarrow> ev_call \<Rightarrow> world \<Rightarrow> bool" where
  "call_may x ErrorCall w = True"
| "call_may x ReadCall w = fresh_timer (ev_read_timer x) (tq w)"
| "call_may x WriteCall w = (fresh_timer (ev_write_timer x) (tq w) \<and> took (ev_write x) (length (unsent w)))"

fun calls_may :: "conn_callbacks \<Rightarrow> event_answers \<Rightarrow> ev_call list \<Rightarrow> world \<Rightarrow> bool" where
  "calls_may cbs x [] w = True"
| "calls_may cbs x (k # ks) w =
    (call_may x k w \<and> (case run_call (conn_calls cbs x) k w of Inl e \<Rightarrow> True | Inr w' \<Rightarrow> calls_may cbs x ks w'))"

section \<open>The handlers leave \<open>revents_\<close> alone\<close>

lemma removeChannel_revents:
  "Epoller_removeChannel t a p = Inr p' \<Longrightarrow> map_option ch_revents (channels p' b) = map_option ch_revents (channels p b)"
  by (auto simp: Epoller_removeChannel_def the_channel_def set_channel_def epoll_del_def Let_def
      split: option.splits if_splits)

lemma updateChannel_revents:
  "Epoller_updateChannel t a p = Inr p' \<Longrightarrow> map_option ch_revents (channels p' b) = map_option ch_revents (channels p b)"
  by (auto simp: Epoller_updateChannel_def the_channel_def set_channel_def epoll_add_def epoll_mod_def rbind_eq_Inr
      Let_def split: option.splits if_splits dest: removeChannel_revents [of _ _ _ _ b])

lemma set_events_revents:
  assumes "Channel_set_events f t a p = Inr p'"
  shows "map_option ch_revents (channels p' b) = map_option ch_revents (channels p b)"
proof -
  from assms obtain c q where c: "channels p a = Some c"
    and q: "Epoller_updateChannel t a (set_channel a (c\<lparr>ch_events := f (ch_events c)\<rparr>) p) = Inr q"
    and p': "\<exists>d. channels q a = Some d \<and> p' = set_channel a (d\<lparr>ch_added := True\<rparr>) q"
    by (auto simp: Channel_set_events_def Channel_update_def the_channel_def rbind_eq_Inr split: option.splits if_splits)
  from updateChannel_revents [OF q, of b] c p' show ?thesis by (auto simp: set_channel_def split: if_splits)
qed

lemma remove_revents:
  assumes "Channel_remove t a p = Inr p'"
  shows "map_option ch_revents (channels p' b) = map_option ch_revents (channels p b)"
  using assms
  by (auto simp: Channel_remove_def the_channel_def set_channel_def Let_def split: option.splits if_splits
      dest!: removeChannel_revents [of _ _ _ _ b])

lemma own_channel_revents: "f \<in> own_channel_ops \<Longrightarrow> on_channel f w = Inr w' \<Longrightarrow> conn_revents w' = conn_revents w"
  by (auto simp: own_channel_ops_def on_channel_def rbind_eq_Inr Channel_enableReading_def Channel_enableWriting_def
      Channel_disableWriting_def conn_revents_def set_events_revents remove_revents)

text \<open>\<open>revents_kept\<close> is a relation of the kind of \<open>peer_change\<close> and \<open>close_balance\<close>.\<close>

definition revents_kept :: "world \<Rightarrow> world \<Rightarrow> bool" where
  "revents_kept w w' \<longleftrightarrow> conn_revents w' = conn_revents w"

interpretation revents: conn_guarantee revents_kept
proof (unfold_locales, goal_cases)
  case (8 f w w')
  then show ?case by (simp add: revents_kept_def own_channel_revents)
next
  case (9 i w w')
  then show ?case using conn_cancel_same [of i w w'] by (simp add: revents_kept_def conn_revents_def)
next
  case (10 w fn r i w')
  then show ?case using conn_runAfter_same [of r fn w i w'] by (simp add: revents_kept_def conn_revents_def)
qed (simp_all add: revents_kept_def conn_revents_def setState_def on_conn_def emit_def)

lemma conn_calls_keep_revents:
  assumes "revents.keeping_callbacks cbs" and "conn_calls cbs x k = Some f" and "conn_revents w = Some r" and "f w = Inr w'"
  shows "conn_revents w' = Some r"
proof -
  have "revents.keeps w (f w)"
    using assms(1,2) by (cases k) (auto simp: conn_calls_def revents.operations_keep)
  with assms(3,4) show ?thesis by (simp add: revents.keeps_def revents_kept_def)
qed

text \<open>\<open>handleEvent\<close> is the run of the handlers that the events call for.\<close>

lemma handleEvent_run:
  assumes "revents.keeping_callbacks cbs" and "conn_revents w = Some r"
  shows "conn_handleEvent cbs x w = rfold (run_call (conn_calls cbs x)) (event_calls r) w"
  unfolding conn_handleEvent_def using assms(2) by (rule handleEvent_calls) (rule conn_calls_keep_revents [OF assms(1)])

lemma dispatch_calls:
  assumes "revents.keeping_callbacks cbs" and "my_channel w = Some c"
  shows "conn_dispatch cbs r x w = rfold (run_call (conn_calls cbs x)) (event_calls r) (polled r w)"
proof -
  have "conn_revents (polled r w) = Some r" using assms(2) by (simp add: conn_revents_def polled_def set_channel_def)
  with assms(1) show ?thesis unfolding conn_dispatch_def by (rule handleEvent_run)
qed

section \<open>Handlers on a closed connection\<close>

text \<open>What a connection keeps once it is closed, whatever its handlers still do to its registration and to its timers.\<close>

definition conn_dead :: "addr set \<Rightarrow> world \<Rightarrow> bool" where
  "conn_dead E w \<longleftrightarrow>
    state_of w = kDisConnected \<and> conn_ok E w \<and> conn_stream w \<and> conn_owns E w \<and> \<not> sendingFile (conn w) \<and>
    fileFd (conn w) < 0"

definition dead_goes :: "addr set \<Rightarrow> world \<Rightarrow> world res \<Rightarrow> bool" where
  "dead_goes E w m \<longleftrightarrow> (\<exists>w'. m = Inr w' \<and> conn_dead E w' \<and> evolves w w')"

text \<open>Callbacks that a closed connection may still call.\<close>

definition callbacks_dead :: "addr set \<Rightarrow> conn_callbacks \<Rightarrow> bool" where
  "callbacks_dead E cbs \<longleftrightarrow>
    (\<forall>f t w. messageCallback cbs = Some f \<longrightarrow> conn_dead E w \<longrightarrow> dead_goes E w (f t w)) \<and>
    (\<forall>f w. writeCompleteCallback cbs = Some f \<longrightarrow> conn_dead E w \<longrightarrow> dead_goes E w (f w))"

lemma closed_dead: "conn_inv E w \<Longrightarrow> state_of w = kDisConnected \<Longrightarrow> conn_dead E w"
  by (auto simp: conn_inv_def conn_flags_def conn_dead_def)

lemma conn_deadD:
  assumes "conn_dead E w"
  shows "state_of w = kDisConnected" and "conn_ok E w" and "in_thread w" and "TimerQueue_inv E (tq w)" and "conn_owns E w"
    and "Buffer_inv (readBuffer (conn w))" and "Buffer_inv (writeBuffer (conn w))" and "\<not> sendingFile (conn w)"
  using assms by (simp_all add: conn_dead_def conn_ok_def)

lemma dead_same: "conn_dead E w \<Longrightarrow> dead_goes E w (Inr w)"
  by (simp add: dead_goes_def)

lemma dead_goes_from: "evolves w v \<Longrightarrow> dead_goes E v m \<Longrightarrow> dead_goes E w m"
  unfolding dead_goes_def using evolves_trans by blast

lemma dead_goes_bind:
  assumes "dead_goes E w m" and "\<And>w'. conn_dead E w' \<Longrightarrow> dead_goes E w' (g w')"
  shows "dead_goes E w (rbind m g)"
  using assms unfolding dead_goes_def by (metis evolves_trans rbind_simps(2))

lemma emit_dead: "\<forall>cs. ev \<noteq> SysWrite cs \<Longrightarrow> conn_dead E (emit ev w) = conn_dead E w"
  by (simp add: conn_dead_def emit_stream)

lemma dead_close: "conn_dead E w \<Longrightarrow> TcpConnection_handleClose cbs w = Inr w"
  by (simp add: TcpConnection_handleClose_def conn_deadD)

lemma dead_error: "conn_dead E w \<Longrightarrow> TcpConnection_handleError cbs w = Inr w"
  by (simp add: TcpConnection_handleError_def dead_close)

lemma dead_resetIdle:
  assumes "conn_dead E w" and "fresh_timer r (tq w)"
  shows "dead_goes E w (TcpConnection_resetIdleTimer r w)"
proof -
  note D = conn_deadD [OF assms(1)]
  from D(3,4,5) assms(2) obtain q j where
    "TcpConnection_resetIdleTimer r w = Inr (w\<lparr>tq := q, conn := (conn w)\<lparr>idleTimerId := j\<rparr>\<rparr>)"
    "TimerQueue_inv E q" "conn_owns E (w\<lparr>tq := q, conn := (conn w)\<lparr>idleTimerId := j\<rparr>\<rparr>)" by (rule resetIdle_result)
  with assms(1) show ?thesis by (simp add: dead_goes_def evolves_def conn_dead_def conn_ok_def conn_stream_def)
qed

text \<open>A callback that keeps closed connections as they are, run after the call has been recorded.\<close>

lemma dead_invoke:
  assumes "conn_dead E w" and "\<forall>cs. ev \<noteq> SysWrite cs" and "\<And>f v. cb = Some f \<Longrightarrow> conn_dead E v \<Longrightarrow> dead_goes E v (f v)"
  shows "dead_goes E w (invoke cb ev w)"
proof (cases cb)
  case (Some f)
  have "dead_goes E (emit ev w) (f (emit ev w))" using assms(1,2) by (intro assms(3) [OF Some]) (simp add: emit_dead)
  with Some show ?thesis by (simp add: invoke_def dead_goes_from [of w "emit ev w"])
qed (simp add: invoke_def dead_same assms(1))

lemma dead_buffer:
  assumes "conn_dead E w" and "Buffer_inv b"
  shows "conn_dead E (on_conn (\<lambda>c. c\<lparr>readBuffer := b\<rparr>) w)"
proof -
  have "conn_owns E (on_conn (\<lambda>c. c\<lparr>readBuffer := b\<rparr>) w) = conn_owns E w" by (rule conn_owns_cong) simp_all
  with assms show ?thesis by (simp add: conn_dead_def conn_ok_def conn_stream_def)
qed

lemma dead_read:
  assumes dead: "conn_dead E w" and cbs: "callbacks_dead E cbs" and fresh: "fresh_timer r (tq w)"
  shows "dead_goes E w (TcpConnection_handleRead cbs sys t r w)"
proof -
  note D = conn_deadD [OF dead]
  obtain n b where b: "Buffer_readFd sys (readBuffer (conn w)) = Inr (n, b)" "Buffer_inv b"
    by (rule readFd_any [OF D(6)])
  let ?w = "on_conn (\<lambda>c. c\<lparr>readBuffer := b\<rparr>) w"
  have w: "conn_dead E ?w" using dead b(2) by (rule dead_buffer)
  have "dead_goes E ?w (rbind (TcpConnection_resetIdleTimer r ?w)
      (invoke (map_option (\<lambda>f. f t) (messageCallback cbs)) CallMessage))"
    using cbs fresh by (intro dead_goes_bind dead_resetIdle w dead_invoke) (auto simp: callbacks_dead_def)
  then have "dead_goes E ?w (TcpConnection_handleRead cbs sys t r w)"
    using b(1) D(3) w dead_close [OF w] dead_error [OF w]
    by (auto simp: TcpConnection_handleRead_def Let_def dead_same split: sum.split)
  then show ?thesis by (rule dead_goes_from [rotated]) (simp add: evolves_def)
qed

text \<open>\<open>handleWrite\<close>: the buffer may be written and the channel registered again, but the connection stays closed.\<close>

lemma dead_drain:
  assumes dead: "conn_dead E w" and cbs: "callbacks_dead E cbs" and sys: "took sys (length (unsent w))"
  shows "\<exists>w'. handleWrite_drain cbs sys w = Inr (unsent w' \<noteq> [], w') \<and> conn_dead E w' \<and> evolves w w'"
proof (cases "unsent w = []")
  case True
  then show ?thesis using dead readable_iff [OF conn_deadD(2) [OF dead]] by (auto simp: handleWrite_drain_def)
next
  case False
  note D = conn_deadD [OF dead]
  have pos: "Buffer_readableBytes (writeBuffer (conn w)) > 0" using False readable_iff [OF D(2)] by simp
  have fin: "\<exists>w'. rbind m (\<lambda>w. Inr (Buffer_readableBytes (writeBuffer (conn w)) > 0, w)) = Inr (unsent w' \<noteq> [], w') \<and>
      conn_dead E w' \<and> evolves w w'" if "dead_goes E w m" for m
    using that readable_iff [OF conn_deadD(2), of E] by (fastforce simp: dead_goes_def)
  show ?thesis
  proof (cases sys)
    case (Inl e)
    have "on_conn (\<lambda>c. c\<lparr>writeBuffer := writeBuffer (conn w)\<rparr>) w = w" by (simp add: on_conn_def)
    with Inl pos dead_error [OF dead] have "handleWrite_drain cbs sys w =
        rbind (Inr w) (\<lambda>w. Inr (Buffer_readableBytes (writeBuffer (conn w)) > 0, w))"
      by (simp add: handleWrite_drain_def Buffer_WriteFd_def Let_def)
    with fin [OF dead_same [OF dead]] show ?thesis by (simp only:)
  next
    case (Inr k)
    then have k: "k \<le> Buffer_readableBytes (writeBuffer (conn w))" using sys D(7) by (simp add: took_def)
    from WriteFd_ok [OF D(7) k] obtain b where b: "Buffer_WriteFd (Inr k) (writeBuffer (conn w)) = Inr (Inr k, b)"
      "Buffer_inv b" "Buffer_content b = drop k (unsent w)" by blast
    let ?w = "on_conn (\<lambda>c. c\<lparr>writeBuffer := b\<rparr>) w"
    let ?e = "emit (SysWrite (take k (unsent w))) ?w"
    have "conn_stream ?e" using dead b(3) by (simp add: conn_dead_def conn_stream_def emit_def)
    then have e: "conn_dead E ?e" using dead b(2) by (simp add: conn_dead_def conn_ok_def)
    let ?m = "if k > 0 then rbind (if Buffer_readableBytes b = 0 then on_channel Channel_disableWriting ?e else Inr ?e)
        (invoke (writeCompleteCallback cbs) CallWriteComplete) else Inr ?w"
    have "dead_goes E w ?m"
    proof (cases "k > 0")
      case True
      from disableWriting_ok [OF conn_deadD(2) [OF e]] obtain p where
        p: "on_channel Channel_disableWriting ?e = Inr (?e\<lparr>poll_of := p\<rparr>)" "conn_ok E (?e\<lparr>poll_of := p\<rparr>)" by blast
      have "conn_dead E (?e\<lparr>poll_of := p\<rparr>)"
        using e p(2) by (simp add: conn_dead_def conn_stream_def conn_owns_def)
      then have "dead_goes E w (if Buffer_readableBytes b = 0 then on_channel Channel_disableWriting ?e else Inr ?e)"
        using e p(1) by (auto simp: dead_goes_def evolves_def)
      then have "dead_goes E w (rbind (if Buffer_readableBytes b = 0 then on_channel Channel_disableWriting ?e else Inr ?e)
          (invoke (writeCompleteCallback cbs) CallWriteComplete))"
        using cbs by (intro dead_goes_bind dead_invoke) (auto simp: callbacks_dead_def)
      with True show ?thesis by simp
    next
      case False
      then have "Buffer_content b = unsent w" using b(3) by simp
      with dead b(2) False show ?thesis by (simp add: dead_goes_def conn_dead_def conn_ok_def conn_stream_def)
    qed
    note G = fin [OF this]
    have w: "conn_dead E ?w" if "k = 0" using dead b(2,3) that by (simp add: conn_dead_def conn_ok_def conn_stream_def)
    have "handleWrite_drain cbs sys w = rbind ?m (\<lambda>w. Inr (Buffer_readableBytes (writeBuffer (conn w)) > 0, w))"
      using pos b(1) Inr D(8) dead_error [OF w] by (auto simp: handleWrite_drain_def Let_def)
    with G show ?thesis by (simp only:)
  qed
qed

lemma dead_write:
  assumes dead: "conn_dead E w" and cbs: "callbacks_dead E cbs" and fresh: "fresh_timer r (tq w)"
    and sys: "took sys (length (unsent w))"
  shows "dead_goes E w (TcpConnection_handleWrite cbs sys sysf sys' r w)"
proof (cases "channel_isWriting w")
  case True
  note D = conn_deadD [OF dead]
  from D(3,4,5) fresh obtain q j where
    r: "TcpConnection_resetIdleTimer r w = Inr (w\<lparr>tq := q, conn := (conn w)\<lparr>idleTimerId := j\<rparr>\<rparr>)" by (rule resetIdle_result)
  let ?v = "w\<lparr>tq := q, conn := (conn w)\<lparr>idleTimerId := j\<rparr>\<rparr>"
  have v: "conn_dead E ?v" "evolves w ?v" using dead_resetIdle [OF dead fresh] r by (auto simp: dead_goes_def)
  obtain u where u: "handleWrite_drain cbs sys ?v = Inr (unsent u \<noteq> [], u)" "conn_dead E u" "evolves ?v u"
    using dead_drain [OF v(1) cbs] sys by auto
  then have "TcpConnection_handleWrite cbs sys sysf sys' r w = Inr u"
    using True D(3) r conn_deadD(8) [OF u(2)] handleWrite_rest_drained [OF conn_deadD(2) [OF u(2)], of cbs sys']
    by (simp add: TcpConnection_handleWrite_def)
  with u(2) evolves_trans [OF v(2) u(3)] show ?thesis by (simp add: dead_goes_def)
qed (use dead conn_deadD(3) [OF dead] in \<open>simp add: TcpConnection_handleWrite_def dead_same\<close>)

section \<open>Any sequence of events\<close>

text \<open>A connection that has been established and has not been taken down yet.\<close>

definition conn_alive :: "addr set \<Rightarrow> world \<Rightarrow> bool" where
  "conn_alive E w \<longleftrightarrow> (conn_inv E w \<and> state_of w \<noteq> kConnecting) \<or> conn_dead E w"

definition lives :: "addr set \<Rightarrow> world \<Rightarrow> world res \<Rightarrow> bool" where
  "lives E w m \<longleftrightarrow> (\<exists>w'. m = Inr w' \<and> conn_alive E w' \<and> evolves w w')"

text \<open>
  The steps: the loop dispatches events, whatever they are; while the connection is open, it does anything that
  \<open>conn_act\<close> allows; and the rest of the loop goes on.
\<close>

inductive event_step :: "addr set \<Rightarrow> conn_callbacks \<Rightarrow> world \<Rightarrow> world res \<Rightarrow> bool" for E cbs where
  Dispatched: "calls_may cbs x (event_calls r) (polled r w) \<Longrightarrow> event_step E cbs w (conn_dispatch cbs r x w)"
| OpenActs: "state_of w \<noteq> kDisConnected \<Longrightarrow> conn_act E cbs w m \<Longrightarrow> event_step E cbs w m"
| RestOfLoop: "loop_change E E w p q \<Longrightarrow> event_step E cbs w (Inr (w\<lparr>poll_of := p, tq := q\<rparr>))"

inductive event_reach :: "addr set \<Rightarrow> conn_callbacks \<Rightarrow> world \<Rightarrow> world \<Rightarrow> bool" for E cbs where
  EventStart: "event_reach E cbs w w"
| EventStep: "event_reach E cbs w w' \<Longrightarrow> event_step E cbs w' (Inr w'') \<Longrightarrow> event_reach E cbs w w''"

text \<open>Callbacks that are well behaved in every sense used here.\<close>

definition events_ok :: "addr set \<Rightarrow> conn_callbacks \<Rightarrow> bool" where
  "events_ok E cbs \<longleftrightarrow>
    callbacks_ok E cbs \<and> callbacks_dead E cbs \<and> revents.keeping_callbacks cbs \<and> balance.keeping_callbacks cbs"

lemma goes_lives:
  assumes "goes_ok E w m" and "state_of w \<noteq> kConnecting"
  shows "lives E w m"
  using assms not_connecting_evolves by (fastforce simp: goes_ok_def lives_def conn_alive_def)

lemma dead_lives: "dead_goes E w m \<Longrightarrow> lives E w m"
  by (auto simp: dead_goes_def lives_def conn_alive_def)

lemma loop_change_dead:
  assumes dead: "conn_dead E w" and env: "loop_change E E w p q"
  shows "conn_dead E (w\<lparr>poll_of := p, tq := q\<rparr>)"
proof -
  obtain d where d: "my_channel w = Some d" using conn_deadD(2) [OF dead] by (auto simp: conn_ok_def)
  have "same_registration (channels p (tc_channel (conn w))) (Some d)" using env d by (simp add: loop_change_def)
  then obtain c where "channels p (tc_channel (conn w)) = Some c" "ch_fd c = ch_fd d" by (rule same_registration_Some)
  with dead env d show ?thesis
    by (auto simp: conn_dead_def conn_ok_def conn_stream_def conn_owns_def ts.owned_def loop_change_def)
qed

lemma loop_change_alive: "conn_alive E w \<Longrightarrow> loop_change E E w p q \<Longrightarrow> lives E w (Inr (w\<lparr>poll_of := p, tq := q\<rparr>))"
  using loop_change_ok [of E w E p q] loop_change_dead [of E w p q]
  by (auto simp: lives_def conn_alive_def evolves_def)

lemma alive_ok:
  assumes "conn_alive E w"
  shows "conn_ok E w" and "conn_stream w" and "state_of w \<noteq> kConnecting"
  using assms by (auto simp: conn_alive_def conn_inv_def conn_dead_def)

lemma polled_change:
  assumes "conn_ok E w"
  obtains p where "polled r w = w\<lparr>poll_of := p, tq := tq w\<rparr>" and "loop_change E E w p (tq w)"
proof -
  obtain c where c: "my_channel w = Some c" "ch_fd c = tc_fd (conn w)" using assms by (auto simp: conn_ok_def)
  have inv: "Poller_inv (poll_of w)" "fd_free (tc_channel (conn w)) (poll_of w)" "TimerQueue_inv E (tq w)"
    using assms by (simp_all add: conn_ok_def)
  let ?p = "set_channel (tc_channel (conn w)) (c\<lparr>ch_revents := r\<rparr>) (poll_of w)"
  have "Poller_inv ?p" by (rule set_channel_inv [OF inv(1) c(1)]) simp_all
  with inv c have "loop_change E E w ?p (tq w)"
    by (simp add: loop_change_def set_channel_def same_registration_def fd_free_def)
  with c show ?thesis by (intro that [of ?p]) (simp_all add: polled_def)
qed

lemma call_lives:
  assumes cbs: "events_ok E cbs" and w: "conn_alive E w" and may: "call_may x k w"
  shows "lives E w (run_call (conn_calls cbs x) k w)"
proof (cases "state_of w = kDisConnected")
  case True
  then have dead: "conn_dead E w" using w closed_dead by (auto simp: conn_alive_def)
  have "dead_goes E w (run_call (conn_calls cbs x) k w)"
    using cbs may dead_error [OF dead] dead_same [OF dead] dead_read [OF dead] dead_write [OF dead]
    by (cases k) (simp_all add: run_call_def conn_calls_def events_ok_def)
  then show ?thesis by (rule dead_lives)
next
  case False
  then have inv: "conn_inv E w" and st: "state_of w \<noteq> kConnecting" using w by (auto simp: conn_alive_def conn_dead_def)
  have "goes_ok E w (run_call (conn_calls cbs x) k w)"
    using cbs may inv st False
    by (cases k) (auto simp: run_call_def conn_calls_def events_ok_def took_def intro: handleError_ok handleRead_ok handleWrite_ok)
  then show ?thesis using st by (rule goes_lives)
qed

lemma calls_live:
  assumes cbs: "events_ok E cbs" and w: "conn_alive E w" and may: "calls_may cbs x ks w"
  shows "lives E w (rfold (run_call (conn_calls cbs x)) ks w)"
  using w may
proof (induction ks arbitrary: w)
  case Nil
  then show ?case by (simp add: lives_def)
next
  case (Cons k ks)
  then obtain w1 where w1: "run_call (conn_calls cbs x) k w = Inr w1" "conn_alive E w1" "evolves w w1"
    using call_lives [OF cbs, of w x k] by (auto simp: lives_def)
  with Cons.prems(2) have "calls_may cbs x ks w1" by simp
  from Cons.IH [OF w1(2) this] w1 show ?case by (auto simp: lives_def intro: evolves_trans)
qed

lemma dispatch_lives:
  assumes cbs: "events_ok E cbs" and w: "conn_alive E w" and may: "calls_may cbs x (event_calls r) (polled r w)"
  shows "lives E w (conn_dispatch cbs r x w)"
proof -
  obtain p where p: "polled r w = w\<lparr>poll_of := p, tq := tq w\<rparr>" "loop_change E E w p (tq w)"
    by (rule polled_change [OF alive_ok(1) [OF w]])
  have v: "conn_alive E (polled r w)" "evolves w (polled r w)"
    using loop_change_alive [OF w p(2)] p(1) by (auto simp: lives_def)
  obtain c where "my_channel w = Some c" using alive_ok(1) [OF w] by (auto simp: conn_ok_def)
  with cbs have "conn_dispatch cbs r x w = rfold (run_call (conn_calls cbs x)) (event_calls r) (polled r w)"
    by (intro dispatch_calls) (simp_all add: events_ok_def)
  with calls_live [OF cbs v(1) may] v(2) show ?thesis by (auto simp: lives_def intro: evolves_trans)
qed

lemma event_step_lives:
  assumes "events_ok E cbs" and "conn_alive E w" and "event_step E cbs w m"
  shows "lives E w m"
  using assms(3)
proof cases
  case (Dispatched x r)
  with assms show ?thesis by (simp add: dispatch_lives)
next
  case OpenActs
  with assms have "goes_ok E w m" by (intro conn_act_ok) (auto simp: conn_alive_def conn_dead_def events_ok_def)
  then show ?thesis using alive_ok(3) [OF assms(2)] by (rule goes_lives)
next
  case (RestOfLoop p q)
  with loop_change_alive [OF assms(2)] show ?thesis by simp
qed

subsection \<open>The close callback still runs once\<close>

lemma dispatch_balance:
  assumes "events_ok E cbs" and "conn_ok E w" and "conn_dispatch cbs r x w = Inr w'"
  shows "close_balance w w'"
proof -
  obtain c where "my_channel w = Some c" using assms(2) by (auto simp: conn_ok_def)
  with assms(1) have "conn_dispatch cbs r x w = rfold (run_call (conn_calls cbs x)) (event_calls r) (polled r w)"
    by (intro dispatch_calls) (simp_all add: events_ok_def)
  moreover have "balance.keeps v (run_call (conn_calls cbs x) k v)" for k v
    using assms(1) by (cases k) (simp_all add: run_call_def conn_calls_def events_ok_def balance.operations_keep)
  ultimately have "close_balance (polled r w) w'"
    using assms(3) balance.rfold_keeps [of "run_call (conn_calls cbs x)" "polled r w" "event_calls r"]
    by (simp add: balance.keeps_def)
  moreover have "conn (polled r w) = conn w" "trace (polled r w) = trace w" by (simp_all add: polled_def split: option.split)
  ultimately show ?thesis by (simp add: close_balance_def closings_def)
qed

lemma event_step_balance:
  assumes "events_ok E cbs" and "conn_ok E w" and "event_step E cbs w (Inr w')"
  shows "close_balance w w'"
  using assms(3)
proof cases
  case (Dispatched x r)
  with dispatch_balance [OF assms(1,2)] show ?thesis by simp
next
  case OpenActs
  with assms(1) show ?thesis using balance.conn_act_keeps by (auto simp: balance.keeps_def events_ok_def)
qed (simp add: close_balance_def closings_def)

lemma event_reach_ok:
  assumes "event_reach E cbs w w'" and "events_ok E cbs" and "conn_alive E w"
  shows "conn_alive E w' \<and> evolves w w' \<and> close_balance w w'"
  using assms
proof (induction rule: event_reach.induct)
  case (EventStart w)
  then show ?case by (simp add: balance.same)
next
  case (EventStep w w' w'')
  then have w': "conn_alive E w'" "evolves w w'" "close_balance w w'" by simp_all
  from event_step_lives [OF EventStep.prems(1) w'(1) EventStep.hyps(2)] event_step_balance [OF EventStep.prems(1) _ EventStep.hyps(2)]
    alive_ok(1) [OF w'(1)] w' show ?case
    by (auto simp: lives_def intro: evolves_trans balance.trans)
qed

subsection \<open>Taking a closed connection down\<close>

lemma dead_destroyed:
  assumes dead: "conn_dead E w"
  obtains v p where "TcpConnection_connectDestroyed w = Inr v" and "conn_inv E v" and "released E v"
    and "TcpConnection_destroy v = Inr (v\<lparr>poll_of := p\<rparr>)" and "channels p (tc_channel (conn w)) = None"
    and "\<not> registered (tc_channel (conn w)) p" and "trace v = trace w"
proof -
  note D = conn_deadD [OF dead]
  obtain q j where q: "rbind (TcpConnection_cancelIdle w) TcpConnection_cancelPending =
      Inr (w\<lparr>tq := q, conn := (conn w)\<lparr>idleTimerId := j, pendingRetrans := []\<rparr>\<rparr>)"
    "TimerQueue_inv E q" "\<not> TimerId_valid j" "\<forall>i f. timers_live E q i = Some f \<longrightarrow> \<not> my_closure (conn w) f"
    using cancel_all_ok [OF D(5,3,4)] by blast
  let ?u = "w\<lparr>tq := q, conn := (conn w)\<lparr>idleTimerId := j, pendingRetrans := []\<rparr>\<rparr>"
  have "conn_ok E ?u" using D(2) q(2) by (simp add: conn_ok_def)
  then obtain p where p: "on_channel Channel_remove ?u = Inr (?u\<lparr>poll_of := p\<rparr>)" "conn_ok E (?u\<lparr>poll_of := p\<rparr>)"
    "\<not> registered (tc_channel (conn w)) p" by (rule channel_remove_ok) (auto intro: that)
  let ?v = "?u\<lparr>poll_of := p\<rparr>"
  have "TcpConnection_connectDestroyed w =
      rbind (rbind (TcpConnection_cancelIdle w) TcpConnection_cancelPending) (on_channel Channel_remove)"
    using D(1,3) by (simp add: TcpConnection_connectDestroyed_def Let_def rbind_assoc)
  then have run: "TcpConnection_connectDestroyed w = Inr ?v" using p(1) q(1) by simp
  have rel: "released E ?v"
    using p(3) q dead my_closure_cong [of "conn ?v" "conn w"] by (simp add: released_def conn_dead_def)
  have "conn_inv E ?v"
    using p(2) dead rel by (intro conn_inv_released) (simp_all add: conn_dead_def conn_stream_def)
  moreover from destroy_released [OF this rel] obtain p' where
    "TcpConnection_destroy ?v = Inr (?v\<lparr>poll_of := p'\<rparr>)" "channels p' (tc_channel (conn w)) = None"
    "\<not> registered (tc_channel (conn w)) p'" by auto
  ultimately show ?thesis using run rel by (intro that [of ?v p']) simp_all
qed

section \<open>Properties\<close>

text \<open>
  C4. A connection survives its events: whatever events the loop dispatches to an established connection, in whatever
  order and number, with whatever results of the system calls - also after it has closed, also when one report asks for the
  error handler and the others - every handler returns; what has been written and what is still to be written are the bytes
  accepted; the close callback runs once, when the connection closes; as long as it has not closed it satisfies its
  invariant; and once it has closed, taking it down returns and leaves neither a channel nor a timer of it behind.
\<close>

theorem connection_survives_events:
  assumes "events_ok E cbs" and "conn_inv E w" and "conn_open w" and "event_reach E cbs w w'"
  shows "(\<forall>m. event_step E cbs w' m \<longrightarrow> (\<exists>w''. m = Inr w'')) \<and> sys_bytes (trace w') @ unsent w' = accepted w' \<and>
    closings w' = closings w + (if state_of w' = kDisConnected then 1 else 0) \<and>
    (state_of w' \<noteq> kDisConnected \<longrightarrow> conn_inv E w') \<and>
    (state_of w' = kDisConnected \<longrightarrow>
      (\<exists>v p. TcpConnection_connectDestroyed w' = Inr v \<and> released E v \<and> TcpConnection_destroy v = Inr (v\<lparr>poll_of := p\<rparr>) \<and>
        channels p (tc_channel (conn w)) = None \<and> \<not> registered (tc_channel (conn w)) p))"
proof -
  have "conn_alive E w" using assms(2,3) by (auto simp: conn_alive_def)
  then have w': "conn_alive E w'" "evolves w w'" "close_balance w w'"
    using event_reach_ok [OF assms(4,1)] by simp_all
  have "closings w' = closings w + (if state_of w' = kDisConnected then 1 else 0)"
    using w'(3) assms(3) by (auto simp: close_balance_def)
  moreover have "state_of w' \<noteq> kDisConnected \<longrightarrow> conn_inv E w'" using w'(1) by (auto simp: conn_alive_def conn_dead_def)
  moreover have "\<exists>v p. TcpConnection_connectDestroyed w' = Inr v \<and> released E v \<and> TcpConnection_destroy v = Inr (v\<lparr>poll_of := p\<rparr>) \<and>
      channels p (tc_channel (conn w)) = None \<and> \<not> registered (tc_channel (conn w)) p" if "state_of w' = kDisConnected"
  proof -
    have "conn_dead E w'" using w'(1) that closed_dead by (auto simp: conn_alive_def)
    moreover have "tc_channel (conn w') = tc_channel (conn w)" using w'(2) by (simp add: evolves_def)
    ultimately show ?thesis by (metis dead_destroyed)
  qed
  ultimately show ?thesis
    using event_step_lives [OF assms(1) w'(1)] alive_ok(2) [OF w'(1)] by (auto simp: lives_def conn_stream_def)
qed

lemma quiet_events_ok: "events_ok E quiet_callbacks"
  using quiet_callbacks_ok(1) [of E] quiet_callbacks_ok(3)
  by (auto simp: events_ok_def callbacks_dead_def quiet_callbacks_def no_callbacks_def revents.keeping_callbacks_def
      revents.keeping_def)

text \<open>The peer has closed, and the socket can be written: the read handler closes, and the write handler follows.\<close>

definition demo_event_answers :: event_answers where
  "demo_event_answers = \<lparr>ev_read = Inr [], ev_time = 0, ev_read_timer = demo_request, ev_write = Inr 4, ev_file = Inl 0,
    ev_rest = Inl 0, ev_write_timer = demo_request\<rparr>"

lemma demo_event_answers_fresh: "fresh_timer demo_request (tq (demo_world st cs f m))"
  using demo_request_fresh by (simp add: demo_world_def)

theorem connection_survives_events_witness:
  "\<exists>w'. conn_dispatch quiet_callbacks (EPOLLIN OR EPOLLOUT) demo_event_answers (demo_world kConnected ''tail'' (-1) []) = Inr w' \<and>
    sys_bytes (trace w') @ unsent w' = accepted w' \<and> closings w' = (if state_of w' = kDisConnected then 1 else 0)"
proof -
  let ?w = "demo_world kConnected ''tail'' (-1) []" and ?r = "EPOLLIN OR EPOLLOUT"
  have op: "conn_open ?w" and closings: "closings ?w = 0" by (simp_all add: demo_world_def closings_def)
  have inv: "conn_inv {} ?w" by (rule demo_world_inv) simp_all
  then have "conn_ok {} ?w" by (simp add: conn_inv_def)
  then obtain p where p: "polled ?r ?w = ?w\<lparr>poll_of := p, tq := tq ?w\<rparr>" "loop_change {} {} ?w p (tq ?w)" by (rule polled_change)
  have v: "conn_inv {} (polled ?r ?w)" "conn_open (polled ?r ?w)" "unsent (polled ?r ?w) = ''tail''"
    "fresh_timer demo_request (tq (polled ?r ?w))"
    using loop_change_ok [OF inv p(2)] demo_event_answers_fresh unfolding p(1) by (simp_all add: demo_world_def)
  obtain w1 where w1: "TcpConnection_handleRead quiet_callbacks (Inr []) 0 demo_request (polled ?r ?w) =
      invoke (closeCallback quiet_callbacks) CallClose w1" "unsent w1 = unsent (polled ?r ?w)"
    "\<forall>r. fresh_timer r (tq (polled ?r ?w)) \<longrightarrow> fresh_timer r (tq w1)"
    by (rule read_end [OF v(1,2), of quiet_callbacks 0 demo_request])
  have read: "run_call (conn_calls quiet_callbacks demo_event_answers) ReadCall (polled ?r ?w) = Inr (emit CallClose w1)"
    using w1(1) by (simp add: run_call_def conn_calls_def demo_event_answers_def invoke_def quiet_callbacks_def)
  have more: "unsent (emit CallClose w1) = ''tail''" "fresh_timer demo_request (tq (emit CallClose w1))"
    using w1(2) w1(3) v(3,4) by simp_all
  have "event_calls ?r = [ReadCall, WriteCall]"
    by (simp add: event_calls_def on_error_def on_read_def on_hup_def on_write_def epoll_masks)
  then have "calls_may quiet_callbacks demo_event_answers (event_calls ?r) (polled ?r ?w)"
    using v(4) more read by (simp add: demo_event_answers_def took_def split: sum.split)
  then have step: "event_step {} quiet_callbacks ?w (conn_dispatch quiet_callbacks ?r demo_event_answers ?w)" by (rule Dispatched)
  from connection_survives_events [OF quiet_events_ok inv op EventStart] step obtain w' where
    w': "conn_dispatch quiet_callbacks ?r demo_event_answers ?w = Inr w'" by blast
  then have "event_reach {} quiet_callbacks ?w w'" using step by (metis EventStart EventStep)
  from connection_survives_events [OF quiet_events_ok inv op this] w' closings show ?thesis by auto
qed

text \<open>
  The message callback may run after the close callback: when the kernel reports an error together with input, the error
  handler closes the connection first, and the read handler that follows still reads what is there, arms the idle
  timer of the closed connection again and hands the bytes to the user.
\<close>

theorem message_after_close:
  assumes inv: "conn_inv E w" and op: "conn_open w" and cbs: "revents.keeping_callbacks cbs"
    and "closeCallback cbs = Some Inr" and "messageCallback cbs = Some (\<lambda>t. Inr)"
    and r: "on_error r" "on_read r" "\<not> on_write r" and x: "ev_read x = Inr data" "data \<noteq> []"
    and fresh: "fresh_timer (ev_read_timer x) (tq w)"
  shows "\<exists>w'. conn_dispatch cbs r x w = Inr w' \<and> state_of w' = kDisConnected \<and>
    trace w' = trace w @ closed_file w @ [CallClose, CallMessage] \<and>
    Buffer_content (readBuffer (conn w')) = Buffer_content (readBuffer (conn w)) @ data \<and>
    live_timers E w' (idleTimerId (conn w')) = Some (idle_closure (conn w'))"
proof -
  have "conn_ok E w" using inv by (simp add: conn_inv_def)
  then obtain p where p: "polled r w = w\<lparr>poll_of := p, tq := tq w\<rparr>" "loop_change E E w p (tq w)" by (rule polled_change)
  let ?v = "polled r w"
  have v: "conn_inv E ?v" "conn_open ?v" using loop_change_ok [OF inv p(2)] op p(1) by simp_all
  from handleClose_result [OF v, of cbs] obtain w1 where w1: "TcpConnection_handleError cbs ?v = Inr (emit CallClose w1)"
    "conn_inv E w1" "released E w1" "trace w1 = trace ?v @ closed_file ?v" "fresh_timer (ev_read_timer x) (tq w1)"
    "readBuffer (conn w1) = readBuffer (conn ?v)"
    using assms(4) fresh p(1) by (auto simp: TcpConnection_handleError_def invoke_def)
  let ?u = "emit CallClose w1"
  have u: "conn_inv E ?u" "fresh_timer (ev_read_timer x) (tq ?u)" using w1(2,5) by simp_all
  from read_delivers [OF u x(2), of cbs "ev_time x"] obtain w2 where
    w2: "TcpConnection_handleRead cbs (Inr data) (ev_time x) (ev_read_timer x) ?u = Inr (emit CallMessage w2)" "conn_inv E w2"
    "Buffer_content (readBuffer (conn w2)) = Buffer_content (readBuffer (conn ?u)) @ data" "state_of w2 = state_of ?u"
    "trace w2 = trace ?u" "live_timers E w2 (idleTimerId (conn w2)) = Some (idle_closure (conn w2))"
    using assms(5) by (auto simp: invoke_def)
  let ?w' = "emit CallMessage w2"
  have dead: "conn_dead E ?w'" using w1(3) w2(2,4) by (intro closed_dead) (simp_all add: released_def)
  obtain c where "my_channel w = Some c" using inv by (auto simp: conn_inv_def conn_ok_def)
  then have "conn_dispatch cbs r x w = rfold (run_call (conn_calls cbs x)) (event_calls r) ?v" by (rule dispatch_calls [OF cbs])
  moreover have "event_calls r = [ErrorCall, ReadCall] @ (if on_hup r then [ErrorCall] else [])"
    using r by (simp add: event_calls_def)
  ultimately have "conn_dispatch cbs r x w = Inr ?w'"
    using w1(1) w2(1) dead_error [OF dead] x(1) by (simp add: run_call_def conn_calls_def)
  moreover have "trace ?w' = trace w @ closed_file w @ [CallClose, CallMessage]"
    using w1(4) w2(5) p(1) by (simp add: emit_def closed_file_def)
  ultimately show ?thesis using w1(3,6) w2(3,4,6) p(1) by (simp add: released_def)
qed

theorem message_after_close_witness:
  "\<exists>w'. conn_dispatch (quiet_callbacks\<lparr>messageCallback := Some (\<lambda>t. Inr)\<rparr>) (EPOLLIN OR EPOLLERR)
      (demo_event_answers\<lparr>ev_read := Inr ''late''\<rparr>) (demo_world kConnected [] (-1) []) = Inr w' \<and>
    trace w' = [CallClose, CallMessage]"
proof -
  let ?w = "demo_world kConnected [] (-1) []" and ?cbs = "quiet_callbacks\<lparr>messageCallback := Some (\<lambda>t. Inr)\<rparr>"
    and ?x = "demo_event_answers\<lparr>ev_read := Inr ''late''\<rparr>"
  have inv: "conn_inv {} ?w" by (rule demo_world_inv) simp_all
  have w: "conn_open ?w" "trace ?w = []" "closed_file ?w = []" by (simp_all add: demo_world_def closed_file_def)
  have cbs: "revents.keeping_callbacks ?cbs"
    by (auto simp: revents.keeping_callbacks_def revents.keeping_def quiet_callbacks_def no_callbacks_def)
  have fresh: "fresh_timer (ev_read_timer ?x) (tq ?w)" using demo_event_answers_fresh by (simp add: demo_event_answers_def)
  have r: "on_error (EPOLLIN OR EPOLLERR)" "on_read (EPOLLIN OR EPOLLERR)" "\<not> on_write (EPOLLIN OR EPOLLERR)"
    by (simp_all add: on_error_def on_read_def on_write_def epoll_masks)
  from message_after_close [OF inv w(1) cbs _ _ r _ _ fresh, of "''late''"] w(2,3) show ?thesis
    by (auto simp: quiet_callbacks_def)
qed

end
