(* ===== verification/ServedLoop.thy ===== *)
theory ServedLoop
  imports ServedConnections ConnectionEvents
begin

text \<open>
  One turn of \<open>EventLoop::loop\<close> (\<open>net/EventLoop.cc\<close>) in a loop that serves connections: the poller reports channels
  (\<open>net/Poller/Epoller.cc\<close>), each channel's \<open>handleEvent\<close> (\<open>net/Channel.cc\<close>) calls the handlers of its connection, and then the
  functions that were queued are run. A turn is made of the steps of \<open>served_step\<close>, provided that no read or write handler is
  called on a connection that has just closed (for those see \<open>ConnectionEvents\<close>); so whatever holds of the server with its
  connections holds after every turn. The wake-up channel, the timer channel and the acceptor's belong to no connection.
\<close>

section \<open>A turn of the loop\<close>

definition served_poll :: "addr \<Rightarrow> (int \<times> 32 word) list \<Rightarrow> served \<Rightarrow> (addr list \<times> served) res" where
  "served_poll l es h =
    rbind (Epoller_poll True (Some es) (polls h l)) (\<lambda>(p, activeChannels).
      Inr (activeChannels, h\<lparr>polls := (polls h)(l := p)\<rparr>))"

text \<open>\<open>own ch\<close> is the connection whose handlers the channel \<open>ch\<close> has, \<open>x a\<close> what the handlers of \<open>a\<close> get from outside.\<close>

definition served_channel ::
  "conn_callbacks \<Rightarrow> (addr \<Rightarrow> addr option) \<Rightarrow> (addr \<Rightarrow> event_answers) \<Rightarrow> addr \<Rightarrow> served \<Rightarrow> served res" where
  "served_channel cbs own x ch h =
    (case own ch of None \<Rightarrow> Inr h | Some a \<Rightarrow> on_served a (conn_handleEvent (serving cbs) (x a)) h)"

text \<open>
  \<open>doPendingFuncs\<close>: the functions that are queued when it starts, \<open>n\<close> of them; what they queue stays for the next turn.
\<close>

fun served_pending :: "conn_callbacks \<Rightarrow> (nat \<Rightarrow> timer_request) \<Rightarrow> addr \<Rightarrow> nat \<Rightarrow> served \<Rightarrow> served res" where
  "served_pending cbs r l 0 h = Inr h"
| "served_pending cbs r l (Suc n) h =
    (case tasks (srv h) l of
       [] \<Rightarrow> Inr h
     | t # ts \<Rightarrow> rbind (served_run cbs (r n) t (h\<lparr>srv := take_task l (srv h)\<rparr>)) (served_pending cbs r l n))"

definition served_turn ::
  "conn_callbacks \<Rightarrow> (addr \<Rightarrow> addr option) \<Rightarrow> (addr \<Rightarrow> event_answers) \<Rightarrow> (nat \<Rightarrow> timer_request) \<Rightarrow> addr
    \<Rightarrow> (int \<times> 32 word) list \<Rightarrow> served \<Rightarrow> served res" where
  "served_turn cbs own x r l es h =
    rbind (served_poll l es h) (\<lambda>(activeChannels, h).
    rbind (rfold (served_channel cbs own x) activeChannels h) (\<lambda>h.
    served_pending cbs r l (length (tasks (srv h) l)) h))"

subsection \<open>What is asked of a turn\<close>

text \<open>No handler but the error handler is called on a connection that has closed.\<close>

fun calls_open :: "conn_callbacks \<Rightarrow> event_answers \<Rightarrow> ev_call list \<Rightarrow> world \<Rightarrow> bool" where
  "calls_open cbs x [] w = True"
| "calls_open cbs x (k # ks) w =
    ((k = ErrorCall \<or> state_of w \<noteq> kDisConnected) \<and>
     (case run_call (conn_calls cbs x) k w of Inl e \<Rightarrow> True | Inr w' \<Rightarrow> calls_open cbs x ks w'))"

definition channel_may ::
  "conn_callbacks \<Rightarrow> (addr \<Rightarrow> addr option) \<Rightarrow> (addr \<Rightarrow> event_answers) \<Rightarrow> addr \<Rightarrow> addr \<Rightarrow> served \<Rightarrow> bool" where
  "channel_may cbs own x l ch h =
    (case own ch of
       None \<Rightarrow> True
     | Some a \<Rightarrow>
         (case worlds h a of
            None \<Rightarrow> True
          | Some w \<Rightarrow>
              (case conn_revents (view l h w) of
                 None \<Rightarrow> True
               | Some r \<Rightarrow>
                   calls_may (serving cbs) (x a) (event_calls r) (view l h w) \<and>
                   calls_open (serving cbs) (x a) (event_calls r) (view l h w))))"

fun channels_may ::
  "conn_callbacks \<Rightarrow> (addr \<Rightarrow> addr option) \<Rightarrow> (addr \<Rightarrow> event_answers) \<Rightarrow> addr \<Rightarrow> addr list \<Rightarrow> served \<Rightarrow> bool" where
  "channels_may cbs own x l [] h = True"
| "channels_may cbs own x l (ch # chs) h =
    (channel_may cbs own x l ch h \<and>
     (case served_channel cbs own x ch h of Inl e \<Rightarrow> True | Inr h' \<Rightarrow> channels_may cbs own x l chs h'))"

fun pending_may :: "conn_callbacks \<Rightarrow> (nat \<Rightarrow> timer_request) \<Rightarrow> addr \<Rightarrow> nat \<Rightarrow> served \<Rightarrow> bool" where
  "pending_may cbs r l 0 h = True"
| "pending_may cbs r l (Suc n) h =
    (case tasks (srv h) l of
       [] \<Rightarrow> True
     | t # ts \<Rightarrow>
         fresh_timer (r n) (tqs h l) \<and>
         (case served_run cbs (r n) t (h\<lparr>srv := take_task l (srv h)\<rparr>) of
            Inl e \<Rightarrow> True | Inr h' \<Rightarrow> pending_may cbs r l n h'))"

definition turn_may ::
  "conn_callbacks \<Rightarrow> (addr \<Rightarrow> addr option) \<Rightarrow> (addr \<Rightarrow> event_answers) \<Rightarrow> (nat \<Rightarrow> timer_request) \<Rightarrow> addr
    \<Rightarrow> (int \<times> 32 word) list \<Rightarrow> served \<Rightarrow> bool" where
  "turn_may cbs own x r l es h =
    (case served_poll l es h of
       Inl e \<Rightarrow> True
     | Inr (chs, h) \<Rightarrow>
         channels_may cbs own x l chs h \<and>
         (case rfold (served_channel cbs own x) chs h of
            Inl e \<Rightarrow> True
          | Inr h \<Rightarrow> pending_may cbs r l (length (tasks (srv h) l)) h))"

text \<open>The channels of the loop \<open>l\<close> have the handlers of their connections.\<close>

definition owns_channels :: "(addr \<Rightarrow> addr option) \<Rightarrow> addr \<Rightarrow> served \<Rightarrow> bool" where
  "owns_channels own l h \<longleftrightarrow>
    (\<forall>ch a. own ch = Some a \<longleftrightarrow>
      (\<exists>c w. objs (srv h) a = Some c \<and> sc_loop c = l \<and> worlds h a = Some w \<and> tc_channel (conn w) = ch))"

section \<open>A turn is made of steps\<close>

lemma served_reach_trans:
  assumes "served_reach cbs h h'" and "served_reach cbs h' h''"
  shows "served_reach cbs h h''"
  using assms(2,1) by (induction rule: served_reach.induct) (auto intro: ServedStep)

subsection \<open>The poll\<close>

lemma poll_loop_change:
  assumes inv: "conn_inv E w" and p: "Poller_inv p" "ChannelMap p = ChannelMap (poll_of w)"
    and same: "same_registration (channels p (tc_channel (conn w))) (my_channel w)"
  shows "loop_change E E w p (tq w)"
proof -
  have w: "fd_free (tc_channel (conn w)) (poll_of w)" "TimerQueue_inv E (tq w)" using inv by (simp_all add: conn_inv_def conn_ok_def)
  obtain d where d: "my_channel w = Some d" using inv by (auto simp: conn_inv_def conn_ok_def)
  with same obtain c where "channels p (tc_channel (conn w)) = Some c" "ch_fd c = ch_fd d"
    by (auto elim: same_registration_Some)
  with w p d same show ?thesis by (simp add: loop_change_def fd_free_def)
qed

lemma served_poll_step:
  assumes inv: "served_inv h" and ready: "ready_ok (polls h l) es"
  obtains h' where "served_poll l es h = Inr (active_of (polls h l) es, h')" and "served_reach cbs h h'"
    and "srv h' = srv h" and "worlds h' = worlds h" and "\<And>ch. registered ch (polls h' l) = registered ch (polls h l)"
proof -
  have p: "Poller_inv (polls h l)" "TimerQueue_inv (rounds h l) (tqs h l)" using inv by (simp_all add: served_inv_def)
  obtain p' where p': "Epoller_poll True (Some es) (polls h l) = Inr (p', active_of (polls h l) es)" "Poller_inv p'"
    "interest p' = interest (polls h l)" "ChannelMap p' = ChannelMap (polls h l)"
    "\<And>b. same_registration (channels p' b) (channels (polls h l) b)" by (rule poll_result [OF p(1) ready]) blast
  let ?h = "h\<lparr>polls := (polls h)(l := p'), tqs := (tqs h)(l := tqs h l), rounds := (rounds h)(l := rounds h l)\<rparr>"
  have "served_step cbs h (Inr ?h)"
  proof (rule LoopGoesOn [OF p'(2) p(2)])
    fix a c w assume "objs (srv h) a = Some c" "sc_loop c = l" "worlds h a = Some w"
    then have v: "conn_inv (rounds h l) (view l h w)" using served_connD(2) [OF inv] by blast
    have "loop_change (rounds h l) (rounds h l) (view l h w) p' (tq (view l h w))"
      by (rule poll_loop_change [OF v p'(2)]) (simp_all add: p'(4,5))
    then show "loop_change (rounds h l) (rounds h l) (view l h w) p' (tqs h l)" by simp
  qed
  then have "served_reach cbs h (h\<lparr>polls := (polls h)(l := p')\<rparr>)" using ServedStep [OF ServedStart] by simp
  with p'(1,3) show ?thesis
    by (intro that [of "h\<lparr>polls := (polls h)(l := p')\<rparr>"]) (simp_all add: served_poll_def registered_def)
qed

subsection \<open>The handlers of one channel\<close>

text \<open>A step that changes nothing but the place where the poller and the timer queue of the connection are kept.\<close>

lemma noop_act:
  assumes "conn_inv E v"
  shows "conn_act E cbs v (Inr v)"
proof -
  have "\<exists>seq. seq \<notin> fst ` set (pendingRetrans (conn v))" by (rule ex_new_if_finite [OF infinite_UNIV_nat]) simp
  then obtain seq where new: "seq \<notin> fst ` set (pendingRetrans (conn v))" by blast
  have "mget (pendingRetrans (conn v)) seq = None"
  proof (cases "mget (pendingRetrans (conn v)) seq")
    case (Some e)
    then have "(seq, e) \<in> set (pendingRetrans (conn v))" by (rule mget_in_set)
    then have "seq \<in> fst ` set (pendingRetrans (conn v))" by (rule image_eqI [rotated]) simp
    with new show ?thesis by blast
  qed
  then have "TcpConnection_ackReceived seq v = Inr v"
    using conn_inv_thread [OF assms] by (simp add: TcpConnection_ackReceived_def run_or_post_def TcpConnection_ackInLoop_def)
  then show ?thesis using conn_act.Ack [of E cbs v seq] by simp
qed

text \<open>What is settled twice is settled once.\<close>

lemma settled_twice:
  assumes "conn_rank st \<le> conn_rank (state_of w)" and "conn_rank (state_of w) \<le> conn_rank (state_of w')" and "st = state_of v"
  shows "settled a l w w' (settled a l v w h) = settled a l v w' h"
proof -
  have post: "set_state a x (post b t s) = post b t (set_state a x s)" "base (set_state a x s) = base s" for x b t s
    by (simp_all add: post_def set_state_def)
  have "synced a (state_of w) (state_of w') (synced a st (state_of w) (srv h)) = synced a st (state_of w') (srv h)"
  proof (cases "state_of w = kDisConnected")
    case True
    with assms(2) have "state_of w' = kDisConnected" by (simp add: rank_closed)
    with True show ?thesis by (simp add: synced_def post set_state_twice)
  next
    case False
    with assms(1) have "st \<noteq> kDisConnected" by (auto simp: rank_closed)
    with False show ?thesis by (simp add: synced_def set_state_twice post)
  qed
  with assms(3) show ?thesis by (simp add: settled_def)
qed

lemma settles_trans: "settles E u v \<Longrightarrow> settles E v w \<Longrightarrow> settles E u w"
  by (auto simp: settles_def intro: evolves_trans peers.trans balance.trans)

lemma settled_step:
  assumes "serving_ok cbs" and inv: "served_inv h" and c: "objs (srv h) a = Some c" and w: "worlds h a = Some w"
    and st: "state_of w \<noteq> kConnecting" and m: "conn_act (rounds h (sc_loop c)) (serving cbs) (view (sc_loop c) h w) m"
  obtains w' where "m = Inr w'" and "settles (rounds h (sc_loop c)) (view (sc_loop c) h w) w'"
    and "served_reach cbs h (settled a (sc_loop c) (view (sc_loop c) h w) w' h)"
    and "served_inv (settled a (sc_loop c) (view (sc_loop c) h w) w' h)" and "state_of w' \<noteq> kConnecting"
proof -
  obtain w' where w': "m = Inr w'" "settles (rounds h (sc_loop c)) (view (sc_loop c) h w) w'"
    using act_settles [OF assms(1) served_connD(2) [OF inv c w] m] by blast
  then have "served_step cbs h (Inr (settled a (sc_loop c) (view (sc_loop c) h w) w' h))"
    using ConnActs [OF c w st m] settle_result by (simp add: settles_def)
  moreover have "state_of w' \<noteq> kConnecting"
    using w'(2) st not_connecting_evolves [of "view (sc_loop c) h w" w'] by (simp add: settles_def)
  ultimately show ?thesis using w' settled_inv [OF inv c w w'(2)] ServedStep [OF ServedStart] that by blast
qed

lemma calls_run:
  assumes cbs: "serving_ok cbs" and "served_inv h" and "objs (srv h) a = Some c" and "worlds h a = Some w"
    and "state_of w \<noteq> kConnecting" and "calls_may (serving cbs) x ks (view (sc_loop c) h w)"
    and "calls_open (serving cbs) x ks (view (sc_loop c) h w)"
  shows "\<exists>w'. rfold (run_call (conn_calls (serving cbs) x)) ks (view (sc_loop c) h w) = Inr w' \<and>
    settles (rounds h (sc_loop c)) (view (sc_loop c) h w) w' \<and>
    served_reach cbs h (settled a (sc_loop c) (view (sc_loop c) h w) w' h)"
  using assms(2-)
proof (induction ks arbitrary: h c w)
  case Nil
  then obtain w' where w': "Inr (view (sc_loop c) h w) = (Inr w' :: world res)"
    "settles (rounds h (sc_loop c)) (view (sc_loop c) h w) w'"
    "served_reach cbs h (settled a (sc_loop c) (view (sc_loop c) h w) w' h)"
    using noop_act [OF served_connD(2) [OF Nil.prems(1-3)]] by (metis settled_step [OF cbs])
  then show ?case by simp
next
  case (Cons k ks)
  let ?l = "sc_loop c" and ?E = "rounds h (sc_loop c)" and ?v = "view (sc_loop c) h w"
  have v: "conn_inv ?E ?v" by (rule served_connD(2) [OF Cons.prems(1-3)])
  show ?case
  proof (cases "state_of w = kDisConnected")
    case True
    with Cons.prems(6) have "k = ErrorCall" by simp
    moreover have "TcpConnection_handleError (serving cbs) ?v = Inr ?v"
      using True by (intro dead_error [OF closed_dead [OF v]]) simp
    ultimately have "run_call (conn_calls (serving cbs) x) k ?v = Inr ?v" by (simp add: run_call_def conn_calls_def)
    with Cons.IH [OF Cons.prems(1-4)] Cons.prems(5,6) show ?thesis by simp
  next
    case False
    then have "conn_open ?v" using Cons.prems(4) by (cases "state_of w") auto
    then have reg: "my_registered ?v" using registered_open [OF v] by simp
    have "conn_act ?E (serving cbs) ?v (run_call (conn_calls (serving cbs) x) k ?v)"
      using Cons.prems(5) reg
      by (cases k) (auto simp: run_call_def conn_calls_def intro: conn_act.intros)
    then obtain w1 where w1: "run_call (conn_calls (serving cbs) x) k ?v = Inr w1" "settles ?E ?v w1"
      "served_reach cbs h (settled a ?l ?v w1 h)" "served_inv (settled a ?l ?v w1 h)" "state_of w1 \<noteq> kConnecting"
      by (rule settled_step [OF cbs Cons.prems(1-4)])
    let ?h = "settled a ?l ?v w1 h" and ?c = "c\<lparr>sc_state := state_of w1\<rparr>"
    have c1: "objs (srv ?h) a = Some ?c" "worlds ?h a = Some w1" using Cons.prems(2) by (simp_all add: objs_set_state)
    have "calls_may (serving cbs) x ks (view (sc_loop ?c) ?h w1)" "calls_open (serving cbs) x ks (view (sc_loop ?c) ?h w1)"
      using Cons.prems(5,6) w1(1) by simp_all
    from Cons.IH [OF w1(4) c1 w1(5) this] obtain w' where
      w': "rfold (run_call (conn_calls (serving cbs) x)) ks w1 = Inr w'" "settles ?E w1 w'"
      "served_reach cbs ?h (settled a ?l w1 w' ?h)" by auto
    have "settled a ?l w1 w' ?h = settled a ?l ?v w' h"
      using w1(2) w'(2) by (intro settled_twice [OF _ _ refl]) (simp_all add: settles_def evolves_def)
    with w' w1 settles_trans [OF w1(2) w'(2)] served_reach_trans [OF w1(3)] show ?thesis by simp
  qed
qed

text \<open>The connections of the active channels, established and in this loop.\<close>

definition handled :: "(addr \<Rightarrow> addr option) \<Rightarrow> addr \<Rightarrow> addr list \<Rightarrow> served \<Rightarrow> bool" where
  "handled own l chs h \<longleftrightarrow>
    (\<forall>ch \<in> set chs. \<forall>a. own ch = Some a \<longrightarrow>
      (\<exists>c w. objs (srv h) a = Some c \<and> sc_loop c = l \<and> worlds h a = Some w \<and> tc_channel (conn w) = ch \<and> state_of w \<noteq> kConnecting))"

lemma channel_step:
  assumes cbs: "serving_ok cbs" "revents.keeping_callbacks (serving cbs)" and inv: "served_inv h"
    and han: "handled own l (ch # chs) h" and may: "channel_may cbs own x l ch h"
  obtains h' where "served_channel cbs own x ch h = Inr h'" and "served_reach cbs h h'" and "handled own l chs h'"
proof (cases "own ch")
  case None
  with han show ?thesis by (intro that [of h]) (simp_all add: served_channel_def ServedStart handled_def)
next
  case (Some a)
  with han obtain c w where c: "objs (srv h) a = Some c" "sc_loop c = l" and w: "worlds h a = Some w" "tc_channel (conn w) = ch"
    "state_of w \<noteq> kConnecting" by (auto simp: handled_def)
  let ?v = "view l h w"
  have v: "conn_inv (rounds h l) ?v" using served_connD(2) [OF inv c(1) w(1)] c(2) by simp
  then obtain d where "my_channel ?v = Some d" by (auto simp: conn_inv_def conn_ok_def)
  then have r: "conn_revents ?v = Some (ch_revents d)" by (simp add: conn_revents_def)
  with may Some w(1) have ok: "calls_may (serving cbs) (x a) (event_calls (ch_revents d)) ?v"
    "calls_open (serving cbs) (x a) (event_calls (ch_revents d)) ?v" by (simp_all add: channel_may_def)
  obtain w' where w': "rfold (run_call (conn_calls (serving cbs) (x a))) (event_calls (ch_revents d)) ?v = Inr w'"
    "settles (rounds h l) ?v w'" "served_reach cbs h (settled a l ?v w' h)"
    using calls_run [OF cbs(1) inv c(1) w(1,3), of "x a"] ok c(2) by auto
  let ?h = "settled a l ?v w' h"
  have "served_channel cbs own x ch h = Inr ?h"
    using Some c w(1) w'(1,2) handleEvent_run [OF cbs(2) r, of "x a"] settle_result [of ?v w' a l h]
    by (simp add: served_channel_def on_served_def the_conn_def Let_def settles_def)
  moreover have "handled own l chs ?h"
  proof -
    have "tc_channel (conn w') = tc_channel (conn w)" "state_of w' \<noteq> kConnecting"
      using w'(2) w(3) not_connecting_evolves [of ?v w'] by (simp_all add: settles_def evolves_def)
    with han c w show ?thesis by (fastforce simp: handled_def objs_set_state)
  qed
  ultimately show ?thesis using w'(3) by (intro that)
qed

lemma channels_run:
  assumes cbs: "serving_ok cbs" "revents.keeping_callbacks (serving cbs)"
    and "served_inv h" and "Server_inv (srv h)" and "handled own l chs h" and "channels_may cbs own x l chs h"
  shows "\<exists>h'. rfold (served_channel cbs own x) chs h = Inr h' \<and> served_reach cbs h h'"
  using assms(3-)
proof (induction chs arbitrary: h)
  case Nil
  then show ?case by (simp add: ServedStart)
next
  case (Cons ch chs)
  have "channel_may cbs own x l ch h" using Cons.prems(4) by simp
  then obtain h1 where h1: "served_channel cbs own x ch h = Inr h1" "served_reach cbs h h1" "handled own l chs h1"
    by (rule channel_step [OF cbs Cons.prems(1,3)])
  have "channels_may cbs own x l chs h1" using Cons.prems(4) h1(1) by simp
  with Cons.IH [of h1] h1 served_reach_inv [OF h1(2) cbs(1) Cons.prems(1,2)] show ?case
    by (auto intro: served_reach_trans)
qed

subsection \<open>The queued functions\<close>

lemma pending_run:
  assumes cbs: "serving_ok cbs" and "served_inv h" and "Server_inv (srv h)" and "pending_may cbs r l n h"
  shows "\<exists>h'. served_pending cbs r l n h = Inr h' \<and> served_reach cbs h h'"
  using assms(2-)
proof (induction n arbitrary: h)
  case 0
  then show ?case by (simp add: ServedStart)
next
  case (Suc n)
  show ?case
  proof (cases "tasks (srv h) l")
    case Nil
    then show ?thesis by (simp add: ServedStart)
  next
    case (Cons t ts)
    with Suc.prems(3) have fresh: "fresh_timer (r n) (tqs h l)" by simp
    then obtain h1 where h1: "served_run cbs (r n) t (h\<lparr>srv := take_task l (srv h)\<rparr>) = Inr h1"
      using run_simulates [OF cbs Suc.prems(1,2) Cons] by (auto simp: simulates_def)
    then have reach: "served_reach cbs h h1" using ServedStep [OF ServedStart] Runs [OF Cons fresh, of cbs] by simp
    have "pending_may cbs r l n h1" using Suc.prems(3) Cons h1 by simp
    with Suc.IH [of h1] Cons h1 reach served_reach_inv [OF reach cbs Suc.prems(1,2)] show ?thesis
      by (auto intro: served_reach_trans)
  qed
qed

section \<open>Properties\<close>


text \<open>The demonstration server has established its connection, in loop 1; then its peer closes.\<close>

lemma served_echo_revents: "revents.keeping_callbacks (serving served_echo)"
proof -
  have "revents.keeping_callbacks (serving no_callbacks)"
    by (auto simp: revents.keeping_callbacks_def revents.keeping_def serving_def no_callbacks_def)
  then show ?thesis using revents.send_keeps
    by (auto simp: serving_def served_echo_def no_callbacks_def revents.keeping_callbacks_def revents.keeping_def)
qed

lemma established_heap:
  assumes "TcpConnection_connectEstablelished cbs r w = Inr w'" and "connectionCallback cbs = None"
    and "idleTimerId (conn w) = TimerId_null" and "a \<noteq> rq_addr r"
  shows "theap (tq w') a = theap (tq w) a"
proof -
  from assms(1,2) obtain w1 where w1: "on_channel Channel_enableReading w = Inr w1"
    "TcpConnection_resetIdleTimer r (setState kConnected w1) = Inr w'"
    by (auto simp: TcpConnection_connectEstablelished_def rbind_eq_Inr assert_thread_def EventLoop_assertInLoopThread_def split: if_splits)
  have same: "conn w1 = conn w" "tq w1 = tq w" using on_channel_same [OF w1(1)] by simp_all
  then have "TcpConnection_cancelIdle (setState kConnected w1) = Inr (setState kConnected w1)"
    using assms(3) by (simp add: TcpConnection_cancelIdle_def setState_def TimerId_valid_def TimerId_null_def)
  with w1(2) obtain i v where "conn_runAfter (r\<lparr>rq_delay := kTimeoutSeconds\<rparr>) (idle_closure (conn (setState kConnected w1)))
      (setState kConnected w1) = Inr (i, v)" "tq w' = tq v"
    by (auto simp: TcpConnection_resetIdleTimer_def rbind_eq_Inr)
  then show ?thesis using assms(4) same(2)
    by (auto simp: conn_runAfter_def rbind_eq_Inr EventLoop_runAfter_def TimerQueue_addTimer_def setState_def
        TimerQueue_addTimerInLoop_def TimerQueue_resetTimerFd_def Let_def split: if_splits)
qed

text \<open>The handlers of a channel queue functions in the base loop only.\<close>

lemma served_channel_tasks:
  assumes "served_channel cbs own x ch h = Inr h'" and "l \<noteq> base (srv h)"
  shows "tasks (srv h') l = tasks (srv h) l"
proof -
  have remove: "tasks s' l = tasks s l" if "rfold TcpServer_removeConnection (replicate n a) s = Inr s'" "l \<noteq> base s" for n a s s'
    using that by (induction n arbitrary: s) (auto simp: TcpServer_removeConnection_def post_def)
  show ?thesis
  proof (cases "own ch")
    case (Some a)
    with assms(1) obtain v w k where "settle a k v w h = Inr h'"
      by (auto simp: served_channel_def on_served_def the_conn_def Let_def rbind_eq_Inr split: option.splits)
    then obtain n where "rfold TcpServer_removeConnection (replicate n a) (set_state a (state_of w) (srv h)) = Inr (srv h')"
      by (auto simp: settle_def rbind_eq_Inr)
    from remove [OF this] assms(2) show ?thesis by (simp add: set_state_def)
  qed (use assms(1) in \<open>simp add: served_channel_def\<close>)
qed

lemma demo_established_served:
  obtains h c w where "served_reach served_echo (served_new 100 2) h" and "served_inv h"
    and "objs (srv h) = [7 \<mapsto> c]" and "sc_loop c = 1" and "worlds h 7 = Some w" and "tc_channel (conn w) = 16"
    and "tc_fd (conn w) = 9" and "conn_open w" and "theap (tqs h 1) 48 = None" and "tasks (srv h) 1 = []" and "base (srv h) = 100"
proof -
  have srv0: "srv (served_new 100 2) = TcpServer_new 100 2" by (simp add: served_new_def)
  then have Inv0: "Server_inv (srv (served_new 100 2))" using TcpServer_new_inv by simp
  have reach: "served_reach served_echo (served_new 100 2) demo_served" by (rule demo_served_reach(1))
  have inv: "served_inv demo_served" using served_reach_inv [OF reach served_echo_ok served_new_inv Inv0] by simp
  let ?h0 = "demo_served\<lparr>srv := take_task 1 (srv demo_served)\<rparr>" and ?c = "\<lparr>sc_name = conn_name 1, sc_loop = 1, sc_state = kConnecting\<rparr>"
  have objs: "objs (srv demo_served) a = (if a = 7 then Some ?c else None)" for a
    unfolding demo_served_reach(2)
    by (simp add: demo_accepted_def TcpServer_newConnection_def EventLoopThreadPool_getNextLoop_def demo_loops post_def conn_name_def
        Let_def)
  have tasks: "tasks (srv demo_served) 1 = [Establish 7]" unfolding demo_served_reach(2) by (rule demo_accepted_fields)
  have w0: "worlds demo_served 7 = Some (new_world 7 16 9 Epoller_new TimerQueue_new)"
    by (simp add: demo_served_def served_newConnection_def demo_accepted_step demo_accepted_fields the_conn_def Let_def served_new_def)
  let ?w0 = "new_world 7 16 9 Epoller_new TimerQueue_new"
  let ?v = "view 1 ?h0 ?w0"
  have v: "conn_inv (rounds ?h0 1) ?v" "state_of ?v = kConnecting"
    using served_connD(2) [OF inv _ w0] objs by (auto simp: view_def new_world_def TcpConnection_new_def)
  have fresh: "fresh_timer demo_request (tqs demo_served 1)" "fresh_timer demo_request (tq ?v)"
    using demo_request_fresh demo_served_reach(3) by simp_all
  have quiet: "connectionCallback (serving served_echo) = None" by (simp add: serving_def served_echo_def no_callbacks_def)
  from established_result [OF v fresh(2), of "serving served_echo"] obtain w1 where
    w1: "TcpConnection_connectEstablelished (serving served_echo) demo_request ?v = Inr w1" "evolves ?v w1" "state_of w1 = kConnected"
    unfolding quiet by auto
  have same: "tc_channel (conn w1) = 16" "tc_fd (conn w1) = 9"
    using w1(2) by (simp_all add: evolves_def new_world_def TcpConnection_new_def)
  have heap: "theap (tq w1) 48 = None"
    using established_heap [OF w1(1) quiet, of 48] demo_served_reach(3)
    by (simp add: new_world_def TcpConnection_new_def demo_request_def TimerQueue_new_def)
  have "close_balance ?v w1"
    using balance.connectEstablelished_keeps [OF servingD(3) [OF served_echo_ok], of ?v demo_request] w1(1)
    by (simp add: balance.keeps_def)
  then have "settle 7 1 ?v w1 ?h0 = Inr (settled 7 1 ?v w1 ?h0)" by (rule settle_result)
  then have "on_served 7 (TcpConnection_connectEstablelished (serving served_echo) demo_request) ?h0 = Inr (settled 7 1 ?v w1 ?h0)"
    using objs [of 7] w0 w1(1) by (simp add: on_served_def the_conn_def Let_def)
  then obtain h where h: "served_run served_echo demo_request (Establish 7) ?h0 = Inr h"
    "srv h = (set_state 7 kConnected (srv ?h0))\<lparr>established := established (set_state 7 kConnected (srv ?h0)) @ [7]\<rparr>"
    "worlds h 7 = Some w1" "tqs h 1 = tq w1"
    using w1(3) by (auto simp: synced_def)
  have "served_step served_echo demo_served (Inr h)" using Runs [OF tasks fresh(1), of served_echo] h(1) by simp
  then have reach': "served_reach served_echo (served_new 100 2) h" by (rule ServedStep [OF reach])
  have "objs (srv h) = [7 \<mapsto> ?c\<lparr>sc_state := kConnected\<rparr>]" by (simp add: h(2) objs_set_state objs fun_eq_iff)
  moreover have "base demo_accepted = base demo_started"
    by (simp add: demo_accepted_def TcpServer_newConnection_def EventLoopThreadPool_getNextLoop_def demo_loops post_def Let_def)
  then have "base (srv h) = 100"
    by (simp add: h(2) demo_served_reach(2) set_state_def take_task_def demo_started_def TcpServer_start_def TcpServer_new_def)
  moreover have "tasks (srv h) 1 = []" using tasks by (simp add: h(2) set_state_def take_task_def)
  ultimately show ?thesis
    using reach' served_reach_inv [OF reach' served_echo_ok served_new_inv Inv0] h(3,4) same heap w1(3)
    by (intro that [of h "?c\<lparr>sc_state := kConnected\<rparr>" w1]) simp_all
qed

definition demo_owner :: "addr \<Rightarrow> addr option" where
  "demo_owner ch = (if ch = 16 then Some 7 else None)"

definition late_request :: timer_request where
  "late_request = demo_request\<lparr>rq_addr := 48\<rparr>"


end
