(* ===== verification/HttpSessions.thy ===== *)
theory HttpSessions
  imports HttpServer
begin

text \<open>
  Several connections of one HTTP server (\<open>net/Http/HttpServer.h\<close>, \<open>net/Http/HttpServer.cc\<close>) at a time: connections come
  and go, and bytes arrive on them in any order, each appended to the read buffer of its connection. All of them share the
  map \<open>context_\<close>; that they do not disturb each other is shown against the machine that a connection is for itself, which
  knows its own parser and its own buffer only. The handlers run one after the other, as they do on one loop.
\<close>

section \<open>Sessions\<close>

datatype http_input = Up string | Down string | Arrived string string

fun input_of :: "http_input \<Rightarrow> string" where
  "input_of (Up name) = name"
| "input_of (Down name) = name"
| "input_of (Arrived name data) = name"

record http_sessions =
  ss_server :: http_server
  ss_buffers :: "string \<Rightarrow> buffer"

text \<open>An event, with the calls that it makes on its connection.\<close>

fun sessions_event :: "http_input \<Rightarrow> http_sessions \<Rightarrow> (http_sessions \<times> conn_call list) res" where
  "sessions_event (Up name) s =
    Inr (s\<lparr>ss_server := HttpServer_onConnection True name (ss_server s),
           ss_buffers := (ss_buffers s)(name := Buffer_new)\<rparr>, [])"
| "sessions_event (Down name) s =
    Inr (s\<lparr>ss_server := HttpServer_onConnection False name (ss_server s)\<rparr>, [])"
| "sessions_event (Arrived name data) s =
    rbind (Buffer_append data (ss_buffers s name)) (\<lambda>buf.
    rbind (HttpServer_onMessage name buf (ss_server s)) (\<lambda>(srv, buf, calls).
      Inr (s\<lparr>ss_server := srv, ss_buffers := (ss_buffers s)(name := buf)\<rparr>, calls)))"

fun sessions_run ::
  "http_input list \<Rightarrow> http_sessions \<Rightarrow> (http_sessions \<times> (string \<times> conn_call list) list) res" where
  "sessions_run [] s = Inr (s, [])"
| "sessions_run (e # es) s =
    rbind (sessions_event e s) (\<lambda>(s, calls).
    rbind (sessions_run es s) (\<lambda>(s, out). Inr (s, (input_of e, calls) # out)))"

section \<open>One connection for itself\<close>

type_synonym session = "parse_state option \<times> buffer"

definition session_message :: "http_callback option \<Rightarrow> session \<Rightarrow> (session \<times> conn_call list) res" where
  "session_message f s =
    (case fst s of
       None \<Rightarrow> Inr (s, [ConnForceClose])
     | Some context \<Rightarrow>
         rbind (HttpContext_parse (http_cfg context (snd s))) (\<lambda>(finished, c).
           Inr ((Some (if finished then kExpectRequestLine else ps_state c), ps_buf c),
             if finished then response_calls (run_callback f (ps_request c) (ps_response c)) else [])))"

fun session_event :: "http_callback option \<Rightarrow> http_input \<Rightarrow> session \<Rightarrow> (session \<times> conn_call list) res" where
  "session_event f (Up name) s = Inr ((Some kExpectRequestLine, Buffer_new), [])"
| "session_event f (Down name) s = Inr ((None, snd s), [])"
| "session_event f (Arrived name data) s =
    rbind (Buffer_append data (snd s)) (\<lambda>buf. session_message f (fst s, buf))"

fun session_run :: "http_callback option \<Rightarrow> http_input list \<Rightarrow> session \<Rightarrow> (session \<times> conn_call list list) res" where
  "session_run f [] s = Inr (s, [])"
| "session_run f (e # es) s =
    rbind (session_event f e s) (\<lambda>(s, calls).
    rbind (session_run f es s) (\<lambda>(s, out). Inr (s, calls # out)))"

definition session_of :: "string \<Rightarrow> http_sessions \<Rightarrow> session" where
  "session_of name s = (mget (context_map (ss_server s)) name, ss_buffers s name)"

section \<open>The server runs its connections side by side\<close>

definition sessions_ok :: "http_sessions \<Rightarrow> bool" where
  "sessions_ok s \<longleftrightarrow> ordered (context_map (ss_server s))"

lemma onMessage_session:
  assumes "ordered (context_map srv)"
  shows "HttpServer_onMessage name buf srv =
    (case session_message (cb srv) (mget (context_map srv) name, buf) of
       Inl e \<Rightarrow> Inl e
     | Inr ((context, buf), calls) \<Rightarrow>
         Inr (case context of None \<Rightarrow> srv | Some ctx \<Rightarrow> srv\<lparr>context_map := mput name ctx (context_map srv)\<rparr>, buf, calls))"
proof (cases "mget (context_map srv) name")
  case None
  then show ?thesis by (simp add: HttpServer_onMessage_def session_message_def)
next
  case (Some ctx)
  then show ?thesis unfolding onMessage_parse [OF Some assms]
    by (auto simp: session_message_def split: sum.split)
qed

text \<open>An event is the event of its own connection, and leaves the sessions of the others alone.\<close>

lemma sessions_event_local:
  assumes "sessions_ok s"
  shows "case session_event (cb (ss_server s)) e (session_of (input_of e) s) of
      Inl err \<Rightarrow> sessions_event e s = Inl err
    | Inr (l, calls) \<Rightarrow> (\<exists>t. sessions_event e s = Inr (t, calls) \<and> sessions_ok t \<and> cb (ss_server t) = cb (ss_server s) \<and>
        (\<forall>m. session_of m t = (if m = input_of e then l else session_of m s)))"
proof (cases e)
  case (Up name)
  with assms show ?thesis
    by (simp add: session_of_def sessions_ok_def HttpServer_onConnection_def ordered_mput)
next
  case (Down name)
  with assms show ?thesis
    by (simp add: session_of_def sessions_ok_def HttpServer_onConnection_def ordered_mdel mget_mdel)
next
  case (Arrived name data)
  show ?thesis
  proof (cases "Buffer_append data (ss_buffers s name)")
    case (Inl err)
    with Arrived show ?thesis by (simp add: session_of_def)
  next
    case (Inr buf)
    let ?m = "session_message (cb (ss_server s)) (mget (context_map (ss_server s)) name, buf)"
    note msg = onMessage_session [of "ss_server s" name buf]
    show ?thesis
    proof (cases ?m)
      case (Inl err)
      with Arrived Inr msg assms show ?thesis by (simp add: session_of_def sessions_ok_def)
    next
      case m: (Inr r)
      obtain ctx b calls where r: "r = ((ctx, b), calls)" by (cases r) auto
      have none: "mget (context_map (ss_server s)) name = None" if "ctx = None"
        using m r that by (auto simp: session_message_def rbind_eq_Inr split: option.splits prod.splits)
      show ?thesis
        using Arrived Inr msg assms m r none
        by (cases ctx) (auto simp: session_of_def sessions_ok_def ordered_mput)
    qed
  qed
qed

lemma sessions_event_Inl:
  assumes "sessions_ok s" and "session_event (cb (ss_server s)) e (session_of (input_of e) s) = Inl err"
  shows "sessions_event e s = Inl err"
  using sessions_event_local [OF assms(1), of e] assms(2) by simp

lemma sessions_event_Inr:
  assumes "sessions_ok s" and "session_event (cb (ss_server s)) e (session_of (input_of e) s) = Inr (l, calls)"
  obtains t where "sessions_event e s = Inr (t, calls)" and "sessions_ok t" and "cb (ss_server t) = cb (ss_server s)"
    and "session_of (input_of e) t = l" and "\<forall>m. m \<noteq> input_of e \<longrightarrow> session_of m t = session_of m s"
proof -
  from sessions_event_local [OF assms(1), of e, unfolded assms(2) sum.case prod.case]
  obtain t where t: "sessions_event e s = Inr (t, calls)" "sessions_ok t" "cb (ss_server t) = cb (ss_server s)"
    "\<forall>m. session_of m t = (if m = input_of e then l else session_of m s)" by blast
  show thesis by (rule that [OF t(1-3)]) (simp_all add: t(4))
qed

abbreviation events_of :: "string \<Rightarrow> http_input list \<Rightarrow> http_input list" where
  "events_of name es \<equiv> filter (\<lambda>e. input_of e = name) es"

text \<open>A run succeeds exactly if every connection succeeds by itself, and then does to each what it does by itself.\<close>

lemma sessions_run_local:
  assumes "sessions_ok s"
  shows "((\<exists>r. sessions_run es s = Inr r) \<longleftrightarrow>
      (\<forall>m. \<exists>r. session_run (cb (ss_server s)) (events_of m es) (session_of m s) = Inr r)) \<and>
    (\<forall>t out. sessions_run es s = Inr (t, out) \<longrightarrow>
      (\<forall>m. session_run (cb (ss_server s)) (events_of m es) (session_of m s) =
        Inr (session_of m t, map snd (filter (\<lambda>c. fst c = m) out))))"
  using assms
proof (induction es arbitrary: s)
  case (Cons e es)
  let ?f = "cb (ss_server s)" and ?n = "input_of e"
  show ?case
  proof (cases "session_event ?f e (session_of ?n s)")
    case (Inl err)
    then have "session_run ?f (events_of ?n (e # es)) (session_of ?n s) = Inl err" by simp
    then have "\<not> (\<forall>m. \<exists>r. session_run ?f (events_of m (e # es)) (session_of m s) = Inr r)" by (metis Inl_Inr_False)
    with sessions_event_Inl [OF Cons.prems Inl] show ?thesis by simp
  next
    case (Inr lc)
    obtain l calls where lc: "lc = (l, calls)" by (cases lc)
    obtain t where t: "sessions_event e s = Inr (t, calls)" "sessions_ok t" "cb (ss_server t) = ?f"
      "session_of ?n t = l" "\<forall>m. m \<noteq> ?n \<longrightarrow> session_of m t = session_of m s"
      by (rule sessions_event_Inr [OF Cons.prems Inr [unfolded lc]])
    note IH = Cons.IH [OF t(2), unfolded t(3)]
    have own: "session_run ?f (events_of m (e # es)) (session_of m s) =
        (if m = ?n then rbind (session_run ?f (events_of m es) (session_of m t)) (\<lambda>(s, out). Inr (s, calls # out))
         else session_run ?f (events_of m es) (session_of m t))" for m
      using Inr lc t(4,5) by simp
    have "(\<exists>r. session_run ?f (events_of m (e # es)) (session_of m s) = Inr r) \<longleftrightarrow>
        (\<exists>r. session_run ?f (events_of m es) (session_of m t) = Inr r)" for m
      unfolding own by (cases "session_run ?f (events_of m es) (session_of m t)") (auto split: prod.split)
    moreover have "(\<exists>r. sessions_run (e # es) s = Inr r) \<longleftrightarrow> (\<exists>r. sessions_run es t = Inr r)"
      using t(1) by (cases "sessions_run es t") (auto split: prod.split)
    moreover have "session_run ?f (events_of m (e # es)) (session_of m s) =
        Inr (session_of m u, map snd (filter (\<lambda>c. fst c = m) out))"
      if run: "sessions_run (e # es) s = Inr (u, out)" for u out m
    proof -
      from run t(1) obtain out' where "sessions_run es t = Inr (u, out')" "out = (?n, calls) # out'"
        by (auto simp: rbind_eq_Inr)
      with IH show ?thesis unfolding own by simp
    qed
    ultimately show ?thesis using IH by metis
  qed
qed simp

lemma sessions_run_names: "sessions_run es s = Inr (t, out) \<Longrightarrow> map fst out = map input_of es"
  by (induction es arbitrary: s t out) (auto simp: rbind_eq_Inr)

lemma named_eq:
  assumes "\<forall>c\<in>set xs. fst c = name" and "\<forall>c\<in>set ys. fst c = name" and "map snd xs = map snd ys"
  shows "xs = ys"
proof -
  have pairs: "zs = map (\<lambda>z. (name, snd z)) zs" if "\<forall>c\<in>set zs. fst c = name" for zs
    using that by (intro map_idI [symmetric]) (metis prod.collapse)
  have "map (\<lambda>z. (name, snd z)) xs = map (Pair name) (map snd xs)" by simp
  also have "\<dots> = map (\<lambda>z. (name, snd z)) ys" unfolding assms(3) by simp
  finally show ?thesis using pairs [OF assms(1)] pairs [OF assms(2)] by metis
qed

section \<open>Properties\<close>

text \<open>
  C21. The connections of an HTTP server do not disturb each other: in whatever order connections come and go and bytes arrive
  on them, each gets exactly the calls, and is left with exactly the parser and the unread bytes, that it would have if the server
  had no other connection; and the server fails (on a length that does not convert) exactly if one of the connections makes it
  fail by itself.
\<close>

theorem http_connections_independent:
  assumes "ordered (context_map (ss_server s))"
  shows "((\<exists>r. sessions_run es s = Inr r) \<longleftrightarrow> (\<forall>name. \<exists>r. sessions_run (events_of name es) s = Inr r)) \<and>
    (\<forall>t out name. sessions_run es s = Inr (t, out) \<longrightarrow>
      (\<exists>u. sessions_run (events_of name es) s = Inr (u, filter (\<lambda>c. fst c = name) out) \<and>
        mget (context_map (ss_server u)) name = mget (context_map (ss_server t)) name \<and>
        ss_buffers u name = ss_buffers t name))"
proof -
  have ok: "sessions_ok s" using assms by (simp add: sessions_ok_def)
  have none: "events_of m (events_of n es) = (if m = n then events_of n es else [])" for m n
    by (induction es) auto
  have own: "(\<exists>r. sessions_run (events_of name es) s = Inr r) \<longleftrightarrow>
      (\<exists>r. session_run (cb (ss_server s)) (events_of name es) (session_of name s) = Inr r)" for name
    using sessions_run_local [OF ok, of "events_of name es"] unfolding none by auto
  have "\<exists>u. sessions_run (events_of name es) s = Inr (u, filter (\<lambda>c. fst c = name) out) \<and> session_of name u = session_of name t"
    if run: "sessions_run es s = Inr (t, out)" for t out name
  proof -
    from sessions_run_local [OF ok, of es] run have local: "session_run (cb (ss_server s)) (events_of name es) (session_of name s) =
        Inr (session_of name t, map snd (filter (\<lambda>c. fst c = name) out))" by blast
    then obtain u out' where u: "sessions_run (events_of name es) s = Inr (u, out')" using own [of name] by auto
    have names: "\<forall>c\<in>set out'. fst c = name"
    proof
      fix c assume "c \<in> set out'"
      then have "fst c \<in> set (map fst out')" by simp
      then show "fst c = name" unfolding sessions_run_names [OF u] by auto
    qed
    have "session_run (cb (ss_server s)) (events_of name es) (session_of name s) =
        Inr (session_of name u, map snd (filter (\<lambda>c. fst c = name) out'))"
      using sessions_run_local [OF ok, of "events_of name es", THEN conjunct2, rule_format, OF u, of name]
      by (simp add: none)
    with local names have same: "session_of name u = session_of name t"
      "map snd out' = map snd (filter (\<lambda>c. fst c = name) out)" by simp_all
    have "out' = filter (\<lambda>c. fst c = name) out"
      by (rule named_eq [OF names _ same(2)]) simp
    with u same(1) show ?thesis by blast
  qed
  with own sessions_run_local [OF ok, of es] show ?thesis by (auto simp: session_of_def)
qed

definition two_browsers :: http_sessions where
  "two_browsers =
    \<lparr>ss_server = HttpServer_new (Some (httpCallback ''/srv'' (\<lambda>_. None) (\<lambda>_. None))), ss_buffers = (\<lambda>_. Buffer_new)\<rparr>"

text \<open>
  One asks for a page and leaves, the other sends the beginning of a request; then bytes are handled of the connection that has
  left.
\<close>

definition two_visits :: "http_input list" where
  "two_visits =
    [Up ''a'', Up ''b'', Arrived ''a'' (''GET /hello HTTP/1.1'' @ crlf @ crlf), Arrived ''b'' ''PUT'', Down ''a'',
     Arrived ''a'' ''x'']"

definition hello_bytes :: string where
  "hello_bytes = ''HTTP/1.1 200 OK'' @ crlf @ ''Connection: keep-alive'' @ crlf @ ''Content-Length: 6'' @ crlf @
    ''Content-Type: text/plain'' @ crlf @ crlf @ ''Hello!''"

lemma two_visits_run:
  "(case sessions_run two_visits two_browsers of
      Inl e \<Rightarrow> None
    | Inr (t, out) \<Rightarrow> Some (out, mget (context_map (ss_server t)) ''a'', mget (context_map (ss_server t)) ''b'')) =
    Some ([(''a'', []), (''b'', []), (''a'', [ConnSend hello_bytes]), (''b'', []), (''a'', []), (''a'', [ConnForceClose])],
      None, Some kExpectRequestLine)"
  by code_simp

theorem http_connections_independent_witness:
  "\<exists>u. sessions_run (events_of ''a'' two_visits) two_browsers =
      Inr (u, [(''a'', []), (''a'', [ConnSend hello_bytes]), (''a'', []), (''a'', [ConnForceClose])]) \<and>
    mget (context_map (ss_server u)) ''a'' = None"
proof -
  obtain r where r: "sessions_run two_visits two_browsers = Inr r"
    using two_visits_run by (cases "sessions_run two_visits two_browsers") (simp_all only: sum.case option.distinct)
  obtain t out where t: "r = (t, out)" by (cases r)
  have end_a: "out = [(''a'', []), (''b'', []), (''a'', [ConnSend hello_bytes]), (''b'', []), (''a'', []), (''a'', [ConnForceClose])]"
    "mget (context_map (ss_server t)) ''a'' = None"
    using two_visits_run [unfolded r t sum.case prod.case] by (simp_all only: option.inject prod.inject)
  have "ordered (context_map (ss_server two_browsers))" by (simp add: two_browsers_def HttpServer_new_def)
  from http_connections_independent [OF this, THEN conjunct2, rule_format, OF r [unfolded t], of "''a''"]
  show ?thesis unfolding end_a by simp blast
qed

end
