(* ===== verification/InetAddress_Object.thy ===== *)
theory InetAddress_Object
  imports InetAddress
begin

text \<open>
  The objects of class \<open>InetAddress\<close> in memory (\<open>net/InetAddress.h\<close>, \<open>net/InetAddress.cc\<close>): the union of a
  \<open>sockaddr_in\<close> (16 bytes) and a \<open>sockaddr_in6\<close> (28 bytes), laid out as on Linux, and the flag \<open>ipv6_\<close> (\<open>is_ipv6\<close>) that tells which of the two is
  valid. A new object finds arbitrary bytes in its memory (\<open>junk\<close>). The copies and moves of the class write only the structure that is
  valid in their source, so two equal addresses may differ in the bytes of the union; \<open>inet_abs\<close> is the address
  of theory \<open>InetAddress\<close> that an object stands for, and every operation on objects is the operation there.
\<close>

section \<open>The structures in memory\<close>

definition in_of :: "bool \<Rightarrow> char list \<Rightarrow> sockaddr_in" where
  "in_of le bs =
    \<lparr>sin_family = of_nat (load_host le (segment 0 2 bs)), sin_port = of_nat (load_host le (segment 2 4 bs)),
     sin_addr = segment 4 8 bs\<rparr>"

definition in6_of :: "bool \<Rightarrow> char list \<Rightarrow> sockaddr_in6" where
  "in6_of le bs =
    \<lparr>sin6_family = of_nat (load_host le (segment 0 2 bs)), sin6_port = of_nat (load_host le (segment 2 4 bs)),
     sin6_flowinfo = of_nat (load_host le (segment 4 8 bs)), sin6_addr = segment 8 24 bs,
     sin6_scope_id = of_nat (load_host le (segment 24 28 bs))\<rparr>"

definition bytes_of_in :: "bool \<Rightarrow> sockaddr_in \<Rightarrow> char list" where
  "bytes_of_in le a =
    store_host le 2 (unat (sin_family a)) @ store_host le 2 (unat (sin_port a)) @ sin_addr a @ replicate 8 (CHR 0x00)"

definition bytes_of_in6 :: "bool \<Rightarrow> sockaddr_in6 \<Rightarrow> char list" where
  "bytes_of_in6 le a =
    store_host le 2 (unat (sin6_family a)) @ store_host le 2 (unat (sin6_port a)) @
    store_host le 4 (unat (sin6_flowinfo a)) @ sin6_addr a @ store_host le 4 (unat (sin6_scope_id a))"

text \<open>A \<open>sockaddr_storage\<close> that the kernel has filled, read as in theory \<open>InetAddress\<close>.\<close>

definition storage_of :: "bool \<Rightarrow> char list \<Rightarrow> sockaddr_storage" where
  "storage_of le bs =
    \<lparr>ss_family = of_nat (load_host le (segment 0 2 bs)), as_in = in_of le (take 16 bs), as_in6 = in6_of le (take 28 bs)\<rparr>"

section \<open>Objects\<close>

record inet_object =
  union_bytes :: "char list"
  is_ipv6 :: bool

definition set_addr4 :: "char list \<Rightarrow> inet_object \<Rightarrow> inet_object" where
  "set_addr4 bs x = x\<lparr>union_bytes := blit 0 bs (union_bytes x)\<rparr>"

definition set_addr6 :: "char list \<Rightarrow> inet_object \<Rightarrow> inet_object" where
  "set_addr6 bs x = x\<lparr>union_bytes := blit 0 bs (union_bytes x)\<rparr>"

definition addr4_of :: "inet_object \<Rightarrow> char list" where
  "addr4_of x = take 16 (union_bytes x)"

definition addr6_of :: "inet_object \<Rightarrow> char list" where
  "addr6_of x = take 28 (union_bytes x)"

definition Inet_default :: "char list \<Rightarrow> inet_object" where
  "Inet_default junk = set_addr4 (replicate 16 (CHR 0x00)) \<lparr>union_bytes = junk, is_ipv6 = False\<rparr>"

definition Inet_new ::
  "(string \<Rightarrow> char list option) \<Rightarrow> bool \<Rightarrow> string \<Rightarrow> 16 word \<Rightarrow> bool \<Rightarrow> char list \<Rightarrow> inet_object res" where
  "Inet_new pton6 le ip port ipv6 junk =
    (let x = \<lparr>union_bytes = junk, is_ipv6 = ipv6\<rparr>
     in if is_ipv6 x then rbind (fillIpv6 pton6 le ip port) (\<lambda>a. Inr (set_addr6 (bytes_of_in6 le a) x))
        else rbind (fillIpv4 le ip port) (\<lambda>a. Inr (set_addr4 (bytes_of_in le a) x)))"

text \<open>Copy and move construction have the same body, and so do the two assignments; \<open>same\<close> is \<open>this == &other\<close>.\<close>

definition Inet_copy :: "inet_object \<Rightarrow> char list \<Rightarrow> inet_object" where
  "Inet_copy other junk =
    (let x = \<lparr>union_bytes = junk, is_ipv6 = is_ipv6 other\<rparr>
     in if is_ipv6 x then set_addr6 (addr6_of other) x else set_addr4 (addr4_of other) x)"

definition Inet_move :: "inet_object \<Rightarrow> char list \<Rightarrow> inet_object" where
  "Inet_move other junk =
    (let x = \<lparr>union_bytes = junk, is_ipv6 = is_ipv6 other\<rparr>
     in if is_ipv6 x then set_addr6 (addr6_of other) x else set_addr4 (addr4_of other) x)"

definition Inet_assign :: "bool \<Rightarrow> inet_object \<Rightarrow> inet_object \<Rightarrow> inet_object" where
  "Inet_assign same other x =
    (if \<not> same then
       (let x = x\<lparr>is_ipv6 := is_ipv6 other\<rparr>
        in if is_ipv6 x then set_addr6 (addr6_of other) x else set_addr4 (addr4_of other) x)
     else x)"

definition Inet_moveAssign :: "bool \<Rightarrow> inet_object \<Rightarrow> inet_object \<Rightarrow> inet_object" where
  "Inet_moveAssign same other x =
    (if \<not> same then
       (let x = x\<lparr>is_ipv6 := is_ipv6 other\<rparr>
        in if is_ipv6 x then set_addr6 (addr6_of other) x else set_addr4 (addr4_of other) x)
     else x)"

definition Inet_setFromSockaddr :: "bool \<Rightarrow> char list \<Rightarrow> inet_object \<Rightarrow> inet_object" where
  "Inet_setFromSockaddr le addr x =
    (if of_nat (load_host le (segment 0 2 addr)) = AF_INET
     then (set_addr4 (take 16 addr) x)\<lparr>is_ipv6 := False\<rparr>
     else (set_addr6 (take 28 addr) x)\<lparr>is_ipv6 := True\<rparr>)"

text \<open>
  The overload for a \<open>sockaddr\<close> that lies in an object of \<open>length addr\<close> bytes: it reads a whole structure, whatever length it is told;
  \<open>None\<close> is a read past the end of the object.
\<close>

definition Inet_setFromSockaddrLen :: "bool \<Rightarrow> char list \<Rightarrow> nat \<Rightarrow> inet_object \<Rightarrow> inet_object option" where
  "Inet_setFromSockaddrLen le addr len x =
    (if of_nat (load_host le (segment 0 2 addr)) = AF_INET
     then if length addr < 16 then None else Some ((set_addr4 (take 16 addr) x)\<lparr>is_ipv6 := False\<rparr>)
     else if length addr < 28 then None else Some ((set_addr6 (take 28 addr) x)\<lparr>is_ipv6 := True\<rparr>))"

definition Inet_getSockLen :: "inet_object \<Rightarrow> nat" where
  "Inet_getSockLen x = (if is_ipv6 x then 28 else 16)"

text \<open>What a system call finds that is given \<open>getAddress()\<close> and \<open>getSockLen()\<close>, as \<open>bind\<close> and \<open>connect\<close> are.\<close>

definition Inet_getAddress :: "inet_object \<Rightarrow> char list" where
  "Inet_getAddress x = take (Inet_getSockLen x) (if is_ipv6 x then addr6_of x else addr4_of x)"

section \<open>Objects stand for addresses\<close>

definition inet_abs :: "bool \<Rightarrow> inet_object \<Rightarrow> inet_address" where
  "inet_abs le x = (if is_ipv6 x then Ipv6 (in6_of le (addr6_of x)) else Ipv4 (in_of le (addr4_of x)))"

definition inet_wf :: "inet_object \<Rightarrow> bool" where
  "inet_wf x \<longleftrightarrow> length (union_bytes x) = 28"

lemma load_store_word:
  assumes "LENGTH('a::len) = 8 * k"
  shows "of_nat (load_host le (store_host le k (unat (v :: 'a word)))) = v"
proof -
  have "unat v < 256 ^ k" using unsigned_less [of v] by (simp add: assms power_mult)
  then show ?thesis by (simp add: load_store_host)
qed

lemma store_load_word:
  assumes "LENGTH('a::len) = 8 * k" and "length bs = k"
  shows "store_host le k (unat (of_nat (load_host le bs) :: 'a word)) = bs"
proof -
  have "load_host le bs < 2 ^ LENGTH('a)"
    using be_value_less [of bs] be_value_less [of "rev bs"] assms by (auto simp: load_host_def power_mult)
  then have "unat (of_nat (load_host le bs) :: 'a word) = load_host le bs" by (simp add: unat_of_nat)
  then show ?thesis
    using be_bytes_be_value [of bs] be_bytes_be_value [of "rev bs"] assms(2) by (auto simp: store_host_def load_host_def)
qed

lemma in_of_bytes: "length (sin_addr a) = 4 \<Longrightarrow> in_of le (bytes_of_in le a) = a"
  by (cases a) (simp add: in_of_def bytes_of_in_def segment_def load_store_word)

lemma in6_of_bytes: "length (sin6_addr a) = 16 \<Longrightarrow> in6_of le (bytes_of_in6 le a) = a"
  by (cases a) (simp add: in6_of_def bytes_of_in6_def segment_def load_store_word)

lemma length_bytes: "length (sin_addr a) = 4 \<Longrightarrow> length (bytes_of_in le a) = 16"
  "length (sin6_addr b) = 16 \<Longrightarrow> length (bytes_of_in6 le b) = 28"
  by (simp_all add: bytes_of_in_def bytes_of_in6_def)

lemma segment_glue: "i \<le> j \<Longrightarrow> j \<le> k \<Longrightarrow> segment i j xs @ segment j k xs = segment i k xs"
  using take_add [of "j - i" "k - j" "drop i xs"] by (simp add: segment_def)

lemma bytes_of_in6_of: "length bs = 28 \<Longrightarrow> bytes_of_in6 le (in6_of le bs) = bs"
proof -
  assume bs: "length bs = 28"
  have "segment 0 2 bs @ segment 2 4 bs @ segment 4 8 bs @ segment 8 24 bs @ segment 24 28 bs = segment 0 28 bs"
    by (simp add: segment_glue)
  also have "\<dots> = bs" using bs by (simp add: segment_def)
  finally have "segment 0 2 bs @ segment 2 4 bs @ segment 4 8 bs @ segment 8 24 bs @ segment 24 28 bs = bs" .
  then show ?thesis using bs by (simp add: bytes_of_in6_def in6_of_def store_load_word)
qed

lemma set_addr [simp]:
  "is_ipv6 (set_addr4 bs x) = is_ipv6 x" "is_ipv6 (set_addr6 bs x) = is_ipv6 x"
  "length bs = 16 \<Longrightarrow> addr4_of (set_addr4 bs x) = bs" "length bs = 28 \<Longrightarrow> addr6_of (set_addr6 bs x) = bs"
  "length bs \<le> 28 \<Longrightarrow> inet_wf x \<Longrightarrow> inet_wf (set_addr4 bs x) \<and> inet_wf (set_addr6 bs x)"
  by (simp_all add: set_addr4_def set_addr6_def addr4_of_def addr6_of_def inet_wf_def blit_def)

subsection \<open>Operation by operation\<close>

lemma object_fields [simp]:
  "addr4_of (x\<lparr>is_ipv6 := b\<rparr>) = addr4_of x" "addr6_of (x\<lparr>is_ipv6 := b\<rparr>) = addr6_of x"
  "inet_wf (x\<lparr>is_ipv6 := b\<rparr>) = inet_wf x" "inet_wf \<lparr>union_bytes = junk, is_ipv6 = b\<rparr> \<longleftrightarrow> length junk = 28"
  by (simp_all add: addr4_of_def addr6_of_def inet_wf_def)

lemma lengths [simp]: "inet_wf x \<Longrightarrow> length (addr4_of x) = 16" "inet_wf x \<Longrightarrow> length (addr6_of x) = 28"
  by (simp_all add: addr4_of_def addr6_of_def inet_wf_def)

lemma default_refines:
  assumes "length junk = 28"
  shows "inet_wf (Inet_default junk) \<and> inet_abs le (Inet_default junk) = InetAddress_default"
proof -
  have "in_of le (replicate 16 (CHR 0x00)) = \<lparr>sin_family = 0, sin_port = 0, sin_addr = replicate 4 (CHR 0x00)\<rparr>"
    by (cases le) (simp_all add: in_of_def segment_def load_host_def be_value_def numeral_eq_Suc)
  with assms show ?thesis by (simp add: Inet_default_def inet_abs_def InetAddress_default_def)
qed

lemma new_refines:
  assumes "length junk = 28" and "\<forall>t a. pton6 t = Some a \<longrightarrow> length a = 16"
  shows "InetAddress_new pton6 le ip port v6 = rbind (Inet_new pton6 le ip port v6 junk) (\<lambda>x. Inr (inet_abs le x)) \<and>
    (\<forall>x. Inet_new pton6 le ip port v6 junk = Inr x \<longrightarrow> inet_wf x)"
proof (cases v6)
  case True
  have "length (sin6_addr a) = 16" if "fillIpv6 pton6 le ip port = Inr a" for a
    using that assms(2) by (auto simp: fillIpv6_def Let_def split: if_splits option.splits)
  with True assms(1) show ?thesis
    by (cases "fillIpv6 pton6 le ip port")
      (simp_all add: InetAddress_new_def Inet_new_def inet_abs_def in6_of_bytes length_bytes)
next
  case False
  have "length (sin_addr a) = 4" if "fillIpv4 le ip port = Inr a" for a
    using that pton_ntop [THEN conjunct2] by (auto simp: fillIpv4_def Let_def split: if_splits option.splits)
  with False assms(1) show ?thesis
    by (cases "fillIpv4 le ip port")
      (simp_all add: InetAddress_new_def Inet_new_def inet_abs_def in_of_bytes length_bytes)
qed

lemma copy_refines:
  assumes "inet_wf other" and "length junk = 28"
  shows "inet_wf (Inet_copy other junk) \<and> inet_abs le (Inet_copy other junk) = inet_abs le other"
    and "Inet_move other junk = Inet_copy other junk"
  using assms by (simp_all add: Inet_copy_def Inet_move_def inet_abs_def Let_def)

lemma assign_refines:
  assumes "inet_wf other" and "inet_wf x" and "same \<Longrightarrow> other = x"
  shows "inet_wf (Inet_assign same other x) \<and> inet_abs le (Inet_assign same other x) = inet_abs le other"
    and "Inet_moveAssign same other x = Inet_assign same other x"
  using assms by (simp_all add: Inet_assign_def Inet_moveAssign_def inet_abs_def Let_def)

lemma setFrom_refines:
  assumes "inet_wf x" and "length addr \<ge> 28"
  shows "inet_wf (Inet_setFromSockaddr le addr x) \<and>
    inet_abs le (Inet_setFromSockaddr le addr x) = InetAddress_setFromSockaddr (storage_of le addr)"
  using assms by (simp add: Inet_setFromSockaddr_def InetAddress_setFromSockaddr_def inet_abs_def storage_of_def)

section \<open>Any number of objects\<close>

datatype inet_op =
  DefaultAddr nat | NewAddr nat string "16 word" bool | CopyAddr nat nat | MoveAddr nat nat
| AssignAddr nat nat | MoveAssignAddr nat nat | SetAddr nat "char list"

definition the_object :: "nat \<Rightarrow> (nat \<Rightarrow> 'o option) \<Rightarrow> ('o \<Rightarrow> 'r res) \<Rightarrow> 'r res" where
  "the_object i m f = (case m i of None \<Rightarrow> Inl UseAfterFree | Some x \<Rightarrow> f x)"

text \<open>On objects: the object \<open>i\<close> is constructed over the bytes \<open>junk i\<close>.\<close>

fun object_apply :: "(string \<Rightarrow> char list option) \<Rightarrow> bool \<Rightarrow> (nat \<Rightarrow> char list) \<Rightarrow> inet_op \<Rightarrow>
    (nat \<Rightarrow> inet_object option) \<Rightarrow> (nat \<Rightarrow> inet_object option) res" where
  "object_apply pton6 le junk (DefaultAddr i) m = Inr (m(i \<mapsto> Inet_default (junk i)))"
| "object_apply pton6 le junk (NewAddr i ip port v6) m =
    rbind (Inet_new pton6 le ip port v6 (junk i)) (\<lambda>x. Inr (m(i \<mapsto> x)))"
| "object_apply pton6 le junk (CopyAddr i j) m = the_object j m (\<lambda>y. Inr (m(i \<mapsto> Inet_copy y (junk i))))"
| "object_apply pton6 le junk (MoveAddr i j) m = the_object j m (\<lambda>y. Inr (m(i \<mapsto> Inet_move y (junk i))))"
| "object_apply pton6 le junk (AssignAddr i j) m =
    the_object j m (\<lambda>y. the_object i m (\<lambda>x. Inr (m(i \<mapsto> Inet_assign (i = j) y x))))"
| "object_apply pton6 le junk (MoveAssignAddr i j) m =
    the_object j m (\<lambda>y. the_object i m (\<lambda>x. Inr (m(i \<mapsto> Inet_moveAssign (i = j) y x))))"
| "object_apply pton6 le junk (SetAddr i addr) m =
    the_object i m (\<lambda>x. Inr (m(i \<mapsto> Inet_setFromSockaddr le addr x)))"

text \<open>On addresses.\<close>

fun address_apply :: "(string \<Rightarrow> char list option) \<Rightarrow> bool \<Rightarrow> inet_op \<Rightarrow>
    (nat \<Rightarrow> inet_address option) \<Rightarrow> (nat \<Rightarrow> inet_address option) res" where
  "address_apply pton6 le (DefaultAddr i) m = Inr (m(i \<mapsto> InetAddress_default))"
| "address_apply pton6 le (NewAddr i ip port v6) m = rbind (InetAddress_new pton6 le ip port v6) (\<lambda>x. Inr (m(i \<mapsto> x)))"
| "address_apply pton6 le (CopyAddr i j) m = the_object j m (\<lambda>y. Inr (m(i \<mapsto> y)))"
| "address_apply pton6 le (MoveAddr i j) m = the_object j m (\<lambda>y. Inr (m(i \<mapsto> y)))"
| "address_apply pton6 le (AssignAddr i j) m = the_object j m (\<lambda>y. the_object i m (\<lambda>x. Inr (m(i \<mapsto> y))))"
| "address_apply pton6 le (MoveAssignAddr i j) m = the_object j m (\<lambda>y. the_object i m (\<lambda>x. Inr (m(i \<mapsto> y))))"
| "address_apply pton6 le (SetAddr i addr) m =
    the_object i m (\<lambda>x. Inr (m(i \<mapsto> InetAddress_setFromSockaddr (storage_of le addr))))"

definition abs_all :: "bool \<Rightarrow> (nat \<Rightarrow> inet_object option) \<Rightarrow> nat \<Rightarrow> inet_address option" where
  "abs_all le m i = map_option (inet_abs le) (m i)"

definition objects_wf :: "(nat \<Rightarrow> inet_object option) \<Rightarrow> bool" where
  "objects_wf m \<longleftrightarrow> (\<forall>i x. m i = Some x \<longrightarrow> inet_wf x)"

fun inet_op_ok :: "inet_op \<Rightarrow> bool" where
  "inet_op_ok (SetAddr i addr) \<longleftrightarrow> length addr = 128"
| "inet_op_ok _ \<longleftrightarrow> True"

lemma abs_all_upd: "abs_all le (m(i \<mapsto> x)) = (abs_all le m)(i \<mapsto> inet_abs le x)"
  by (simp add: abs_all_def fun_eq_iff)

lemma objects_wf_upd: "objects_wf m \<Longrightarrow> inet_wf x \<Longrightarrow> objects_wf (m(i \<mapsto> x))"
  by (simp add: objects_wf_def)

lemma object_apply_refines:
  assumes pton: "\<forall>t a. pton6 t = Some a \<longrightarrow> length a = 16" and junk: "\<forall>i. length (junk i) = 28"
    and wf: "objects_wf m" and ok: "inet_op_ok oper"
  shows "address_apply pton6 le oper (abs_all le m) = rbind (object_apply pton6 le junk oper m) (\<lambda>m. Inr (abs_all le m)) \<and>
    (\<forall>m'. object_apply pton6 le junk oper m = Inr m' \<longrightarrow> objects_wf m')"
proof -
  have wfD: "inet_wf x" if "m i = Some x" for i x using wf that by (simp add: objects_wf_def)
  note upd = abs_all_upd objects_wf_upd [OF wf]
  have assigned: ?thesis if "oper = AssignAddr i j \<or> oper = MoveAssignAddr i j" for i j
  proof (cases "m i = None \<or> m j = None")
    case True
    with that show ?thesis by (auto simp: the_object_def abs_all_def split: option.splits)
  next
    case False
    then obtain x y where xy: "m i = Some x" "m j = Some y" by auto
    then have same: "i = j \<Longrightarrow> y = x" by simp
    note r = assign_refines [OF wfD [OF xy(2)] wfD [OF xy(1)], of "i = j", OF same]
    have "abs_all le m i = Some (inet_abs le x)" "abs_all le m j = Some (inet_abs le y)" using xy by (simp_all add: abs_all_def)
    with that xy r(1) [of le] r(2) show ?thesis by (elim disjE) (simp_all add: the_object_def upd)
  qed
  show ?thesis
  proof (cases oper)
    case (NewAddr i ip port v6)
    from new_refines [of "junk i", OF _ pton, of le ip port v6] junk NewAddr show ?thesis
      by (auto simp: rbind_assoc upd rbind_eq_Inr)
  next
    case (SetAddr i addr)
    then show ?thesis using ok setFrom_refines [OF wfD, of i _ addr le]
      by (cases "m i") (simp_all add: the_object_def abs_all_def [of le m i] upd)
  next
    case (CopyAddr i j)
    then show ?thesis using junk copy_refines(1) [OF wfD, of j _ "junk i" le]
      by (cases "m j") (simp_all add: the_object_def abs_all_def [of le m j] upd)
  next
    case (MoveAddr i j)
    then show ?thesis using junk copy_refines [OF wfD, of j _ "junk i"]
      by (cases "m j") (simp_all add: the_object_def abs_all_def [of le m j] upd)
  qed (use assigned default_refines junk in \<open>auto simp: upd\<close>)
qed

lemma objects_refine:
  assumes "\<forall>t a. pton6 t = Some a \<longrightarrow> length a = 16" and "\<forall>i. length (junk i) = 28"
  shows "objects_wf m \<Longrightarrow> \<forall>oper \<in> set opers. inet_op_ok oper \<Longrightarrow>
    rfold (address_apply pton6 le) opers (abs_all le m) =
      rbind (rfold (object_apply pton6 le junk) opers m) (\<lambda>m. Inr (abs_all le m)) \<and>
    (\<forall>m'. rfold (object_apply pton6 le junk) opers m = Inr m' \<longrightarrow> objects_wf m')"
proof (induction opers arbitrary: m)
  case (Cons oper opers)
  note step = object_apply_refines [OF assms Cons.prems(1), of oper le]
  show ?case
  proof (cases "object_apply pton6 le junk oper m")
    case (Inr m1)
    with step Cons.prems have "address_apply pton6 le oper (abs_all le m) = Inr (abs_all le m1)" "objects_wf m1" by auto
    with Inr Cons.IH [of m1] Cons.prems(2) show ?thesis by simp
  qed (use step Cons.prems(2) in simp)
qed simp

section \<open>Properties\<close>

text \<open>
  The objects behave as addresses, whatever was in their memory: any sequence of constructions, copies, moves, assignments
  (an object to itself included) and \<open>setFromSockaddr\<close> on any number of objects ends as the same sequence on plain addresses, faults
  included; and what the system calls then find at \<open>getAddress\<close> is a structure of the length they are told, which reads as
  that address.
\<close>

theorem inet_objects_are_addresses:
  assumes "\<forall>t a. pton6 t = Some a \<longrightarrow> length a = 16" and "\<forall>i. length (junk i) = 28"
    and "\<forall>oper \<in> set opers. inet_op_ok oper"
  shows "case rfold (object_apply pton6 le junk) opers (\<lambda>_. None) of
      Inl e \<Rightarrow> rfold (address_apply pton6 le) opers (\<lambda>_. None) = Inl e
    | Inr m \<Rightarrow> rfold (address_apply pton6 le) opers (\<lambda>_. None) = Inr (abs_all le m) \<and>
        (\<forall>i x. m i = Some x \<longrightarrow> length (Inet_getAddress x) = InetAddress_getSockLen (inet_abs le x) \<and>
          inet_abs le x = (if is_ipv6 x then Ipv6 (in6_of le (Inet_getAddress x)) else Ipv4 (in_of le (Inet_getAddress x))))"
proof -
  have "abs_all le (\<lambda>_. None) = (\<lambda>_. None)" by (simp add: abs_all_def fun_eq_iff)
  with objects_refine [OF assms(1,2), of "\<lambda>_. None" opers le] assms(3)
  have run: "rfold (address_apply pton6 le) opers (\<lambda>_. None) =
      rbind (rfold (object_apply pton6 le junk) opers (\<lambda>_. None)) (\<lambda>m. Inr (abs_all le m))"
    and wf: "rfold (object_apply pton6 le junk) opers (\<lambda>_. None) = Inr m \<Longrightarrow> objects_wf m" for m
    by (simp_all add: objects_wf_def)
  have "length (Inet_getAddress x) = InetAddress_getSockLen (inet_abs le x) \<and>
      inet_abs le x = (if is_ipv6 x then Ipv6 (in6_of le (Inet_getAddress x)) else Ipv4 (in_of le (Inet_getAddress x)))"
    if "inet_wf x" for x
    using that by (simp add: Inet_getAddress_def Inet_getSockLen_def InetAddress_getSockLen_def inet_abs_def)
  with run wf show ?thesis by (auto simp: objects_wf_def split: sum.splits)
qed

theorem inet_objects_are_addresses_witness:
  "\<exists>m x. rfold (object_apply (\<lambda>_. None) True (\<lambda>_. replicate 28 (CHR ''?'')))
      [NewAddr 0 [] 80 True, NewAddr 1 [] 8080 False, AssignAddr 0 1] (\<lambda>_. None) = Inr m \<and> m 0 = Some x \<and>
    length (Inet_getAddress x) = 16"
proof -
  let ?ops = "[NewAddr 0 [] 80 True, NewAddr 1 [] 8080 False, AssignAddr 0 1]"
  let ?run = "rfold (object_apply (\<lambda>_. None) True (\<lambda>_. replicate 28 (CHR ''?''))) ?ops (\<lambda>_. None)"
  have "\<exists>m x. ?run = Inr m \<and> m 0 = Some x \<and> \<not> is_ipv6 x"
    by (simp add: Inet_new_def fillIpv6_def fillIpv4_def Let_def the_object_def Inet_assign_def)
  then obtain m x where m: "?run = Inr m" "m 0 = Some x" "\<not> is_ipv6 x" by blast
  have "length (Inet_getAddress x) = InetAddress_getSockLen (inet_abs True x)"
    using inet_objects_are_addresses [of "\<lambda>_. None" "\<lambda>_. replicate 28 (CHR ''?'')" ?ops True] m(1,2) by simp
  with m show ?thesis by (auto simp: inet_abs_def InetAddress_getSockLen_def)
qed

text \<open>
  The overload of \<open>setFromSockaddr\<close> for a \<open>sockaddr\<close> reads past a \<open>sockaddr\<close> of the family \<open>AF_UNSPEC\<close>, although it is given the length.
\<close>

lemma setFromSockaddr_overreads:
  "Inet_setFromSockaddrLen le (replicate 16 (CHR 0x00)) 16 x = None"
  by (cases le) (simp_all add: Inet_setFromSockaddrLen_def segment_def load_host_def be_value_def AF_INET_def numeral_eq_Suc)

end
