(* ===== verification/Spec2Isabelle.thy ===== *)
theory Spec2Isabelle
  imports Prelude Endian Buffer TimerQueue HttpMessage HttpServer TcpConnection_Properties Acceptor
    Connector ThreadPool Threads Logger TcpServer TcpClient LoopLifetime Mutex HttpConnection EchoServer
    ServedLoop HttpSessions InetAddress_Object
begin

text \<open>
  ClearMoon, a reactor library for TCP and HTTP in C++, modelled and verified component by component. File names below
  are those under \<open>src/\<close>.

  \<^bold>\<open>The program.\<close> A thread runs an \<open>EventLoop\<close>: it waits in its \<open>Poller\<close> for events of its \<open>Channel\<close>s, runs their
  handlers, and then the functions that other threads have queued. Timers are kept in the loop's \<open>TimerQueue\<close>. A
  \<open>TcpServer\<close> accepts sockets in the base loop (\<open>Acceptor\<close>), gives each to a \<open>TcpConnection\<close> in one of the loops of an
  \<open>EventLoopThreadPool\<close>, and keeps a table of them; a \<open>TcpClient\<close> gets its one connection from a \<open>Connector\<close>. A connection
  reads and writes through two \<open>Buffer\<close>s and tells its user by callbacks; \<open>HttpServer\<close> is such a user, with one
  \<open>HttpContext\<close> parser per connection. Beside this stand a thread pool on a blocking queue and an asynchronous logger.

  \<^bold>\<open>Theories and code.\<close> Definitions carry the names of the functions they translate, with the class in front
  (\<open>TimerQueue_addTimer\<close> is \<open>TimerQueue::addTimer\<close>), records those of the classes, in lower case.
  \<^item> \<open>Prelude\<close>: results with faults (\<open>res\<close>, \<open>rbind\<close>, \<open>check\<close>, \<open>rfold\<close>), the byte operations of \<open>std::vector<char>\<close>,
    ordered maps and sets, decimal numbers.
  \<^item> \<open>Endian\<close> (\<open>net/Endian.h\<close>), \<open>Buffer\<close> (\<open>net/Buffer.*\<close>) with the interface \<open>Byte_Queue\<close>.
  \<^item> \<open>TimerQueue\<close> (\<open>net/Timestamp.h\<close>, \<open>net/Timer.*\<close>, \<open>net/TimerId.h\<close>, \<open>net/TimerQueue.*\<close>) with the interface
    \<open>Timer_Service\<close>; \<open>Poller\<close> (\<open>net/Channel.*\<close>, \<open>net/Poller/*\<close>); \<open>EventLoop\<close> (\<open>net/EventLoop.*\<close>), and
    \<open>LoopLifetime\<close>, the construction and destruction of a loop with its timer queue.
  \<^item> \<open>Mutex\<close> (\<open>base/Mutex.h\<close>, \<open>base/Condition.h\<close>, \<open>base/CurrentThread.*\<close>), \<open>Monitor\<close> (the interface of condition
    variables), \<open>BlockQueue\<close>, \<open>ThreadPool\<close> and \<open>Threads\<close> (\<open>base/\<close>), \<open>EventLoopThread\<close> and \<open>EventLoopThreadPool\<close> (\<open>net/\<close>).
  \<^item> \<open>InetAddress\<close>, \<open>Socket\<close>, \<open>Acceptor\<close>, \<open>Connector\<close>, \<open>TcpServer\<close>, \<open>TcpClient\<close> (the files of those names in \<open>net/\<close>).
  \<^item> \<open>TcpConnection\<close>, \<open>TcpConnection_Invariant\<close>, \<open>TcpConnection_Properties\<close> (\<open>net/TcpConnection.*\<close>): the operations,
    the preservation of the invariant by each, and the properties; \<open>TcpConnection_Threads\<close>, the same connection with
    other threads calling it and the functions they hand to the loop; \<open>TcpConnection_Guarantee\<close>, what its steps leave
    alone; \<open>ConnectionEvents\<close>, its events, from \<open>revents_\<close> through \<open>Channel::handleEvent\<close> to the handlers, also on a closed
    connection; \<open>ServedConnections\<close>, the server over such connections; \<open>ServedLoop\<close>, one turn of a loop that serves them.
  \<^item> \<open>HttpMessage\<close>, \<open>HttpContext\<close>, \<open>HttpServer\<close> (\<open>net/Http/\<close> and the callback of \<open>test/HttpCallback.cc\<close>);
    \<open>HttpSessions\<close>, the HTTP server with several connections; \<open>HttpConnection\<close>, the HTTP server over a connection, and \<open>EchoServer\<close>, the server of \<open>test/integration_test.cc\<close>.
  \<^item> \<open>AsyncLogger\<close> and \<open>Logger\<close> (\<open>net/Log/\<close>, \<open>net/Timestamp.cc\<close>).

  \<^bold>\<open>State, errors, and what comes from outside.\<close> Objects that others point to (timers, channels, sockets) live in
  explicit stores indexed by address, so that a use after free is the fault \<open>UseAfterFree\<close>; a failed \<open>assert\<close> is
  \<open>AssertFailed\<close>, an exception a fault of its own. Every operation is a function from a state to a \<open>res\<close>. Results
  of system calls, clock readings, random numbers and new addresses are arguments, user callbacks functions on the
  whole state. A connection or connector works on a state that holds its loop's poller and timer queue; steps
  of the other users of the loop may come between its own (\<open>env_change\<close>, and \<open>loop_change\<close> with the polls and the rounds of
  the timer queue).

  \<^bold>\<open>Threads.\<close> What several threads share is modelled by step relations, one per thread, whose union is the system:
  \<open>own_step\<close> and \<open>env_step\<close> (loop), \<open>owner_step\<close>, \<open>thread_step\<close> and \<open>others_step\<close> (loop thread), \<open>worker_step\<close>,
  \<open>owner_move\<close> and \<open>client_step\<close> (pool), \<open>backend_step\<close> and \<open>frontend_step\<close> (logger), \<open>server_step\<close> (server and its
  loops), \<open>served_step\<close> (the same with the connections). A critical section is one step of them; \<open>mutex_sections_atomic\<close> in \<open>Mutex\<close> shows for the code's lock, unlock
  and wait that this loses no behaviour. Reads and writes of atomics and flags outside are steps of their own where
  an interleaving matters, as in the loop's \<open>quit_\<close> and the logger's \<open>running_\<close>. A handler of one
  connection is one step; \<open>ServedLoop\<close> puts them together to the dispatch of a whole report of the poller.

  \<^bold>\<open>Interfaces.\<close> \<open>byte_sink\<close> is whatever takes bytes and keeps them in order, interpreted on the sends of a connection
  (\<open>sends\<close>); \<open>byte_queue\<close> extends it by removal at the front, is what the users of a buffer rely on, and is interpreted
  (\<open>bq\<close>) on the buffer's operations; \<open>timer_service\<close> is what connections and connectors rely on to own timers,
  interpreted (\<open>ts\<close>) on \<open>runAfter\<close> and \<open>cancel\<close> of the loop; \<open>monitor\<close> is the discipline of a condition variable,
  interpreted on both conditions of the blocking queue (\<open>getters\<close>, \<open>adders\<close>), on the latch (\<open>waiters\<close>) and on the
  start of a loop thread (\<open>starter\<close>): from it follows that no wake-up is lost;
  \<open>conn_guarantee\<close> is a relation that every operation of a connection keeps, interpreted on what the neighbours in its loop see
  (\<open>peers\<close>), on the balance of the close callback (\<open>balance\<close>) and on the events of its channel (\<open>revents\<close>).

  \<^bold>\<open>What is shown.\<close> For each component an invariant that every operation keeps, and that makes every operation return
  (\<open>Buffer_inv\<close>, \<open>TimerQueue_inv\<close>, \<open>Poller_inv\<close>, \<open>Socket_inv\<close>, \<open>Connector_inv\<close>, \<open>conn_inv\<close>, \<open>TcpServer_inv\<close>, and those of
  the step relations); then what the operations do. The buffer refines a byte queue; the parser refines a parser of
  strings, gives back every well-formed request, and does not depend on how the input is cut into pieces; timers
  fire in order and exactly when due; queued functions are run without a lost wake-up, and \<open>quit\<close>, the destructors of
  the pool and of a loop thread, and a stopped queue come to an end. A connection neither loses nor reorders a byte,
  releases everything when it closes, and stays closed; a server's connections are established and destroyed at
  most once. The compositions \<open>HttpConnection\<close> and \<open>EchoServer\<close> lead from the bytes \<open>readv\<close> delivers to the bytes \<open>write\<close>
  takes; \<open>HttpSessions\<close> shows that the connections of an HTTP server do not disturb each other as long as their handlers run
  one after the other; \<open>ServedConnections\<close> shows that the server with real connections, many to a loop, refines the server's own model and that
  the invariant of each connection stands the company of the others; \<open>ServedLoop\<close> that the poll, the handlers and the queued
  functions of one turn of a loop are a run of that system, as long as no handler meets a connection that the handler before it
  has closed; and \<open>ConnectionEvents\<close> what holds when one does: the handlers return and the connection can still be
  taken down, but it may call back and be polled again. Where the code fails, a theorem shows how: the use of freed channels after a refused connection and after a
  client's peer has closed, lost \<open>quit\<close>s and notifications, responses that are cut off, requests that arrive in two
  reads, and others.

  \<^bold>\<open>Bounds.\<close> No definition runs on fuel. The parser ends because each pass consumes input or changes to a later state;
  the accept loop is a \<open>partial_function\<close>, shown to return exactly when the kernel reports \<open>EAGAIN\<close>. Integers whose
  width matters are words (\<open>Endian\<close>, event masks, integers in buffers) or carry their wrap-around; sequence numbers of
  timers, sizes and time stamps are unbounded, as they stay far below their widths.

  \<^bold>\<open>Not modelled.\<close> \<open>net/Http/HttpParse.h\<close> is declared and never defined. \<open>net/Callbacks.h\<close>, \<open>base/Types.h\<close>, \<open>base/copy.h\<close>
  and \<open>base/noncopy.h\<close> hold type names and empty bases. The main programs wire components and print, apart from the echo
  callback. Plain setters and getters appear as record fields. Text of pointers, floating-point numbers and IPv6
  addresses is a parameter. Names of threads and the destruction order of static objects are left out.
\<close>

end
